(* ===== verification/Prelude.thy ===== *)
theory Prelude
  imports Main "HOL-Library.Word"
begin

text \<open>
  The shared vocabulary of the development: results of Go calls that may fail, panic or not
  return; the 64-bit \<open>int\<close> of the target platform; byte slices and their bounds checks; the
  parts of the Go standard library the service calls (\<open>strconv.Itoa\<close>, \<open>path.Base\<close>,
  \<open>strings.Contains\<close>, \<open>strings.Trim\<close>); and the generic lemmas on them that the component
  theories use.
\<close>

unbundle bit_operations_syntax

section \<open>Collections of rewrite rules\<close>

named_theorems res_simps \<open>unfolding the sequencing of Go calls\<close>
named_theorems wire_simps \<open>evaluating readers and writers of the wire format\<close>

section \<open>Results of Go calls\<close>

text \<open>
  \<open>Ok\<close> is a normal return, \<open>Err\<close> a returned error, \<open>Panic\<close> a run-time panic (index or slice
  bound out of range, closing a closed channel), and \<open>Stuck\<close> a loop that used up the number of
  iterations it was given. A theorem that a call returns excludes \<open>Stuck\<close>.
\<close>

datatype ('e, 'a) res = Ok 'a | Err 'e | Panic | Stuck

definition res_bind :: "('e, 'a) res \<Rightarrow> ('a \<Rightarrow> ('e, 'b) res) \<Rightarrow> ('e, 'b) res" where
  "res_bind r f = (case r of Ok x \<Rightarrow> f x | Err e \<Rightarrow> Err e | Panic \<Rightarrow> Panic | Stuck \<Rightarrow> Stuck)"

lemma res_bind_simps [simp, res_simps]:
  "res_bind (Ok x) f = f x"
  "res_bind (Err e) f = Err e"
  "res_bind Panic f = Panic"
  "res_bind Stuck f = Stuck"
  by (simp_all add: res_bind_def)

lemma res_bind_eq_Ok [simp]: "res_bind r f = Ok y \<longleftrightarrow> (\<exists>x. r = Ok x \<and> f x = Ok y)"
  by (cases r) auto

lemma res_bind_eq_Stuck: "res_bind r f = Stuck \<longleftrightarrow> r = Stuck \<or> (\<exists>x. r = Ok x \<and> f x = Stuck)"
  by (cases r) auto

lemma res_bind_Ok_right [simp]: "res_bind r Ok = r"
  by (cases r) auto

section \<open>Machine integers, bytes and slices\<close>

type_synonym byte = "8 word"
type_synonym bytes = "8 word list"
type_synonym uint64 = "64 word"

text \<open>Go's \<open>int\<close> on the 64-bit targets the service is built for: arithmetic is taken modulo
  \<open>2\<^sup>6\<^sup>4\<close> into \<open>[-2\<^sup>6\<^sup>3, 2\<^sup>6\<^sup>3)\<close>.\<close>

definition int64 :: "int \<Rightarrow> int" where
  "int64 k = signed_take_bit 63 k"

definition uint64_of_int :: "int \<Rightarrow> uint64" where
  "uint64_of_int k = word_of_int k"

definition max_len :: nat where
  "max_len = 2 ^ 63"

text \<open>\<open>dAtA[i]\<close>, \<open>dAtA[i:j]\<close> and \<open>dAtA[i:]\<close> with the run-time bounds checks.\<close>

definition index :: "'a list \<Rightarrow> int \<Rightarrow> ('e, 'a) res" where
  "index xs i = (if 0 \<le> i \<and> i < int (length xs) then Ok (xs ! nat i) else Panic)"

definition gslice :: "'a list \<Rightarrow> int \<Rightarrow> int \<Rightarrow> ('e, 'a list) res" where
  "gslice xs i j = (if 0 \<le> i \<and> i \<le> j \<and> j \<le> int (length xs)
     then Ok (take (nat (j - i)) (drop (nat i) xs)) else Panic)"

definition gslice_from :: "'a list \<Rightarrow> int \<Rightarrow> ('e, 'a list) res" where
  "gslice_from xs i = gslice xs i (int (length xs))"

definition store :: "'a list \<Rightarrow> int \<Rightarrow> 'a \<Rightarrow> ('e, 'a list) res" where
  "store xs i x = (if 0 \<le> i \<and> i < int (length xs) then Ok (xs[nat i := x]) else Panic)"

text \<open>Conversions between Go strings and byte slices: a Go string is a byte sequence.\<close>

definition byte_of_char :: "char \<Rightarrow> byte" where
  "byte_of_char c = of_nat (of_char c)"

definition char_of_byte :: "byte \<Rightarrow> char" where
  "char_of_byte b = char_of (unat b)"

definition bytes_of_string :: "string \<Rightarrow> bytes" where
  "bytes_of_string s = map byte_of_char s"

definition string_of_bytes :: "bytes \<Rightarrow> string" where
  "string_of_bytes bs = map char_of_byte bs"

section \<open>Standard library functions\<close>

text \<open>\<open>strconv.Itoa\<close>.\<close>

definition digit_char :: "nat \<Rightarrow> char" where
  "digit_char d = char_of (48 + d)"

fun nat_digits :: "nat \<Rightarrow> string" where
  "nat_digits n = (if n < 10 then [digit_char n] else nat_digits (n div 10) @ [digit_char (n mod 10)])"

definition itoa :: "int \<Rightarrow> string" where
  "itoa i = (if i < 0 then CHR ''-'' # nat_digits (nat (- i)) else nat_digits (nat i))"

text \<open>\<open>path.Base\<close>: the last element of a slash-separated path, trailing slashes removed.\<close>

definition path_Base :: "string \<Rightarrow> string" where
  "path_Base p =
     (if p = [] then ''.''
      else let q = rev (dropWhile (\<lambda>c. c = CHR ''/'') (rev p))
        in if q = [] then ''/'' else rev (takeWhile (\<lambda>c. c \<noteq> CHR ''/'') (rev q)))"

text \<open>\<open>strings.Contains\<close> and \<open>strings.Trim\<close> (for a cutset of ASCII characters).\<close>

fun strings_Contains :: "string \<Rightarrow> string \<Rightarrow> bool" where
  "strings_Contains [] sub = (sub = [])"
| "strings_Contains (c # s) sub = (take (length sub) (c # s) = sub \<or> strings_Contains s sub)"

definition strings_Trim :: "string \<Rightarrow> string \<Rightarrow> string" where
  "strings_Trim s cutset =
     rev (dropWhile (\<lambda>c. c \<in> set cutset) (rev (dropWhile (\<lambda>c. c \<in> set cutset) s)))"

section \<open>Lemmas on integers, bytes and slices\<close>

lemma int64_id [simp]: "- (2 ^ 63) \<le> k \<Longrightarrow> k < 2 ^ 63 \<Longrightarrow> int64 k = k"
  unfolding int64_def by (rule signed_take_bit_int_eq_self) simp_all

lemma int64_range: "- (2 ^ 63) \<le> int64 k" "int64 k < 2 ^ 63"
  using signed_take_bit_int_greater_eq_minus_exp [of 63 k] signed_take_bit_int_less_exp [of 63 k]
  by (simp_all add: int64_def)

lemma int64_add_left [simp]: "int64 (int64 a + b) = int64 (a + b)"
  and int64_add_right [simp]: "int64 (a + int64 b) = int64 (a + b)"
  unfolding int64_def
  by (metis signed_take_bit_add signed_take_bit_signed_take_bit min.idem)+

lemma int64_idem [simp]: "int64 (int64 k) = int64 k"
  by (simp add: int64_def)

lemma int64_cases:
  assumes "0 \<le> k" "k < 2 ^ 64"
  shows "int64 k = (if k < 2 ^ 63 then k else k - 2 ^ 64)"
proof (cases "k < 2 ^ 63")
  case False
  have "int64 k = int64 ((k - 2 ^ 64) + 2 ^ 64)" by simp
  also have "\<dots> = int64 (k - 2 ^ 64)"
    unfolding int64_def signed_take_bit_eq_iff_take_bit_eq by (simp add: take_bit_eq_mod)
  finally show ?thesis using False assms by simp
qed (use assms in simp)

lemma uint64_of_int64 [simp]: "uint64_of_int (int64 k) = uint64_of_int k"
  unfolding uint64_of_int_def int64_def
  by (rule bit_word_eqI) (simp add: bit_simps bit_signed_take_bit_iff)

lemma unat_drop_bit_div: "unat (drop_bit n (w :: 'a :: len word)) = unat w div 2 ^ n"
  by (subst unat_drop_bit_eq) (rule drop_bit_eq_div)

lemma unat_exp: "n < LENGTH('a) \<Longrightarrow> unat (2 ^ n :: 'a :: len word) = 2 ^ n"
  using unat_of_nat [where 'a = 'a, of "2 ^ n"] by simp

lemma word_less_exp_iff:
  "n < LENGTH('a) \<Longrightarrow> (x :: 'a :: len word) < 2 ^ n \<longleftrightarrow> take_bit n x = x"
  by (simp add: word_less_nat_alt unat_exp word_unat_eq_iff unsigned_take_bit_eq
      take_bit_nat_eq_self_iff)

lemma and127: "x AND 127 = take_bit 7 (x :: uint64)"
  by (simp add: take_bit_eq_mask mask_eq_exp_minus_1)

lemma uint64_less_128: "(x :: uint64) < 128 \<longleftrightarrow> take_bit 7 x = x"
  using word_less_exp_iff [of 7 x] by simp

lemma byte_and127: "x AND 127 = take_bit 7 (x :: byte)"
  by (simp add: take_bit_eq_mask mask_eq_exp_minus_1)

lemma byte_less_128: "(x :: byte) < 128 \<longleftrightarrow> take_bit 7 x = x"
  using word_less_exp_iff [of 7 x] by simp

lemma byte_and128: "x AND 128 = 0 \<longleftrightarrow> \<not> bit (x :: byte) 7"
  using and_exp_eq_0_iff_not_bit [of x 7] by simp

lemma bit_128:
  "bit (128 :: uint64) n \<longleftrightarrow> n = 7" "bit (128 :: byte) n \<longleftrightarrow> n = 7"
  "bit (128 :: int) n \<longleftrightarrow> n = 7" "bit (128 :: nat) n \<longleftrightarrow> n = 7"
  using bit_exp_iff [where 'a = uint64, of 7 n] bit_exp_iff [where 'a = byte, of 7 n]
    bit_exp_iff [where 'a = int, of 7 n] bit_exp_iff [where 'a = nat, of 7 n]
  by auto

lemma word32_bytes:
  fixes v :: "32 word"
  shows "push_bit 24 (ucast (ucast (drop_bit 24 v) :: byte)) OR push_bit 16 (ucast (ucast (drop_bit 16 v) :: byte)) OR
    push_bit 8 (ucast (ucast (drop_bit 8 v) :: byte)) OR ucast (ucast v :: byte) = v" (is "?l = v")
proof (rule bit_word_eqI)
  fix n
  assume "n < LENGTH(32)"
  consider "n < 8" | "8 \<le> n" "n < 16" | "16 \<le> n" "n < 24" | "24 \<le> n" by linarith
  then show "bit ?l n \<longleftrightarrow> bit v n" using \<open>n < LENGTH(32)\<close> by cases (auto simp: bit_simps)
qed

lemma char_byte_inverse [simp]: "char_of_byte (byte_of_char c) = c"
proof -
  have "of_char c < (256 :: nat)" by simp
  then show ?thesis by (simp add: char_of_byte_def byte_of_char_def unat_of_nat)
qed

lemma byte_char_inverse [simp]: "byte_of_char (char_of_byte b) = b"
proof -
  have "unat b < 256" using unsigned_less [of b, where 'a = nat] by simp
  then show ?thesis by (simp add: char_of_byte_def byte_of_char_def)
qed

lemma string_bytes_inverse [simp]: "string_of_bytes (bytes_of_string s) = s"
  by (induction s) (simp_all add: string_of_bytes_def bytes_of_string_def)

lemma length_bytes_of_string [simp]: "length (bytes_of_string s) = length s"
  by (simp add: bytes_of_string_def)

lemma bytes_of_string_eq_Nil [simp]: "bytes_of_string s = [] \<longleftrightarrow> s = []"
  by (simp add: bytes_of_string_def)

lemma index_append [wire_simps]:
  "i = int (length pre) \<Longrightarrow> index (pre @ x # post) i = Ok x"
  by (simp add: index_def nth_append)

lemma nat_int_minus_one: "nat (int k - 1) = k - 1"
  by linarith

lemma gslice_append [wire_simps]:
  "i = int (length pre) \<Longrightarrow> j = i + int (length mid) \<Longrightarrow> gslice (pre @ mid @ post) i j = Ok mid"
  by (simp add: gslice_def)

lemma gslice_from_append [wire_simps]:
  "i = int (length pre) \<Longrightarrow> gslice_from (pre @ post) i = Ok post"
  by (simp add: gslice_from_def gslice_def)

lemma store_append [wire_simps]:
  "i = int (length pre) \<Longrightarrow> store (pre @ x # post) i y = Ok (pre @ y # post)"
  by (simp add: store_def)

section \<open>Lemmas on the standard library functions\<close>

declare nat_digits.simps [simp del]

text \<open>The decimal digits determine the number.\<close>

definition digits_value :: "string \<Rightarrow> nat" where
  "digits_value s = foldl (\<lambda>v c. 10 * v + (of_char c - 48)) 0 s"

lemma of_char_digit [simp]: "d < 10 \<Longrightarrow> of_char (digit_char d) = (48 + d :: nat)"
  by (simp add: digit_char_def)

lemma digits_value_nat_digits: "digits_value (nat_digits n) = n"
proof (induction n rule: nat_digits.induct)
  case (1 n)
  then show ?case by (cases "n < 10") (simp_all add: nat_digits.simps [of n] digits_value_def)
qed

lemma nat_digits_inject [simp]: "nat_digits m = nat_digits n \<longleftrightarrow> m = n"
  using digits_value_nat_digits by metis

lemma set_nat_digits: "c \<in> set (nat_digits n) \<Longrightarrow> \<exists>d<10. c = digit_char d"
proof (induction n rule: nat_digits.induct)
  case (1 n)
  then show ?case
    by (cases "n < 10") (auto simp: nat_digits.simps [of n] intro: exI [of _ n] exI [of _ "n mod 10"])
qed

lemma nat_digits_nonempty [simp]: "nat_digits n \<noteq> []"
  by (subst nat_digits.simps) simp

lemma itoa_nat [simp]: "itoa (int n) = nat_digits n"
  by (simp add: itoa_def)

text \<open>Trimming keeps a string neither of whose ends is in the cutset, and removes a prefix made of
  the cutset.\<close>

lemma strings_Trim_keep:
  assumes "s \<noteq> []" "hd s \<notin> set cs" "last s \<notin> set cs"
  shows "strings_Trim s cs = s"
proof -
  have "dropWhile (\<lambda>c. c \<in> set cs) s = s" using assms by (cases s) auto
  moreover have "dropWhile (\<lambda>c. c \<in> set cs) (rev s) = rev s"
    using assms by (cases s rule: rev_cases) auto
  ultimately show ?thesis by (simp add: strings_Trim_def)
qed

lemma strings_Trim_prefix: "set p \<subseteq> set cs \<Longrightarrow> strings_Trim (p @ s) cs = strings_Trim s cs"
  by (simp add: strings_Trim_def dropWhile_append subset_eq)

lemma strings_Contains_prefix: "strings_Contains (sub @ s) sub"
proof (cases "sub @ s")
  case (Cons c t)
  have "take (length sub) (c # t) = sub" unfolding Cons [symmetric] by simp
  then show ?thesis by (simp add: Cons)
qed simp

lemma strings_Contains_subset: "strings_Contains s sub \<Longrightarrow> set sub \<subseteq> set s"
proof (induction s)
  case (Cons c s)
  then show ?case using set_take_subset [of "length sub" "c # s"] by auto
qed simp

end
