(* ===== verification/Wire.thy ===== *)
theory Wire
  imports Prelude
begin

text \<open>
  The protobuf wire primitives of \<open>deviceplugin/v1beta1/api.pb.go\<close>: varint and fixed-width
  writers into a preallocated buffer, the size functions, the varint reader that every
  generated \<open>Unmarshal\<close> inlines, and \<open>skipApi\<close>, which steps over one unknown field. The
  writers are related to the byte strings they produce, the reader to the writer, and
  \<open>skipApi\<close> is shown to return on every input.
\<close>

section \<open>Definitions\<close>

datatype proto_error =
    ErrInvalidLengthApi
  | ErrIntOverflowApi
  | ErrUnexpectedEOF
  | ErrEndGroup string
  | ErrIllegalTag string int uint64
  | ErrWrongWireType int string
  | ErrIllegalWireType int

type_synonym 'a pres = "(proto_error, 'a) res"

subsection \<open>Writers\<close>

text \<open>\<open>encodeVarintApi\<close>: the loop stores seven bits per byte, low bits first.\<close>

function encodeVarintApi :: "bytes \<Rightarrow> int \<Rightarrow> uint64 \<Rightarrow> (bytes \<times> int) pres" where
  "encodeVarintApi dAtA offset v =
     (if v \<ge> 128
      then res_bind (store dAtA offset (ucast ((v AND 127) OR 128)))
             (\<lambda>dAtA'. encodeVarintApi dAtA' (offset + 1) (drop_bit 7 v))
      else res_bind (store dAtA offset (ucast v)) (\<lambda>dAtA'. Ok (dAtA', offset + 1)))"
  by pat_completeness auto
termination
proof (relation "measure (\<lambda>(_, _, v). unat v)", goal_cases)
  case (2 dAtA offset v dAtA')
  then have "128 \<le> unat v" by (simp add: word_le_nat_alt)
  then show ?case by (simp add: unat_drop_bit_div)
qed simp

definition encodeFixed64Api :: "bytes \<Rightarrow> int \<Rightarrow> uint64 \<Rightarrow> (bytes \<times> int) pres" where
  "encodeFixed64Api dAtA offset v =
     res_bind (store dAtA offset (ucast v)) (\<lambda>dAtA.
     res_bind (store dAtA (offset + 1) (ucast (drop_bit 8 v))) (\<lambda>dAtA.
     res_bind (store dAtA (offset + 2) (ucast (drop_bit 16 v))) (\<lambda>dAtA.
     res_bind (store dAtA (offset + 3) (ucast (drop_bit 24 v))) (\<lambda>dAtA.
     res_bind (store dAtA (offset + 4) (ucast (drop_bit 32 v))) (\<lambda>dAtA.
     res_bind (store dAtA (offset + 5) (ucast (drop_bit 40 v))) (\<lambda>dAtA.
     res_bind (store dAtA (offset + 6) (ucast (drop_bit 48 v))) (\<lambda>dAtA.
     res_bind (store dAtA (offset + 7) (ucast (drop_bit 56 v))) (\<lambda>dAtA.
     Ok (dAtA, offset + 8)))))))))"

definition encodeFixed32Api :: "bytes \<Rightarrow> int \<Rightarrow> 32 word \<Rightarrow> (bytes \<times> int) pres" where
  "encodeFixed32Api dAtA offset v =
     res_bind (store dAtA offset (ucast v)) (\<lambda>dAtA.
     res_bind (store dAtA (offset + 1) (ucast (drop_bit 8 v))) (\<lambda>dAtA.
     res_bind (store dAtA (offset + 2) (ucast (drop_bit 16 v))) (\<lambda>dAtA.
     res_bind (store dAtA (offset + 3) (ucast (drop_bit 24 v))) (\<lambda>dAtA.
     Ok (dAtA, offset + 4)))))"

text \<open>\<open>sovApi\<close>: the number of bytes of a varint; \<open>n\<close> counts up while \<open>x\<close> is shifted down.\<close>

function sovApi_loop :: "uint64 \<Rightarrow> int \<Rightarrow> int" where
  "sovApi_loop x n =
     (let n' = n + 1; x' = drop_bit 7 x in if x' = 0 then n' else sovApi_loop x' n')"
  by pat_completeness auto
termination
proof (relation "measure (\<lambda>(x, _). unat x)", goal_cases)
  case (2 x n n' x')
  then have "unat x \<noteq> 0" by (auto simp: unat_eq_zero)
  with 2 show ?case by (simp add: unat_drop_bit_div)
qed simp

definition sovApi :: "uint64 \<Rightarrow> int" where
  "sovApi x = sovApi_loop x 0"

definition sozApi :: "uint64 \<Rightarrow> int" where
  "sozApi x = sovApi (push_bit 1 x XOR signed_drop_bit 63 x)"

subsection \<open>The varint reader\<close>

text \<open>
  The loop \<open>for shift := uint(0); ; shift += 7\<close> that every \<open>Unmarshal\<close> inlines before a tag,
  a length or a value. It returns the new index and the bits collected; the sites that collect
  into an \<open>int\<close> read the same bits as a signed number.
\<close>

function read_varint_loop :: "bytes \<Rightarrow> int \<Rightarrow> nat \<Rightarrow> uint64 \<Rightarrow> (int \<times> uint64) pres" where
  "read_varint_loop dAtA iNdEx shift acc =
     (if shift \<ge> 64 then Err ErrIntOverflowApi
      else if iNdEx \<ge> int (length dAtA) then Err ErrUnexpectedEOF
      else res_bind (index dAtA iNdEx) (\<lambda>b.
        let acc' = acc OR push_bit shift (ucast b AND 127)
        in if b < 128 then Ok (iNdEx + 1, acc')
           else read_varint_loop dAtA (iNdEx + 1) (shift + 7) acc'))"
  by pat_completeness auto
termination
  by (relation "measure (\<lambda>(_, _, shift, _). 64 - shift)") auto

definition read_varint :: "bytes \<Rightarrow> int \<Rightarrow> (int \<times> uint64) pres" where
  "read_varint dAtA iNdEx = read_varint_loop dAtA iNdEx 0 0"

subsection \<open>Skipping a field\<close>

text \<open>
  \<open>skipApi\<close> reads one tag and steps over its value. The outer \<open>for\<close> runs at most once: every
  case of the switch returns. A group (wire type 3) runs the inner \<open>for\<close>, modelled by
  \<open>skip_group\<close>, which calls \<open>skipApi\<close> on the rest of the slice for every member. The first
  argument bounds the nesting and the number of members; \<open>skipApi\<close> supplies one more than twice
  the length of the slice, which \<open>skipApi_returns\<close> shows to be enough. \<open>panic("unreachable")\<close> is
  the value for an empty slice.
\<close>

fun skip_fuel :: "nat \<Rightarrow> bytes \<Rightarrow> int pres"
  and skip_group :: "nat \<Rightarrow> bytes \<Rightarrow> int \<Rightarrow> int pres" where
  "skip_fuel 0 dAtA = Stuck"
| "skip_fuel (Suc n) dAtA =
     (if 0 < int (length dAtA)
      then res_bind (read_varint dAtA 0) (\<lambda>(iNdEx, wire).
        let wireType = uint (wire AND 7) in
        if wireType = 0 then
          res_bind (read_varint dAtA iNdEx) (\<lambda>(iNdEx, _). Ok iNdEx)
        else if wireType = 1 then Ok (int64 (iNdEx + 8))
        else if wireType = 2 then
          res_bind (read_varint dAtA iNdEx) (\<lambda>(iNdEx, lenbits).
            let len = sint lenbits in
            if len < 0 then Err ErrInvalidLengthApi else Ok (int64 (iNdEx + len)))
        else if wireType = 3 then skip_group n dAtA iNdEx
        else if wireType = 4 then Ok iNdEx
        else if wireType = 5 then Ok (int64 (iNdEx + 4))
        else Err (ErrIllegalWireType wireType))
      else Panic)"
| "skip_group 0 dAtA iNdEx = Stuck"
| "skip_group (Suc n) dAtA start =
     res_bind (read_varint dAtA start) (\<lambda>(iNdEx, innerWire).
       if uint (innerWire AND 7) = 4 then Ok iNdEx
       else res_bind (gslice_from dAtA start) (\<lambda>rest.
            res_bind (skip_fuel n rest) (\<lambda>nxt. skip_group n dAtA (int64 (start + nxt)))))"

definition skipApi :: "bytes \<Rightarrow> int pres" where
  "skipApi dAtA = skip_fuel (2 * length dAtA + 1) dAtA"

subsection \<open>Reference encodings\<close>

text \<open>The byte strings the writers produce, written as plain functions.\<close>

function varint_bytes :: "uint64 \<Rightarrow> bytes" where
  "varint_bytes v =
     (if v < 128 then [ucast v] else ucast ((v AND 127) OR 128) # varint_bytes (drop_bit 7 v))"
  by pat_completeness auto
termination
proof (relation "measure unat", goal_cases)
  case (2 v)
  then have "128 \<le> unat v" by (simp add: word_le_nat_alt not_less)
  then show ?case by (simp add: unat_drop_bit_div)
qed simp

section \<open>Varints\<close>

declare encodeVarintApi.simps [simp del] sovApi_loop.simps [simp del]
  read_varint_loop.simps [simp del] varint_bytes.simps [simp del] push_bit_and [simp del]

lemma varint_bytes_nonempty [simp]: "varint_bytes v \<noteq> []"
  by (subst varint_bytes.simps) simp

lemma length_varint_bytes_pos [simp]: "0 < length (varint_bytes v)"
  by simp

text \<open>The writer fills the buffer from \<open>offset\<close> on with exactly the reference bytes.\<close>

lemma encodeVarintApi_writes:
  assumes "length (varint_bytes v) \<le> length post"
  shows "encodeVarintApi (pre @ post) (int (length pre)) v =
    Ok (pre @ varint_bytes v @ drop (length (varint_bytes v)) post,
        int (length pre + length (varint_bytes v)))"
  using assms
proof (induction v arbitrary: pre post rule: varint_bytes.induct)
  case (1 v)
  obtain p ps where post: "post = p # ps"
    using "1.prems" by (cases post) auto
  show ?case
  proof (cases "v < 128")
    case True
    then show ?thesis
      by (simp add: encodeVarintApi.simps [of _ _ v] varint_bytes.simps [of v] post store_append
          linorder_not_le [symmetric])
  next
    case False
    let ?b = "ucast ((v AND 127) OR 128) :: byte"
    have "length (varint_bytes (drop_bit 7 v)) \<le> length ps"
      using "1.prems" False by (simp add: varint_bytes.simps [of v] post)
    from "1.IH" [OF False this, of "pre @ [?b]"] False show ?thesis
      by (simp add: encodeVarintApi.simps [of _ _ v] varint_bytes.simps [of v] post store_append
          add_ac)
  qed
qed

lemma sovApi_loop_length: "sovApi_loop x n = n + int (length (varint_bytes x))"
proof (induction x n rule: sovApi_loop.induct)
  case (1 x n)
  have "drop_bit 7 x = 0 \<longleftrightarrow> x < 128"
    by (simp add: unat_eq_zero [symmetric] unat_drop_bit_div word_less_nat_alt div_eq_0_iff)
  with 1 show ?case
    by (simp add: sovApi_loop.simps [of x n] varint_bytes.simps [of x] Let_def)
qed

lemma sovApi_length: "sovApi x = int (length (varint_bytes x))"
  by (simp add: sovApi_def sovApi_loop_length)

text \<open>Bit-level facts on one step of the loop: seven payload bits and a continuation bit.\<close>

lemma ucast_last_byte:
  fixes v :: uint64
  assumes "v < 128"
  shows "(ucast (ucast v :: byte) :: uint64) AND 127 = v" and "(ucast v :: byte) < 128"
  using assms unfolding and127 uint64_less_128 byte_less_128 bit_eq_iff by (auto simp: bit_simps)

lemma ucast_more_byte:
  fixes v :: uint64
  shows "(ucast (ucast ((v AND 127) OR 128) :: byte) :: uint64) AND 127 = take_bit 7 v"
    and "\<not> (ucast ((v AND 127) OR 128) :: byte) < 128"
proof -
  show "(ucast (ucast ((v AND 127) OR 128) :: byte) :: uint64) AND 127 = take_bit 7 v"
    unfolding and127 by (rule bit_word_eqI) (auto simp: bit_simps bit_128)
  show "\<not> (ucast ((v AND 127) OR 128) :: byte) < 128"
    unfolding byte_less_128 bit_eq_iff by (auto simp: bit_simps bit_128 intro!: exI [of _ 7])
qed

lemma split_low7:
  fixes v :: uint64
  shows "push_bit shift (take_bit 7 v) OR push_bit (shift + 7) (drop_bit 7 v) = push_bit shift v"
proof -
  have "push_bit (shift + 7) (drop_bit 7 v) = push_bit shift (push_bit 7 (drop_bit 7 v))"
    by (simp add: push_bit_push_bit)
  moreover have "take_bit 7 v OR push_bit 7 (drop_bit 7 v) = v"
    by (rule bit_word_eqI) (auto simp: bit_simps, metis le_add_diff_inverse not_less)
  ultimately show ?thesis by (metis push_bit_or)
qed

lemma read_varint_loop_written:
  assumes "shift < 64" and "unat v < 2 ^ (64 - shift)"
  shows "read_varint_loop (pre @ varint_bytes v @ post) (int (length pre)) shift acc =
    Ok (int (length pre + length (varint_bytes v)), acc OR push_bit shift v)"
  using assms
proof (induction v arbitrary: pre shift acc rule: varint_bytes.induct)
  case (1 v)
  show ?case
  proof (cases "v < 128")
    case True
    from True ucast_last_byte [OF True] 1 show ?thesis
      by (simp add: read_varint_loop.simps [of _ _ shift] varint_bytes.simps [of v] index_append)
  next
    case False
    let ?b = "ucast ((v AND 127) OR 128) :: byte"
    have "128 \<le> unat v" using False by (simp add: word_less_nat_alt)
    with "1.prems"(2) have "(2 :: nat) ^ 7 < 2 ^ (64 - shift)" by simp
    then have "7 < 64 - shift" by (simp only: power_strict_increasing_iff)
    then have shift: "shift + 7 < 64" by simp
    then obtain k where k: "64 - (shift + 7) = k" "64 - shift = k + 7" by simp
    from "1.prems"(2) have "unat (drop_bit 7 v) < 2 ^ (64 - (shift + 7))"
      unfolding k by (simp add: unat_drop_bit_div div_less_iff_less_mult power_add)
    note IH = "1.IH" [OF False shift this, of "pre @ [?b]"]
    show ?thesis using False "1.prems" IH ucast_more_byte [of v] split_low7 [of shift v]
      by (simp add: read_varint_loop.simps [of _ _ shift] varint_bytes.simps [of v] index_append
          or.assoc add_ac)
  qed
qed

lemma read_varint_written [wire_simps]:
  assumes "i = int (length pre)"
  shows "read_varint (pre @ varint_bytes v @ post) i =
    Ok (i + int (length (varint_bytes v)), v)"
proof -
  have "unat v < 2 ^ 64" using unsigned_less [of v, where 'a = nat] by simp
  with assms show ?thesis by (simp add: read_varint_def read_varint_loop_written)
qed

text \<open>What a successful read says about the index, and what happens elsewhere.\<close>

lemma read_varint_loop_Ok:
  "read_varint_loop dAtA i shift acc = Ok (j, w) \<Longrightarrow> 0 \<le> i \<and> i < j \<and> j \<le> int (length dAtA)"
proof (induction dAtA i shift acc rule: read_varint_loop.induct)
  case (1 dAtA i shift acc)
  from "1.prems" have i: "0 \<le> i" "i < int (length dAtA)" "shift < 64"
    by (simp_all add: read_varint_loop.simps [of dAtA i shift] index_def split: if_splits)
  let ?b = "dAtA ! nat i"
  show ?case
  proof (cases "?b < 128")
    case True
    with "1.prems" i show ?thesis
      by (simp add: read_varint_loop.simps [of dAtA i shift] index_def Let_def)
  next
    case False
    with "1.prems" i have
      "read_varint_loop dAtA (i + 1) (shift + 7) (acc OR push_bit shift (ucast ?b AND 127)) = Ok (j, w)"
      by (simp add: read_varint_loop.simps [of dAtA i shift] index_def Let_def)
    from "1.IH" [OF _ _ refl False this] i show ?thesis by simp
  qed
qed

lemma read_varint_Ok:
  "read_varint dAtA i = Ok (j, w) \<Longrightarrow> 0 \<le> i \<and> i < j \<and> j \<le> int (length dAtA)"
  unfolding read_varint_def by (rule read_varint_loop_Ok)

lemma read_varint_loop_not_Stuck [simp]: "read_varint_loop dAtA i shift acc \<noteq> Stuck"
proof (induction dAtA i shift acc rule: read_varint_loop.induct)
  case (1 dAtA i shift acc)
  show ?case
    by (subst read_varint_loop.simps)
      (auto simp: res_bind_eq_Stuck index_def Let_def "1.IH" split: if_splits)
qed

lemma read_varint_not_Stuck [simp]: "read_varint dAtA i \<noteq> Stuck"
  by (simp add: read_varint_def)

lemma read_varint_negative: "i < 0 \<Longrightarrow> read_varint dAtA i = Panic"
  by (simp add: read_varint_def read_varint_loop.simps [of _ _ 0] index_def)

lemma read_varint_beyond: "int (length dAtA) \<le> i \<Longrightarrow> read_varint dAtA i = Err ErrUnexpectedEOF"
  by (simp add: read_varint_def read_varint_loop.simps [of _ _ 0])

lemma length_varint_bytes_le:
  "unat v < 2 ^ (7 * k) \<Longrightarrow> 0 < k \<Longrightarrow> length (varint_bytes v) \<le> k"
proof (induction v arbitrary: k rule: varint_bytes.induct)
  case (1 v)
  show ?case
  proof (cases "v < 128")
    case True
    with "1.prems" show ?thesis by (simp add: varint_bytes.simps [of v])
  next
    case False
    then have "128 \<le> unat v" by (simp add: word_less_nat_alt)
    with "1.prems" obtain k' where k: "k = Suc k'" "0 < k'"
      by (cases k; cases "k - 1") auto
    with "1.prems" have "unat (drop_bit 7 v) < 2 ^ (7 * k')"
      by (simp add: unat_drop_bit_div div_less_iff_less_mult power_add mult.commute)
    with "1.IH" [OF False _ k(2)] k False show ?thesis by (simp add: varint_bytes.simps [of v])
  qed
qed

lemma length_varint_bytes_le_10: "length (varint_bytes v) \<le> 10"
proof -
  have "unat v < 2 ^ 64" using unsigned_less [of v, where 'a = nat] by simp
  then have "unat v < 2 ^ (7 * 10)" by simp
  then show ?thesis by (rule length_varint_bytes_le) simp
qed

section \<open>Skipping a field always returns\<close>

definition skip_good :: "nat \<Rightarrow> int \<Rightarrow> bool" where
  "skip_good l k \<longleftrightarrow> 1 \<le> k \<and> k < 2 ^ 63 \<or> - (2 ^ 63) \<le> k \<and> k < int l - 2 ^ 63"

lemma skip_good_int64:
  assumes "0 \<le> i" "i \<le> int l" "1 \<le> i + k" "0 \<le> k" "k < 2 ^ 63" "l < 2 ^ 63"
  shows "skip_good l (int64 (i + k))"
  using assms by (auto simp: skip_good_def int64_cases)

lemma skip_good_step:
  assumes "0 \<le> start" "start < int l" "l < 2 ^ 63" "skip_good (l - nat start) k"
  shows "start < int64 (start + k) \<or> int64 (start + k) < 0"
proof (cases "1 \<le> k")
  case True
  with assms show ?thesis by (auto simp: skip_good_def int64_cases)
next
  case False
  with assms have "- (2 ^ 63) \<le> start + k" "start + k < 0" by (auto simp: skip_good_def)
  then show ?thesis by simp
qed

lemma skip_returns:
  shows "length dAtA < 2 ^ 63 \<Longrightarrow> 2 * length dAtA < n \<Longrightarrow>
      skip_fuel n dAtA \<noteq> Stuck \<and> (\<forall>k. skip_fuel n dAtA = Ok k \<longrightarrow> skip_good (length dAtA) k)"
    and "length dAtA < 2 ^ 63 \<Longrightarrow> 0 \<le> start \<Longrightarrow> 2 * (length dAtA - nat start) + 1 < n \<Longrightarrow>
      skip_group n dAtA start \<noteq> Stuck \<and>
      (\<forall>k. skip_group n dAtA start = Ok k \<longrightarrow> start < k \<and> k \<le> int (length dAtA))"
proof (induction n arbitrary: dAtA start)
  case 0
  { case 1 then show ?case by simp }
  { case 2 then show ?case by simp }
next
  case (Suc n)
  { case 1
    show ?case
    proof (cases "read_varint dAtA 0")
      case (Ok p)
      then obtain i w where p: "read_varint dAtA 0 = Ok (i, w)" by (cases p) auto
      then have i: "0 < i" "i \<le> int (length dAtA)" by (auto dest: read_varint_Ok)
      with 1 have "2 * (length dAtA - nat i) + 1 < n" by linarith
      then have grp: "skip_group n dAtA i \<noteq> Stuck"
        "\<And>k. skip_group n dAtA i = Ok k \<Longrightarrow> i < k \<and> k \<le> int (length dAtA)"
        using Suc.IH(2) [of dAtA i] 1 i by auto
      have const: "skip_good (length dAtA) (int64 (i + 8))" "skip_good (length dAtA) (int64 (i + 4))"
        "skip_good (length dAtA) i"
        using skip_good_int64 [of i "length dAtA"] 1 i by (auto simp: skip_good_def)
      have vals: "skip_good (length dAtA) j"
        "0 \<le> sint v \<Longrightarrow> skip_good (length dAtA) (int64 (j + sint v))"
        if "read_varint dAtA i = Ok (j, v)" for j v
        using read_varint_Ok [OF that] sint_lt [of v] 1 i skip_good_int64 [of j "length dAtA" "sint v"]
        by (auto simp: skip_good_def)
      have "skip_good (length dAtA) k" if "i < k" "k \<le> int (length dAtA)" for k
        using that 1 i by (simp add: skip_good_def)
      with p grp const vals 1 i show ?thesis
        by (auto simp: Let_def res_bind_eq_Stuck split: if_splits)
    qed auto }
  { case 2
    show ?case
    proof (cases "read_varint dAtA start")
      case (Ok p)
      then obtain i w where p: "read_varint dAtA start = Ok (i, w)" by (cases p) auto
      then have i: "start < i" "i \<le> int (length dAtA)" "start < int (length dAtA)"
        by (auto dest: read_varint_Ok)
      let ?rest = "drop (nat start) dAtA"
      have rest: "gslice_from dAtA start = (Ok ?rest :: bytes pres)"
        using 2 i by (simp add: gslice_from_def gslice_def)
      have IH1: "skip_fuel n ?rest \<noteq> Stuck"
        "\<And>k. skip_fuel n ?rest = Ok k \<Longrightarrow> skip_good (length ?rest) k"
        using Suc.IH(1) [of ?rest] 2 i by auto
      have grp: "skip_group n dAtA (int64 (start + nxt)) \<noteq> Stuck \<and>
          (\<forall>k. skip_group n dAtA (int64 (start + nxt)) = Ok k \<longrightarrow> start < k \<and> k \<le> int (length dAtA))"
        if "skip_fuel n ?rest = Ok nxt" for nxt
      proof -
        let ?s = "int64 (start + nxt)"
        have good: "skip_good (length ?rest) nxt" using IH1 that by blast
        show ?thesis
        proof (cases "start < ?s")
          case True
          with 2 i have "2 * (length dAtA - nat ?s) + 1 < n" by linarith
          with Suc.IH(2) [of dAtA ?s] 2 True show ?thesis by auto
        next
          case False
          with good 2 i skip_good_step [of start "length dAtA" nxt] have "?s < 0" by simp
          moreover obtain m where "n = Suc m" using 2 i by (cases n) auto
          ultimately show ?thesis by (simp add: read_varint_negative)
        qed
      qed
      show ?thesis
        using p rest IH1(1) grp 2 i
        by (auto simp: res_bind_eq_Stuck split: if_splits)
    qed auto }
qed

lemma skipApi_returns: "length dAtA < 2 ^ 63 \<Longrightarrow> skipApi dAtA \<noteq> Stuck"
  and skipApi_Ok_good: "length dAtA < 2 ^ 63 \<Longrightarrow> skipApi dAtA = Ok k \<Longrightarrow> skip_good (length dAtA) k"
  using skip_returns(1) [of dAtA "2 * length dAtA + 1"] by (auto simp: skipApi_def)

text \<open>More iterations never change a result.\<close>

lemma skip_more_fuel:
  shows "skip_fuel n dAtA \<noteq> Stuck \<Longrightarrow> skip_fuel (Suc n) dAtA = skip_fuel n dAtA"
    and "skip_group n dAtA start \<noteq> Stuck \<Longrightarrow> skip_group (Suc n) dAtA start = skip_group n dAtA start"
proof (induction n arbitrary: dAtA start)
  case (Suc n)
  { case 1
    show ?case
    proof (cases "read_varint dAtA 0")
      case (Ok p)
      then obtain i w where p: "read_varint dAtA 0 = Ok (i, w)" by (cases p) auto
      have "skip_group (Suc n) dAtA i = skip_group n dAtA i"
        if "uint (w AND 7) = 3" "dAtA \<noteq> []"
        using 1 p that by (intro Suc.IH(2)) (auto simp: Let_def)
      with p show ?thesis by (simp only: skip_fuel.simps) (auto simp: Let_def)
    qed (simp_all only: skip_fuel.simps res_bind_simps) }
  { case 2
    show ?case
    proof (cases "read_varint dAtA start")
      case (Ok p)
      then obtain i w where p: "read_varint dAtA start = Ok (i, w)" by (cases p) auto
      show ?thesis
      proof (cases "uint (w AND 7) = 4 \<or> (\<forall>r. gslice_from dAtA start \<noteq> (Ok r :: bytes pres))")
        case True
        with p show ?thesis
          by (cases "gslice_from dAtA start :: bytes pres") (auto simp only: skip_group.simps res_bind_simps split: if_splits prod.splits)
      next
        case False
        then obtain r where r: "gslice_from dAtA start = (Ok r :: bytes pres)" by blast
        have s1: "skip_fuel n r \<noteq> Stuck" using 2 p r False by auto
        note e1 = Suc.IH(1) [OF s1]
        have "skip_group (Suc n) dAtA (int64 (start + k)) = skip_group n dAtA (int64 (start + k))"
          if "skip_fuel n r = Ok k" for k
          using 2 p r False that by (intro Suc.IH(2)) auto
        with p r False e1 show ?thesis
          by (cases "skip_fuel n r") (simp_all only: skip_group.simps res_bind_simps prod.case if_False)
      qed
    qed (simp_all only: skip_group.simps res_bind_simps) }
qed simp_all

section \<open>Properties of the wire format\<close>

lemma encodeVarintApi_no_room:
  "length post < length (varint_bytes v) \<Longrightarrow> encodeVarintApi (pre @ post) (int (length pre)) v = Panic"
proof (induction v arbitrary: pre post rule: varint_bytes.induct)
  case (1 v)
  show ?case
  proof (cases post)
    case Nil
    then show ?thesis by (subst encodeVarintApi.simps) (simp add: store_def)
  next
    case (Cons x post')
    with 1 have big: "\<not> v < 128" "length post' < length (varint_bytes (drop_bit 7 v))"
      by (auto simp: varint_bytes.simps [of v] split: if_splits)
    from 1(1) [OF big, of "pre @ [ucast ((v AND 127) OR 128)]"] big(1) show ?thesis
      by (subst encodeVarintApi.simps) (simp add: Cons store_append add.commute not_less)
  qed
qed

lemma varint_bytes_bounds:
  "unat v < 2 ^ (7 * length (varint_bytes v)) \<and>
   (length (varint_bytes v) = 1 \<or> 2 ^ (7 * (length (varint_bytes v) - 1)) \<le> unat v)"
proof (induction v rule: varint_bytes.induct)
  case (1 v)
  show ?case
  proof (cases "v < 128")
    case True
    then show ?thesis by (simp add: varint_bytes.simps [of v] word_less_nat_alt)
  next
    case False
    let ?l = "length (varint_bytes (drop_bit 7 v))"
    have d: "unat (drop_bit 7 v) = unat v div 128" by (simp add: drop_bit_eq_div unat_div)
    have l: "length (varint_bytes v) = Suc ?l" using False by (simp add: varint_bytes.simps [of v])
    from 1 [OF False] have hi: "unat v div 128 < 2 ^ (7 * ?l)"
      and lo: "?l = 1 \<or> 2 ^ (7 * (?l - 1)) \<le> unat v div 128"
      unfolding d by simp_all
    have pow: "(2::nat) ^ (7 * Suc k) = 128 * 2 ^ (7 * k)" for k by (simp add: power_add)
    from hi have up: "unat v < 2 ^ (7 * Suc ?l)" unfolding pow by linarith
    have "2 ^ (7 * ?l) \<le> unat v"
    proof (cases "?l = 1")
      case True
      with False show ?thesis by (simp add: word_less_nat_alt)
    next
      case f: False
      then have "?l = Suc (?l - 1)" by (cases "varint_bytes (drop_bit 7 v)") auto
      with pow [of "?l - 1"] have "(2::nat) ^ (7 * ?l) = 128 * 2 ^ (7 * (?l - 1))" by simp
      with lo f show ?thesis by simp
    qed
    with up show ?thesis by (simp only: l) simp
  qed
qed

lemma read_varint_loop_safe:
  "0 \<le> i \<Longrightarrow> case read_varint_loop dAtA i shift acc of
      Ok (j, v) \<Rightarrow> int shift + 7 * (j - i) \<le> 70
    | Err e \<Rightarrow> e = ErrUnexpectedEOF \<or> e = ErrIntOverflowApi
    | Panic \<Rightarrow> False
    | Stuck \<Rightarrow> False"
proof (induction dAtA i shift acc rule: read_varint_loop.induct)
  case (1 dAtA i shift acc)
  let ?b = "dAtA ! nat i"
  have step: "read_varint_loop dAtA i shift acc =
      (if shift \<ge> 64 then Err ErrIntOverflowApi
       else if i \<ge> int (length dAtA) then Err ErrUnexpectedEOF
       else let acc' = acc OR push_bit shift (ucast ?b AND 127) in
         if ?b < 128 then Ok (i + 1, acc') else read_varint_loop dAtA (i + 1) (shift + 7) acc')"
    using "1.prems" by (subst read_varint_loop.simps) (simp add: index_def)
  have IH: "\<not> 64 \<le> shift \<Longrightarrow> \<not> int (length dAtA) \<le> i \<Longrightarrow> \<not> ?b < 128 \<Longrightarrow>
      case read_varint_loop dAtA (i + 1) (shift + 7) (acc OR push_bit shift (ucast ?b AND 127)) of
        Ok (j, v) \<Rightarrow> int (shift + 7) + 7 * (j - (i + 1)) \<le> 70
      | Err e \<Rightarrow> e = ErrUnexpectedEOF \<or> e = ErrIntOverflowApi | Panic \<Rightarrow> False | Stuck \<Rightarrow> False"
    using "1.IH" [OF _ _ refl] "1.prems" by simp
  show ?case
  proof (cases "64 \<le> shift \<or> int (length dAtA) \<le> i \<or> ?b < 128")
    case True
    then show ?thesis unfolding step by (auto simp: Let_def)
  next
    case False
    with IH show ?thesis unfolding step by (auto simp: Let_def split: res.splits)
  qed
qed

text \<open>C18: writing a varint into a buffer with room for it at the offset changes only the \<open>sovApi v\<close>
  bytes there, and the decoding loop reads the value back; without room it panics.\<close>

theorem varint_roundtrip:
  assumes "off \<le> length buf"
  shows "if int off + sovApi v \<le> int (length buf)
    then \<exists>buf'. encodeVarintApi buf (int off) v = Ok (buf', int off + sovApi v) \<and>
      length buf' = length buf \<and> take off buf' = take off buf \<and>
      drop (off + nat (sovApi v)) buf' = drop (off + nat (sovApi v)) buf \<and>
      read_varint buf' (int off) = Ok (int off + sovApi v, v)
    else encodeVarintApi buf (int off) v = Panic"
proof -
  let ?vb = "varint_bytes v"
  have buf: "buf = take off buf @ drop off buf" "int off = int (length (take off buf))" using assms by simp_all
  show ?thesis
  proof (cases "int off + sovApi v \<le> int (length buf)")
    case True
    let ?buf' = "take off buf @ ?vb @ drop (length ?vb) (drop off buf)"
    from True have room: "length ?vb \<le> length (drop off buf)" by (simp add: sovApi_length)
    have "encodeVarintApi buf (int off) v = Ok (?buf', int off + sovApi v)"
      using encodeVarintApi_writes [OF room, of "take off buf"] buf(2) by (simp add: sovApi_length)
    moreover have "read_varint ?buf' (int off) = Ok (int off + sovApi v, v)"
      using read_varint_written [OF buf(2)] by (simp add: sovApi_length)
    ultimately show ?thesis using True assms room
      by (auto simp: sovApi_length add.commute)
  next
    case False
    then have "length (drop off buf) < length ?vb" using assms by (simp add: sovApi_length)
    with encodeVarintApi_no_room [of "drop off buf" v "take off buf"] buf(2) False show ?thesis by simp
  qed
qed

theorem varint_roundtrip_witness:
  "\<exists>buf'. encodeVarintApi [1, 2, 3, 4] 1 300 = Ok (buf', 3) \<and> read_varint buf' 1 = Ok (3, 300)"
proof -
  have "sovApi 300 = 2" by code_simp
  with varint_roundtrip [of 1 "[1, 2, 3, 4]" 300] show ?thesis by auto
qed

text \<open>\<open>sovApi\<close> is the length of the shortest base-128 encoding, between 1 and 10 bytes.\<close>

theorem sov_minimal:
  "\<exists>k. sovApi v = int k \<and> 1 \<le> k \<and> k \<le> 10 \<and> unat v < 2 ^ (7 * k) \<and> (k = 1 \<or> 2 ^ (7 * (k - 1)) \<le> unat v)"
  using varint_bytes_bounds [of v] length_varint_bytes_le_10 [of v]
  by (intro exI [of _ "length (varint_bytes v)"]) (auto simp: sovApi_length Suc_le_eq)

text \<open>Decoding a varint from any input takes between one and ten bytes of it, or fails with an
  end-of-input or overflow error; it never reads outside the input.\<close>

theorem read_varint_safe:
  assumes "0 \<le> i"
  shows "case read_varint dAtA i of
      Ok (j, v) \<Rightarrow> i < j \<and> j \<le> i + 10 \<and> j \<le> int (length dAtA)
    | Err e \<Rightarrow> e = ErrUnexpectedEOF \<or> e = ErrIntOverflowApi
    | Panic \<Rightarrow> False
    | Stuck \<Rightarrow> False"
  using read_varint_loop_safe [OF assms, where shift = 0 and acc = 0 and dAtA = dAtA] read_varint_Ok [of dAtA i]
  by (auto simp: read_varint_def split: res.splits)

theorem read_varint_safe_witness:
  "\<not> (case read_varint (replicate 11 255) 0 of Panic \<Rightarrow> True | Stuck \<Rightarrow> True | Ok _ \<Rightarrow> False | Err _ \<Rightarrow> False)"
  using read_varint_safe [of 0 "replicate 11 255"] by (auto split: res.splits)

text \<open>Skipping an unknown field ends on every input, whatever groups it opens: the fuel of
  \<open>skipApi\<close> is enough, and more of it gives the same result.\<close>

theorem skip_terminates:
  assumes "length dAtA < 2 ^ 63"
  shows "skipApi dAtA \<noteq> Stuck \<and> (\<forall>n > 2 * length dAtA. skip_fuel n dAtA = skipApi dAtA)"
proof -
  have "skip_fuel (2 * length dAtA + 1 + k) dAtA = skipApi dAtA" for k
  proof (induction k)
    case (Suc k)
    then show ?case
      using skip_more_fuel(1) [of "2 * length dAtA + 1 + k" dAtA] skipApi_returns [OF assms] by simp
  qed (simp add: skipApi_def)
  then have "skip_fuel n dAtA = skipApi dAtA" if "2 * length dAtA < n" for n
    using that by (metis Suc_eq_plus1 Suc_leI le_add_diff_inverse)
  with skipApi_returns [OF assms] show ?thesis by blast
qed

theorem skip_terminates_witness: "skipApi [11, 11, 8, 1, 12, 12] \<noteq> Stuck \<and> skip_fuel 100 [11, 11, 8, 1, 12, 12] = Ok 6"
proof -
  have "skipApi [11, 11, 8, 1, 12, 12] = Ok 6" by code_simp
  with skip_terminates [of "[11, 11, 8, 1, 12, 12]"] show ?thesis by simp
qed

end
