(* ===== verification/Codec.thy ===== *)
theory Codec
  imports Wire
begin

text \<open>
  The building blocks that protoc-gen-gogo repeats in every message of \<open>api.pb.go\<close>: the
  statements a \<open>MarshalTo\<close> is made of, the readers an \<open>Unmarshal\<close> is made of, and the loop
  over the fields. Two interfaces state what a message promises: \<open>marshaller\<close> (size and writer
  agree with a reference encoding) and \<open>unmarshaller\<close> (the switch over field numbers makes
  progress). Facts about every message are proved once inside them.
\<close>

section \<open>Writing\<close>

type_synonym writer = "bytes \<times> int \<Rightarrow> (bytes \<times> int) pres"

text \<open>\<open>dAtA[i] = b; i++\<close>, \<open>i = encodeVarintApi(dAtA, i, v)\<close>, \<open>i += copy(dAtA[i:], s)\<close> and
  \<open>n, err := msg.MarshalTo(dAtA[i:]); if err != nil { return 0, err }; i += n\<close>. A sub-slice
  shares its storage with the slice, so what is written through it shows in \<open>dAtA\<close>.\<close>

definition put_byte :: "byte \<Rightarrow> writer" where
  "put_byte b = (\<lambda>(dAtA, i). res_bind (store dAtA i b) (\<lambda>dAtA. Ok (dAtA, i + 1)))"

definition put_varint :: "uint64 \<Rightarrow> writer" where
  "put_varint v = (\<lambda>(dAtA, i). encodeVarintApi dAtA i v)"

definition put_copy :: "bytes \<Rightarrow> writer" where
  "put_copy s = (\<lambda>(dAtA, i). res_bind (gslice_from dAtA i) (\<lambda>rest.
     let n = min (length rest) (length s)
     in Ok (take (nat i) dAtA @ take n s @ drop n rest, i + int n)))"

definition put_nested :: "(bytes \<Rightarrow> (bytes \<times> int) pres) \<Rightarrow> writer" where
  "put_nested marshalTo = (\<lambda>(dAtA, i). res_bind (gslice_from dAtA i) (\<lambda>rest.
     res_bind (marshalTo rest) (\<lambda>(rest', n). Ok (take (nat i) dAtA @ rest', int64 (i + n)))))"

definition wseq :: "writer \<Rightarrow> writer \<Rightarrow> writer" where
  "wseq f g = (\<lambda>s. res_bind (f s) g)"

definition wif :: "bool \<Rightarrow> writer \<Rightarrow> writer" where
  "wif c w = (if c then w else Ok)"

fun wfor :: "'a list \<Rightarrow> ('a \<Rightarrow> writer) \<Rightarrow> writer" where
  "wfor [] f = Ok"
| "wfor (x # xs) f = wseq (f x) (wfor xs f)"

definition wall :: "writer list \<Rightarrow> writer" where
  "wall ws = foldr wseq ws Ok"

text \<open>A \<open>MarshalTo\<close> starts with \<open>i := 0\<close> and returns \<open>i\<close>.\<close>

definition run_writer :: "writer \<Rightarrow> bytes \<Rightarrow> (bytes \<times> int) pres" where
  "run_writer w dAtA = w (dAtA, 0)"

definition put_string :: "byte \<Rightarrow> string \<Rightarrow> writer" where
  "put_string tag s =
     wseq (put_byte tag) (wseq (put_varint (uint64_of_int (int (length s)))) (put_copy (bytes_of_string s)))"

definition put_bool :: "byte \<Rightarrow> bool \<Rightarrow> writer" where
  "put_bool tag v = wseq (put_byte tag) (if v then put_byte 1 else put_byte 0)"

definition put_message :: "byte \<Rightarrow> int \<Rightarrow> (bytes \<Rightarrow> (bytes \<times> int) pres) \<Rightarrow> writer" where
  "put_message tag sz marshalTo =
     wseq (put_byte tag) (wseq (put_varint (uint64_of_int sz)) (put_nested marshalTo))"

text \<open>One entry of a \<open>map[string]string\<close> field: \<open>mapSize\<close>, then key and value as fields 1 and 2.\<close>

definition map_entry_size :: "string \<Rightarrow> string \<Rightarrow> int" where
  "map_entry_size k v =
     int64 (1 + int (length k) + sovApi (uint64_of_int (int (length k)))
          + 1 + int (length v) + sovApi (uint64_of_int (int (length v))))"

definition put_map_entry :: "byte \<Rightarrow> string \<times> string \<Rightarrow> writer" where
  "put_map_entry tag = (\<lambda>(k, v).
     wseq (put_byte tag) (wseq (put_varint (uint64_of_int (map_entry_size k v)))
       (wseq (put_string 10 k) (put_string 18 v))))"

text \<open>\<open>Marshal\<close>: allocate \<open>Size()\<close> bytes, fill them, return the part that was written.\<close>

definition marshal :: "('m \<Rightarrow> int) \<Rightarrow> ('m \<Rightarrow> bytes \<Rightarrow> (bytes \<times> int) pres) \<Rightarrow> 'm \<Rightarrow> bytes pres" where
  "marshal Size MarshalTo m =
     (if Size m < 0 then Panic
      else res_bind (MarshalTo m (replicate (nat (Size m)) 0)) (\<lambda>(dAtA, n). gslice dAtA 0 n))"

text \<open>The size of a length-prefixed field: \<open>1 + l + sovApi(uint64(l))\<close>.\<close>

definition field_size :: "int \<Rightarrow> int" where
  "field_size l = int64 (1 + l + sovApi (uint64_of_int l))"

definition string_size :: "string \<Rightarrow> int" where
  "string_size s = (if 0 < int (length s) then field_size (int (length s)) else 0)"

text \<open>\<open>n += k\<close> for each field in turn, from \<open>n = 0\<close>.\<close>

definition sum_sizes :: "int list \<Rightarrow> int" where
  "sum_sizes ks = foldl (\<lambda>n k. int64 (n + k)) 0 ks"

section \<open>Reading\<close>

text \<open>The readers of a string, of an embedded message and of a bool, as every \<open>case\<close> inlines them.\<close>

definition read_block :: "bytes \<Rightarrow> int \<Rightarrow> (int \<times> int) pres" where
  "read_block dAtA iNdEx = res_bind (read_varint dAtA iNdEx) (\<lambda>(iNdEx, lenbits).
     let len = sint lenbits in
     if len < 0 then Err ErrInvalidLengthApi
     else let postIndex = int64 (iNdEx + len) in
       if postIndex > int (length dAtA) then Err ErrUnexpectedEOF else Ok (iNdEx, postIndex))"

definition read_bytes :: "bytes \<Rightarrow> int \<Rightarrow> (int \<times> bytes) pres" where
  "read_bytes dAtA iNdEx = res_bind (read_block dAtA iNdEx) (\<lambda>(iNdEx, postIndex).
     res_bind (gslice dAtA iNdEx postIndex) (\<lambda>bs. Ok (postIndex, bs)))"

definition read_string :: "bytes \<Rightarrow> int \<Rightarrow> (int \<times> string) pres" where
  "read_string dAtA iNdEx =
     res_bind (read_bytes dAtA iNdEx) (\<lambda>(iNdEx, bs). Ok (iNdEx, string_of_bytes bs))"

definition read_bool :: "bytes \<Rightarrow> int \<Rightarrow> (int \<times> bool) pres" where
  "read_bool dAtA iNdEx = res_bind (read_varint dAtA iNdEx) (\<lambda>(iNdEx, v). Ok (iNdEx, sint v \<noteq> 0))"

text \<open>A map entry: the key tag and value tag are read and ignored; a missing value is the empty
  string; \<open>iNdEx\<close> is then set to the end of the entry.\<close>

definition read_map_entry :: "bytes \<Rightarrow> int \<Rightarrow> (int \<times> string \<times> string) pres" where
  "read_map_entry dAtA iNdEx = res_bind (read_block dAtA iNdEx) (\<lambda>(iNdEx, postIndex).
     res_bind (read_varint dAtA iNdEx) (\<lambda>(iNdEx, keykey).
     res_bind (read_string dAtA iNdEx) (\<lambda>(iNdEx, mapkey).
       if iNdEx < postIndex
       then res_bind (read_varint dAtA iNdEx) (\<lambda>(iNdEx, valuekey).
            res_bind (read_string dAtA iNdEx) (\<lambda>(iNdEx, mapvalue). Ok (postIndex, mapkey, mapvalue)))
       else Ok (postIndex, mapkey, []))))"

text \<open>
  The body of one \<open>case\<close> of the switch: the wire type is checked, the value read, the message
  updated. The message is returned together with the outcome, since Go updates it in place and
  keeps what was read before an error.
\<close>

type_synonym 'm field_result = "'m \<times> int pres"
type_synonym 'm handler = "int \<Rightarrow> int \<Rightarrow> bytes \<Rightarrow> int \<Rightarrow> 'm \<Rightarrow> 'm field_result option"

definition on_value :: "int \<Rightarrow> string \<Rightarrow> int \<Rightarrow> (int \<times> 'v) pres \<Rightarrow> ('v \<Rightarrow> 'm \<Rightarrow> 'm) \<Rightarrow> 'm \<Rightarrow> 'm field_result" where
  "on_value want field wireType r upd m =
     (if wireType \<noteq> want then (m, Err (ErrWrongWireType wireType field))
      else case r of Ok (iNdEx, v) \<Rightarrow> (upd v m, Ok iNdEx)
        | Err e \<Rightarrow> (m, Err e) | Panic \<Rightarrow> (m, Panic) | Stuck \<Rightarrow> (m, Stuck))"

definition on_message :: "string \<Rightarrow> int \<Rightarrow> (int \<times> bytes) pres \<Rightarrow> (bytes \<Rightarrow> 's \<times> unit pres) \<Rightarrow>
    ('s \<Rightarrow> 'm \<Rightarrow> 'm) \<Rightarrow> 'm \<Rightarrow> 'm field_result" where
  "on_message field wireType r sub upd m =
     (if wireType \<noteq> 2 then (m, Err (ErrWrongWireType wireType field))
      else case r of Ok (iNdEx, bs) \<Rightarrow>
            (case sub bs of (s, out) \<Rightarrow> (upd s m, res_bind out (\<lambda>_. Ok iNdEx)))
        | Err e \<Rightarrow> (m, Err e) | Panic \<Rightarrow> (m, Panic) | Stuck \<Rightarrow> (m, Stuck))"

text \<open>
  The loop of \<open>Unmarshal\<close>. The handler is the switch over \<open>fieldNum\<close>; \<open>None\<close> is its
  \<open>default\<close>, which steps over the field with \<open>skipApi\<close>. The first argument bounds the number
  of iterations; \<open>unmarshal\<close> supplies one more than the length of the input.
\<close>

fun unmarshal_loop :: "nat \<Rightarrow> string \<Rightarrow> 'm handler \<Rightarrow> bytes \<Rightarrow> int \<Rightarrow> 'm \<Rightarrow> 'm \<times> unit pres" where
  "unmarshal_loop 0 name fld dAtA iNdEx m = (m, Stuck)"
| "unmarshal_loop (Suc n) name fld dAtA iNdEx m =
     (let l = int (length dAtA) in
      if iNdEx < l then
        (case read_varint dAtA iNdEx of
           Err e \<Rightarrow> (m, Err e) | Panic \<Rightarrow> (m, Panic) | Stuck \<Rightarrow> (m, Stuck)
         | Ok (iNdEx', wire) \<Rightarrow>
           let fieldNum = sint (ucast (drop_bit 3 wire) :: 32 word);
               wireType = uint (wire AND 7)
           in if wireType = 4 then (m, Err (ErrEndGroup name))
              else if fieldNum \<le> 0 then (m, Err (ErrIllegalTag name fieldNum wire))
              else (case fld fieldNum wireType dAtA iNdEx' m of
                  Some (m', Ok iNdEx'') \<Rightarrow> unmarshal_loop n name fld dAtA iNdEx'' m'
                | Some (m', Err e) \<Rightarrow> (m', Err e)
                | Some (m', Panic) \<Rightarrow> (m', Panic)
                | Some (m', Stuck) \<Rightarrow> (m', Stuck)
                | None \<Rightarrow>
                  (case res_bind (gslice_from dAtA iNdEx) skipApi of
                     Err e \<Rightarrow> (m, Err e) | Panic \<Rightarrow> (m, Panic) | Stuck \<Rightarrow> (m, Stuck)
                   | Ok skippy \<Rightarrow>
                     if skippy < 0 then (m, Err ErrInvalidLengthApi)
                     else if int64 (iNdEx + skippy) > l then (m, Err ErrUnexpectedEOF)
                     else unmarshal_loop n name fld dAtA (int64 (iNdEx + skippy)) m)))
      else if iNdEx > l then (m, Err ErrUnexpectedEOF) else (m, Ok ()))"

definition unmarshal :: "string \<Rightarrow> 'm handler \<Rightarrow> bytes \<Rightarrow> 'm \<Rightarrow> 'm \<times> unit pres" where
  "unmarshal name fld dAtA m = unmarshal_loop (length dAtA + 1) name fld dAtA 0 m"

section \<open>What the writers write\<close>

text \<open>\<open>writes w bs\<close>: with room for \<open>bs\<close> at the current index, \<open>w\<close> stores exactly \<open>bs\<close> there,
  moves the index behind it and changes nothing else.\<close>

definition writes :: "writer \<Rightarrow> bytes \<Rightarrow> bool" where
  "writes w bs \<longleftrightarrow> (\<forall>pre post. length bs \<le> length post \<longrightarrow> length pre + length post < 2 ^ 63 \<longrightarrow>
     w (pre @ post, int (length pre)) =
       Ok (pre @ bs @ drop (length bs) post, int (length pre + length bs)))"

lemma writesD:
  "writes w bs \<Longrightarrow> length bs \<le> length post \<Longrightarrow> length pre + length post < 2 ^ 63 \<Longrightarrow>
   w (pre @ post, int (length pre)) =
     Ok (pre @ bs @ drop (length bs) post, int (length pre + length bs))"
  by (simp add: writes_def)

named_theorems writes_intros \<open>composing writers\<close>

lemma writes_put_byte [writes_intros]: "writes (put_byte b) [b]"
  unfolding writes_def put_byte_def
proof (intro allI impI)
  fix pre post :: bytes
  assume "length [b] \<le> length post"
  then obtain p ps where "post = p # ps" by (cases post) auto
  then show "(case (pre @ post, int (length pre)) of (dAtA, i) \<Rightarrow>
      res_bind (store dAtA i b) (\<lambda>dAtA. Ok (dAtA, i + 1))) =
    Ok (pre @ [b] @ drop (length [b]) post, int (length pre + length [b]))"
    by (simp add: store_append)
qed

lemma writes_put_varint [writes_intros]: "writes (put_varint v) (varint_bytes v)"
  by (simp add: writes_def put_varint_def encodeVarintApi_writes)

lemma writes_put_copy [writes_intros]: "writes (put_copy bs) bs"
  by (simp add: writes_def put_copy_def gslice_from_append min_def Let_def)

lemma writes_wseq [writes_intros]:
  assumes f: "writes f xs" and g: "writes g ys"
  shows "writes (wseq f g) (xs @ ys)"
  unfolding writes_def wseq_def
proof (intro allI impI)
  fix pre post :: bytes
  assume room: "length (xs @ ys) \<le> length post" "length pre + length post < 2 ^ 63"
  then have "f (pre @ post, int (length pre)) =
      Ok (pre @ xs @ drop (length xs) post, int (length pre + length xs))"
    using f by (simp add: writes_def)
  moreover have "g ((pre @ xs) @ drop (length xs) post, int (length (pre @ xs))) =
      Ok ((pre @ xs) @ ys @ drop (length ys) (drop (length xs) post), int (length (pre @ xs) + length ys))"
    by (rule writesD [OF g]) (use room in simp_all)
  ultimately show "res_bind (f (pre @ post, int (length pre))) g =
      Ok (pre @ (xs @ ys) @ drop (length (xs @ ys)) post, int (length pre + length (xs @ ys)))"
    by (simp add: add.assoc add.commute)
qed

lemma writes_Ok [writes_intros]: "writes Ok []"
  by (simp add: writes_def)

lemma writes_wif [writes_intros]: "writes w bs \<Longrightarrow> writes (wif c w) (if c then bs else [])"
  by (simp add: wif_def writes_Ok)

lemma writes_wfor [writes_intros]:
  "(\<And>x. x \<in> set xs \<Longrightarrow> writes (f x) (g x)) \<Longrightarrow> writes (wfor xs f) (concat (map g xs))"
  by (induction xs) (auto intro: writes_intros)

text \<open>The encoding of a message is the concatenation of the parts its fields contribute.\<close>

lemma writes_part [writes_intros]: "writes w xs \<Longrightarrow> writes w (concat [xs])"
  by simp

lemma writes_wall_Nil [writes_intros]: "writes (wall []) (concat [])"
  by (simp add: wall_def writes_Ok)

lemma writes_wall_single [writes_intros]: "writes w xs \<Longrightarrow> writes (wall [w]) xs"
  using writes_wseq [of w xs Ok "[]"] by (simp add: wall_def writes_Ok)

lemma writes_wall_Cons [writes_intros]:
  "writes w (concat xss) \<Longrightarrow> writes (wall (w' # ws)) (concat yss) \<Longrightarrow>
   writes (wall (w # w' # ws)) (concat (xss @ yss))"
  using writes_wseq [of w "concat xss" "wall (w' # ws)" "concat yss"] by (simp add: wall_def)

lemma writes_option [writes_intros]:
  "(\<And>x. o' = Some x \<Longrightarrow> writes (w x) (e x)) \<Longrightarrow>
   writes (case o' of None \<Rightarrow> Ok | Some x \<Rightarrow> w x) (concat (case o' of None \<Rightarrow> [] | Some x \<Rightarrow> [e x]))"
  by (auto simp: writes_Ok split: option.split)

lemma writes_put_nested:
  assumes "\<And>buf. length bs \<le> length buf \<Longrightarrow> length buf < 2 ^ 63 \<Longrightarrow>
      marshalTo buf = Ok (bs @ drop (length bs) buf, int (length bs))"
  shows "writes (put_nested marshalTo) bs"
  using assms by (simp add: writes_def put_nested_def gslice_from_append)

text \<open>Reference encodings of the kinds of fields.\<close>

definition len_prefixed :: "bytes \<Rightarrow> bytes" where
  "len_prefixed bs = varint_bytes (of_nat (length bs)) @ bs"

definition enc_block :: "byte \<Rightarrow> bytes \<Rightarrow> bytes" where
  "enc_block tag bs = tag # len_prefixed bs"

definition enc_string :: "byte \<Rightarrow> string \<Rightarrow> bytes" where
  "enc_string tag s = (if s = [] then [] else enc_block tag (bytes_of_string s))"

definition enc_bool :: "byte \<Rightarrow> bool \<Rightarrow> bytes" where
  "enc_bool tag b = (if b then [tag, 1] else [])"

definition enc_pair :: "string \<times> string \<Rightarrow> bytes" where
  "enc_pair = (\<lambda>(k, v). enc_block 10 (bytes_of_string k) @ enc_block 18 (bytes_of_string v))"

lemma uint64_of_nat [simp]: "uint64_of_int (int n) = of_nat n"
  by (simp add: uint64_of_int_def)

lemma writes_put_string [writes_intros]:
  "writes (put_string tag s) (enc_block tag (bytes_of_string s))"
proof -
  have "writes (put_string tag s) ([tag] @ varint_bytes (of_nat (length s)) @ bytes_of_string s)"
    unfolding put_string_def uint64_of_nat by (intro writes_intros)
  then show ?thesis by (simp add: enc_block_def len_prefixed_def)
qed

lemma writes_wif_string [writes_intros]:
  "writes (wif (0 < int (length s)) (put_string tag s)) (enc_string tag s)"
  using writes_put_string [of tag s] by (simp add: wif_def enc_string_def writes_Ok)

lemma writes_wif_bool [writes_intros]: "writes (wif b (put_bool tag b)) (enc_bool tag b)"
  using writes_wseq [OF writes_put_byte [of tag] writes_put_byte [of 1]]
  by (simp add: wif_def enc_bool_def put_bool_def writes_Ok)

lemma map_entry_size_enc: "map_entry_size k v = int64 (int (length (enc_pair (k, v))))"
  by (simp add: map_entry_size_def enc_pair_def enc_block_def len_prefixed_def sovApi_length
      algebra_simps)

lemma writes_put_map_entry [writes_intros]:
  "writes (put_map_entry tag p) (enc_block tag (enc_pair p))"
proof (cases p)
  case (Pair k v)
  have "writes (put_map_entry tag (k, v)) ([tag] @ varint_bytes (of_nat (length (enc_pair (k, v)))) @
      enc_block 10 (bytes_of_string k) @ enc_block 18 (bytes_of_string v))"
    unfolding put_map_entry_def prod.case map_entry_size_enc uint64_of_int64 uint64_of_nat
    by (intro writes_intros)
  then show ?thesis by (simp add: Pair enc_block_def len_prefixed_def enc_pair_def)
qed

section \<open>Sizes\<close>

lemma sum_sizes_int64: "sum_sizes ks = int64 (sum_list ks)"
proof -
  have "foldl (\<lambda>n k. int64 (n + k)) (int64 a) ks = int64 (a + sum_list ks)" for a
  proof (induction ks arbitrary: a)
    case (Cons k ks)
    have "foldl (\<lambda>n k. int64 (n + k)) (int64 a) (k # ks) = foldl (\<lambda>n k. int64 (n + k)) (int64 (a + k)) ks"
      by simp
    also have "\<dots> = int64 (a + k + sum_list ks)" by (rule Cons)
    finally show ?case by (simp add: add.assoc)
  qed simp
  from this [of 0] show ?thesis by (simp add: sum_sizes_def)
qed

text \<open>A size computation agrees with an encoding up to the wrap-around of \<open>int\<close>.\<close>

definition sizes :: "int \<Rightarrow> bytes \<Rightarrow> bool" where
  "sizes n bs \<longleftrightarrow> int64 n = int64 (int (length bs))"

named_theorems sizes_intros \<open>composing sizes\<close>

lemma sizes_field [sizes_intros]: "sizes l bs \<Longrightarrow> sizes (field_size l) (enc_block tag bs)"
proof -
  assume "sizes l bs"
  then have l: "int64 l = int64 (int (length bs))" by (simp add: sizes_def)
  have "uint64_of_int l = of_nat (length bs)"
    using uint64_of_int64 [of l] uint64_of_int64 [of "int (length bs)"] l by (simp del: uint64_of_int64)
  moreover have eq: "int64 (1 + l + k) = int64 (1 + int (length bs) + k)" for k
    using l int64_add_left [of l "1 + k"] int64_add_left [of "int (length bs)" "1 + k"]
    by (simp add: algebra_simps del: int64_add_left)
  ultimately show ?thesis
    by (simp add: sizes_def field_size_def eq sovApi_length)
      (simp add: enc_block_def len_prefixed_def add_ac)
qed

lemma sizes_length [sizes_intros]: "sizes (int (length s)) (bytes_of_string s)"
  by (simp add: sizes_def)

lemma sizes_string [sizes_intros]: "sizes (string_size s) (enc_string tag s)"
  using sizes_field [OF sizes_length, of s tag]
  by (simp add: string_size_def enc_string_def sizes_def)

lemma sizes_bool [sizes_intros]: "sizes (if b then 2 else 0) (enc_bool tag b)"
  by (simp add: sizes_def enc_bool_def)

lemma sizes_map_entry [sizes_intros]:
  "sizes (int64 (map_entry_size k v + 1 + sovApi (uint64_of_int (map_entry_size k v))))
     (enc_block tag (enc_pair (k, v)))"
proof -
  have "sizes (map_entry_size k v) (enc_pair (k, v))" by (simp add: sizes_def map_entry_size_enc)
  from sizes_field [OF this, of tag] show ?thesis by (simp add: field_size_def add_ac)
qed

lemma sizes_sum_Nil [sizes_intros]: "sizes (sum_sizes []) (concat [])"
  by (simp add: sizes_def sum_sizes_def)

lemma sizes_sum_Cons [sizes_intros]:
  assumes "sizes k xs" "sizes (sum_sizes ks) (concat yss)"
  shows "sizes (sum_sizes (k # ks)) (concat (xs # yss))"
proof -
  have "int64 (k + sum_list ks) = int64 (int64 k + int64 (sum_list ks))" by simp
  also have "\<dots> = int64 (int64 (int (length xs)) + int64 (int (length (concat yss))))"
    using assms by (simp only: sizes_def sum_sizes_int64 int64_idem)
  finally show ?thesis by (simp add: sizes_def sum_sizes_int64)
qed

lemma sizes_sum_append [sizes_intros]:
  assumes "sizes (sum_sizes ks) (concat xss)" "sizes (sum_sizes ls) (concat yss)"
  shows "sizes (sum_sizes (ks @ ls)) (concat (xss @ yss))"
proof -
  have "int64 (sum_list ks + sum_list ls) = int64 (int64 (sum_list ks) + int64 (sum_list ls))" by simp
  also have "\<dots> = int64 (int64 (int (length (concat xss))) + int64 (int (length (concat yss))))"
    using assms by (simp only: sizes_def sum_sizes_int64 int64_idem)
  finally show ?thesis by (simp add: sizes_def sum_sizes_int64)
qed

lemma sizes_option [sizes_intros]:
  "(\<And>x. o' = Some x \<Longrightarrow> sizes (k x) (e x)) \<Longrightarrow>
   sizes (sum_sizes (case o' of None \<Rightarrow> [] | Some x \<Rightarrow> [k x]))
     (concat (case o' of None \<Rightarrow> [] | Some x \<Rightarrow> [e x]))"
  using sizes_sum_Nil sizes_sum_Cons [OF _ sizes_sum_Nil] by (cases o') auto

lemma sizes_sum_map [sizes_intros]:
  assumes "\<And>x. sizes (f x) (g x)"
  shows "sizes (sum_sizes (map f xs)) (concat (map g xs))"
proof (induction xs)
  case (Cons x xs)
  from sizes_sum_Cons [OF assms this] show ?case by simp
qed (simp add: sizes_sum_Nil [simplified])

section \<open>The marshalling interface\<close>

text \<open>
  What every message type promises its callers (\<open>Marshal\<close>, the enclosing messages): \<open>Size\<close> is
  the length of a reference encoding and \<open>MarshalTo\<close> writes that encoding.
\<close>

locale marshaller =
  fixes Size :: "'m \<Rightarrow> int"
    and MarshalTo :: "'m \<Rightarrow> bytes \<Rightarrow> (bytes \<times> int) pres"
    and enc :: "'m \<Rightarrow> bytes"
  assumes Size_enc: "Size m = int64 (int (length (enc m)))"
    and MarshalTo_enc: "length (enc m) \<le> length buf \<Longrightarrow> length buf < 2 ^ 63 \<Longrightarrow>
      MarshalTo m buf = Ok (enc m @ drop (length (enc m)) buf, int (length (enc m)))"
begin

lemma nested_writes: "writes (put_nested (MarshalTo m)) (enc m)"
  by (rule writes_put_nested) (rule MarshalTo_enc)

lemma field_writes: "writes (put_message tag (Size m) (MarshalTo m)) (enc_block tag (enc m))"
proof -
  have "writes (put_message tag (Size m) (MarshalTo m))
      ([tag] @ varint_bytes (of_nat (length (enc m))) @ enc m)"
    unfolding put_message_def Size_enc uint64_of_int64 uint64_of_nat
    by (intro writes_intros nested_writes)
  then show ?thesis by (simp add: enc_block_def len_prefixed_def)
qed

lemma field_sizes: "sizes (field_size (Size m)) (enc_block tag (enc m))"
  by (rule sizes_field) (simp add: sizes_def Size_enc)

lemma marshal_enc: "length (enc m) < 2 ^ 63 \<Longrightarrow> marshal Size MarshalTo m = Ok (enc m)"
  by (simp add: marshal_def Size_enc MarshalTo_enc gslice_def)

end

lemma marshallerI:
  assumes "\<And>m. Sz m = sum_sizes (ks m)" and "\<And>m. sizes (sum_sizes (ks m)) (e m)"
    and "\<And>m buf. Mt m buf = run_writer (w m) buf" and "\<And>m. writes (w m) (e m)"
  shows "marshaller Sz Mt e"
proof
  fix m
  show "Sz m = int64 (int (length (e m)))"
    using assms(1,2) [of m] by (simp add: sizes_def sum_sizes_int64)
next
  fix m and buf :: bytes
  assume "length (e m) \<le> length buf" "length buf < 2 ^ 63"
  with writesD [OF assms(4), where pre = "[]"] assms(3)
  show "Mt m buf = Ok (e m @ drop (length (e m)) buf, int (length (e m)))"
    by (simp add: run_writer_def)
qed

section \<open>What the readers read\<close>

lemma sint_of_nat: "n < 2 ^ 63 \<Longrightarrow> sint (of_nat n :: uint64) = int n"
  by (simp add: signed_of_nat signed_take_bit_int_eq_self)

lemma read_block_written:
  assumes "i = int (length pre)" "length pre + length (len_prefixed bs) + length post < 2 ^ 63"
  shows "read_block (pre @ len_prefixed bs @ post) i =
    Ok (i + int (length (len_prefixed bs)) - int (length bs), i + int (length (len_prefixed bs)))"
  using assms by (simp add: read_block_def len_prefixed_def read_varint_written sint_of_nat)

lemma read_bytes_written:
  assumes "i = int (length pre)" "length pre + length (len_prefixed bs) + length post < 2 ^ 63"
  shows "read_bytes (pre @ len_prefixed bs @ post) i = Ok (i + int (length (len_prefixed bs)), bs)"
proof -
  let ?v = "varint_bytes (of_nat (length bs))"
  have "gslice ((pre @ ?v) @ bs @ post) (int (length (pre @ ?v))) (int (length (pre @ ?v)) + int (length bs))
      = (Ok bs :: bytes pres)"
    by (rule gslice_append) simp_all
  with read_block_written [OF assms] assms show ?thesis
    by (simp add: read_bytes_def len_prefixed_def add_ac)
qed

lemma read_string_written:
  assumes "i = int (length pre)"
    and "length pre + length (len_prefixed (bytes_of_string s)) + length post < 2 ^ 63"
  shows "read_string (pre @ len_prefixed (bytes_of_string s) @ post) i =
    Ok (i + int (length (len_prefixed (bytes_of_string s))), s)"
  using read_bytes_written [OF assms] by (simp add: read_string_def)

lemma read_bool_written:
  "i = int (length pre) \<Longrightarrow> read_bool (pre @ 1 # post) i = Ok (i + 1, True)"
  using read_varint_written [of i pre 1 post]
  by (simp add: read_bool_def varint_bytes.simps [of 1])

lemma read_map_entry_written:
  assumes "i = int (length pre)"
    and "length pre + length (len_prefixed (enc_pair p)) + length post < 2 ^ 63"
  shows "read_map_entry (pre @ len_prefixed (enc_pair p) @ post) i =
    Ok (i + int (length (len_prefixed (enc_pair p))), p)"
proof (cases p)
  case (Pair k v)
  let ?v = "varint_bytes (of_nat (length (enc_pair p)))"
  let ?k = "len_prefixed (bytes_of_string k)" and ?w = "len_prefixed (bytes_of_string v)"
  let ?d = "pre @ ?v @ 10 # ?k @ 18 # ?w @ post"
  have d: "pre @ len_prefixed (enc_pair p) @ post = ?d"
    by (simp add: Pair enc_pair_def len_prefixed_def enc_block_def)
  have len: "length (len_prefixed (enc_pair p)) = length ?v + length ?k + length ?w + 2"
    by (simp add: Pair enc_pair_def len_prefixed_def enc_block_def)
  have pair: "length (enc_pair p) = length ?k + length ?w + 2"
    by (simp add: Pair enc_pair_def len_prefixed_def enc_block_def)
  have tags: "varint_bytes 10 = [10]" "varint_bytes 18 = [18]"
    by (simp_all add: varint_bytes.simps [of 10] varint_bytes.simps [of 18])
  have 1: "read_block ?d i = Ok (i + int (length ?v), i + int (length (len_prefixed (enc_pair p))))"
    using read_block_written [OF assms] unfolding d by (simp add: len pair)
  have 2: "read_varint ?d (i + int (length ?v)) = Ok (i + int (length ?v) + 1, 10)"
    using read_varint_written [of "i + int (length ?v)" "pre @ ?v" 10 "?k @ 18 # ?w @ post"] assms(1)
    by (simp add: tags)
  have 3: "read_string ?d (i + int (length ?v) + 1) = Ok (i + int (length ?v) + 1 + int (length ?k), k)"
    using read_string_written [of "i + int (length ?v) + 1" "pre @ ?v @ [10]" k "18 # ?w @ post"] assms
    unfolding d by (simp add: len)
  have 4: "read_varint ?d (i + int (length ?v) + 1 + int (length ?k)) =
      Ok (i + int (length ?v) + 1 + int (length ?k) + 1, 18)"
    using read_varint_written [of "i + int (length ?v) + 1 + int (length ?k)" "pre @ ?v @ 10 # ?k" 18
        "?w @ post"] assms(1)
    by (simp add: tags)
  have 5: "read_string ?d (i + int (length ?v) + 1 + int (length ?k) + 1) =
      Ok (i + int (length ?v) + 1 + int (length ?k) + 1 + int (length ?w), v)"
    using read_string_written [of "i + int (length ?v) + 1 + int (length ?k) + 1"
        "pre @ ?v @ 10 # ?k @ [18]" v post] assms
    unfolding d by (simp add: len)
  have 6: "i + int (length ?v) + 1 + int (length ?k) < i + int (length (len_prefixed (enc_pair p)))"
    by (simp add: len)
  show ?thesis
    unfolding d read_map_entry_def
    by (simp only: 1 2 3 4 5 6 res_bind_simps prod.case if_True) (simp add: Pair)
qed

section \<open>Progress of the readers\<close>

lemma read_block_Ok:
  assumes "read_block dAtA i = Ok (j, p)" "length dAtA < 2 ^ 63"
  shows "0 \<le> i \<and> i < j \<and> j \<le> int (length dAtA) \<and> (j \<le> p \<or> p < 0)"
proof -
  from assms(1) obtain v where v: "read_varint dAtA i = Ok (j, v)" "0 \<le> sint v" "p = int64 (j + sint v)"
    by (auto simp: read_block_def Let_def split: if_splits)
  have "0 \<le> i \<and> i < j \<and> j \<le> int (length dAtA)" using v(1) by (rule read_varint_Ok)
  with v assms(2) sint_lt [of v] show ?thesis by (auto simp: int64_cases)
qed

lemma read_block_not_Stuck [simp]: "read_block dAtA i \<noteq> Stuck"
  by (auto simp: read_block_def res_bind_eq_Stuck Let_def split: if_splits)

lemma read_bytes_Ok:
  assumes "read_bytes dAtA i = Ok (p, bs)" "length dAtA < 2 ^ 63"
  shows "0 \<le> i \<and> i < p \<and> p \<le> int (length dAtA) \<and> length bs < length dAtA"
proof -
  from assms(1) obtain j where j: "read_block dAtA i = Ok (j, p)" and s: "gslice dAtA j p = (Ok bs :: bytes pres)"
    by (auto simp: read_bytes_def)
  from s have "j \<le> p" "p \<le> int (length dAtA)" "length bs = nat (p - j)"
    by (auto simp: gslice_def split: if_splits)
  with read_block_Ok [OF j assms(2)] show ?thesis by auto
qed

lemma read_bytes_not_Stuck [simp]: "read_bytes dAtA i \<noteq> Stuck"
  by (auto simp: read_bytes_def res_bind_eq_Stuck gslice_def split: if_splits)

lemma read_string_not_Stuck [simp]: "read_string dAtA i \<noteq> Stuck"
  by (auto simp: read_string_def res_bind_eq_Stuck)

lemma read_bool_not_Stuck [simp]: "read_bool dAtA i \<noteq> Stuck"
  by (auto simp: read_bool_def res_bind_eq_Stuck)

lemma read_map_entry_not_Stuck [simp]: "read_map_entry dAtA i \<noteq> Stuck"
  by (auto simp: read_map_entry_def res_bind_eq_Stuck split: if_splits)

text \<open>Reading a field leaves the index behind the tag or at a negative value, which the next
  iteration turns into an index panic.\<close>

definition moves :: "int \<Rightarrow> (int \<times> 'v) pres \<Rightarrow> bool" where
  "moves i r \<longleftrightarrow> r \<noteq> Stuck \<and> (\<forall>j v. r = Ok (j, v) \<longrightarrow> i < j \<or> j < 0)"

definition field_moves :: "int \<Rightarrow> 'm field_result \<Rightarrow> bool" where
  "field_moves i r \<longleftrightarrow> snd r \<noteq> Stuck \<and> (\<forall>j. snd r = Ok j \<longrightarrow> i < j \<or> j < 0)"

named_theorems moves_intros \<open>progress of the field readers\<close>

lemma moves_readers [moves_intros]:
  assumes "length dAtA < 2 ^ 63"
  shows "moves i (read_bytes dAtA i)" "moves i (read_string dAtA i)" "moves i (read_bool dAtA i)"
    "moves i (read_map_entry dAtA i)"
proof -
  show "moves i (read_bytes dAtA i)" using assms by (auto simp: moves_def dest: read_bytes_Ok)
  show "moves i (read_string dAtA i)"
    unfolding moves_def using assms by (simp, auto simp: read_string_def dest: read_bytes_Ok)
  show "moves i (read_bool dAtA i)"
    unfolding moves_def by (simp, auto simp: read_bool_def dest: read_varint_Ok)
  have "i < j \<or> j < 0" if "read_map_entry dAtA i = Ok (j, kv)" for j kv
  proof -
    from that obtain a where "read_block dAtA i = Ok (a, j)"
      by (auto simp: read_map_entry_def split: if_splits)
    from read_block_Ok [OF this assms] show ?thesis by auto
  qed
  then show "moves i (read_map_entry dAtA i)" by (auto simp: moves_def)
qed

lemma field_moves_value [moves_intros]: "moves i r \<Longrightarrow> field_moves i (on_value want f wt r upd m)"
  by (auto simp: field_moves_def moves_def on_value_def split: res.splits)

lemma field_moves_message [moves_intros]:
  "moves i r \<Longrightarrow> (\<And>j bs. r = Ok (j, bs) \<Longrightarrow> snd (sub bs) \<noteq> Stuck) \<Longrightarrow>
   field_moves i (on_message f wt r sub upd m)"
  by (fastforce simp: field_moves_def moves_def on_message_def res_bind_eq_Stuck split: res.splits prod.splits)

section \<open>The unmarshalling interface\<close>

text \<open>What the switch of an \<open>Unmarshal\<close> promises the loop around it.\<close>

lemma skip_field_moves:
  assumes "length dAtA < 2 ^ 63" "0 \<le> i" "i < int (length dAtA)"
  shows "res_bind (gslice_from dAtA i) skipApi \<noteq> Stuck"
    and "res_bind (gslice_from dAtA i) skipApi = Ok k \<Longrightarrow> i < int64 (i + k) \<or> int64 (i + k) < 0"
proof -
  have rest: "gslice_from dAtA i = (Ok (drop (nat i) dAtA) :: bytes pres)"
    using assms by (simp add: gslice_from_def gslice_def)
  show "res_bind (gslice_from dAtA i) skipApi \<noteq> Stuck"
    using skipApi_returns [of "drop (nat i) dAtA"] assms by (simp add: rest)
  show "i < int64 (i + k) \<or> int64 (i + k) < 0" if "res_bind (gslice_from dAtA i) skipApi = Ok k"
    using that skipApi_Ok_good [of "drop (nat i) dAtA" k] skip_good_step [of i "length dAtA" k] assms
    by (simp add: rest)
qed

lemma loop_negative [simp]: "i < 0 \<Longrightarrow> 0 < n \<Longrightarrow> snd (unmarshal_loop n name fld dAtA i m) = Panic"
  by (cases n) (simp_all add: read_varint_negative)

locale unmarshaller =
  fixes name :: string and fld :: "'m handler"
  assumes fld_moves: "length dAtA < 2 ^ 63 \<Longrightarrow> pred_option (field_moves i) (fld num wt dAtA i m)"
begin

lemma loop_returns:
  "length dAtA < 2 ^ 63 \<Longrightarrow> length dAtA - nat i < n \<Longrightarrow> snd (unmarshal_loop n name fld dAtA i m) \<noteq> Stuck"
proof (induction n arbitrary: i m)
  case (Suc n)
  have next_ok: "snd (unmarshal_loop n name fld dAtA k m') \<noteq> Stuck"
    if "0 \<le> i" "i < int (length dAtA)" "i < k \<or> k < 0" for k m'
  proof (cases "k < 0")
    case True
    moreover have "0 < n" using that Suc.prems by linarith
    ultimately show ?thesis by simp
  next
    case False
    with that Suc.prems show ?thesis by (intro Suc.IH) linarith+
  qed
  show ?case
  proof (cases "i < int (length dAtA)")
    case True
    show ?thesis
    proof (cases "read_varint dAtA i")
      case (Ok p)
      then obtain j w where p: "read_varint dAtA i = Ok (j, w)" by (cases p) auto
      then have j: "0 \<le> i" "i < j" by (auto dest: read_varint_Ok)
      let ?num = "sint (ucast (drop_bit 3 w) :: 32 word)" and ?wt = "uint (w AND 7)"
      let ?sk = "res_bind (gslice_from dAtA i) skipApi"
      show ?thesis
      proof (cases "fld ?num ?wt dAtA j m")
        case None
        have "?sk \<noteq> Stuck" "\<And>k. ?sk = Ok k \<Longrightarrow> 0 \<le> k \<Longrightarrow> i < int64 (i + k) \<or> int64 (i + k) < 0"
          using skip_field_moves [OF Suc.prems(1) j(1) True] by auto
        with True p None next_ok [OF j(1) True] show ?thesis by (auto simp: Let_def split: res.splits)
      next
        case (Some r)
        with fld_moves [OF Suc.prems(1), of j ?num ?wt m] j
        have "snd r \<noteq> Stuck" "\<And>k. snd r = Ok k \<Longrightarrow> i < k \<or> k < 0"
          by (fastforce simp: field_moves_def)+
        with True p Some next_ok [OF j(1) True] show ?thesis by (auto simp: Let_def split: res.splits prod.splits)
      qed
    qed (use True in \<open>simp_all add: Let_def\<close>)
  qed (simp add: Let_def)
qed simp

lemma unmarshal_returns: "length dAtA < 2 ^ 63 \<Longrightarrow> snd (unmarshal name fld dAtA m) \<noteq> Stuck"
  unfolding unmarshal_def by (rule loop_returns) simp_all

end

section \<open>Reading what was written\<close>

text \<open>
  \<open>consumes name fld bs m m'\<close>: wherever the bytes \<open>bs\<close> stand in the input, the loop reads exactly
  them and turns the message \<open>m\<close> into \<open>m'\<close>. It is closed under concatenation, so an encoding is
  read field by field.
\<close>

definition consumes :: "string \<Rightarrow> 'm handler \<Rightarrow> bytes \<Rightarrow> 'm \<Rightarrow> 'm \<Rightarrow> bool" where
  "consumes name fld bs m m' \<longleftrightarrow> (\<forall>pre post n.
     length (pre @ bs @ post) < 2 ^ 63 \<longrightarrow> length (bs @ post) < n \<longrightarrow>
     (\<exists>n'. length post < n' \<and>
        unmarshal_loop n name fld (pre @ bs @ post) (int (length pre)) m =
        unmarshal_loop n' name fld (pre @ bs @ post) (int (length (pre @ bs))) m'))"

named_theorems consumes_intros \<open>composing what the loop reads\<close>

lemma consumes_Nil [consumes_intros]: "consumes name fld [] m m"
  by (auto simp: consumes_def)

lemma consumes_append [consumes_intros]:
  assumes "consumes name fld xs m m'" "consumes name fld ys m' m''"
  shows "consumes name fld (xs @ ys) m m''"
  unfolding consumes_def
proof (intro allI impI)
  fix pre post n
  assume len: "length (pre @ (xs @ ys) @ post) < 2 ^ 63" "length ((xs @ ys) @ post) < n"
  with assms(1) obtain n1 where n1: "length (ys @ post) < n1"
    "unmarshal_loop n name fld (pre @ xs @ ys @ post) (int (length pre)) m =
     unmarshal_loop n1 name fld (pre @ xs @ ys @ post) (int (length (pre @ xs))) m'"
    unfolding consumes_def by (metis append_assoc)
  with assms(2) len obtain n2 where "length post < n2"
    "unmarshal_loop n1 name fld ((pre @ xs) @ ys @ post) (int (length (pre @ xs))) m' =
     unmarshal_loop n2 name fld ((pre @ xs) @ ys @ post) (int (length ((pre @ xs) @ ys))) m''"
    unfolding consumes_def by (metis append_assoc)
  with n1 show "\<exists>n'. length post < n' \<and>
      unmarshal_loop n name fld (pre @ (xs @ ys) @ post) (int (length pre)) m =
      unmarshal_loop n' name fld (pre @ (xs @ ys) @ post) (int (length (pre @ xs @ ys))) m''"
    by auto
qed

lemma consumes_concat [consumes_intros]:
  assumes "\<And>x m. x \<in> set xs \<Longrightarrow> consumes name fld (g x) m (upd x m)"
  shows "consumes name fld (concat (map g xs)) m (fold upd xs m)"
  using assms by (induction xs arbitrary: m) (auto intro!: consumes_intros)

lemma unmarshal_consumes:
  assumes "consumes name fld bs m m'" "length bs < 2 ^ 63"
  shows "unmarshal name fld bs m = (m', Ok ())"
proof -
  from assms obtain n' where "0 < n'"
    "unmarshal_loop (length bs + 1) name fld bs 0 m = unmarshal_loop n' name fld bs (int (length bs)) m'"
    using assms(1) [unfolded consumes_def, rule_format, of "[]" "[]" "length bs + 1"] by auto
  then show ?thesis by (cases n') (simp_all add: unmarshal_def)
qed

text \<open>One field: a single-byte tag and a body that the handler reads.\<close>

definition tag_num :: "byte \<Rightarrow> int" where
  "tag_num tag = uint (drop_bit 3 tag)"

definition tag_type :: "byte \<Rightarrow> int" where
  "tag_type tag = uint (tag AND 7)"

lemma varint_bytes_tag: "tag < 128 \<Longrightarrow> varint_bytes (ucast (tag :: byte)) = [tag]"
proof -
  assume tag: "tag < 128"
  then have "(ucast tag :: uint64) < 128" by (simp add: word_less_nat_alt unsigned_ucast_eq take_bit_eq_mod)
  moreover have "ucast (ucast tag :: uint64) = tag" by (rule bit_word_eqI) (auto simp: bit_simps)
  ultimately show ?thesis by (simp add: varint_bytes.simps [of "ucast tag"])
qed

lemma wire_tag:
  "sint (ucast (drop_bit 3 (ucast tag :: uint64)) :: 32 word) = tag_num tag"
  "uint ((ucast tag :: uint64) AND 7) = tag_type tag"
proof -
  have "(ucast (drop_bit 3 (ucast tag :: uint64)) :: 32 word) = ucast (drop_bit 3 tag)"
    by (rule bit_word_eqI) (auto simp: bit_simps dest: bit_imp_le_length)
  moreover have "uint (drop_bit 3 tag) < 2 ^ 31"
    using uint_range_size [of "drop_bit 3 tag"] by (simp add: word_size)
  moreover have "- (2 ^ 31) \<le> uint (drop_bit 3 tag)"
    by (rule order_trans [of _ 0]) simp_all
  moreover note signed_take_bit_int_eq_self [OF this]
  ultimately show "sint (ucast (drop_bit 3 (ucast tag :: uint64)) :: 32 word) = tag_num tag"
    by (simp add: tag_num_def signed_ucast_eq)
  have "(ucast tag :: uint64) AND 7 = ucast (tag AND 7)"
    by (rule bit_word_eqI) (auto simp: bit_simps dest: bit_imp_le_length)
  moreover have "uint (tag AND 7) < 2 ^ 64" using uint_range_size [of "tag AND 7"] by (simp add: word_size)
  ultimately show "uint ((ucast tag :: uint64) AND 7) = tag_type tag"
    by (simp add: tag_type_def unsigned_ucast_eq take_bit_int_eq_self)
qed

lemma consumes_field:
  assumes "tag < 128" "tag_type tag \<noteq> 4" "0 < tag_num tag"
    and "\<And>pre post. length (pre @ tag # body @ post) < 2 ^ 63 \<Longrightarrow>
      fld (tag_num tag) (tag_type tag) (pre @ tag # body @ post) (int (length pre) + 1) m =
        Some (m', Ok (int (length pre) + 1 + int (length body)))"
  shows "consumes name fld (tag # body) m m'"
  unfolding consumes_def
proof (intro allI impI)
  fix pre post n
  assume len: "length (pre @ (tag # body) @ post) < 2 ^ 63" "length ((tag # body) @ post) < n"
  then obtain n' where n: "n = Suc n'" "length post < n'" by (cases n) auto
  have "read_varint (pre @ tag # body @ post) (int (length pre)) = Ok (int (length pre) + 1, ucast tag)"
    using read_varint_written [of "int (length pre)" pre "ucast tag" "body @ post"] assms(1)
    by (simp add: varint_bytes_tag)
  moreover have "fld (tag_num tag) (tag_type tag) (pre @ tag # body @ post) (int (length pre) + 1) m =
      Some (m', Ok (int (length pre) + 1 + int (length body)))"
    using assms(4) [of pre post] len by simp
  ultimately have "unmarshal_loop n name fld (pre @ tag # body @ post) (int (length pre)) m =
      unmarshal_loop n' name fld (pre @ tag # body @ post) (int (length pre) + 1 + int (length body)) m'"
    using assms(2,3) by (simp add: n Let_def wire_tag)
  with n show "\<exists>n'. length post < n' \<and>
      unmarshal_loop n name fld (pre @ (tag # body) @ post) (int (length pre)) m =
      unmarshal_loop n' name fld (pre @ (tag # body) @ post) (int (length (pre @ tag # body))) m'"
    by (intro exI [of _ n']) (simp add: add_ac)
qed

text \<open>The kinds of fields, read by the handlers the messages use. Each lemma asks only that the
  handler's \<open>case\<close> for the tag is the matching reader.\<close>

lemma consumes_string:
  assumes "tag < 128" "tag_type tag = 2" "0 < tag_num tag"
    and "\<And>d i m. fld (tag_num tag) 2 d i m = Some (on_value 2 f 2 (read_string d i) upd m)"
  shows "consumes name fld (enc_block tag (bytes_of_string s)) m (upd s m)"
  unfolding enc_block_def
proof (rule consumes_field)
  fix pre post
  assume "length (pre @ tag # len_prefixed (bytes_of_string s) @ post) < 2 ^ 63"
  then have "read_string ((pre @ [tag]) @ len_prefixed (bytes_of_string s) @ post) (int (length pre) + 1) =
      Ok (int (length pre) + 1 + int (length (len_prefixed (bytes_of_string s))), s)"
    by (intro read_string_written) simp_all
  with assms show "fld (tag_num tag) (tag_type tag) (pre @ tag # len_prefixed (bytes_of_string s) @ post)
      (int (length pre) + 1) m =
      Some (upd s m, Ok (int (length pre) + 1 + int (length (len_prefixed (bytes_of_string s)))))"
    by (simp add: on_value_def)
qed (use assms in auto)

lemma consumes_opt_string [consumes_intros]:
  assumes "tag < 128" "tag_type tag = 2" "0 < tag_num tag"
    and "\<And>d i m. fld (tag_num tag) 2 d i m = Some (on_value 2 f 2 (read_string d i) upd m)"
    and "s = [] \<Longrightarrow> upd [] m = m"
  shows "consumes name fld (enc_string tag s) m (upd s m)"
  using consumes_string [where tag = tag and fld = fld and upd = upd and f = f, OF assms(1-4)] assms(5)
  by (auto simp: enc_string_def intro: consumes_Nil)

lemma consumes_bool [consumes_intros]:
  assumes "tag < 128" "tag_type tag = 0" "0 < tag_num tag"
    and "\<And>d i m. fld (tag_num tag) 0 d i m = Some (on_value 0 f 0 (read_bool d i) upd m)"
    and "\<not> b \<Longrightarrow> upd False m = m"
  shows "consumes name fld (enc_bool tag b) m (upd b m)"
proof (cases b)
  case True
  have "consumes name fld (tag # [1]) m (upd True m)"
  proof (rule consumes_field)
    fix pre post :: bytes
    have "read_bool ((pre @ [tag]) @ 1 # post) (int (length pre) + 1) = Ok (int (length pre) + 1 + 1, True)"
      by (rule read_bool_written) simp
    with assms show "fld (tag_num tag) (tag_type tag) (pre @ tag # [1] @ post) (int (length pre) + 1) m =
        Some (upd True m, Ok (int (length pre) + 1 + int (length [1 :: byte])))"
      by (simp add: on_value_def)
  qed (use assms in auto)
  with True show ?thesis by (simp add: enc_bool_def)
qed (use assms(5) in \<open>simp add: enc_bool_def consumes_Nil\<close>)

lemma consumes_map_entry:
  assumes "tag < 128" "tag_type tag = 2" "0 < tag_num tag"
    and "\<And>d i m. fld (tag_num tag) 2 d i m = Some (on_value 2 f 2 (read_map_entry d i) upd m)"
  shows "consumes name fld (enc_block tag (enc_pair p)) m (upd p m)"
  unfolding enc_block_def
proof (rule consumes_field)
  fix pre post
  assume "length (pre @ tag # len_prefixed (enc_pair p) @ post) < 2 ^ 63"
  then have "read_map_entry ((pre @ [tag]) @ len_prefixed (enc_pair p) @ post) (int (length pre) + 1) =
      Ok (int (length pre) + 1 + int (length (len_prefixed (enc_pair p))), p)"
    by (intro read_map_entry_written) simp_all
  with assms show "fld (tag_num tag) (tag_type tag) (pre @ tag # len_prefixed (enc_pair p) @ post)
      (int (length pre) + 1) m =
      Some (upd p m, Ok (int (length pre) + 1 + int (length (len_prefixed (enc_pair p)))))"
    by (simp add: on_value_def)
qed (use assms in auto)

lemma consumes_message:
  assumes "tag < 128" "tag_type tag = 2" "0 < tag_num tag"
    and "\<And>d i. fld (tag_num tag) 2 d i m = Some (on_message f 2 (read_bytes d i) sub upd m)"
    and "length bs < 2 ^ 63 \<Longrightarrow> sub bs = (s, Ok ())"
  shows "consumes name fld (enc_block tag bs) m (upd s m)"
  unfolding enc_block_def
proof (rule consumes_field)
  fix pre post
  assume len: "length (pre @ tag # len_prefixed bs @ post) < 2 ^ 63"
  then have "sub bs = (s, Ok ())" by (intro assms(5)) (simp add: len_prefixed_def)
  moreover from len have "read_bytes ((pre @ [tag]) @ len_prefixed bs @ post) (int (length pre) + 1) =
      Ok (int (length pre) + 1 + int (length (len_prefixed bs)), bs)"
    by (intro read_bytes_written) simp_all
  ultimately show "fld (tag_num tag) (tag_type tag) (pre @ tag # len_prefixed bs @ post)
      (int (length pre) + 1) m = Some (upd s m, Ok (int (length pre) + 1 + int (length (len_prefixed bs))))"
    using assms by (simp add: on_message_def)
qed (use assms in auto)

lemma consumes_part [consumes_intros]:
  "consumes name fld xs m m' \<Longrightarrow> consumes name fld (concat [xs]) m m'"
  by simp

lemma consumes_parts [consumes_intros]:
  "consumes name fld (concat xss) m m' \<Longrightarrow> consumes name fld (concat yss) m' m'' \<Longrightarrow>
   consumes name fld (concat (xss @ yss)) m m''"
  by (simp add: consumes_append)

text \<open>The tags of the messages: field number and wire type.\<close>

text \<open>A length-delimited field whose number the handler does not know is stepped over.\<close>

lemma skipApi_block:
  assumes "tag < 128" "tag_type tag = 2" "length (enc_block tag body @ post) < 2 ^ 63"
  shows "skipApi (enc_block tag body @ post) = Ok (int (length (enc_block tag body)))"
proof -
  let ?v = "varint_bytes (of_nat (length body))"
  let ?d = "tag # ?v @ body @ post"
  have d: "enc_block tag body @ post = ?d" by (simp add: enc_block_def len_prefixed_def)
  have len: "length (enc_block tag body) = 1 + length ?v + length body"
    by (simp add: enc_block_def len_prefixed_def)
  have 1: "read_varint ?d 0 = Ok (1, ucast tag)"
    using read_varint_written [of 0 "[]" "ucast tag" "?v @ body @ post"] assms(1)
    by (simp add: varint_bytes_tag)
  have 2: "read_varint ?d 1 = Ok (1 + int (length ?v), of_nat (length body))"
    using read_varint_written [of 1 "[tag]" "of_nat (length body)" "body @ post"] by simp
  have body: "length body < 2 ^ 63" using assms(3) by (simp add: len)
  have "int64 (1 + int (length ?v) + int (length body)) = 1 + int (length ?v) + int (length body)"
    using assms(3) by (intro int64_id) (simp_all add: len)
  then show ?thesis
    unfolding skipApi_def d Suc_eq_plus1 [symmetric]
    by (simp add: 1 2 wire_tag assms(2) sint_of_nat [OF body] len Let_def)
qed

lemma consumes_unknown:
  assumes "tag < 128" "tag_type tag = 2" "0 < tag_num tag"
    and "\<And>d i m. fld (tag_num tag) 2 d i m = None"
  shows "consumes name fld (enc_block tag body) m m"
  unfolding consumes_def
proof (intro allI impI)
  fix pre post n
  let ?d = "pre @ enc_block tag body @ post" and ?l = "length (enc_block tag body)"
  assume len: "length ?d < 2 ^ 63" "length (enc_block tag body @ post) < n"
  then obtain n' where n: "n = Suc n'" "length post < n'"
    by (cases n) (auto simp: enc_block_def)
  have tag: "read_varint ?d (int (length pre)) = Ok (int (length pre) + 1, ucast tag)"
    using read_varint_written [of "int (length pre)" pre "ucast tag" "len_prefixed body @ post"] assms(1)
    by (simp add: varint_bytes_tag enc_block_def)
  have rest: "gslice_from ?d (int (length pre)) = (Ok (enc_block tag body @ post) :: bytes pres)"
    by (rule gslice_from_append) simp
  have skip: "skipApi (enc_block tag body @ post) = Ok (int ?l)"
    using assms(1,2) len(1) by (intro skipApi_block) simp_all
  have "int64 (int (length pre) + int ?l) = int (length pre) + int ?l"
    using len(1) by (intro int64_id) simp_all
  moreover have "0 < int ?l" by (simp add: enc_block_def)
  then have "0 < int ?l + int (length post)" by linarith
  ultimately have "unmarshal_loop n name fld ?d (int (length pre)) m =
      unmarshal_loop n' name fld ?d (int (length (pre @ enc_block tag body))) m"
    unfolding n(1) using assms(2-4) len(1)
    by (simp add: tag rest skip wire_tag Let_def)
  with n(2) show "\<exists>n'. length post < n' \<and>
      unmarshal_loop n name fld ?d (int (length pre)) m =
      unmarshal_loop n' name fld ?d (int (length (pre @ enc_block tag body))) m" by blast
qed

lemma tag_simps [simp]:
  "tag_num 8 = 1" "tag_num 10 = 1" "tag_num 18 = 2" "tag_num 24 = 3" "tag_num 26 = 3" "tag_num 34 = 4"
  "tag_type 8 = 0" "tag_type 10 = 2" "tag_type 18 = 2" "tag_type 24 = 0" "tag_type 26 = 2" "tag_type 34 = 2"
  by (simp_all add: tag_num_def tag_type_def)

text \<open>
  A length that makes the end index overflow: after \<open>pre\<close>, which ends with the tag of a field, the
  bytes announce \<open>len\<close> bytes, and the index of the end of the field is beyond the range of \<open>int\<close>. The check of
  the end index does not see it, since the index has become negative, and the slice panics.
\<close>

definition end_overflows :: "bytes \<Rightarrow> uint64 \<Rightarrow> bytes \<Rightarrow> bool" where
  "end_overflows pre len rest \<longleftrightarrow> uint len < 2 ^ 63 \<and> length (pre @ varint_bytes len @ rest) < 2 ^ 63 \<and>
     2 ^ 63 \<le> int (length (pre @ varint_bytes len)) + uint len"

lemma sint_small: "uint (v :: uint64) < 2 ^ 63 \<Longrightarrow> sint v = uint v"
  using signed_take_bit_int_eq_self [of 63 "uint v"] order_trans [OF _ uint_ge_0 [of v], of "- (2 ^ 63)"]
  by (simp add: sint_uint)

lemma read_bytes_overflow:
  assumes "end_overflows pre len rest"
  shows "read_bytes (pre @ varint_bytes len @ rest) (int (length pre)) = Panic"
proof -
  let ?i = "int (length pre) + int (length (varint_bytes len))"
  have n: "uint len < 2 ^ 63" "?i < 2 ^ 63" "2 ^ 63 \<le> ?i + uint len"
    using assms by (simp_all add: end_overflows_def)
  have "int64 (?i + uint len) = ?i + uint len - 2 ^ 64"
    using n int64_cases [of "?i + uint len"] by simp
  moreover have "sint len = uint len" using n(1) by (rule sint_small)
  ultimately have "read_block (pre @ varint_bytes len @ rest) (int (length pre)) = Ok (?i, ?i + uint len - 2 ^ 64)"
    unfolding read_block_def read_varint_written [OF refl] using n by simp
  with n show ?thesis by (simp add: read_bytes_def gslice_def)
qed

lemma loop_overflow:
  assumes "tag < 128" "tag_type tag = 2" "0 < tag_num tag"
    and "\<And>d i m. read_bytes d i = Panic \<Longrightarrow> fld (tag_num tag) 2 d i m = Some (m, Panic)"
    and "end_overflows (pre @ [tag]) len rest" "0 < n"
  shows "unmarshal_loop n name fld (pre @ tag # varint_bytes len @ rest) (int (length pre)) m = (m, Panic)"
proof -
  obtain k where n: "n = Suc k" using assms(6) by (cases n) auto
  let ?d = "pre @ tag # varint_bytes len @ rest"
  have "read_varint ?d (int (length pre)) = Ok (int (length pre) + 1, ucast tag)"
    using read_varint_written [of "int (length pre)" pre "ucast tag" "varint_bytes len @ rest"] assms(1)
    by (simp add: varint_bytes_tag)
  moreover have "fld (tag_num tag) 2 ?d (int (length pre) + 1) m = Some (m, Panic)"
    using read_bytes_overflow [OF assms(5)] by (intro assms(4)) (simp add: add.commute)
  ultimately show ?thesis using assms(2,3) by (simp add: n Let_def wire_tag)
qed

lemma read_string_Panic [simp]: "read_bytes d i = Panic \<Longrightarrow> read_string d i = Panic"
  by (simp add: read_string_def)

section \<open>Messages\<close>

text \<open>
  Both sides together: the encoding of a well-formed message, read into the zero value of its
  type, gives the message back. The round trip through \<open>Marshal\<close> and \<open>Unmarshal\<close>, the
  injectivity of \<open>Marshal\<close> and the use of a message inside another follow for every message.
\<close>

locale message = marshaller Size MarshalTo enc + unmarshaller name fld
  for Size :: "'m \<Rightarrow> int" and MarshalTo :: "'m \<Rightarrow> bytes \<Rightarrow> (bytes \<times> int) pres"
    and enc :: "'m \<Rightarrow> bytes" and name :: string and fld :: "'m handler" +
  fixes zero :: 'm and wf :: "'m \<Rightarrow> bool"
  assumes enc_consumed: "wf m \<Longrightarrow> consumes name fld (enc m) zero m"
begin

lemma unmarshal_enc:
  "wf m \<Longrightarrow> length (enc m) < 2 ^ 63 \<Longrightarrow> unmarshal name fld (enc m) zero = (m, Ok ())"
  by (rule unmarshal_consumes) (rule enc_consumed)

lemma roundtrip:
  assumes "wf m" "length (enc m) < 2 ^ 63"
  shows "\<exists>bs. marshal Size MarshalTo m = Ok bs \<and> int (length bs) = Size m \<and>
    unmarshal name fld bs zero = (m, Ok ())"
  using marshal_enc [OF assms(2)] unmarshal_enc [OF assms] assms(2) by (auto simp: Size_enc)

lemma unknown_field_ignored:
  assumes "wf m" "tag < 128" "tag_type tag = 2" "0 < tag_num tag"
    and "\<And>d i m. fld (tag_num tag) 2 d i m = None"
    and "length (enc m @ enc_block tag body) < 2 ^ 63"
  shows "unmarshal name fld (enc m @ enc_block tag body) zero = (m, Ok ())"
  using assms(6)
  by (rule unmarshal_consumes [rotated])
    (rule consumes_append [OF enc_consumed [OF assms(1)] consumes_unknown [where fld = fld, OF assms(2-5)]])

lemma overflow_panics:
  assumes "wf m" "tag < 128" "tag_type tag = 2" "0 < tag_num tag"
    and "\<And>d i m. read_bytes d i = Panic \<Longrightarrow> fld (tag_num tag) 2 d i m = Some (m, Panic)"
    and "end_overflows (enc m @ [tag]) len rest"
  shows "unmarshal name fld (enc m @ tag # varint_bytes len @ rest) zero = (m, Panic)"
proof -
  let ?post = "tag # varint_bytes len @ rest"
  have "length (enc m @ ?post) < 2 ^ 63" using assms(6) by (simp add: end_overflows_def)
  then obtain n where n: "length ?post < n"
    "unmarshal_loop (length (enc m @ ?post) + 1) name fld (enc m @ ?post) 0 zero =
     unmarshal_loop n name fld (enc m @ ?post) (int (length (enc m))) m"
    using enc_consumed [OF assms(1), unfolded consumes_def, rule_format, of "[]" ?post "length (enc m @ ?post) + 1"]
    by auto
  have "unmarshal_loop n name fld (enc m @ ?post) (int (length (enc m))) m = (m, Panic)"
    by (rule loop_overflow [where fld = fld, OF assms(2-6)]) (use n(1) in auto)
  with n(2) show ?thesis by (simp only: unmarshal_def)
qed

lemma marshal_inj:
  assumes "wf m" "length (enc m) < 2 ^ 63" "wf m'" "length (enc m') < 2 ^ 63"
    and "marshal Size MarshalTo m = marshal Size MarshalTo m'"
  shows "m = m'"
proof -
  from assms(5) marshal_enc [OF assms(2)] marshal_enc [OF assms(4)] have eq: "enc m = enc m'" by simp
  have "(m, Ok () :: unit pres) = unmarshal name fld (enc m) zero"
    by (rule unmarshal_enc [OF assms(1,2), symmetric])
  also have "\<dots> = (m', Ok ())" unfolding eq by (rule unmarshal_enc [OF assms(3,4)])
  finally show ?thesis by simp
qed

lemma repeated_consumed:
  assumes "tag < 128" "tag_type tag = 2" "0 < tag_num tag"
    and "\<And>d i m. outer (tag_num tag) 2 d i m =
      Some (on_message f 2 (read_bytes d i) (\<lambda>bs. unmarshal name fld bs zero) upd m)"
    and "\<forall>x\<in>set xs. wf x"
  shows "consumes nm outer (concat (map (\<lambda>x. enc_block tag (enc x)) xs)) m (fold upd xs m)"
proof (rule consumes_concat)
  fix x m
  assume "x \<in> set xs"
  with assms(5) show "consumes nm outer (enc_block tag (enc x)) m (upd x m)"
    by (intro consumes_message [where f = f and sub = "\<lambda>bs. unmarshal name fld bs zero"] assms(1-4))
      (simp add: unmarshal_enc)
qed

end

end
