(* ===== verification/DevicePluginApi.thy ===== *)
theory DevicePluginApi
  imports Codec "HOL-Library.AList"
begin

text \<open>
  The thirteen messages of the device plugin protocol, \<open>deviceplugin/v1beta1/api.pb.go\<close>: their
  data, the nil-safe getters, \<open>Size\<close>, \<open>MarshalTo\<close>, \<open>Marshal\<close> and \<open>Unmarshal\<close>. Every message is
  shown to implement the interfaces of theory \<open>Codec\<close>.

  A pointer to a message is an \<open>option\<close> where the code tests it against nil (the receivers of
  the getters, \<open>RegisterRequest.Options\<close>); the elements of the \<open>[]*T\<close> fields are never nil in
  the program and are modelled by their values. A Go map is an association list with distinct
  keys whose order stands for the order in which \<open>range\<close> visits it, which the language leaves
  open: the theorems hold for every such list.
\<close>

section \<open>The messages\<close>

type_synonym gomap = "(string \<times> string) list"

subsection \<open>DevicePluginOptions\<close>

record DevicePluginOptions =
  DevicePluginOptions_PreStartRequired :: bool

definition DevicePluginOptions_Reset :: DevicePluginOptions where
  "DevicePluginOptions_Reset = \<lparr>DevicePluginOptions_PreStartRequired = False\<rparr>"

definition DevicePluginOptions_GetPreStartRequired :: "DevicePluginOptions option \<Rightarrow> bool" where
  "DevicePluginOptions_GetPreStartRequired m = (case m of None \<Rightarrow> False | Some m \<Rightarrow> DevicePluginOptions_PreStartRequired m)"

definition DevicePluginOptions_Size :: "DevicePluginOptions \<Rightarrow> int" where
  "DevicePluginOptions_Size m = sum_sizes
     ([if DevicePluginOptions_PreStartRequired m then 2 else 0])"

definition DevicePluginOptions_MarshalTo :: "DevicePluginOptions \<Rightarrow> bytes \<Rightarrow> (bytes \<times> int) pres" where
  "DevicePluginOptions_MarshalTo m dAtA = run_writer (wall
     [wif (DevicePluginOptions_PreStartRequired m) (put_bool 8 (DevicePluginOptions_PreStartRequired m))]) dAtA"

definition DevicePluginOptions_Marshal :: "DevicePluginOptions \<Rightarrow> bytes pres" where
  "DevicePluginOptions_Marshal = marshal DevicePluginOptions_Size DevicePluginOptions_MarshalTo"

definition DevicePluginOptions_field :: "DevicePluginOptions handler" where
  "DevicePluginOptions_field fieldNum wireType dAtA iNdEx m =
     (if fieldNum = 1 then
         Some (on_value 0 ''PreStartRequired'' wireType (read_bool dAtA iNdEx)
           (\<lambda>v m. m\<lparr>DevicePluginOptions_PreStartRequired := v\<rparr>) m)
      else None)"

definition DevicePluginOptions_Unmarshal :: "bytes \<Rightarrow> DevicePluginOptions \<Rightarrow> DevicePluginOptions \<times> unit pres" where
  "DevicePluginOptions_Unmarshal = unmarshal ''DevicePluginOptions'' DevicePluginOptions_field"

subsection \<open>RegisterRequest\<close>

record RegisterRequest =
  RegisterRequest_Version :: string
  RegisterRequest_Endpoint :: string
  RegisterRequest_ResourceName :: string
  RegisterRequest_Options :: "DevicePluginOptions option"

definition RegisterRequest_Reset :: RegisterRequest where
  "RegisterRequest_Reset = \<lparr>RegisterRequest_Version = [], RegisterRequest_Endpoint = [], RegisterRequest_ResourceName = [], RegisterRequest_Options = None\<rparr>"

definition RegisterRequest_GetVersion :: "RegisterRequest option \<Rightarrow> string" where
  "RegisterRequest_GetVersion m = (case m of None \<Rightarrow> [] | Some m \<Rightarrow> RegisterRequest_Version m)"

definition RegisterRequest_GetEndpoint :: "RegisterRequest option \<Rightarrow> string" where
  "RegisterRequest_GetEndpoint m = (case m of None \<Rightarrow> [] | Some m \<Rightarrow> RegisterRequest_Endpoint m)"

definition RegisterRequest_GetResourceName :: "RegisterRequest option \<Rightarrow> string" where
  "RegisterRequest_GetResourceName m = (case m of None \<Rightarrow> [] | Some m \<Rightarrow> RegisterRequest_ResourceName m)"

definition RegisterRequest_GetOptions :: "RegisterRequest option \<Rightarrow> DevicePluginOptions option" where
  "RegisterRequest_GetOptions m = (case m of None \<Rightarrow> None | Some m \<Rightarrow> RegisterRequest_Options m)"

definition RegisterRequest_Size :: "RegisterRequest \<Rightarrow> int" where
  "RegisterRequest_Size m = sum_sizes
     ([string_size (RegisterRequest_Version m)] @
      [string_size (RegisterRequest_Endpoint m)] @
      [string_size (RegisterRequest_ResourceName m)] @
      (case RegisterRequest_Options m of None \<Rightarrow> [] | Some e \<Rightarrow> [field_size (DevicePluginOptions_Size e)]))"

definition RegisterRequest_MarshalTo :: "RegisterRequest \<Rightarrow> bytes \<Rightarrow> (bytes \<times> int) pres" where
  "RegisterRequest_MarshalTo m dAtA = run_writer (wall
     [wif (0 < int (length (RegisterRequest_Version m))) (put_string 10 (RegisterRequest_Version m)),
      wif (0 < int (length (RegisterRequest_Endpoint m))) (put_string 18 (RegisterRequest_Endpoint m)),
      wif (0 < int (length (RegisterRequest_ResourceName m))) (put_string 26 (RegisterRequest_ResourceName m)),
      (case RegisterRequest_Options m of None \<Rightarrow> Ok | Some msg \<Rightarrow> put_message 34 (DevicePluginOptions_Size msg) (DevicePluginOptions_MarshalTo msg))]) dAtA"

definition RegisterRequest_Marshal :: "RegisterRequest \<Rightarrow> bytes pres" where
  "RegisterRequest_Marshal = marshal RegisterRequest_Size RegisterRequest_MarshalTo"

definition RegisterRequest_field :: "RegisterRequest handler" where
  "RegisterRequest_field fieldNum wireType dAtA iNdEx m =
     (if fieldNum = 1 then
         Some (on_value 2 ''Version'' wireType (read_string dAtA iNdEx)
           (\<lambda>v m. m\<lparr>RegisterRequest_Version := v\<rparr>) m)
      else if fieldNum = 2 then
         Some (on_value 2 ''Endpoint'' wireType (read_string dAtA iNdEx)
           (\<lambda>v m. m\<lparr>RegisterRequest_Endpoint := v\<rparr>) m)
      else if fieldNum = 3 then
         Some (on_value 2 ''ResourceName'' wireType (read_string dAtA iNdEx)
           (\<lambda>v m. m\<lparr>RegisterRequest_ResourceName := v\<rparr>) m)
      else if fieldNum = 4 then
         Some (on_message ''Options'' wireType (read_bytes dAtA iNdEx)
           (\<lambda>bs. DevicePluginOptions_Unmarshal bs (case RegisterRequest_Options m of None \<Rightarrow> DevicePluginOptions_Reset | Some s \<Rightarrow> s))
           (\<lambda>s m. m\<lparr>RegisterRequest_Options := Some s\<rparr>) m)
      else None)"

definition RegisterRequest_Unmarshal :: "bytes \<Rightarrow> RegisterRequest \<Rightarrow> RegisterRequest \<times> unit pres" where
  "RegisterRequest_Unmarshal = unmarshal ''RegisterRequest'' RegisterRequest_field"

subsection \<open>Empty\<close>

datatype Empty = Empty

definition Empty_Reset :: Empty where
  "Empty_Reset = Empty"

definition Empty_Size :: "Empty \<Rightarrow> int" where
  "Empty_Size m = sum_sizes
     ([])"

definition Empty_MarshalTo :: "Empty \<Rightarrow> bytes \<Rightarrow> (bytes \<times> int) pres" where
  "Empty_MarshalTo m dAtA = run_writer (wall
     []) dAtA"

definition Empty_Marshal :: "Empty \<Rightarrow> bytes pres" where
  "Empty_Marshal = marshal Empty_Size Empty_MarshalTo"

definition Empty_field :: "Empty handler" where
  "Empty_field fieldNum wireType dAtA iNdEx m =
     (None)"

definition Empty_Unmarshal :: "bytes \<Rightarrow> Empty \<Rightarrow> Empty \<times> unit pres" where
  "Empty_Unmarshal = unmarshal ''Empty'' Empty_field"

subsection \<open>Device\<close>

record Device =
  Device_ID :: string
  Device_Health :: string

definition Device_Reset :: Device where
  "Device_Reset = \<lparr>Device_ID = [], Device_Health = []\<rparr>"

definition Device_GetID :: "Device option \<Rightarrow> string" where
  "Device_GetID m = (case m of None \<Rightarrow> [] | Some m \<Rightarrow> Device_ID m)"

definition Device_GetHealth :: "Device option \<Rightarrow> string" where
  "Device_GetHealth m = (case m of None \<Rightarrow> [] | Some m \<Rightarrow> Device_Health m)"

definition Device_Size :: "Device \<Rightarrow> int" where
  "Device_Size m = sum_sizes
     ([string_size (Device_ID m)] @
      [string_size (Device_Health m)])"

definition Device_MarshalTo :: "Device \<Rightarrow> bytes \<Rightarrow> (bytes \<times> int) pres" where
  "Device_MarshalTo m dAtA = run_writer (wall
     [wif (0 < int (length (Device_ID m))) (put_string 10 (Device_ID m)),
      wif (0 < int (length (Device_Health m))) (put_string 18 (Device_Health m))]) dAtA"

definition Device_Marshal :: "Device \<Rightarrow> bytes pres" where
  "Device_Marshal = marshal Device_Size Device_MarshalTo"

definition Device_field :: "Device handler" where
  "Device_field fieldNum wireType dAtA iNdEx m =
     (if fieldNum = 1 then
         Some (on_value 2 ''ID'' wireType (read_string dAtA iNdEx)
           (\<lambda>v m. m\<lparr>Device_ID := v\<rparr>) m)
      else if fieldNum = 2 then
         Some (on_value 2 ''Health'' wireType (read_string dAtA iNdEx)
           (\<lambda>v m. m\<lparr>Device_Health := v\<rparr>) m)
      else None)"

definition Device_Unmarshal :: "bytes \<Rightarrow> Device \<Rightarrow> Device \<times> unit pres" where
  "Device_Unmarshal = unmarshal ''Device'' Device_field"

subsection \<open>ListAndWatchResponse\<close>

record ListAndWatchResponse =
  ListAndWatchResponse_Devices :: "Device list"

definition ListAndWatchResponse_Reset :: ListAndWatchResponse where
  "ListAndWatchResponse_Reset = \<lparr>ListAndWatchResponse_Devices = []\<rparr>"

definition ListAndWatchResponse_GetDevices :: "ListAndWatchResponse option \<Rightarrow> Device list" where
  "ListAndWatchResponse_GetDevices m = (case m of None \<Rightarrow> [] | Some m \<Rightarrow> ListAndWatchResponse_Devices m)"

definition ListAndWatchResponse_Size :: "ListAndWatchResponse \<Rightarrow> int" where
  "ListAndWatchResponse_Size m = sum_sizes
     (map (\<lambda>e. field_size (Device_Size e)) (ListAndWatchResponse_Devices m))"

definition ListAndWatchResponse_MarshalTo :: "ListAndWatchResponse \<Rightarrow> bytes \<Rightarrow> (bytes \<times> int) pres" where
  "ListAndWatchResponse_MarshalTo m dAtA = run_writer (wall
     [wfor (ListAndWatchResponse_Devices m) (\<lambda>msg. put_message 10 (Device_Size msg) (Device_MarshalTo msg))]) dAtA"

definition ListAndWatchResponse_Marshal :: "ListAndWatchResponse \<Rightarrow> bytes pres" where
  "ListAndWatchResponse_Marshal = marshal ListAndWatchResponse_Size ListAndWatchResponse_MarshalTo"

definition ListAndWatchResponse_field :: "ListAndWatchResponse handler" where
  "ListAndWatchResponse_field fieldNum wireType dAtA iNdEx m =
     (if fieldNum = 1 then
         Some (on_message ''Devices'' wireType (read_bytes dAtA iNdEx)
           (\<lambda>bs. Device_Unmarshal bs Device_Reset) (\<lambda>s m. m\<lparr>ListAndWatchResponse_Devices := ListAndWatchResponse_Devices m @ [s]\<rparr>) m)
      else None)"

definition ListAndWatchResponse_Unmarshal :: "bytes \<Rightarrow> ListAndWatchResponse \<Rightarrow> ListAndWatchResponse \<times> unit pres" where
  "ListAndWatchResponse_Unmarshal = unmarshal ''ListAndWatchResponse'' ListAndWatchResponse_field"

subsection \<open>PreStartContainerRequest\<close>

record PreStartContainerRequest =
  PreStartContainerRequest_DevicesIDs :: "string list"

definition PreStartContainerRequest_Reset :: PreStartContainerRequest where
  "PreStartContainerRequest_Reset = \<lparr>PreStartContainerRequest_DevicesIDs = []\<rparr>"

definition PreStartContainerRequest_GetDevicesIDs :: "PreStartContainerRequest option \<Rightarrow> string list" where
  "PreStartContainerRequest_GetDevicesIDs m = (case m of None \<Rightarrow> [] | Some m \<Rightarrow> PreStartContainerRequest_DevicesIDs m)"

definition PreStartContainerRequest_Size :: "PreStartContainerRequest \<Rightarrow> int" where
  "PreStartContainerRequest_Size m = sum_sizes
     (map (\<lambda>s. field_size (int (length s))) (PreStartContainerRequest_DevicesIDs m))"

definition PreStartContainerRequest_MarshalTo :: "PreStartContainerRequest \<Rightarrow> bytes \<Rightarrow> (bytes \<times> int) pres" where
  "PreStartContainerRequest_MarshalTo m dAtA = run_writer (wall
     [wfor (PreStartContainerRequest_DevicesIDs m) (put_string 10)]) dAtA"

definition PreStartContainerRequest_Marshal :: "PreStartContainerRequest \<Rightarrow> bytes pres" where
  "PreStartContainerRequest_Marshal = marshal PreStartContainerRequest_Size PreStartContainerRequest_MarshalTo"

definition PreStartContainerRequest_field :: "PreStartContainerRequest handler" where
  "PreStartContainerRequest_field fieldNum wireType dAtA iNdEx m =
     (if fieldNum = 1 then
         Some (on_value 2 ''DevicesIDs'' wireType (read_string dAtA iNdEx)
           (\<lambda>v m. m\<lparr>PreStartContainerRequest_DevicesIDs := PreStartContainerRequest_DevicesIDs m @ [v]\<rparr>) m)
      else None)"

definition PreStartContainerRequest_Unmarshal :: "bytes \<Rightarrow> PreStartContainerRequest \<Rightarrow> PreStartContainerRequest \<times> unit pres" where
  "PreStartContainerRequest_Unmarshal = unmarshal ''PreStartContainerRequest'' PreStartContainerRequest_field"

subsection \<open>PreStartContainerResponse\<close>

datatype PreStartContainerResponse = PreStartContainerResponse

definition PreStartContainerResponse_Reset :: PreStartContainerResponse where
  "PreStartContainerResponse_Reset = PreStartContainerResponse"

definition PreStartContainerResponse_Size :: "PreStartContainerResponse \<Rightarrow> int" where
  "PreStartContainerResponse_Size m = sum_sizes
     ([])"

definition PreStartContainerResponse_MarshalTo :: "PreStartContainerResponse \<Rightarrow> bytes \<Rightarrow> (bytes \<times> int) pres" where
  "PreStartContainerResponse_MarshalTo m dAtA = run_writer (wall
     []) dAtA"

definition PreStartContainerResponse_Marshal :: "PreStartContainerResponse \<Rightarrow> bytes pres" where
  "PreStartContainerResponse_Marshal = marshal PreStartContainerResponse_Size PreStartContainerResponse_MarshalTo"

definition PreStartContainerResponse_field :: "PreStartContainerResponse handler" where
  "PreStartContainerResponse_field fieldNum wireType dAtA iNdEx m =
     (None)"

definition PreStartContainerResponse_Unmarshal :: "bytes \<Rightarrow> PreStartContainerResponse \<Rightarrow> PreStartContainerResponse \<times> unit pres" where
  "PreStartContainerResponse_Unmarshal = unmarshal ''PreStartContainerResponse'' PreStartContainerResponse_field"

subsection \<open>ContainerAllocateRequest\<close>

record ContainerAllocateRequest =
  ContainerAllocateRequest_DevicesIDs :: "string list"

definition ContainerAllocateRequest_Reset :: ContainerAllocateRequest where
  "ContainerAllocateRequest_Reset = \<lparr>ContainerAllocateRequest_DevicesIDs = []\<rparr>"

definition ContainerAllocateRequest_GetDevicesIDs :: "ContainerAllocateRequest option \<Rightarrow> string list" where
  "ContainerAllocateRequest_GetDevicesIDs m = (case m of None \<Rightarrow> [] | Some m \<Rightarrow> ContainerAllocateRequest_DevicesIDs m)"

definition ContainerAllocateRequest_Size :: "ContainerAllocateRequest \<Rightarrow> int" where
  "ContainerAllocateRequest_Size m = sum_sizes
     (map (\<lambda>s. field_size (int (length s))) (ContainerAllocateRequest_DevicesIDs m))"

definition ContainerAllocateRequest_MarshalTo :: "ContainerAllocateRequest \<Rightarrow> bytes \<Rightarrow> (bytes \<times> int) pres" where
  "ContainerAllocateRequest_MarshalTo m dAtA = run_writer (wall
     [wfor (ContainerAllocateRequest_DevicesIDs m) (put_string 10)]) dAtA"

definition ContainerAllocateRequest_Marshal :: "ContainerAllocateRequest \<Rightarrow> bytes pres" where
  "ContainerAllocateRequest_Marshal = marshal ContainerAllocateRequest_Size ContainerAllocateRequest_MarshalTo"

definition ContainerAllocateRequest_field :: "ContainerAllocateRequest handler" where
  "ContainerAllocateRequest_field fieldNum wireType dAtA iNdEx m =
     (if fieldNum = 1 then
         Some (on_value 2 ''DevicesIDs'' wireType (read_string dAtA iNdEx)
           (\<lambda>v m. m\<lparr>ContainerAllocateRequest_DevicesIDs := ContainerAllocateRequest_DevicesIDs m @ [v]\<rparr>) m)
      else None)"

definition ContainerAllocateRequest_Unmarshal :: "bytes \<Rightarrow> ContainerAllocateRequest \<Rightarrow> ContainerAllocateRequest \<times> unit pres" where
  "ContainerAllocateRequest_Unmarshal = unmarshal ''ContainerAllocateRequest'' ContainerAllocateRequest_field"

subsection \<open>AllocateRequest\<close>

record AllocateRequest =
  AllocateRequest_ContainerRequests :: "ContainerAllocateRequest list"

definition AllocateRequest_Reset :: AllocateRequest where
  "AllocateRequest_Reset = \<lparr>AllocateRequest_ContainerRequests = []\<rparr>"

definition AllocateRequest_GetContainerRequests :: "AllocateRequest option \<Rightarrow> ContainerAllocateRequest list" where
  "AllocateRequest_GetContainerRequests m = (case m of None \<Rightarrow> [] | Some m \<Rightarrow> AllocateRequest_ContainerRequests m)"

definition AllocateRequest_Size :: "AllocateRequest \<Rightarrow> int" where
  "AllocateRequest_Size m = sum_sizes
     (map (\<lambda>e. field_size (ContainerAllocateRequest_Size e)) (AllocateRequest_ContainerRequests m))"

definition AllocateRequest_MarshalTo :: "AllocateRequest \<Rightarrow> bytes \<Rightarrow> (bytes \<times> int) pres" where
  "AllocateRequest_MarshalTo m dAtA = run_writer (wall
     [wfor (AllocateRequest_ContainerRequests m) (\<lambda>msg. put_message 10 (ContainerAllocateRequest_Size msg) (ContainerAllocateRequest_MarshalTo msg))]) dAtA"

definition AllocateRequest_Marshal :: "AllocateRequest \<Rightarrow> bytes pres" where
  "AllocateRequest_Marshal = marshal AllocateRequest_Size AllocateRequest_MarshalTo"

definition AllocateRequest_field :: "AllocateRequest handler" where
  "AllocateRequest_field fieldNum wireType dAtA iNdEx m =
     (if fieldNum = 1 then
         Some (on_message ''ContainerRequests'' wireType (read_bytes dAtA iNdEx)
           (\<lambda>bs. ContainerAllocateRequest_Unmarshal bs ContainerAllocateRequest_Reset) (\<lambda>s m. m\<lparr>AllocateRequest_ContainerRequests := AllocateRequest_ContainerRequests m @ [s]\<rparr>) m)
      else None)"

definition AllocateRequest_Unmarshal :: "bytes \<Rightarrow> AllocateRequest \<Rightarrow> AllocateRequest \<times> unit pres" where
  "AllocateRequest_Unmarshal = unmarshal ''AllocateRequest'' AllocateRequest_field"

subsection \<open>Mount\<close>

record Mount =
  Mount_ContainerPath :: string
  Mount_HostPath :: string
  Mount_ReadOnly :: bool

definition Mount_Reset :: Mount where
  "Mount_Reset = \<lparr>Mount_ContainerPath = [], Mount_HostPath = [], Mount_ReadOnly = False\<rparr>"

definition Mount_GetContainerPath :: "Mount option \<Rightarrow> string" where
  "Mount_GetContainerPath m = (case m of None \<Rightarrow> [] | Some m \<Rightarrow> Mount_ContainerPath m)"

definition Mount_GetHostPath :: "Mount option \<Rightarrow> string" where
  "Mount_GetHostPath m = (case m of None \<Rightarrow> [] | Some m \<Rightarrow> Mount_HostPath m)"

definition Mount_GetReadOnly :: "Mount option \<Rightarrow> bool" where
  "Mount_GetReadOnly m = (case m of None \<Rightarrow> False | Some m \<Rightarrow> Mount_ReadOnly m)"

definition Mount_Size :: "Mount \<Rightarrow> int" where
  "Mount_Size m = sum_sizes
     ([string_size (Mount_ContainerPath m)] @
      [string_size (Mount_HostPath m)] @
      [if Mount_ReadOnly m then 2 else 0])"

definition Mount_MarshalTo :: "Mount \<Rightarrow> bytes \<Rightarrow> (bytes \<times> int) pres" where
  "Mount_MarshalTo m dAtA = run_writer (wall
     [wif (0 < int (length (Mount_ContainerPath m))) (put_string 10 (Mount_ContainerPath m)),
      wif (0 < int (length (Mount_HostPath m))) (put_string 18 (Mount_HostPath m)),
      wif (Mount_ReadOnly m) (put_bool 24 (Mount_ReadOnly m))]) dAtA"

definition Mount_Marshal :: "Mount \<Rightarrow> bytes pres" where
  "Mount_Marshal = marshal Mount_Size Mount_MarshalTo"

definition Mount_field :: "Mount handler" where
  "Mount_field fieldNum wireType dAtA iNdEx m =
     (if fieldNum = 1 then
         Some (on_value 2 ''ContainerPath'' wireType (read_string dAtA iNdEx)
           (\<lambda>v m. m\<lparr>Mount_ContainerPath := v\<rparr>) m)
      else if fieldNum = 2 then
         Some (on_value 2 ''HostPath'' wireType (read_string dAtA iNdEx)
           (\<lambda>v m. m\<lparr>Mount_HostPath := v\<rparr>) m)
      else if fieldNum = 3 then
         Some (on_value 0 ''ReadOnly'' wireType (read_bool dAtA iNdEx)
           (\<lambda>v m. m\<lparr>Mount_ReadOnly := v\<rparr>) m)
      else None)"

definition Mount_Unmarshal :: "bytes \<Rightarrow> Mount \<Rightarrow> Mount \<times> unit pres" where
  "Mount_Unmarshal = unmarshal ''Mount'' Mount_field"

subsection \<open>DeviceSpec\<close>

record DeviceSpec =
  DeviceSpec_ContainerPath :: string
  DeviceSpec_HostPath :: string
  DeviceSpec_Permissions :: string

definition DeviceSpec_Reset :: DeviceSpec where
  "DeviceSpec_Reset = \<lparr>DeviceSpec_ContainerPath = [], DeviceSpec_HostPath = [], DeviceSpec_Permissions = []\<rparr>"

definition DeviceSpec_GetContainerPath :: "DeviceSpec option \<Rightarrow> string" where
  "DeviceSpec_GetContainerPath m = (case m of None \<Rightarrow> [] | Some m \<Rightarrow> DeviceSpec_ContainerPath m)"

definition DeviceSpec_GetHostPath :: "DeviceSpec option \<Rightarrow> string" where
  "DeviceSpec_GetHostPath m = (case m of None \<Rightarrow> [] | Some m \<Rightarrow> DeviceSpec_HostPath m)"

definition DeviceSpec_GetPermissions :: "DeviceSpec option \<Rightarrow> string" where
  "DeviceSpec_GetPermissions m = (case m of None \<Rightarrow> [] | Some m \<Rightarrow> DeviceSpec_Permissions m)"

definition DeviceSpec_Size :: "DeviceSpec \<Rightarrow> int" where
  "DeviceSpec_Size m = sum_sizes
     ([string_size (DeviceSpec_ContainerPath m)] @
      [string_size (DeviceSpec_HostPath m)] @
      [string_size (DeviceSpec_Permissions m)])"

definition DeviceSpec_MarshalTo :: "DeviceSpec \<Rightarrow> bytes \<Rightarrow> (bytes \<times> int) pres" where
  "DeviceSpec_MarshalTo m dAtA = run_writer (wall
     [wif (0 < int (length (DeviceSpec_ContainerPath m))) (put_string 10 (DeviceSpec_ContainerPath m)),
      wif (0 < int (length (DeviceSpec_HostPath m))) (put_string 18 (DeviceSpec_HostPath m)),
      wif (0 < int (length (DeviceSpec_Permissions m))) (put_string 26 (DeviceSpec_Permissions m))]) dAtA"

definition DeviceSpec_Marshal :: "DeviceSpec \<Rightarrow> bytes pres" where
  "DeviceSpec_Marshal = marshal DeviceSpec_Size DeviceSpec_MarshalTo"

definition DeviceSpec_field :: "DeviceSpec handler" where
  "DeviceSpec_field fieldNum wireType dAtA iNdEx m =
     (if fieldNum = 1 then
         Some (on_value 2 ''ContainerPath'' wireType (read_string dAtA iNdEx)
           (\<lambda>v m. m\<lparr>DeviceSpec_ContainerPath := v\<rparr>) m)
      else if fieldNum = 2 then
         Some (on_value 2 ''HostPath'' wireType (read_string dAtA iNdEx)
           (\<lambda>v m. m\<lparr>DeviceSpec_HostPath := v\<rparr>) m)
      else if fieldNum = 3 then
         Some (on_value 2 ''Permissions'' wireType (read_string dAtA iNdEx)
           (\<lambda>v m. m\<lparr>DeviceSpec_Permissions := v\<rparr>) m)
      else None)"

definition DeviceSpec_Unmarshal :: "bytes \<Rightarrow> DeviceSpec \<Rightarrow> DeviceSpec \<times> unit pres" where
  "DeviceSpec_Unmarshal = unmarshal ''DeviceSpec'' DeviceSpec_field"

subsection \<open>ContainerAllocateResponse\<close>

record ContainerAllocateResponse =
  ContainerAllocateResponse_Envs :: gomap
  ContainerAllocateResponse_Mounts :: "Mount list"
  ContainerAllocateResponse_Devices :: "DeviceSpec list"
  ContainerAllocateResponse_Annotations :: gomap

definition ContainerAllocateResponse_Reset :: ContainerAllocateResponse where
  "ContainerAllocateResponse_Reset = \<lparr>ContainerAllocateResponse_Envs = [], ContainerAllocateResponse_Mounts = [], ContainerAllocateResponse_Devices = [], ContainerAllocateResponse_Annotations = []\<rparr>"

definition ContainerAllocateResponse_GetEnvs :: "ContainerAllocateResponse option \<Rightarrow> gomap" where
  "ContainerAllocateResponse_GetEnvs m = (case m of None \<Rightarrow> [] | Some m \<Rightarrow> ContainerAllocateResponse_Envs m)"

definition ContainerAllocateResponse_GetMounts :: "ContainerAllocateResponse option \<Rightarrow> Mount list" where
  "ContainerAllocateResponse_GetMounts m = (case m of None \<Rightarrow> [] | Some m \<Rightarrow> ContainerAllocateResponse_Mounts m)"

definition ContainerAllocateResponse_GetDevices :: "ContainerAllocateResponse option \<Rightarrow> DeviceSpec list" where
  "ContainerAllocateResponse_GetDevices m = (case m of None \<Rightarrow> [] | Some m \<Rightarrow> ContainerAllocateResponse_Devices m)"

definition ContainerAllocateResponse_GetAnnotations :: "ContainerAllocateResponse option \<Rightarrow> gomap" where
  "ContainerAllocateResponse_GetAnnotations m = (case m of None \<Rightarrow> [] | Some m \<Rightarrow> ContainerAllocateResponse_Annotations m)"

definition ContainerAllocateResponse_Size :: "ContainerAllocateResponse \<Rightarrow> int" where
  "ContainerAllocateResponse_Size m = sum_sizes
     (map (\<lambda>(k, v). let mapEntrySize = map_entry_size k v
        in int64 (mapEntrySize + 1 + sovApi (uint64_of_int mapEntrySize))) (ContainerAllocateResponse_Envs m) @
      map (\<lambda>e. field_size (Mount_Size e)) (ContainerAllocateResponse_Mounts m) @
      map (\<lambda>e. field_size (DeviceSpec_Size e)) (ContainerAllocateResponse_Devices m) @
      map (\<lambda>(k, v). let mapEntrySize = map_entry_size k v
        in int64 (mapEntrySize + 1 + sovApi (uint64_of_int mapEntrySize))) (ContainerAllocateResponse_Annotations m))"

definition ContainerAllocateResponse_MarshalTo :: "ContainerAllocateResponse \<Rightarrow> bytes \<Rightarrow> (bytes \<times> int) pres" where
  "ContainerAllocateResponse_MarshalTo m dAtA = run_writer (wall
     [wfor (ContainerAllocateResponse_Envs m) (put_map_entry 10),
      wfor (ContainerAllocateResponse_Mounts m) (\<lambda>msg. put_message 18 (Mount_Size msg) (Mount_MarshalTo msg)),
      wfor (ContainerAllocateResponse_Devices m) (\<lambda>msg. put_message 26 (DeviceSpec_Size msg) (DeviceSpec_MarshalTo msg)),
      wfor (ContainerAllocateResponse_Annotations m) (put_map_entry 34)]) dAtA"

definition ContainerAllocateResponse_Marshal :: "ContainerAllocateResponse \<Rightarrow> bytes pres" where
  "ContainerAllocateResponse_Marshal = marshal ContainerAllocateResponse_Size ContainerAllocateResponse_MarshalTo"

definition ContainerAllocateResponse_field :: "ContainerAllocateResponse handler" where
  "ContainerAllocateResponse_field fieldNum wireType dAtA iNdEx m =
     (if fieldNum = 1 then
         Some (on_value 2 ''Envs'' wireType (read_map_entry dAtA iNdEx)
           (\<lambda>p m. m\<lparr>ContainerAllocateResponse_Envs := AList.update (fst p) (snd p) (ContainerAllocateResponse_Envs m)\<rparr>) m)
      else if fieldNum = 2 then
         Some (on_message ''Mounts'' wireType (read_bytes dAtA iNdEx)
           (\<lambda>bs. Mount_Unmarshal bs Mount_Reset) (\<lambda>s m. m\<lparr>ContainerAllocateResponse_Mounts := ContainerAllocateResponse_Mounts m @ [s]\<rparr>) m)
      else if fieldNum = 3 then
         Some (on_message ''Devices'' wireType (read_bytes dAtA iNdEx)
           (\<lambda>bs. DeviceSpec_Unmarshal bs DeviceSpec_Reset) (\<lambda>s m. m\<lparr>ContainerAllocateResponse_Devices := ContainerAllocateResponse_Devices m @ [s]\<rparr>) m)
      else if fieldNum = 4 then
         Some (on_value 2 ''Annotations'' wireType (read_map_entry dAtA iNdEx)
           (\<lambda>p m. m\<lparr>ContainerAllocateResponse_Annotations := AList.update (fst p) (snd p) (ContainerAllocateResponse_Annotations m)\<rparr>) m)
      else None)"

definition ContainerAllocateResponse_Unmarshal :: "bytes \<Rightarrow> ContainerAllocateResponse \<Rightarrow> ContainerAllocateResponse \<times> unit pres" where
  "ContainerAllocateResponse_Unmarshal = unmarshal ''ContainerAllocateResponse'' ContainerAllocateResponse_field"

subsection \<open>AllocateResponse\<close>

record AllocateResponse =
  AllocateResponse_ContainerResponses :: "ContainerAllocateResponse list"

definition AllocateResponse_Reset :: AllocateResponse where
  "AllocateResponse_Reset = \<lparr>AllocateResponse_ContainerResponses = []\<rparr>"

definition AllocateResponse_GetContainerResponses :: "AllocateResponse option \<Rightarrow> ContainerAllocateResponse list" where
  "AllocateResponse_GetContainerResponses m = (case m of None \<Rightarrow> [] | Some m \<Rightarrow> AllocateResponse_ContainerResponses m)"

definition AllocateResponse_Size :: "AllocateResponse \<Rightarrow> int" where
  "AllocateResponse_Size m = sum_sizes
     (map (\<lambda>e. field_size (ContainerAllocateResponse_Size e)) (AllocateResponse_ContainerResponses m))"

definition AllocateResponse_MarshalTo :: "AllocateResponse \<Rightarrow> bytes \<Rightarrow> (bytes \<times> int) pres" where
  "AllocateResponse_MarshalTo m dAtA = run_writer (wall
     [wfor (AllocateResponse_ContainerResponses m) (\<lambda>msg. put_message 10 (ContainerAllocateResponse_Size msg) (ContainerAllocateResponse_MarshalTo msg))]) dAtA"

definition AllocateResponse_Marshal :: "AllocateResponse \<Rightarrow> bytes pres" where
  "AllocateResponse_Marshal = marshal AllocateResponse_Size AllocateResponse_MarshalTo"

definition AllocateResponse_field :: "AllocateResponse handler" where
  "AllocateResponse_field fieldNum wireType dAtA iNdEx m =
     (if fieldNum = 1 then
         Some (on_message ''ContainerResponses'' wireType (read_bytes dAtA iNdEx)
           (\<lambda>bs. ContainerAllocateResponse_Unmarshal bs ContainerAllocateResponse_Reset) (\<lambda>s m. m\<lparr>AllocateResponse_ContainerResponses := AllocateResponse_ContainerResponses m @ [s]\<rparr>) m)
      else None)"

definition AllocateResponse_Unmarshal :: "bytes \<Rightarrow> AllocateResponse \<Rightarrow> AllocateResponse \<times> unit pres" where
  "AllocateResponse_Unmarshal = unmarshal ''AllocateResponse'' AllocateResponse_field"

section \<open>Reference encodings and well-formed messages\<close>

text \<open>The encodings the methods are measured against, and the invariant of a Go map that its keys
  are distinct.\<close>

definition DevicePluginOptions_enc :: "DevicePluginOptions \<Rightarrow> bytes" where
  "DevicePluginOptions_enc m = concat
     ([enc_bool 8 (DevicePluginOptions_PreStartRequired m)])"

definition RegisterRequest_enc :: "RegisterRequest \<Rightarrow> bytes" where
  "RegisterRequest_enc m = concat
     ([enc_string 10 (RegisterRequest_Version m)] @
      [enc_string 18 (RegisterRequest_Endpoint m)] @
      [enc_string 26 (RegisterRequest_ResourceName m)] @
      (case RegisterRequest_Options m of None \<Rightarrow> [] | Some e \<Rightarrow> [enc_block 34 (DevicePluginOptions_enc e)]))"

definition Empty_enc :: "Empty \<Rightarrow> bytes" where
  "Empty_enc m = concat
     ([])"

definition Device_enc :: "Device \<Rightarrow> bytes" where
  "Device_enc m = concat
     ([enc_string 10 (Device_ID m)] @
      [enc_string 18 (Device_Health m)])"

definition ListAndWatchResponse_enc :: "ListAndWatchResponse \<Rightarrow> bytes" where
  "ListAndWatchResponse_enc m = concat
     (map (\<lambda>e. enc_block 10 (Device_enc e)) (ListAndWatchResponse_Devices m))"

definition PreStartContainerRequest_enc :: "PreStartContainerRequest \<Rightarrow> bytes" where
  "PreStartContainerRequest_enc m = concat
     (map (\<lambda>s. enc_block 10 (bytes_of_string s)) (PreStartContainerRequest_DevicesIDs m))"

definition PreStartContainerResponse_enc :: "PreStartContainerResponse \<Rightarrow> bytes" where
  "PreStartContainerResponse_enc m = concat
     ([])"

definition ContainerAllocateRequest_enc :: "ContainerAllocateRequest \<Rightarrow> bytes" where
  "ContainerAllocateRequest_enc m = concat
     (map (\<lambda>s. enc_block 10 (bytes_of_string s)) (ContainerAllocateRequest_DevicesIDs m))"

definition AllocateRequest_enc :: "AllocateRequest \<Rightarrow> bytes" where
  "AllocateRequest_enc m = concat
     (map (\<lambda>e. enc_block 10 (ContainerAllocateRequest_enc e)) (AllocateRequest_ContainerRequests m))"

definition Mount_enc :: "Mount \<Rightarrow> bytes" where
  "Mount_enc m = concat
     ([enc_string 10 (Mount_ContainerPath m)] @
      [enc_string 18 (Mount_HostPath m)] @
      [enc_bool 24 (Mount_ReadOnly m)])"

definition DeviceSpec_enc :: "DeviceSpec \<Rightarrow> bytes" where
  "DeviceSpec_enc m = concat
     ([enc_string 10 (DeviceSpec_ContainerPath m)] @
      [enc_string 18 (DeviceSpec_HostPath m)] @
      [enc_string 26 (DeviceSpec_Permissions m)])"

definition ContainerAllocateResponse_enc :: "ContainerAllocateResponse \<Rightarrow> bytes" where
  "ContainerAllocateResponse_enc m = concat
     (map (\<lambda>p. enc_block 10 (enc_pair p)) (ContainerAllocateResponse_Envs m) @
      map (\<lambda>e. enc_block 18 (Mount_enc e)) (ContainerAllocateResponse_Mounts m) @
      map (\<lambda>e. enc_block 26 (DeviceSpec_enc e)) (ContainerAllocateResponse_Devices m) @
      map (\<lambda>p. enc_block 34 (enc_pair p)) (ContainerAllocateResponse_Annotations m))"

definition AllocateResponse_enc :: "AllocateResponse \<Rightarrow> bytes" where
  "AllocateResponse_enc m = concat
     (map (\<lambda>e. enc_block 10 (ContainerAllocateResponse_enc e)) (AllocateResponse_ContainerResponses m))"

definition ContainerAllocateResponse_wf :: "ContainerAllocateResponse \<Rightarrow> bool" where
  "ContainerAllocateResponse_wf m \<longleftrightarrow>
     distinct (map fst (ContainerAllocateResponse_Envs m)) \<and>
     distinct (map fst (ContainerAllocateResponse_Annotations m))"

definition AllocateResponse_wf :: "AllocateResponse \<Rightarrow> bool" where
  "AllocateResponse_wf m \<longleftrightarrow>
     list_all ContainerAllocateResponse_wf (AllocateResponse_ContainerResponses m)"

section \<open>Lemmas shared by the messages\<close>

lemma alist_update_new: "k \<notin> fst ` set xs \<Longrightarrow> AList.update k v xs = xs @ [(k, v)]"
  by (induction xs) auto

lemma sizes_map_pair:
  "sizes (case p of (k, v) \<Rightarrow> int64 (map_entry_size k v + 1 + sovApi (uint64_of_int (map_entry_size k v))))
     (enc_block tag (enc_pair p))"
  using sizes_map_entry by (cases p) simp

lemma read_bytes_short: "read_bytes dAtA i = Ok (j, bs) \<Longrightarrow> length dAtA < 2 ^ 63 \<Longrightarrow> length bs < 2 ^ 63"
  by (drule read_bytes_Ok) auto

section \<open>Every message implements the interfaces\<close>

text \<open>
  For each message: \<open>Size\<close> and \<open>MarshalTo\<close> agree with the reference encoding, the switch of
  \<open>Unmarshal\<close> makes progress, and the encoding read into the zero value gives the message back.
\<close>

lemma DevicePluginOptions_marshaller: "marshaller DevicePluginOptions_Size DevicePluginOptions_MarshalTo DevicePluginOptions_enc"
  by (rule marshallerI, rule DevicePluginOptions_Size_def, unfold DevicePluginOptions_enc_def,
      intro sizes_intros,
      rule DevicePluginOptions_MarshalTo_def, intro writes_intros)

lemma DevicePluginOptions_unmarshaller: "unmarshaller DevicePluginOptions_field"
  by unfold_locales (auto simp: DevicePluginOptions_field_def intro!: moves_intros)

lemma DevicePluginOptions_PreStartRequired_consumed: "\<not> DevicePluginOptions_PreStartRequired m \<Longrightarrow>
    consumes nm DevicePluginOptions_field (enc_bool 8 b) m (m\<lparr>DevicePluginOptions_PreStartRequired := b\<rparr>)"
  by (rule consumes_bool [where f = "''PreStartRequired''" and upd = "\<lambda>v m. m\<lparr>DevicePluginOptions_PreStartRequired := v\<rparr>"])
    (simp_all add: DevicePluginOptions_field_def)

lemma DevicePluginOptions_consumed: "consumes nm DevicePluginOptions_field (DevicePluginOptions_enc m) DevicePluginOptions_Reset m"
proof -
  have eq: "DevicePluginOptions_Reset\<lparr>DevicePluginOptions_PreStartRequired := DevicePluginOptions_PreStartRequired m\<rparr> = m" by (simp add: DevicePluginOptions_Reset_def)
  have 1: "consumes nm DevicePluginOptions_field (concat [enc_bool 8 (DevicePluginOptions_PreStartRequired m)])
      (DevicePluginOptions_Reset) (DevicePluginOptions_Reset\<lparr>DevicePluginOptions_PreStartRequired := DevicePluginOptions_PreStartRequired m\<rparr>)"
    by (intro consumes_part DevicePluginOptions_PreStartRequired_consumed) (simp add: DevicePluginOptions_Reset_def)
  have "consumes nm DevicePluginOptions_field (DevicePluginOptions_enc m) DevicePluginOptions_Reset (DevicePluginOptions_Reset\<lparr>DevicePluginOptions_PreStartRequired := DevicePluginOptions_PreStartRequired m\<rparr>)"
    unfolding DevicePluginOptions_enc_def by (rule 1)
  then show ?thesis by (simp only: eq)
qed

interpretation DevicePluginOptions: message DevicePluginOptions_Size DevicePluginOptions_MarshalTo DevicePluginOptions_enc "''DevicePluginOptions''" DevicePluginOptions_field DevicePluginOptions_Reset "\<lambda>_. True"
  by (intro message.intro DevicePluginOptions_marshaller DevicePluginOptions_unmarshaller message_axioms.intro DevicePluginOptions_consumed)

lemma RegisterRequest_marshaller: "marshaller RegisterRequest_Size RegisterRequest_MarshalTo RegisterRequest_enc"
  by (rule marshallerI, rule RegisterRequest_Size_def, unfold RegisterRequest_enc_def,
      intro sizes_intros DevicePluginOptions.field_sizes DevicePluginOptions.field_sizes,
      rule RegisterRequest_MarshalTo_def, intro writes_intros DevicePluginOptions.field_writes DevicePluginOptions.field_writes)

lemma RegisterRequest_unmarshaller: "unmarshaller RegisterRequest_field"
  by unfold_locales (auto simp: RegisterRequest_field_def DevicePluginOptions_Unmarshal_def 
      intro!: moves_intros DevicePluginOptions.unmarshal_returns elim: read_bytes_short)

lemma RegisterRequest_Version_consumed: "RegisterRequest_Version m = [] \<Longrightarrow>
    consumes nm RegisterRequest_field (enc_string 10 s) m (m\<lparr>RegisterRequest_Version := s\<rparr>)"
  by (rule consumes_opt_string [where f = "''Version''" and upd = "\<lambda>v m. m\<lparr>RegisterRequest_Version := v\<rparr>"])
    (simp_all add: RegisterRequest_field_def)

lemma RegisterRequest_Endpoint_consumed: "RegisterRequest_Endpoint m = [] \<Longrightarrow>
    consumes nm RegisterRequest_field (enc_string 18 s) m (m\<lparr>RegisterRequest_Endpoint := s\<rparr>)"
  by (rule consumes_opt_string [where f = "''Endpoint''" and upd = "\<lambda>v m. m\<lparr>RegisterRequest_Endpoint := v\<rparr>"])
    (simp_all add: RegisterRequest_field_def)

lemma RegisterRequest_ResourceName_consumed: "RegisterRequest_ResourceName m = [] \<Longrightarrow>
    consumes nm RegisterRequest_field (enc_string 26 s) m (m\<lparr>RegisterRequest_ResourceName := s\<rparr>)"
  by (rule consumes_opt_string [where f = "''ResourceName''" and upd = "\<lambda>v m. m\<lparr>RegisterRequest_ResourceName := v\<rparr>"])
    (simp_all add: RegisterRequest_field_def)

lemma RegisterRequest_Options_consumed: "RegisterRequest_Options m = None \<Longrightarrow>
    consumes nm RegisterRequest_field (concat (case x of None \<Rightarrow> [] | Some e \<Rightarrow> [enc_block 34 (DevicePluginOptions_enc e)])) m
      (m\<lparr>RegisterRequest_Options := x\<rparr>)"
proof (cases x)
  case (Some e)
  assume "RegisterRequest_Options m = None"
  then have "consumes nm RegisterRequest_field (enc_block 34 (DevicePluginOptions_enc e)) m (m\<lparr>RegisterRequest_Options := Some e\<rparr>)"
    by (intro consumes_message [where f = "''Options''" and upd = "\<lambda>s m. m\<lparr>RegisterRequest_Options := Some s\<rparr>"
        and sub = "\<lambda>bs. DevicePluginOptions_Unmarshal bs DevicePluginOptions_Reset"])
      (simp_all add: RegisterRequest_field_def DevicePluginOptions_Unmarshal_def DevicePluginOptions.unmarshal_enc)
  with Some show ?thesis by simp
next
  case None
  assume "RegisterRequest_Options m = None"
  then have "m\<lparr>RegisterRequest_Options := None\<rparr> = m" by (cases m) simp
  with None show ?thesis by (simp add: consumes_Nil)
qed

lemma RegisterRequest_consumed: "consumes nm RegisterRequest_field (RegisterRequest_enc m) RegisterRequest_Reset m"
proof -
  have eq: "RegisterRequest_Reset\<lparr>RegisterRequest_Version := RegisterRequest_Version m\<rparr>\<lparr>RegisterRequest_Endpoint := RegisterRequest_Endpoint m\<rparr>\<lparr>RegisterRequest_ResourceName := RegisterRequest_ResourceName m\<rparr>\<lparr>RegisterRequest_Options := RegisterRequest_Options m\<rparr> = m" by (simp add: RegisterRequest_Reset_def)
  have 1: "consumes nm RegisterRequest_field (concat [enc_string 10 (RegisterRequest_Version m)])
      (RegisterRequest_Reset) (RegisterRequest_Reset\<lparr>RegisterRequest_Version := RegisterRequest_Version m\<rparr>)"
    by (intro consumes_part RegisterRequest_Version_consumed) (simp add: RegisterRequest_Reset_def)
  have 2: "consumes nm RegisterRequest_field (concat [enc_string 18 (RegisterRequest_Endpoint m)])
      (RegisterRequest_Reset\<lparr>RegisterRequest_Version := RegisterRequest_Version m\<rparr>) (RegisterRequest_Reset\<lparr>RegisterRequest_Version := RegisterRequest_Version m\<rparr>\<lparr>RegisterRequest_Endpoint := RegisterRequest_Endpoint m\<rparr>)"
    by (intro consumes_part RegisterRequest_Endpoint_consumed) (simp add: RegisterRequest_Reset_def)
  have 3: "consumes nm RegisterRequest_field (concat [enc_string 26 (RegisterRequest_ResourceName m)])
      (RegisterRequest_Reset\<lparr>RegisterRequest_Version := RegisterRequest_Version m\<rparr>\<lparr>RegisterRequest_Endpoint := RegisterRequest_Endpoint m\<rparr>) (RegisterRequest_Reset\<lparr>RegisterRequest_Version := RegisterRequest_Version m\<rparr>\<lparr>RegisterRequest_Endpoint := RegisterRequest_Endpoint m\<rparr>\<lparr>RegisterRequest_ResourceName := RegisterRequest_ResourceName m\<rparr>)"
    by (intro consumes_part RegisterRequest_ResourceName_consumed) (simp add: RegisterRequest_Reset_def)
  have 4: "consumes nm RegisterRequest_field (concat (case RegisterRequest_Options m of None \<Rightarrow> [] | Some e \<Rightarrow> [enc_block 34 (DevicePluginOptions_enc e)]))
      (RegisterRequest_Reset\<lparr>RegisterRequest_Version := RegisterRequest_Version m\<rparr>\<lparr>RegisterRequest_Endpoint := RegisterRequest_Endpoint m\<rparr>\<lparr>RegisterRequest_ResourceName := RegisterRequest_ResourceName m\<rparr>) (RegisterRequest_Reset\<lparr>RegisterRequest_Version := RegisterRequest_Version m\<rparr>\<lparr>RegisterRequest_Endpoint := RegisterRequest_Endpoint m\<rparr>\<lparr>RegisterRequest_ResourceName := RegisterRequest_ResourceName m\<rparr>\<lparr>RegisterRequest_Options := RegisterRequest_Options m\<rparr>)"
    by (rule RegisterRequest_Options_consumed) (simp add: RegisterRequest_Reset_def)
  have "consumes nm RegisterRequest_field (RegisterRequest_enc m) RegisterRequest_Reset (RegisterRequest_Reset\<lparr>RegisterRequest_Version := RegisterRequest_Version m\<rparr>\<lparr>RegisterRequest_Endpoint := RegisterRequest_Endpoint m\<rparr>\<lparr>RegisterRequest_ResourceName := RegisterRequest_ResourceName m\<rparr>\<lparr>RegisterRequest_Options := RegisterRequest_Options m\<rparr>)"
    unfolding RegisterRequest_enc_def by (rule consumes_parts [OF 1 consumes_parts [OF 2 consumes_parts [OF 3 4]]])
  then show ?thesis by (simp only: eq)
qed

interpretation RegisterRequest: message RegisterRequest_Size RegisterRequest_MarshalTo RegisterRequest_enc "''RegisterRequest''" RegisterRequest_field RegisterRequest_Reset "\<lambda>_. True"
  by (intro message.intro RegisterRequest_marshaller RegisterRequest_unmarshaller message_axioms.intro RegisterRequest_consumed)

lemma Empty_marshaller: "marshaller Empty_Size Empty_MarshalTo Empty_enc"
  by (rule marshallerI, rule Empty_Size_def, unfold Empty_enc_def,
      intro sizes_intros,
      rule Empty_MarshalTo_def, intro writes_intros)

lemma Empty_unmarshaller: "unmarshaller Empty_field"
  by unfold_locales (simp add: Empty_field_def)

lemma Empty_consumed: "consumes nm Empty_field (Empty_enc m) Empty_Reset m"
  by (cases m) (simp add: Empty_enc_def Empty_Reset_def consumes_Nil)

interpretation Empty: message Empty_Size Empty_MarshalTo Empty_enc "''Empty''" Empty_field Empty_Reset "\<lambda>_. True"
  by (intro message.intro Empty_marshaller Empty_unmarshaller message_axioms.intro Empty_consumed)

lemma Device_marshaller: "marshaller Device_Size Device_MarshalTo Device_enc"
  by (rule marshallerI, rule Device_Size_def, unfold Device_enc_def,
      intro sizes_intros,
      rule Device_MarshalTo_def, intro writes_intros)

lemma Device_unmarshaller: "unmarshaller Device_field"
  by unfold_locales (auto simp: Device_field_def intro!: moves_intros)

lemma Device_ID_consumed: "Device_ID m = [] \<Longrightarrow>
    consumes nm Device_field (enc_string 10 s) m (m\<lparr>Device_ID := s\<rparr>)"
  by (rule consumes_opt_string [where f = "''ID''" and upd = "\<lambda>v m. m\<lparr>Device_ID := v\<rparr>"])
    (simp_all add: Device_field_def)

lemma Device_Health_consumed: "Device_Health m = [] \<Longrightarrow>
    consumes nm Device_field (enc_string 18 s) m (m\<lparr>Device_Health := s\<rparr>)"
  by (rule consumes_opt_string [where f = "''Health''" and upd = "\<lambda>v m. m\<lparr>Device_Health := v\<rparr>"])
    (simp_all add: Device_field_def)

lemma Device_consumed: "consumes nm Device_field (Device_enc m) Device_Reset m"
proof -
  have eq: "Device_Reset\<lparr>Device_ID := Device_ID m\<rparr>\<lparr>Device_Health := Device_Health m\<rparr> = m" by (simp add: Device_Reset_def)
  have 1: "consumes nm Device_field (concat [enc_string 10 (Device_ID m)])
      (Device_Reset) (Device_Reset\<lparr>Device_ID := Device_ID m\<rparr>)"
    by (intro consumes_part Device_ID_consumed) (simp add: Device_Reset_def)
  have 2: "consumes nm Device_field (concat [enc_string 18 (Device_Health m)])
      (Device_Reset\<lparr>Device_ID := Device_ID m\<rparr>) (Device_Reset\<lparr>Device_ID := Device_ID m\<rparr>\<lparr>Device_Health := Device_Health m\<rparr>)"
    by (intro consumes_part Device_Health_consumed) (simp add: Device_Reset_def)
  have "consumes nm Device_field (Device_enc m) Device_Reset (Device_Reset\<lparr>Device_ID := Device_ID m\<rparr>\<lparr>Device_Health := Device_Health m\<rparr>)"
    unfolding Device_enc_def by (rule consumes_parts [OF 1 2])
  then show ?thesis by (simp only: eq)
qed

interpretation Device: message Device_Size Device_MarshalTo Device_enc "''Device''" Device_field Device_Reset "\<lambda>_. True"
  by (intro message.intro Device_marshaller Device_unmarshaller message_axioms.intro Device_consumed)

lemma ListAndWatchResponse_marshaller: "marshaller ListAndWatchResponse_Size ListAndWatchResponse_MarshalTo ListAndWatchResponse_enc"
  by (rule marshallerI, rule ListAndWatchResponse_Size_def, unfold ListAndWatchResponse_enc_def,
      intro sizes_intros Device.field_sizes Device.field_sizes,
      rule ListAndWatchResponse_MarshalTo_def, intro writes_intros Device.field_writes Device.field_writes)

lemma ListAndWatchResponse_unmarshaller: "unmarshaller ListAndWatchResponse_field"
  by unfold_locales (auto simp: ListAndWatchResponse_field_def Device_Unmarshal_def 
      intro!: moves_intros Device.unmarshal_returns elim: read_bytes_short)

lemma ListAndWatchResponse_Devices_consumed:
  shows "consumes nm ListAndWatchResponse_field (concat (map (\<lambda>e. enc_block 10 (Device_enc e)) xs)) m
    (m\<lparr>ListAndWatchResponse_Devices := ListAndWatchResponse_Devices m @ xs\<rparr>)"
proof -
  have "fold (\<lambda>s m. m\<lparr>ListAndWatchResponse_Devices := ListAndWatchResponse_Devices m @ [s]\<rparr>) xs m = m\<lparr>ListAndWatchResponse_Devices := ListAndWatchResponse_Devices m @ xs\<rparr>"
    by (induction xs arbitrary: m) simp_all
  with Device.repeated_consumed [where tag = 10 and outer = ListAndWatchResponse_field and f = "''Devices''"
    and upd = "\<lambda>s m. m\<lparr>ListAndWatchResponse_Devices := ListAndWatchResponse_Devices m @ [s]\<rparr>" and xs = xs and nm = nm and m = m]
  show ?thesis by (simp add: ListAndWatchResponse_field_def Device_Unmarshal_def)
qed

lemma ListAndWatchResponse_consumed: "consumes nm ListAndWatchResponse_field (ListAndWatchResponse_enc m) ListAndWatchResponse_Reset m"
proof -
  have eq: "ListAndWatchResponse_Reset\<lparr>ListAndWatchResponse_Devices := ListAndWatchResponse_Devices m\<rparr> = m" by (simp add: ListAndWatchResponse_Reset_def)
  have 1: "consumes nm ListAndWatchResponse_field (concat (map (\<lambda>e. enc_block 10 (Device_enc e)) (ListAndWatchResponse_Devices m)))
      (ListAndWatchResponse_Reset) (ListAndWatchResponse_Reset\<lparr>ListAndWatchResponse_Devices := ListAndWatchResponse_Devices m\<rparr>)"
    using ListAndWatchResponse_Devices_consumed [of nm "ListAndWatchResponse_Devices m" "ListAndWatchResponse_Reset"] by (simp add: ListAndWatchResponse_Reset_def)
  have "consumes nm ListAndWatchResponse_field (ListAndWatchResponse_enc m) ListAndWatchResponse_Reset (ListAndWatchResponse_Reset\<lparr>ListAndWatchResponse_Devices := ListAndWatchResponse_Devices m\<rparr>)"
    unfolding ListAndWatchResponse_enc_def by (rule 1)
  then show ?thesis by (simp only: eq)
qed

interpretation ListAndWatchResponse: message ListAndWatchResponse_Size ListAndWatchResponse_MarshalTo ListAndWatchResponse_enc "''ListAndWatchResponse''" ListAndWatchResponse_field ListAndWatchResponse_Reset "\<lambda>_. True"
  by (intro message.intro ListAndWatchResponse_marshaller ListAndWatchResponse_unmarshaller message_axioms.intro ListAndWatchResponse_consumed)

lemma PreStartContainerRequest_marshaller: "marshaller PreStartContainerRequest_Size PreStartContainerRequest_MarshalTo PreStartContainerRequest_enc"
  by (rule marshallerI, rule PreStartContainerRequest_Size_def, unfold PreStartContainerRequest_enc_def,
      intro sizes_intros,
      rule PreStartContainerRequest_MarshalTo_def, intro writes_intros)

lemma PreStartContainerRequest_unmarshaller: "unmarshaller PreStartContainerRequest_field"
  by unfold_locales (auto simp: PreStartContainerRequest_field_def intro!: moves_intros)

lemma PreStartContainerRequest_DevicesIDs_consumed: "consumes nm PreStartContainerRequest_field (concat (map (\<lambda>s. enc_block 10 (bytes_of_string s)) xs)) m
    (m\<lparr>PreStartContainerRequest_DevicesIDs := PreStartContainerRequest_DevicesIDs m @ xs\<rparr>)"
proof -
  have "fold (\<lambda>v m. m\<lparr>PreStartContainerRequest_DevicesIDs := PreStartContainerRequest_DevicesIDs m @ [v]\<rparr>) xs m = m\<lparr>PreStartContainerRequest_DevicesIDs := PreStartContainerRequest_DevicesIDs m @ xs\<rparr>"
    by (induction xs arbitrary: m) simp_all
  moreover have "consumes nm PreStartContainerRequest_field (enc_block 10 (bytes_of_string s)) m (m\<lparr>PreStartContainerRequest_DevicesIDs := PreStartContainerRequest_DevicesIDs m @ [s]\<rparr>)" for s m
    by (rule consumes_string [where f = "''DevicesIDs''" and upd = "\<lambda>v m. m\<lparr>PreStartContainerRequest_DevicesIDs := PreStartContainerRequest_DevicesIDs m @ [v]\<rparr>"]) (simp_all add: PreStartContainerRequest_field_def)
  from consumes_concat [where upd = "\<lambda>v m. m\<lparr>PreStartContainerRequest_DevicesIDs := PreStartContainerRequest_DevicesIDs m @ [v]\<rparr>", OF this]
  have "consumes nm PreStartContainerRequest_field (concat (map (\<lambda>s. enc_block 10 (bytes_of_string s)) xs)) m (fold (\<lambda>v m. m\<lparr>PreStartContainerRequest_DevicesIDs := PreStartContainerRequest_DevicesIDs m @ [v]\<rparr>) xs m)" .
  ultimately show ?thesis by simp
qed

lemma PreStartContainerRequest_consumed: "consumes nm PreStartContainerRequest_field (PreStartContainerRequest_enc m) PreStartContainerRequest_Reset m"
proof -
  have eq: "PreStartContainerRequest_Reset\<lparr>PreStartContainerRequest_DevicesIDs := PreStartContainerRequest_DevicesIDs m\<rparr> = m" by (simp add: PreStartContainerRequest_Reset_def)
  have 1: "consumes nm PreStartContainerRequest_field (concat (map (\<lambda>s. enc_block 10 (bytes_of_string s)) (PreStartContainerRequest_DevicesIDs m)))
      (PreStartContainerRequest_Reset) (PreStartContainerRequest_Reset\<lparr>PreStartContainerRequest_DevicesIDs := PreStartContainerRequest_DevicesIDs m\<rparr>)"
    using PreStartContainerRequest_DevicesIDs_consumed [of nm "PreStartContainerRequest_DevicesIDs m" "PreStartContainerRequest_Reset"] by (simp add: PreStartContainerRequest_Reset_def)
  have "consumes nm PreStartContainerRequest_field (PreStartContainerRequest_enc m) PreStartContainerRequest_Reset (PreStartContainerRequest_Reset\<lparr>PreStartContainerRequest_DevicesIDs := PreStartContainerRequest_DevicesIDs m\<rparr>)"
    unfolding PreStartContainerRequest_enc_def by (rule 1)
  then show ?thesis by (simp only: eq)
qed

interpretation PreStartContainerRequest: message PreStartContainerRequest_Size PreStartContainerRequest_MarshalTo PreStartContainerRequest_enc "''PreStartContainerRequest''" PreStartContainerRequest_field PreStartContainerRequest_Reset "\<lambda>_. True"
  by (intro message.intro PreStartContainerRequest_marshaller PreStartContainerRequest_unmarshaller message_axioms.intro PreStartContainerRequest_consumed)

lemma PreStartContainerResponse_marshaller: "marshaller PreStartContainerResponse_Size PreStartContainerResponse_MarshalTo PreStartContainerResponse_enc"
  by (rule marshallerI, rule PreStartContainerResponse_Size_def, unfold PreStartContainerResponse_enc_def,
      intro sizes_intros,
      rule PreStartContainerResponse_MarshalTo_def, intro writes_intros)

lemma PreStartContainerResponse_unmarshaller: "unmarshaller PreStartContainerResponse_field"
  by unfold_locales (simp add: PreStartContainerResponse_field_def)

lemma PreStartContainerResponse_consumed: "consumes nm PreStartContainerResponse_field (PreStartContainerResponse_enc m) PreStartContainerResponse_Reset m"
  by (cases m) (simp add: PreStartContainerResponse_enc_def PreStartContainerResponse_Reset_def consumes_Nil)

interpretation PreStartContainerResponse: message PreStartContainerResponse_Size PreStartContainerResponse_MarshalTo PreStartContainerResponse_enc "''PreStartContainerResponse''" PreStartContainerResponse_field PreStartContainerResponse_Reset "\<lambda>_. True"
  by (intro message.intro PreStartContainerResponse_marshaller PreStartContainerResponse_unmarshaller message_axioms.intro PreStartContainerResponse_consumed)

lemma ContainerAllocateRequest_marshaller: "marshaller ContainerAllocateRequest_Size ContainerAllocateRequest_MarshalTo ContainerAllocateRequest_enc"
  by (rule marshallerI, rule ContainerAllocateRequest_Size_def, unfold ContainerAllocateRequest_enc_def,
      intro sizes_intros,
      rule ContainerAllocateRequest_MarshalTo_def, intro writes_intros)

lemma ContainerAllocateRequest_unmarshaller: "unmarshaller ContainerAllocateRequest_field"
  by unfold_locales (auto simp: ContainerAllocateRequest_field_def intro!: moves_intros)

lemma ContainerAllocateRequest_DevicesIDs_consumed: "consumes nm ContainerAllocateRequest_field (concat (map (\<lambda>s. enc_block 10 (bytes_of_string s)) xs)) m
    (m\<lparr>ContainerAllocateRequest_DevicesIDs := ContainerAllocateRequest_DevicesIDs m @ xs\<rparr>)"
proof -
  have "fold (\<lambda>v m. m\<lparr>ContainerAllocateRequest_DevicesIDs := ContainerAllocateRequest_DevicesIDs m @ [v]\<rparr>) xs m = m\<lparr>ContainerAllocateRequest_DevicesIDs := ContainerAllocateRequest_DevicesIDs m @ xs\<rparr>"
    by (induction xs arbitrary: m) simp_all
  moreover have "consumes nm ContainerAllocateRequest_field (enc_block 10 (bytes_of_string s)) m (m\<lparr>ContainerAllocateRequest_DevicesIDs := ContainerAllocateRequest_DevicesIDs m @ [s]\<rparr>)" for s m
    by (rule consumes_string [where f = "''DevicesIDs''" and upd = "\<lambda>v m. m\<lparr>ContainerAllocateRequest_DevicesIDs := ContainerAllocateRequest_DevicesIDs m @ [v]\<rparr>"]) (simp_all add: ContainerAllocateRequest_field_def)
  from consumes_concat [where upd = "\<lambda>v m. m\<lparr>ContainerAllocateRequest_DevicesIDs := ContainerAllocateRequest_DevicesIDs m @ [v]\<rparr>", OF this]
  have "consumes nm ContainerAllocateRequest_field (concat (map (\<lambda>s. enc_block 10 (bytes_of_string s)) xs)) m (fold (\<lambda>v m. m\<lparr>ContainerAllocateRequest_DevicesIDs := ContainerAllocateRequest_DevicesIDs m @ [v]\<rparr>) xs m)" .
  ultimately show ?thesis by simp
qed

lemma ContainerAllocateRequest_consumed: "consumes nm ContainerAllocateRequest_field (ContainerAllocateRequest_enc m) ContainerAllocateRequest_Reset m"
proof -
  have eq: "ContainerAllocateRequest_Reset\<lparr>ContainerAllocateRequest_DevicesIDs := ContainerAllocateRequest_DevicesIDs m\<rparr> = m" by (simp add: ContainerAllocateRequest_Reset_def)
  have 1: "consumes nm ContainerAllocateRequest_field (concat (map (\<lambda>s. enc_block 10 (bytes_of_string s)) (ContainerAllocateRequest_DevicesIDs m)))
      (ContainerAllocateRequest_Reset) (ContainerAllocateRequest_Reset\<lparr>ContainerAllocateRequest_DevicesIDs := ContainerAllocateRequest_DevicesIDs m\<rparr>)"
    using ContainerAllocateRequest_DevicesIDs_consumed [of nm "ContainerAllocateRequest_DevicesIDs m" "ContainerAllocateRequest_Reset"] by (simp add: ContainerAllocateRequest_Reset_def)
  have "consumes nm ContainerAllocateRequest_field (ContainerAllocateRequest_enc m) ContainerAllocateRequest_Reset (ContainerAllocateRequest_Reset\<lparr>ContainerAllocateRequest_DevicesIDs := ContainerAllocateRequest_DevicesIDs m\<rparr>)"
    unfolding ContainerAllocateRequest_enc_def by (rule 1)
  then show ?thesis by (simp only: eq)
qed

interpretation ContainerAllocateRequest: message ContainerAllocateRequest_Size ContainerAllocateRequest_MarshalTo ContainerAllocateRequest_enc "''ContainerAllocateRequest''" ContainerAllocateRequest_field ContainerAllocateRequest_Reset "\<lambda>_. True"
  by (intro message.intro ContainerAllocateRequest_marshaller ContainerAllocateRequest_unmarshaller message_axioms.intro ContainerAllocateRequest_consumed)

lemma AllocateRequest_marshaller: "marshaller AllocateRequest_Size AllocateRequest_MarshalTo AllocateRequest_enc"
  by (rule marshallerI, rule AllocateRequest_Size_def, unfold AllocateRequest_enc_def,
      intro sizes_intros ContainerAllocateRequest.field_sizes ContainerAllocateRequest.field_sizes,
      rule AllocateRequest_MarshalTo_def, intro writes_intros ContainerAllocateRequest.field_writes ContainerAllocateRequest.field_writes)

lemma AllocateRequest_unmarshaller: "unmarshaller AllocateRequest_field"
  by unfold_locales (auto simp: AllocateRequest_field_def ContainerAllocateRequest_Unmarshal_def 
      intro!: moves_intros ContainerAllocateRequest.unmarshal_returns elim: read_bytes_short)

lemma AllocateRequest_ContainerRequests_consumed:
  shows "consumes nm AllocateRequest_field (concat (map (\<lambda>e. enc_block 10 (ContainerAllocateRequest_enc e)) xs)) m
    (m\<lparr>AllocateRequest_ContainerRequests := AllocateRequest_ContainerRequests m @ xs\<rparr>)"
proof -
  have "fold (\<lambda>s m. m\<lparr>AllocateRequest_ContainerRequests := AllocateRequest_ContainerRequests m @ [s]\<rparr>) xs m = m\<lparr>AllocateRequest_ContainerRequests := AllocateRequest_ContainerRequests m @ xs\<rparr>"
    by (induction xs arbitrary: m) simp_all
  with ContainerAllocateRequest.repeated_consumed [where tag = 10 and outer = AllocateRequest_field and f = "''ContainerRequests''"
    and upd = "\<lambda>s m. m\<lparr>AllocateRequest_ContainerRequests := AllocateRequest_ContainerRequests m @ [s]\<rparr>" and xs = xs and nm = nm and m = m]
  show ?thesis by (simp add: AllocateRequest_field_def ContainerAllocateRequest_Unmarshal_def)
qed

lemma AllocateRequest_consumed: "consumes nm AllocateRequest_field (AllocateRequest_enc m) AllocateRequest_Reset m"
proof -
  have eq: "AllocateRequest_Reset\<lparr>AllocateRequest_ContainerRequests := AllocateRequest_ContainerRequests m\<rparr> = m" by (simp add: AllocateRequest_Reset_def)
  have 1: "consumes nm AllocateRequest_field (concat (map (\<lambda>e. enc_block 10 (ContainerAllocateRequest_enc e)) (AllocateRequest_ContainerRequests m)))
      (AllocateRequest_Reset) (AllocateRequest_Reset\<lparr>AllocateRequest_ContainerRequests := AllocateRequest_ContainerRequests m\<rparr>)"
    using AllocateRequest_ContainerRequests_consumed [of nm "AllocateRequest_ContainerRequests m" "AllocateRequest_Reset"] by (simp add: AllocateRequest_Reset_def)
  have "consumes nm AllocateRequest_field (AllocateRequest_enc m) AllocateRequest_Reset (AllocateRequest_Reset\<lparr>AllocateRequest_ContainerRequests := AllocateRequest_ContainerRequests m\<rparr>)"
    unfolding AllocateRequest_enc_def by (rule 1)
  then show ?thesis by (simp only: eq)
qed

interpretation AllocateRequest: message AllocateRequest_Size AllocateRequest_MarshalTo AllocateRequest_enc "''AllocateRequest''" AllocateRequest_field AllocateRequest_Reset "\<lambda>_. True"
  by (intro message.intro AllocateRequest_marshaller AllocateRequest_unmarshaller message_axioms.intro AllocateRequest_consumed)

lemma Mount_marshaller: "marshaller Mount_Size Mount_MarshalTo Mount_enc"
  by (rule marshallerI, rule Mount_Size_def, unfold Mount_enc_def,
      intro sizes_intros,
      rule Mount_MarshalTo_def, intro writes_intros)

lemma Mount_unmarshaller: "unmarshaller Mount_field"
  by unfold_locales (auto simp: Mount_field_def intro!: moves_intros)

lemma Mount_ContainerPath_consumed: "Mount_ContainerPath m = [] \<Longrightarrow>
    consumes nm Mount_field (enc_string 10 s) m (m\<lparr>Mount_ContainerPath := s\<rparr>)"
  by (rule consumes_opt_string [where f = "''ContainerPath''" and upd = "\<lambda>v m. m\<lparr>Mount_ContainerPath := v\<rparr>"])
    (simp_all add: Mount_field_def)

lemma Mount_HostPath_consumed: "Mount_HostPath m = [] \<Longrightarrow>
    consumes nm Mount_field (enc_string 18 s) m (m\<lparr>Mount_HostPath := s\<rparr>)"
  by (rule consumes_opt_string [where f = "''HostPath''" and upd = "\<lambda>v m. m\<lparr>Mount_HostPath := v\<rparr>"])
    (simp_all add: Mount_field_def)

lemma Mount_ReadOnly_consumed: "\<not> Mount_ReadOnly m \<Longrightarrow>
    consumes nm Mount_field (enc_bool 24 b) m (m\<lparr>Mount_ReadOnly := b\<rparr>)"
  by (rule consumes_bool [where f = "''ReadOnly''" and upd = "\<lambda>v m. m\<lparr>Mount_ReadOnly := v\<rparr>"])
    (simp_all add: Mount_field_def)

lemma Mount_consumed: "consumes nm Mount_field (Mount_enc m) Mount_Reset m"
proof -
  have eq: "Mount_Reset\<lparr>Mount_ContainerPath := Mount_ContainerPath m\<rparr>\<lparr>Mount_HostPath := Mount_HostPath m\<rparr>\<lparr>Mount_ReadOnly := Mount_ReadOnly m\<rparr> = m" by (simp add: Mount_Reset_def)
  have 1: "consumes nm Mount_field (concat [enc_string 10 (Mount_ContainerPath m)])
      (Mount_Reset) (Mount_Reset\<lparr>Mount_ContainerPath := Mount_ContainerPath m\<rparr>)"
    by (intro consumes_part Mount_ContainerPath_consumed) (simp add: Mount_Reset_def)
  have 2: "consumes nm Mount_field (concat [enc_string 18 (Mount_HostPath m)])
      (Mount_Reset\<lparr>Mount_ContainerPath := Mount_ContainerPath m\<rparr>) (Mount_Reset\<lparr>Mount_ContainerPath := Mount_ContainerPath m\<rparr>\<lparr>Mount_HostPath := Mount_HostPath m\<rparr>)"
    by (intro consumes_part Mount_HostPath_consumed) (simp add: Mount_Reset_def)
  have 3: "consumes nm Mount_field (concat [enc_bool 24 (Mount_ReadOnly m)])
      (Mount_Reset\<lparr>Mount_ContainerPath := Mount_ContainerPath m\<rparr>\<lparr>Mount_HostPath := Mount_HostPath m\<rparr>) (Mount_Reset\<lparr>Mount_ContainerPath := Mount_ContainerPath m\<rparr>\<lparr>Mount_HostPath := Mount_HostPath m\<rparr>\<lparr>Mount_ReadOnly := Mount_ReadOnly m\<rparr>)"
    by (intro consumes_part Mount_ReadOnly_consumed) (simp add: Mount_Reset_def)
  have "consumes nm Mount_field (Mount_enc m) Mount_Reset (Mount_Reset\<lparr>Mount_ContainerPath := Mount_ContainerPath m\<rparr>\<lparr>Mount_HostPath := Mount_HostPath m\<rparr>\<lparr>Mount_ReadOnly := Mount_ReadOnly m\<rparr>)"
    unfolding Mount_enc_def by (rule consumes_parts [OF 1 consumes_parts [OF 2 3]])
  then show ?thesis by (simp only: eq)
qed

interpretation Mount: message Mount_Size Mount_MarshalTo Mount_enc "''Mount''" Mount_field Mount_Reset "\<lambda>_. True"
  by (intro message.intro Mount_marshaller Mount_unmarshaller message_axioms.intro Mount_consumed)

lemma DeviceSpec_marshaller: "marshaller DeviceSpec_Size DeviceSpec_MarshalTo DeviceSpec_enc"
  by (rule marshallerI, rule DeviceSpec_Size_def, unfold DeviceSpec_enc_def,
      intro sizes_intros,
      rule DeviceSpec_MarshalTo_def, intro writes_intros)

lemma DeviceSpec_unmarshaller: "unmarshaller DeviceSpec_field"
  by unfold_locales (auto simp: DeviceSpec_field_def intro!: moves_intros)

lemma DeviceSpec_ContainerPath_consumed: "DeviceSpec_ContainerPath m = [] \<Longrightarrow>
    consumes nm DeviceSpec_field (enc_string 10 s) m (m\<lparr>DeviceSpec_ContainerPath := s\<rparr>)"
  by (rule consumes_opt_string [where f = "''ContainerPath''" and upd = "\<lambda>v m. m\<lparr>DeviceSpec_ContainerPath := v\<rparr>"])
    (simp_all add: DeviceSpec_field_def)

lemma DeviceSpec_HostPath_consumed: "DeviceSpec_HostPath m = [] \<Longrightarrow>
    consumes nm DeviceSpec_field (enc_string 18 s) m (m\<lparr>DeviceSpec_HostPath := s\<rparr>)"
  by (rule consumes_opt_string [where f = "''HostPath''" and upd = "\<lambda>v m. m\<lparr>DeviceSpec_HostPath := v\<rparr>"])
    (simp_all add: DeviceSpec_field_def)

lemma DeviceSpec_Permissions_consumed: "DeviceSpec_Permissions m = [] \<Longrightarrow>
    consumes nm DeviceSpec_field (enc_string 26 s) m (m\<lparr>DeviceSpec_Permissions := s\<rparr>)"
  by (rule consumes_opt_string [where f = "''Permissions''" and upd = "\<lambda>v m. m\<lparr>DeviceSpec_Permissions := v\<rparr>"])
    (simp_all add: DeviceSpec_field_def)

lemma DeviceSpec_consumed: "consumes nm DeviceSpec_field (DeviceSpec_enc m) DeviceSpec_Reset m"
proof -
  have eq: "DeviceSpec_Reset\<lparr>DeviceSpec_ContainerPath := DeviceSpec_ContainerPath m\<rparr>\<lparr>DeviceSpec_HostPath := DeviceSpec_HostPath m\<rparr>\<lparr>DeviceSpec_Permissions := DeviceSpec_Permissions m\<rparr> = m" by (simp add: DeviceSpec_Reset_def)
  have 1: "consumes nm DeviceSpec_field (concat [enc_string 10 (DeviceSpec_ContainerPath m)])
      (DeviceSpec_Reset) (DeviceSpec_Reset\<lparr>DeviceSpec_ContainerPath := DeviceSpec_ContainerPath m\<rparr>)"
    by (intro consumes_part DeviceSpec_ContainerPath_consumed) (simp add: DeviceSpec_Reset_def)
  have 2: "consumes nm DeviceSpec_field (concat [enc_string 18 (DeviceSpec_HostPath m)])
      (DeviceSpec_Reset\<lparr>DeviceSpec_ContainerPath := DeviceSpec_ContainerPath m\<rparr>) (DeviceSpec_Reset\<lparr>DeviceSpec_ContainerPath := DeviceSpec_ContainerPath m\<rparr>\<lparr>DeviceSpec_HostPath := DeviceSpec_HostPath m\<rparr>)"
    by (intro consumes_part DeviceSpec_HostPath_consumed) (simp add: DeviceSpec_Reset_def)
  have 3: "consumes nm DeviceSpec_field (concat [enc_string 26 (DeviceSpec_Permissions m)])
      (DeviceSpec_Reset\<lparr>DeviceSpec_ContainerPath := DeviceSpec_ContainerPath m\<rparr>\<lparr>DeviceSpec_HostPath := DeviceSpec_HostPath m\<rparr>) (DeviceSpec_Reset\<lparr>DeviceSpec_ContainerPath := DeviceSpec_ContainerPath m\<rparr>\<lparr>DeviceSpec_HostPath := DeviceSpec_HostPath m\<rparr>\<lparr>DeviceSpec_Permissions := DeviceSpec_Permissions m\<rparr>)"
    by (intro consumes_part DeviceSpec_Permissions_consumed) (simp add: DeviceSpec_Reset_def)
  have "consumes nm DeviceSpec_field (DeviceSpec_enc m) DeviceSpec_Reset (DeviceSpec_Reset\<lparr>DeviceSpec_ContainerPath := DeviceSpec_ContainerPath m\<rparr>\<lparr>DeviceSpec_HostPath := DeviceSpec_HostPath m\<rparr>\<lparr>DeviceSpec_Permissions := DeviceSpec_Permissions m\<rparr>)"
    unfolding DeviceSpec_enc_def by (rule consumes_parts [OF 1 consumes_parts [OF 2 3]])
  then show ?thesis by (simp only: eq)
qed

interpretation DeviceSpec: message DeviceSpec_Size DeviceSpec_MarshalTo DeviceSpec_enc "''DeviceSpec''" DeviceSpec_field DeviceSpec_Reset "\<lambda>_. True"
  by (intro message.intro DeviceSpec_marshaller DeviceSpec_unmarshaller message_axioms.intro DeviceSpec_consumed)

lemma ContainerAllocateResponse_marshaller: "marshaller ContainerAllocateResponse_Size ContainerAllocateResponse_MarshalTo ContainerAllocateResponse_enc"
  by (rule marshallerI, rule ContainerAllocateResponse_Size_def, unfold ContainerAllocateResponse_enc_def Let_def,
      intro sizes_intros sizes_map_pair Mount.field_sizes Mount.field_sizes DeviceSpec.field_sizes DeviceSpec.field_sizes,
      rule ContainerAllocateResponse_MarshalTo_def, intro writes_intros Mount.field_writes Mount.field_writes DeviceSpec.field_writes DeviceSpec.field_writes)

lemma ContainerAllocateResponse_unmarshaller: "unmarshaller ContainerAllocateResponse_field"
  by unfold_locales (auto simp: ContainerAllocateResponse_field_def Mount_Unmarshal_def DeviceSpec_Unmarshal_def 
      intro!: moves_intros Mount.unmarshal_returns DeviceSpec.unmarshal_returns elim: read_bytes_short)

lemma ContainerAllocateResponse_Envs_consumed:
  assumes "distinct (map fst (ContainerAllocateResponse_Envs m @ xs))"
  shows "consumes nm ContainerAllocateResponse_field (concat (map (\<lambda>p. enc_block 10 (enc_pair p)) xs)) m
    (m\<lparr>ContainerAllocateResponse_Envs := ContainerAllocateResponse_Envs m @ xs\<rparr>)"
proof -
  have "fold (\<lambda>p m. m\<lparr>ContainerAllocateResponse_Envs := AList.update (fst p) (snd p) (ContainerAllocateResponse_Envs m)\<rparr>) xs m = m\<lparr>ContainerAllocateResponse_Envs := ContainerAllocateResponse_Envs m @ xs\<rparr>"
    using assms by (induction xs arbitrary: m) (simp_all add: alist_update_new)
  moreover have "consumes nm ContainerAllocateResponse_field (enc_block 10 (enc_pair p)) m
      (m\<lparr>ContainerAllocateResponse_Envs := AList.update (fst p) (snd p) (ContainerAllocateResponse_Envs m)\<rparr>)" for p m
    by (rule consumes_map_entry [where f = "''Envs''" and upd = "\<lambda>p m. m\<lparr>ContainerAllocateResponse_Envs := AList.update (fst p) (snd p) (ContainerAllocateResponse_Envs m)\<rparr>"]) (simp_all add: ContainerAllocateResponse_field_def)
  from consumes_concat [where upd = "\<lambda>p m. m\<lparr>ContainerAllocateResponse_Envs := AList.update (fst p) (snd p) (ContainerAllocateResponse_Envs m)\<rparr>", OF this]
  have "consumes nm ContainerAllocateResponse_field (concat (map (\<lambda>p. enc_block 10 (enc_pair p)) xs)) m (fold (\<lambda>p m. m\<lparr>ContainerAllocateResponse_Envs := AList.update (fst p) (snd p) (ContainerAllocateResponse_Envs m)\<rparr>) xs m)" .
  ultimately show ?thesis by simp
qed

lemma ContainerAllocateResponse_Mounts_consumed:
  shows "consumes nm ContainerAllocateResponse_field (concat (map (\<lambda>e. enc_block 18 (Mount_enc e)) xs)) m
    (m\<lparr>ContainerAllocateResponse_Mounts := ContainerAllocateResponse_Mounts m @ xs\<rparr>)"
proof -
  have "fold (\<lambda>s m. m\<lparr>ContainerAllocateResponse_Mounts := ContainerAllocateResponse_Mounts m @ [s]\<rparr>) xs m = m\<lparr>ContainerAllocateResponse_Mounts := ContainerAllocateResponse_Mounts m @ xs\<rparr>"
    by (induction xs arbitrary: m) simp_all
  with Mount.repeated_consumed [where tag = 18 and outer = ContainerAllocateResponse_field and f = "''Mounts''"
    and upd = "\<lambda>s m. m\<lparr>ContainerAllocateResponse_Mounts := ContainerAllocateResponse_Mounts m @ [s]\<rparr>" and xs = xs and nm = nm and m = m]
  show ?thesis by (simp add: ContainerAllocateResponse_field_def Mount_Unmarshal_def)
qed

lemma ContainerAllocateResponse_Devices_consumed:
  shows "consumes nm ContainerAllocateResponse_field (concat (map (\<lambda>e. enc_block 26 (DeviceSpec_enc e)) xs)) m
    (m\<lparr>ContainerAllocateResponse_Devices := ContainerAllocateResponse_Devices m @ xs\<rparr>)"
proof -
  have "fold (\<lambda>s m. m\<lparr>ContainerAllocateResponse_Devices := ContainerAllocateResponse_Devices m @ [s]\<rparr>) xs m = m\<lparr>ContainerAllocateResponse_Devices := ContainerAllocateResponse_Devices m @ xs\<rparr>"
    by (induction xs arbitrary: m) simp_all
  with DeviceSpec.repeated_consumed [where tag = 26 and outer = ContainerAllocateResponse_field and f = "''Devices''"
    and upd = "\<lambda>s m. m\<lparr>ContainerAllocateResponse_Devices := ContainerAllocateResponse_Devices m @ [s]\<rparr>" and xs = xs and nm = nm and m = m]
  show ?thesis by (simp add: ContainerAllocateResponse_field_def DeviceSpec_Unmarshal_def)
qed

lemma ContainerAllocateResponse_Annotations_consumed:
  assumes "distinct (map fst (ContainerAllocateResponse_Annotations m @ xs))"
  shows "consumes nm ContainerAllocateResponse_field (concat (map (\<lambda>p. enc_block 34 (enc_pair p)) xs)) m
    (m\<lparr>ContainerAllocateResponse_Annotations := ContainerAllocateResponse_Annotations m @ xs\<rparr>)"
proof -
  have "fold (\<lambda>p m. m\<lparr>ContainerAllocateResponse_Annotations := AList.update (fst p) (snd p) (ContainerAllocateResponse_Annotations m)\<rparr>) xs m = m\<lparr>ContainerAllocateResponse_Annotations := ContainerAllocateResponse_Annotations m @ xs\<rparr>"
    using assms by (induction xs arbitrary: m) (simp_all add: alist_update_new)
  moreover have "consumes nm ContainerAllocateResponse_field (enc_block 34 (enc_pair p)) m
      (m\<lparr>ContainerAllocateResponse_Annotations := AList.update (fst p) (snd p) (ContainerAllocateResponse_Annotations m)\<rparr>)" for p m
    by (rule consumes_map_entry [where f = "''Annotations''" and upd = "\<lambda>p m. m\<lparr>ContainerAllocateResponse_Annotations := AList.update (fst p) (snd p) (ContainerAllocateResponse_Annotations m)\<rparr>"]) (simp_all add: ContainerAllocateResponse_field_def)
  from consumes_concat [where upd = "\<lambda>p m. m\<lparr>ContainerAllocateResponse_Annotations := AList.update (fst p) (snd p) (ContainerAllocateResponse_Annotations m)\<rparr>", OF this]
  have "consumes nm ContainerAllocateResponse_field (concat (map (\<lambda>p. enc_block 34 (enc_pair p)) xs)) m (fold (\<lambda>p m. m\<lparr>ContainerAllocateResponse_Annotations := AList.update (fst p) (snd p) (ContainerAllocateResponse_Annotations m)\<rparr>) xs m)" .
  ultimately show ?thesis by simp
qed

lemma ContainerAllocateResponse_consumed: "ContainerAllocateResponse_wf m \<Longrightarrow> consumes nm ContainerAllocateResponse_field (ContainerAllocateResponse_enc m) ContainerAllocateResponse_Reset m"
proof -
  assume wf: "ContainerAllocateResponse_wf m"
  have eq: "ContainerAllocateResponse_Reset\<lparr>ContainerAllocateResponse_Envs := ContainerAllocateResponse_Envs m\<rparr>\<lparr>ContainerAllocateResponse_Mounts := ContainerAllocateResponse_Mounts m\<rparr>\<lparr>ContainerAllocateResponse_Devices := ContainerAllocateResponse_Devices m\<rparr>\<lparr>ContainerAllocateResponse_Annotations := ContainerAllocateResponse_Annotations m\<rparr> = m" by (simp add: ContainerAllocateResponse_Reset_def)
  have 1: "consumes nm ContainerAllocateResponse_field (concat (map (\<lambda>p. enc_block 10 (enc_pair p)) (ContainerAllocateResponse_Envs m)))
      (ContainerAllocateResponse_Reset) (ContainerAllocateResponse_Reset\<lparr>ContainerAllocateResponse_Envs := ContainerAllocateResponse_Envs m\<rparr>)"
    using ContainerAllocateResponse_Envs_consumed [of "ContainerAllocateResponse_Reset" "ContainerAllocateResponse_Envs m"] wf by (simp add: ContainerAllocateResponse_Reset_def ContainerAllocateResponse_wf_def)
  have 2: "consumes nm ContainerAllocateResponse_field (concat (map (\<lambda>e. enc_block 18 (Mount_enc e)) (ContainerAllocateResponse_Mounts m)))
      (ContainerAllocateResponse_Reset\<lparr>ContainerAllocateResponse_Envs := ContainerAllocateResponse_Envs m\<rparr>) (ContainerAllocateResponse_Reset\<lparr>ContainerAllocateResponse_Envs := ContainerAllocateResponse_Envs m\<rparr>\<lparr>ContainerAllocateResponse_Mounts := ContainerAllocateResponse_Mounts m\<rparr>)"
    using ContainerAllocateResponse_Mounts_consumed [of nm "ContainerAllocateResponse_Mounts m" "ContainerAllocateResponse_Reset\<lparr>ContainerAllocateResponse_Envs := ContainerAllocateResponse_Envs m\<rparr>"] by (simp add: ContainerAllocateResponse_Reset_def)
  have 3: "consumes nm ContainerAllocateResponse_field (concat (map (\<lambda>e. enc_block 26 (DeviceSpec_enc e)) (ContainerAllocateResponse_Devices m)))
      (ContainerAllocateResponse_Reset\<lparr>ContainerAllocateResponse_Envs := ContainerAllocateResponse_Envs m\<rparr>\<lparr>ContainerAllocateResponse_Mounts := ContainerAllocateResponse_Mounts m\<rparr>) (ContainerAllocateResponse_Reset\<lparr>ContainerAllocateResponse_Envs := ContainerAllocateResponse_Envs m\<rparr>\<lparr>ContainerAllocateResponse_Mounts := ContainerAllocateResponse_Mounts m\<rparr>\<lparr>ContainerAllocateResponse_Devices := ContainerAllocateResponse_Devices m\<rparr>)"
    using ContainerAllocateResponse_Devices_consumed [of nm "ContainerAllocateResponse_Devices m" "ContainerAllocateResponse_Reset\<lparr>ContainerAllocateResponse_Envs := ContainerAllocateResponse_Envs m\<rparr>\<lparr>ContainerAllocateResponse_Mounts := ContainerAllocateResponse_Mounts m\<rparr>"] by (simp add: ContainerAllocateResponse_Reset_def)
  have 4: "consumes nm ContainerAllocateResponse_field (concat (map (\<lambda>p. enc_block 34 (enc_pair p)) (ContainerAllocateResponse_Annotations m)))
      (ContainerAllocateResponse_Reset\<lparr>ContainerAllocateResponse_Envs := ContainerAllocateResponse_Envs m\<rparr>\<lparr>ContainerAllocateResponse_Mounts := ContainerAllocateResponse_Mounts m\<rparr>\<lparr>ContainerAllocateResponse_Devices := ContainerAllocateResponse_Devices m\<rparr>) (ContainerAllocateResponse_Reset\<lparr>ContainerAllocateResponse_Envs := ContainerAllocateResponse_Envs m\<rparr>\<lparr>ContainerAllocateResponse_Mounts := ContainerAllocateResponse_Mounts m\<rparr>\<lparr>ContainerAllocateResponse_Devices := ContainerAllocateResponse_Devices m\<rparr>\<lparr>ContainerAllocateResponse_Annotations := ContainerAllocateResponse_Annotations m\<rparr>)"
    using ContainerAllocateResponse_Annotations_consumed [of "ContainerAllocateResponse_Reset\<lparr>ContainerAllocateResponse_Envs := ContainerAllocateResponse_Envs m\<rparr>\<lparr>ContainerAllocateResponse_Mounts := ContainerAllocateResponse_Mounts m\<rparr>\<lparr>ContainerAllocateResponse_Devices := ContainerAllocateResponse_Devices m\<rparr>" "ContainerAllocateResponse_Annotations m"] wf by (simp add: ContainerAllocateResponse_Reset_def ContainerAllocateResponse_wf_def)
  have "consumes nm ContainerAllocateResponse_field (ContainerAllocateResponse_enc m) ContainerAllocateResponse_Reset (ContainerAllocateResponse_Reset\<lparr>ContainerAllocateResponse_Envs := ContainerAllocateResponse_Envs m\<rparr>\<lparr>ContainerAllocateResponse_Mounts := ContainerAllocateResponse_Mounts m\<rparr>\<lparr>ContainerAllocateResponse_Devices := ContainerAllocateResponse_Devices m\<rparr>\<lparr>ContainerAllocateResponse_Annotations := ContainerAllocateResponse_Annotations m\<rparr>)"
    unfolding ContainerAllocateResponse_enc_def by (rule consumes_parts [OF 1 consumes_parts [OF 2 consumes_parts [OF 3 4]]])
  then show ?thesis by (simp only: eq)
qed

interpretation ContainerAllocateResponse: message ContainerAllocateResponse_Size ContainerAllocateResponse_MarshalTo ContainerAllocateResponse_enc "''ContainerAllocateResponse''" ContainerAllocateResponse_field ContainerAllocateResponse_Reset ContainerAllocateResponse_wf
  by (intro message.intro ContainerAllocateResponse_marshaller ContainerAllocateResponse_unmarshaller message_axioms.intro ContainerAllocateResponse_consumed)

lemma AllocateResponse_marshaller: "marshaller AllocateResponse_Size AllocateResponse_MarshalTo AllocateResponse_enc"
  by (rule marshallerI, rule AllocateResponse_Size_def, unfold AllocateResponse_enc_def,
      intro sizes_intros ContainerAllocateResponse.field_sizes ContainerAllocateResponse.field_sizes,
      rule AllocateResponse_MarshalTo_def, intro writes_intros ContainerAllocateResponse.field_writes ContainerAllocateResponse.field_writes)

lemma AllocateResponse_unmarshaller: "unmarshaller AllocateResponse_field"
  by unfold_locales (auto simp: AllocateResponse_field_def ContainerAllocateResponse_Unmarshal_def 
      intro!: moves_intros ContainerAllocateResponse.unmarshal_returns elim: read_bytes_short)

lemma AllocateResponse_ContainerResponses_consumed:
  assumes "\<forall>x\<in>set xs. ContainerAllocateResponse_wf x"
  shows "consumes nm AllocateResponse_field (concat (map (\<lambda>e. enc_block 10 (ContainerAllocateResponse_enc e)) xs)) m
    (m\<lparr>AllocateResponse_ContainerResponses := AllocateResponse_ContainerResponses m @ xs\<rparr>)"
proof -
  have "fold (\<lambda>s m. m\<lparr>AllocateResponse_ContainerResponses := AllocateResponse_ContainerResponses m @ [s]\<rparr>) xs m = m\<lparr>AllocateResponse_ContainerResponses := AllocateResponse_ContainerResponses m @ xs\<rparr>"
    by (induction xs arbitrary: m) simp_all
  with ContainerAllocateResponse.repeated_consumed [where tag = 10 and outer = AllocateResponse_field and f = "''ContainerResponses''"
    and upd = "\<lambda>s m. m\<lparr>AllocateResponse_ContainerResponses := AllocateResponse_ContainerResponses m @ [s]\<rparr>" and xs = xs and nm = nm and m = m]
  show ?thesis using assms by (simp add: AllocateResponse_field_def ContainerAllocateResponse_Unmarshal_def)
qed

lemma AllocateResponse_consumed: "AllocateResponse_wf m \<Longrightarrow> consumes nm AllocateResponse_field (AllocateResponse_enc m) AllocateResponse_Reset m"
proof -
  assume wf: "AllocateResponse_wf m"
  have eq: "AllocateResponse_Reset\<lparr>AllocateResponse_ContainerResponses := AllocateResponse_ContainerResponses m\<rparr> = m" by (simp add: AllocateResponse_Reset_def)
  have 1: "consumes nm AllocateResponse_field (concat (map (\<lambda>e. enc_block 10 (ContainerAllocateResponse_enc e)) (AllocateResponse_ContainerResponses m)))
      (AllocateResponse_Reset) (AllocateResponse_Reset\<lparr>AllocateResponse_ContainerResponses := AllocateResponse_ContainerResponses m\<rparr>)"
    using AllocateResponse_ContainerResponses_consumed [of "AllocateResponse_ContainerResponses m" nm "AllocateResponse_Reset"] wf
    by (simp add: AllocateResponse_Reset_def AllocateResponse_wf_def list_all_iff)
  have "consumes nm AllocateResponse_field (AllocateResponse_enc m) AllocateResponse_Reset (AllocateResponse_Reset\<lparr>AllocateResponse_ContainerResponses := AllocateResponse_ContainerResponses m\<rparr>)"
    unfolding AllocateResponse_enc_def by (rule 1)
  then show ?thesis by (simp only: eq)
qed

interpretation AllocateResponse: message AllocateResponse_Size AllocateResponse_MarshalTo AllocateResponse_enc "''AllocateResponse''" AllocateResponse_field AllocateResponse_Reset AllocateResponse_wf
  by (intro message.intro AllocateResponse_marshaller AllocateResponse_unmarshaller message_axioms.intro AllocateResponse_consumed)

section \<open>Properties of the messages\<close>

text \<open>Every \<open>RegisterRequest\<close> that fits a slice is encoded without a panic in exactly
  \<open>Size\<close> bytes, and decoding these bytes gives it back, the optional options included.\<close>

theorem register_request_roundtrip:
  assumes "length (RegisterRequest_enc m) < 2 ^ 63"
  shows "\<exists>bs. RegisterRequest_Marshal m = Ok bs \<and> int (length bs) = RegisterRequest_Size m \<and>
    RegisterRequest_Unmarshal bs RegisterRequest_Reset = (m, Ok ())"
  unfolding RegisterRequest_Marshal_def RegisterRequest_Unmarshal_def by (rule RegisterRequest.roundtrip [OF TrueI assms])

theorem register_request_roundtrip_witness:
  "\<exists>bs. RegisterRequest_Marshal \<lparr>RegisterRequest_Version = ''v1beta1'', RegisterRequest_Endpoint = ''fuse.sock'', RegisterRequest_ResourceName = ''openvmi/fuse'', RegisterRequest_Options = Some \<lparr>DevicePluginOptions_PreStartRequired = True\<rparr>\<rparr> = Ok bs \<and>
    RegisterRequest_Unmarshal bs RegisterRequest_Reset = (\<lparr>RegisterRequest_Version = ''v1beta1'', RegisterRequest_Endpoint = ''fuse.sock'', RegisterRequest_ResourceName = ''openvmi/fuse'', RegisterRequest_Options = Some \<lparr>DevicePluginOptions_PreStartRequired = True\<rparr>\<rparr>, Ok ())"
proof -
  have "length (RegisterRequest_enc \<lparr>RegisterRequest_Version = ''v1beta1'', RegisterRequest_Endpoint = ''fuse.sock'', RegisterRequest_ResourceName = ''openvmi/fuse'', RegisterRequest_Options = Some \<lparr>DevicePluginOptions_PreStartRequired = True\<rparr>\<rparr>) < 100" by code_simp
  then show ?thesis using register_request_roundtrip [of "\<lparr>RegisterRequest_Version = ''v1beta1'', RegisterRequest_Endpoint = ''fuse.sock'', RegisterRequest_ResourceName = ''openvmi/fuse'', RegisterRequest_Options = Some \<lparr>DevicePluginOptions_PreStartRequired = True\<rparr>\<rparr>"] by auto
qed

text \<open>Every \<open>ListAndWatchResponse\<close>, of any number of devices, is encoded in exactly \<open>Size\<close> bytes
  and decoded to the same devices in the same order.\<close>

theorem list_response_roundtrip:
  assumes "length (ListAndWatchResponse_enc m) < 2 ^ 63"
  shows "\<exists>bs. ListAndWatchResponse_Marshal m = Ok bs \<and> int (length bs) = ListAndWatchResponse_Size m \<and>
    ListAndWatchResponse_Unmarshal bs ListAndWatchResponse_Reset = (m, Ok ())"
  unfolding ListAndWatchResponse_Marshal_def ListAndWatchResponse_Unmarshal_def by (rule ListAndWatchResponse.roundtrip [OF TrueI assms])

theorem list_response_roundtrip_witness:
  "\<exists>bs. ListAndWatchResponse_Marshal \<lparr>ListAndWatchResponse_Devices = [\<lparr>Device_ID = ''fuse1'', Device_Health = ''Healthy''\<rparr>, \<lparr>Device_ID = ''fuse2'', Device_Health = []\<rparr>]\<rparr> = Ok bs \<and>
    ListAndWatchResponse_Unmarshal bs ListAndWatchResponse_Reset = (\<lparr>ListAndWatchResponse_Devices = [\<lparr>Device_ID = ''fuse1'', Device_Health = ''Healthy''\<rparr>, \<lparr>Device_ID = ''fuse2'', Device_Health = []\<rparr>]\<rparr>, Ok ())"
proof -
  have "length (ListAndWatchResponse_enc \<lparr>ListAndWatchResponse_Devices = [\<lparr>Device_ID = ''fuse1'', Device_Health = ''Healthy''\<rparr>, \<lparr>Device_ID = ''fuse2'', Device_Health = []\<rparr>]\<rparr>) < 100" by code_simp
  then show ?thesis using list_response_roundtrip [of "\<lparr>ListAndWatchResponse_Devices = [\<lparr>Device_ID = ''fuse1'', Device_Health = ''Healthy''\<rparr>, \<lparr>Device_ID = ''fuse2'', Device_Health = []\<rparr>]\<rparr>"] by auto
qed

text \<open>C16: every \<open>AllocateResponse\<close> whose maps have distinct keys, with its nested messages and in any
  order of its maps, is encoded in exactly \<open>Size\<close> bytes and decoded to itself.\<close>

theorem allocate_response_roundtrip:
  assumes "AllocateResponse_wf m" and "length (AllocateResponse_enc m) < 2 ^ 63"
  shows "\<exists>bs. AllocateResponse_Marshal m = Ok bs \<and> int (length bs) = AllocateResponse_Size m \<and>
    AllocateResponse_Unmarshal bs AllocateResponse_Reset = (m, Ok ())"
  unfolding AllocateResponse_Marshal_def AllocateResponse_Unmarshal_def by (rule AllocateResponse.roundtrip [OF assms])

theorem allocate_response_roundtrip_witness:
  "\<exists>bs. AllocateResponse_Marshal \<lparr>AllocateResponse_ContainerResponses = [\<lparr>ContainerAllocateResponse_Envs = [(''A'', ''1''), (''B'', '''')], ContainerAllocateResponse_Mounts = [\<lparr>Mount_ContainerPath = ''/a'', Mount_HostPath = ''/b'', Mount_ReadOnly = True\<rparr>], ContainerAllocateResponse_Devices = [\<lparr>DeviceSpec_ContainerPath = ''/dev/fuse'', DeviceSpec_HostPath = ''/dev/fuse'', DeviceSpec_Permissions = ''rwm''\<rparr>], ContainerAllocateResponse_Annotations = []\<rparr>]\<rparr> = Ok bs \<and>
    AllocateResponse_Unmarshal bs AllocateResponse_Reset = (\<lparr>AllocateResponse_ContainerResponses = [\<lparr>ContainerAllocateResponse_Envs = [(''A'', ''1''), (''B'', '''')], ContainerAllocateResponse_Mounts = [\<lparr>Mount_ContainerPath = ''/a'', Mount_HostPath = ''/b'', Mount_ReadOnly = True\<rparr>], ContainerAllocateResponse_Devices = [\<lparr>DeviceSpec_ContainerPath = ''/dev/fuse'', DeviceSpec_HostPath = ''/dev/fuse'', DeviceSpec_Permissions = ''rwm''\<rparr>], ContainerAllocateResponse_Annotations = []\<rparr>]\<rparr>, Ok ())"
proof -
  have "length (AllocateResponse_enc \<lparr>AllocateResponse_ContainerResponses = [\<lparr>ContainerAllocateResponse_Envs = [(''A'', ''1''), (''B'', '''')], ContainerAllocateResponse_Mounts = [\<lparr>Mount_ContainerPath = ''/a'', Mount_HostPath = ''/b'', Mount_ReadOnly = True\<rparr>], ContainerAllocateResponse_Devices = [\<lparr>DeviceSpec_ContainerPath = ''/dev/fuse'', DeviceSpec_HostPath = ''/dev/fuse'', DeviceSpec_Permissions = ''rwm''\<rparr>], ContainerAllocateResponse_Annotations = []\<rparr>]\<rparr>) < 100" by code_simp
  moreover have "AllocateResponse_wf \<lparr>AllocateResponse_ContainerResponses = [\<lparr>ContainerAllocateResponse_Envs = [(''A'', ''1''), (''B'', '''')], ContainerAllocateResponse_Mounts = [\<lparr>Mount_ContainerPath = ''/a'', Mount_HostPath = ''/b'', Mount_ReadOnly = True\<rparr>], ContainerAllocateResponse_Devices = [\<lparr>DeviceSpec_ContainerPath = ''/dev/fuse'', DeviceSpec_HostPath = ''/dev/fuse'', DeviceSpec_Permissions = ''rwm''\<rparr>], ContainerAllocateResponse_Annotations = []\<rparr>]\<rparr>" by code_simp
  ultimately show ?thesis using allocate_response_roundtrip [of "\<lparr>AllocateResponse_ContainerResponses = [\<lparr>ContainerAllocateResponse_Envs = [(''A'', ''1''), (''B'', '''')], ContainerAllocateResponse_Mounts = [\<lparr>Mount_ContainerPath = ''/a'', Mount_HostPath = ''/b'', Mount_ReadOnly = True\<rparr>], ContainerAllocateResponse_Devices = [\<lparr>DeviceSpec_ContainerPath = ''/dev/fuse'', DeviceSpec_HostPath = ''/dev/fuse'', DeviceSpec_Permissions = ''rwm''\<rparr>], ContainerAllocateResponse_Annotations = []\<rparr>]\<rparr>"] by auto
qed

text \<open>C17: decoding ends on every input, for every message: with a value, an error or a panic, never in
  an endless loop.\<close>

theorem unmarshal_terminates:
  assumes "length dAtA < 2 ^ 63"
  shows "snd (DevicePluginOptions_Unmarshal dAtA m1) \<noteq> Stuck \<and>
    snd (RegisterRequest_Unmarshal dAtA m2) \<noteq> Stuck \<and>
    snd (Empty_Unmarshal dAtA m3) \<noteq> Stuck \<and>
    snd (Device_Unmarshal dAtA m4) \<noteq> Stuck \<and>
    snd (ListAndWatchResponse_Unmarshal dAtA m5) \<noteq> Stuck \<and>
    snd (PreStartContainerRequest_Unmarshal dAtA m6) \<noteq> Stuck \<and>
    snd (PreStartContainerResponse_Unmarshal dAtA m7) \<noteq> Stuck \<and>
    snd (ContainerAllocateRequest_Unmarshal dAtA m8) \<noteq> Stuck \<and>
    snd (AllocateRequest_Unmarshal dAtA m9) \<noteq> Stuck \<and>
    snd (Mount_Unmarshal dAtA m10) \<noteq> Stuck \<and>
    snd (DeviceSpec_Unmarshal dAtA m11) \<noteq> Stuck \<and>
    snd (ContainerAllocateResponse_Unmarshal dAtA m12) \<noteq> Stuck \<and>
    snd (AllocateResponse_Unmarshal dAtA m13) \<noteq> Stuck"
  unfolding DevicePluginOptions_Unmarshal_def RegisterRequest_Unmarshal_def Empty_Unmarshal_def Device_Unmarshal_def ListAndWatchResponse_Unmarshal_def PreStartContainerRequest_Unmarshal_def PreStartContainerResponse_Unmarshal_def ContainerAllocateRequest_Unmarshal_def AllocateRequest_Unmarshal_def Mount_Unmarshal_def DeviceSpec_Unmarshal_def ContainerAllocateResponse_Unmarshal_def AllocateResponse_Unmarshal_def
  using assms
  by (intro conjI DevicePluginOptions.unmarshal_returns RegisterRequest.unmarshal_returns Empty.unmarshal_returns Device.unmarshal_returns ListAndWatchResponse.unmarshal_returns PreStartContainerRequest.unmarshal_returns PreStartContainerResponse.unmarshal_returns ContainerAllocateRequest.unmarshal_returns AllocateRequest.unmarshal_returns Mount.unmarshal_returns DeviceSpec.unmarshal_returns ContainerAllocateResponse.unmarshal_returns AllocateResponse.unmarshal_returns)

theorem unmarshal_terminates_witness:
  "snd (Device_Unmarshal [11, 11, 8, 1, 12] Device_Reset) \<noteq> Stuck"
  using unmarshal_terminates [of "[11, 11, 8, 1, 12]"] by simp

text \<open>A request from a newer kubelet: a length-delimited field that \<open>AllocateRequest\<close> does not
  have, behind the known ones, is ignored.\<close>

theorem allocate_request_unknown_field:
  assumes "tag < 128" "tag_type tag = 2" "1 < tag_num tag"
    and "length (AllocateRequest_enc r @ enc_block tag body) < 2 ^ 63"
  shows "AllocateRequest_Unmarshal (AllocateRequest_enc r @ enc_block tag body) AllocateRequest_Reset = (r, Ok ())"
  unfolding AllocateRequest_Unmarshal_def
  by (rule AllocateRequest.unknown_field_ignored) (use assms in \<open>simp_all add: AllocateRequest_field_def\<close>)

theorem allocate_request_unknown_field_witness:
  "AllocateRequest_Unmarshal (AllocateRequest_enc
       \<lparr>AllocateRequest_ContainerRequests = [\<lparr>ContainerAllocateRequest_DevicesIDs = [''fuse1'']\<rparr>]\<rparr> @ [18, 2, 0, 255])
     AllocateRequest_Reset =
   (\<lparr>AllocateRequest_ContainerRequests = [\<lparr>ContainerAllocateRequest_DevicesIDs = [''fuse1'']\<rparr>]\<rparr>, Ok ())"
proof -
  let ?r = "\<lparr>AllocateRequest_ContainerRequests = [\<lparr>ContainerAllocateRequest_DevicesIDs = [''fuse1'']\<rparr>]\<rparr>"
  have "enc_block 18 [0, 255] = [18, 2, 0, 255]" "tag_type 18 = 2" "tag_num 18 = 2"
    "length (AllocateRequest_enc ?r @ [18, 2, 0, 255]) < 100" by code_simp+
  with allocate_request_unknown_field [of 18 ?r "[0, 255]"] show ?thesis by simp
qed

text \<open>C19: in every message, each string field and each field that embeds a message can be given a length that makes
  the index of its end overflow \<open>int\<close>: the negative index passes the check of the decoder, which compares the end with
  the length of the input only from above, and the slice panics. This holds of every such length, wherever the
  field stands: after the encoding of any message, whose fields have then been read.\<close>

theorem crafted_length_panics:
  "(\<forall>m. \<forall>tag\<in>{10, 18, 26, 34}. end_overflows (RegisterRequest_enc m @ [tag]) len rest \<longrightarrow>
      RegisterRequest_Unmarshal (RegisterRequest_enc m @ tag # varint_bytes len @ rest) RegisterRequest_Reset = (m, Panic)) \<and>
   (\<forall>m. \<forall>tag\<in>{10, 18}. end_overflows (Device_enc m @ [tag]) len rest \<longrightarrow>
      Device_Unmarshal (Device_enc m @ tag # varint_bytes len @ rest) Device_Reset = (m, Panic)) \<and>
   (\<forall>m. end_overflows (ListAndWatchResponse_enc m @ [10]) len rest \<longrightarrow>
      ListAndWatchResponse_Unmarshal (ListAndWatchResponse_enc m @ 10 # varint_bytes len @ rest) ListAndWatchResponse_Reset = (m, Panic)) \<and>
   (\<forall>m. end_overflows (PreStartContainerRequest_enc m @ [10]) len rest \<longrightarrow>
      PreStartContainerRequest_Unmarshal (PreStartContainerRequest_enc m @ 10 # varint_bytes len @ rest) PreStartContainerRequest_Reset = (m, Panic)) \<and>
   (\<forall>m. end_overflows (ContainerAllocateRequest_enc m @ [10]) len rest \<longrightarrow>
      ContainerAllocateRequest_Unmarshal (ContainerAllocateRequest_enc m @ 10 # varint_bytes len @ rest) ContainerAllocateRequest_Reset = (m, Panic)) \<and>
   (\<forall>m. end_overflows (AllocateRequest_enc m @ [10]) len rest \<longrightarrow>
      AllocateRequest_Unmarshal (AllocateRequest_enc m @ 10 # varint_bytes len @ rest) AllocateRequest_Reset = (m, Panic)) \<and>
   (\<forall>m. \<forall>tag\<in>{10, 18}. end_overflows (Mount_enc m @ [tag]) len rest \<longrightarrow>
      Mount_Unmarshal (Mount_enc m @ tag # varint_bytes len @ rest) Mount_Reset = (m, Panic)) \<and>
   (\<forall>m. \<forall>tag\<in>{10, 18, 26}. end_overflows (DeviceSpec_enc m @ [tag]) len rest \<longrightarrow>
      DeviceSpec_Unmarshal (DeviceSpec_enc m @ tag # varint_bytes len @ rest) DeviceSpec_Reset = (m, Panic)) \<and>
   (\<forall>m. \<forall>tag\<in>{18, 26}. ContainerAllocateResponse_wf m \<and> end_overflows (ContainerAllocateResponse_enc m @ [tag]) len rest \<longrightarrow>
      ContainerAllocateResponse_Unmarshal (ContainerAllocateResponse_enc m @ tag # varint_bytes len @ rest) ContainerAllocateResponse_Reset = (m, Panic)) \<and>
   (\<forall>m. AllocateResponse_wf m \<and> end_overflows (AllocateResponse_enc m @ [10]) len rest \<longrightarrow>
      AllocateResponse_Unmarshal (AllocateResponse_enc m @ 10 # varint_bytes len @ rest) AllocateResponse_Reset = (m, Panic))"
proof (intro conjI allI ballI impI)
  show "RegisterRequest_Unmarshal (RegisterRequest_enc m @ tag # varint_bytes len @ rest) RegisterRequest_Reset = (m, Panic)"
    if "tag \<in> {10, 18, 26, 34}" "end_overflows (RegisterRequest_enc m @ [tag]) len rest" for m tag
    using that(1) unfolding RegisterRequest_Unmarshal_def
    by (intro RegisterRequest.overflow_panics [OF TrueI _ _ _ _ that(2)])
      (auto simp: RegisterRequest_field_def on_value_def on_message_def)
  show "Device_Unmarshal (Device_enc m @ tag # varint_bytes len @ rest) Device_Reset = (m, Panic)"
    if "tag \<in> {10, 18}" "end_overflows (Device_enc m @ [tag]) len rest" for m tag
    using that(1) unfolding Device_Unmarshal_def
    by (intro Device.overflow_panics [OF TrueI _ _ _ _ that(2)]) (auto simp: Device_field_def on_value_def)
  show "ListAndWatchResponse_Unmarshal (ListAndWatchResponse_enc m @ 10 # varint_bytes len @ rest) ListAndWatchResponse_Reset = (m, Panic)"
    if "end_overflows (ListAndWatchResponse_enc m @ [10]) len rest" for m
    unfolding ListAndWatchResponse_Unmarshal_def
    by (intro ListAndWatchResponse.overflow_panics [OF TrueI _ _ _ _ that]) (auto simp: ListAndWatchResponse_field_def on_message_def)
  show "PreStartContainerRequest_Unmarshal (PreStartContainerRequest_enc m @ 10 # varint_bytes len @ rest) PreStartContainerRequest_Reset = (m, Panic)"
    if "end_overflows (PreStartContainerRequest_enc m @ [10]) len rest" for m
    unfolding PreStartContainerRequest_Unmarshal_def
    by (intro PreStartContainerRequest.overflow_panics [OF TrueI _ _ _ _ that]) (auto simp: PreStartContainerRequest_field_def on_value_def)
  show "ContainerAllocateRequest_Unmarshal (ContainerAllocateRequest_enc m @ 10 # varint_bytes len @ rest) ContainerAllocateRequest_Reset = (m, Panic)"
    if "end_overflows (ContainerAllocateRequest_enc m @ [10]) len rest" for m
    unfolding ContainerAllocateRequest_Unmarshal_def
    by (intro ContainerAllocateRequest.overflow_panics [OF TrueI _ _ _ _ that]) (auto simp: ContainerAllocateRequest_field_def on_value_def)
  show "AllocateRequest_Unmarshal (AllocateRequest_enc m @ 10 # varint_bytes len @ rest) AllocateRequest_Reset = (m, Panic)"
    if "end_overflows (AllocateRequest_enc m @ [10]) len rest" for m
    unfolding AllocateRequest_Unmarshal_def
    by (intro AllocateRequest.overflow_panics [OF TrueI _ _ _ _ that]) (auto simp: AllocateRequest_field_def on_message_def)
  show "Mount_Unmarshal (Mount_enc m @ tag # varint_bytes len @ rest) Mount_Reset = (m, Panic)"
    if "tag \<in> {10, 18}" "end_overflows (Mount_enc m @ [tag]) len rest" for m tag
    using that(1) unfolding Mount_Unmarshal_def
    by (intro Mount.overflow_panics [OF TrueI _ _ _ _ that(2)]) (auto simp: Mount_field_def on_value_def)
  show "DeviceSpec_Unmarshal (DeviceSpec_enc m @ tag # varint_bytes len @ rest) DeviceSpec_Reset = (m, Panic)"
    if "tag \<in> {10, 18, 26}" "end_overflows (DeviceSpec_enc m @ [tag]) len rest" for m tag
    using that(1) unfolding DeviceSpec_Unmarshal_def
    by (intro DeviceSpec.overflow_panics [OF TrueI _ _ _ _ that(2)]) (auto simp: DeviceSpec_field_def on_value_def)
  show "ContainerAllocateResponse_Unmarshal (ContainerAllocateResponse_enc m @ tag # varint_bytes len @ rest) ContainerAllocateResponse_Reset = (m, Panic)"
    if "tag \<in> {18, 26}" "ContainerAllocateResponse_wf m \<and> end_overflows (ContainerAllocateResponse_enc m @ [tag]) len rest" for m tag
    using that(1) unfolding ContainerAllocateResponse_Unmarshal_def
    by (intro ContainerAllocateResponse.overflow_panics [OF conjunct1 [OF that(2)] _ _ _ _ conjunct2 [OF that(2)]])
      (auto simp: ContainerAllocateResponse_field_def on_message_def)
  show "AllocateResponse_Unmarshal (AllocateResponse_enc m @ 10 # varint_bytes len @ rest) AllocateResponse_Reset = (m, Panic)"
    if "AllocateResponse_wf m \<and> end_overflows (AllocateResponse_enc m @ [10]) len rest" for m
    unfolding AllocateResponse_Unmarshal_def
    by (intro AllocateResponse.overflow_panics [OF conjunct1 [OF that] _ _ _ _ conjunct2 [OF that]]) (auto simp: AllocateResponse_field_def on_message_def)
qed

theorem crafted_length_panics_witness:
  "Device_Unmarshal [10, 1, 97, 18, 254, 255, 255, 255, 255, 255, 255, 255, 127, 98] Device_Reset =
     (\<lparr>Device_ID = ''a'', Device_Health = []\<rparr>, Panic)"
proof -
  let ?m = "\<lparr>Device_ID = ''a'', Device_Health = []\<rparr>" and ?len = "9223372036854775806 :: uint64"
  have enc: "Device_enc ?m = [10, 1, 97]" "varint_bytes ?len = [254, 255, 255, 255, 255, 255, 255, 255, 127]"
    "uint ?len = 9223372036854775806" by code_simp+
  have "end_overflows (Device_enc ?m @ [18]) ?len [98]" unfolding end_overflows_def enc by simp
  then have "Device_Unmarshal (Device_enc ?m @ 18 # varint_bytes ?len @ [98]) Device_Reset = (?m, Panic)"
    using crafted_length_panics [of ?len "[98]"] by blast
  then show ?thesis by (simp add: enc)
qed

end
