(* ===== verification/Plugin.thy ===== *)
theory Plugin
  imports DevicePluginApi
begin

text \<open>
  The device plugin server, \<open>server.go\<close>, with the constants of \<open>deviceplugin/v1beta1/constants.go\<close>:
  the plugins of the three host devices, their gRPC servers and sockets, registration with the
  kubelet, and the calls the kubelet makes (\<open>ListAndWatch\<close>, \<open>Allocate\<close>, \<open>GetDevicePluginOptions\<close>,
  \<open>PreStartContainer\<close>) with their generated handlers.

  What the operating system, the gRPC library and the kubelet answer is an argument of type
  \<open>env\<close>: whether \<open>net.Listen\<close> on a path succeeds, whether a blocking dial of a path succeeds
  within its timeout, whether the kubelet accepts a \<open>Register\<close> call and, when the call fails,
  whether it had reached the kubelet. What they keep is the record \<open>world\<close>: the files, those
  that the system refuses to remove, the gRPC servers that serve, the registration requests that
  have reached the kubelet and those of them that it has acknowledged.
\<close>

section \<open>Constants\<close>

definition Healthy :: string where "Healthy = ''Healthy''"

definition Unhealthy :: string where "Unhealthy = ''Unhealthy''"

definition Version :: string where "Version = ''v1beta1''"

definition DevicePluginPath :: string where "DevicePluginPath = ''/var/lib/kubelet/device-plugins/''"

definition KubeletSocket :: string where "KubeletSocket = DevicePluginPath @ ''kubelet.sock''"

definition resourceNamePrefix :: string where "resourceNamePrefix = ''openvmi/''"

section \<open>State\<close>

record main_Device =
  dev_devName :: string
  dev_permissions :: string

datatype chan_state = ChanOpen | ChanClosed

record DevicePlugin =
  devName :: string
  permissions :: string
  baseName :: string
  resourceName :: string
  unixSockPath :: string
  unixSock :: "string option"
  gRpcServer :: "nat option"
  devInstances :: "Device list"
  isRigistered :: bool
  stopChan :: chan_state

record DevicePluginManager =
  devs :: "main_Device list"
  devPlugins :: "DevicePlugin list"

definition devList :: "main_Device list" where
  "devList =
     [\<lparr>dev_devName = ''/dev/fuse'', dev_permissions = ''rwm''\<rparr>,
      \<lparr>dev_devName = ''/dev/ashmem'', dev_permissions = ''rwm''\<rparr>,
      \<lparr>dev_devName = ''/dev/binder'', dev_permissions = ''rwm''\<rparr>]"

record env =
  listen_ok :: "string \<Rightarrow> bool"
  dial_ok :: "string \<Rightarrow> bool"
  register_ok :: "RegisterRequest \<Rightarrow> bool"
  register_arrives :: "RegisterRequest \<Rightarrow> bool"

record world =
  files :: "string set"
  undeletable :: "string set"
  serving :: "(nat \<times> string) list"
  nextServer :: nat
  requests :: "RegisterRequest list"
  acked :: "RegisterRequest list"

datatype main_error =
    ErrStartCmd string
  | ErrInitHost string
  | ErrListen string
  | ErrDial string
  | ErrRegister RegisterRequest
  | ErrWatcher string
  | ErrPidFile

section \<open>Host initialisation\<close>

text \<open>
  \<open>initHostDevice\<close>: the script is run and its standard error collected read by read; each read
  gives \<open>size\<close> bytes and the code appends \<open>buf[:size-1]\<close>. The outcome of the command is a
  parameter: whether it starts, the reads of the pipe, whether \<open>Wait\<close> reports success.
\<close>

definition init_cmd :: "int \<Rightarrow> string" where
  "init_cmd n = ''/opt/openvmi/k8s-plugins/k8s-dev-init.sh '' @ itoa n"

fun read_stderr :: "string list \<Rightarrow> string \<Rightarrow> (main_error, string) res" where
  "read_stderr [] errMsg = Ok errMsg"
| "read_stderr (buf # bufs) errMsg =
     res_bind (gslice buf 0 (int (length buf) - 1)) (\<lambda>s. read_stderr bufs (errMsg @ s))"

record cmd_run =
  cmd_starts :: bool
  cmd_stderr :: "string list"
  cmd_succeeds :: bool

definition initHostDevice :: "(string \<Rightarrow> cmd_run) \<Rightarrow> int \<Rightarrow> (main_error, unit) res" where
  "initHostDevice run devInstanceNum =
     (let str = init_cmd devInstanceNum; cmd = run str in
      if \<not> cmd_starts cmd then Err (ErrStartCmd str)
      else res_bind (read_stderr (cmd_stderr cmd) []) (\<lambda>errMsg.
        if cmd_succeeds cmd then Ok () else Err (ErrInitHost errMsg)))"

lemma read_stderr_eq:
  "read_stderr bufs acc = (if [] \<in> set bufs then Panic else Ok (acc @ concat (map butlast bufs)))"
  by (induction bufs arbitrary: acc) (auto simp: gslice_def butlast_conv_take nat_int_minus_one)

section \<open>Creating the plugins\<close>

definition dev_instance :: "string \<Rightarrow> nat \<Rightarrow> Device" where
  "dev_instance base i = \<lparr>Device_ID = base @ itoa (int i + 1), Device_Health = Healthy\<rparr>"

definition newDevicePlugin :: "main_Device \<Rightarrow> int \<Rightarrow> (main_error, DevicePlugin) res" where
  "newDevicePlugin dev devNum =
     (let base = path_Base (dev_devName dev) in
      if devNum < 0 then Panic
      else Ok \<lparr>devName = dev_devName dev, permissions = dev_permissions dev, baseName = base,
        resourceName = resourceNamePrefix @ base,
        unixSockPath = DevicePluginPath @ base @ ''.sock'',
        unixSock = None, gRpcServer = None,
        devInstances = map (dev_instance base) [0..<nat devNum],
        isRigistered = False, stopChan = ChanOpen\<rparr>)"

fun new_plugins :: "main_Device list \<Rightarrow> int \<Rightarrow> DevicePlugin list \<Rightarrow> (main_error, DevicePlugin list) res" where
  "new_plugins [] devNum plugins = Ok plugins"
| "new_plugins (dev # ds) devNum plugins =
     res_bind (newDevicePlugin dev devNum) (\<lambda>plugin. new_plugins ds devNum (plugins @ [plugin]))"

definition initPluginManager :: "int \<Rightarrow> (main_error, DevicePluginManager) res" where
  "initPluginManager devNum =
     res_bind (new_plugins devList devNum []) (\<lambda>plugins. Ok \<lparr>devs = devList, devPlugins = plugins\<rparr>)"

section \<open>The gRPC servers\<close>

text \<open>\<open>os.Remove\<close>: the file stays when the system refuses to remove it. Every caller ignores the
  error, so only the new world is kept.\<close>

definition os_Remove :: "string \<Rightarrow> world \<Rightarrow> world" where
  "os_Remove path w = (if path \<in> undeletable w then w else w\<lparr>files := files w - {path}\<rparr>)"

text \<open>\<open>connectGrpcServer\<close>: a blocking dial with a timeout; only its outcome is visible here.\<close>

definition connectGrpcServer :: "env \<Rightarrow> string \<Rightarrow> main_error option" where
  "connectGrpcServer e path = (if dial_ok e path then None else Some (ErrDial path))"

text \<open>\<open>startGrpcServer\<close> of one plugin. \<open>net.Listen\<close> creates the socket file; \<open>grpc.NewServer\<close> and
  \<open>Serve\<close> add a server with a fresh identity. The plugin is returned as it is left, with the
  error if there is one.\<close>

definition startGrpcServer :: "env \<Rightarrow> DevicePlugin \<Rightarrow> world \<Rightarrow> DevicePlugin \<times> world \<times> main_error option" where
  "startGrpcServer e plugin w =
     (let path = unixSockPath plugin; w = os_Remove path w in
      if \<not> listen_ok e path then (plugin, w, Some (ErrListen path))
      else
        let srv = nextServer w;
            plugin = plugin\<lparr>unixSock := Some path, gRpcServer := Some srv\<rparr>;
            w = w\<lparr>files := insert path (files w), serving := serving w @ [(srv, path)],
                  nextServer := srv + 1\<rparr>
        in (plugin, w, connectGrpcServer e path))"

text \<open>\<open>for _, plugin := range mgr.devPlugins\<close> with a return at the first error.\<close>

fun for_plugins :: "(DevicePlugin \<Rightarrow> world \<Rightarrow> DevicePlugin \<times> world \<times> main_error option) \<Rightarrow>
    DevicePlugin list \<Rightarrow> world \<Rightarrow> DevicePlugin list \<times> world \<times> main_error option" where
  "for_plugins f [] w = ([], w, None)"
| "for_plugins f (p # ps) w =
     (case f p w of
        (p', w', Some err) \<Rightarrow> (p' # ps, w', Some err)
      | (p', w', None) \<Rightarrow> (case for_plugins f ps w' of (ps', w'', r) \<Rightarrow> (p' # ps', w'', r)))"

definition mgr_startGrpcServer ::
    "env \<Rightarrow> DevicePluginManager \<Rightarrow> world \<Rightarrow> DevicePluginManager \<times> world \<times> main_error option" where
  "mgr_startGrpcServer e mgr w =
     (case for_plugins (startGrpcServer e) (devPlugins mgr) w of
        (ps, w, r) \<Rightarrow> (mgr\<lparr>devPlugins := ps\<rparr>, w, r))"

text \<open>\<open>Server.Stop\<close> closes the listeners of the server; closing a unix listener removes its file,
  with the error ignored again.\<close>

definition server_Stop :: "nat \<Rightarrow> world \<Rightarrow> world" where
  "server_Stop srv w =
     w\<lparr>files := files w - (set (map snd (filter (\<lambda>(s, _). s = srv) (serving w))) - undeletable w),
       serving := filter (\<lambda>(s, _). s \<noteq> srv) (serving w)\<rparr>"

definition close_chan :: "chan_state \<Rightarrow> (main_error, chan_state) res" where
  "close_chan c = (case c of ChanOpen \<Rightarrow> Ok ChanClosed | ChanClosed \<Rightarrow> Panic)"

definition stopGrpcServer :: "DevicePlugin \<Rightarrow> world \<Rightarrow> (main_error, DevicePlugin \<times> world) res" where
  "stopGrpcServer plugin w =
     (case gRpcServer plugin of
        None \<Rightarrow> Ok (plugin, w)
      | Some srv \<Rightarrow>
          let w = server_Stop srv w; plugin = plugin\<lparr>gRpcServer := None, isRigistered := False\<rparr> in
          res_bind (close_chan (stopChan plugin)) (\<lambda>c.
            Ok (plugin\<lparr>stopChan := c\<rparr>, os_Remove (unixSockPath plugin) w)))"

fun stop_plugins :: "DevicePlugin list \<Rightarrow> world \<Rightarrow> (main_error, DevicePlugin list \<times> world) res" where
  "stop_plugins [] w = Ok ([], w)"
| "stop_plugins (p # ps) w = res_bind (stopGrpcServer p w) (\<lambda>(p', w').
     res_bind (stop_plugins ps w') (\<lambda>(ps', w''). Ok (p' # ps', w'')))"

definition mgr_stopGrpcServer ::
    "DevicePluginManager \<Rightarrow> world \<Rightarrow> (main_error, DevicePluginManager \<times> world) res" where
  "mgr_stopGrpcServer mgr w =
     res_bind (stop_plugins (devPlugins mgr) w) (\<lambda>(ps, w). Ok (mgr\<lparr>devPlugins := ps\<rparr>, w))"

section \<open>Registration\<close>

definition register_request :: "DevicePlugin \<Rightarrow> RegisterRequest" where
  "register_request plugin =
     \<lparr>RegisterRequest_Version = Version, RegisterRequest_Endpoint = path_Base (unixSockPath plugin),
      RegisterRequest_ResourceName = resourceName plugin, RegisterRequest_Options = None\<rparr>"

text \<open>The generated client stub: \<open>grpc.Invoke\<close> fills \<open>out\<close> and returns an error or nil.\<close>

definition registrationClient_Register ::
    "(string \<Rightarrow> RegisterRequest \<Rightarrow> Empty \<Rightarrow> Empty \<times> main_error option) \<Rightarrow> RegisterRequest \<Rightarrow> (main_error, Empty) res" where
  "registrationClient_Register invoke inp =
     (case invoke ''/v1beta1.Registration/Register'' inp Empty_Reset of
        (out, None) \<Rightarrow> Ok out
      | (out, Some err) \<Rightarrow> Err err)"

definition kubelet_invoke :: "env \<Rightarrow> string \<Rightarrow> RegisterRequest \<Rightarrow> Empty \<Rightarrow> Empty \<times> main_error option" where
  "kubelet_invoke e method request out =
     (out, if register_ok e request then None else Some (ErrRegister request))"

text \<open>\<open>registerToKubelet\<close> of one plugin. A call that ends in an error may have reached the kubelet
  all the same (the kubelet refused it, or its answer was lost): then the kubelet has seen the
  request, but the plugin has not seen it acknowledged.\<close>

definition registerToKubelet :: "env \<Rightarrow> DevicePlugin \<Rightarrow> world \<Rightarrow> DevicePlugin \<times> world \<times> main_error option" where
  "registerToKubelet e plugin w =
     (case connectGrpcServer e KubeletSocket of
        Some err \<Rightarrow> (plugin, w, Some err)
      | None \<Rightarrow>
          let request = register_request plugin in
          (case registrationClient_Register (kubelet_invoke e) request of
             Err err \<Rightarrow> (plugin\<lparr>isRigistered := False\<rparr>,
               if register_arrives e request then w\<lparr>requests := requests w @ [request]\<rparr> else w, Some err)
           | _ \<Rightarrow> (plugin\<lparr>isRigistered := True\<rparr>,
               w\<lparr>requests := requests w @ [request], acked := acked w @ [request]\<rparr>, None)))"

definition mgr_registerToKubelet ::
    "env \<Rightarrow> DevicePluginManager \<Rightarrow> world \<Rightarrow> DevicePluginManager \<times> world \<times> main_error option" where
  "mgr_registerToKubelet e mgr w =
     (case for_plugins (\<lambda>plugin w. if isRigistered plugin then (plugin, w, None)
           else registerToKubelet e plugin w) (devPlugins mgr) w of
        (ps, w, r) \<Rightarrow> (mgr\<lparr>devPlugins := ps\<rparr>, w, r))"

section \<open>The calls of the kubelet\<close>

text \<open>
  \<open>ListAndWatch\<close> sends the device list once and then at every tick until the stop channel is
  closed. The list of events is what happens, oldest first: a tick or the closing of the stop channel that \<open>select\<close>
  picks, and before the latter, unseen by the loop, that \<open>Stop\<close> closes the connections of the server.
  The result is the messages given to \<open>Send\<close> and whether the call has returned.
\<close>

datatype watch_event = Tick | ConnsClosed | StopClosed

fun watch_loop :: "Device list \<Rightarrow> watch_event list \<Rightarrow> ListAndWatchResponse list \<times> bool" where
  "watch_loop ds [] = ([], False)"
| "watch_loop ds (StopClosed # evs) = ([], True)"
| "watch_loop ds (ConnsClosed # evs) = watch_loop ds evs"
| "watch_loop ds (Tick # evs) =
     (case watch_loop ds evs of (msgs, r) \<Rightarrow> (\<lparr>ListAndWatchResponse_Devices = ds\<rparr> # msgs, r))"

definition ListAndWatch :: "DevicePlugin \<Rightarrow> watch_event list \<Rightarrow> ListAndWatchResponse list \<times> bool" where
  "ListAndWatch plugin evs =
     (case watch_loop (devInstances plugin) evs of
        (msgs, r) \<Rightarrow> (\<lparr>ListAndWatchResponse_Devices = devInstances plugin\<rparr> # msgs, r))"

definition Allocate :: "DevicePlugin \<Rightarrow> AllocateRequest \<Rightarrow> AllocateResponse pres" where
  "Allocate plugin r =
     res_bind (index (AllocateRequest_ContainerRequests r) 0) (\<lambda>creq.
     res_bind (index (ContainerAllocateRequest_DevicesIDs creq) 0) (\<lambda>devId.
       let isBinder = strings_Contains devId ''binder'';
           hostPath = (if isBinder then ''/dev/'' @ devId else devName plugin);
           envs = (if isBinder then [(''ANDROID_BINDER_IDX'', strings_Trim devId ''binder'')] else []);
           devSpec = \<lparr>DeviceSpec_ContainerPath = devName plugin, DeviceSpec_HostPath = hostPath,
             DeviceSpec_Permissions = permissions plugin\<rparr>
       in Ok \<lparr>AllocateResponse_ContainerResponses =
            [\<lparr>ContainerAllocateResponse_Envs = envs, ContainerAllocateResponse_Mounts = [],
              ContainerAllocateResponse_Devices = [devSpec],
              ContainerAllocateResponse_Annotations = []\<rparr>]\<rparr>))"

definition GetDevicePluginOptions :: "DevicePlugin \<Rightarrow> Empty \<Rightarrow> DevicePluginOptions pres" where
  "GetDevicePluginOptions plugin e = Ok \<lparr>DevicePluginOptions_PreStartRequired = False\<rparr>"

definition PreStartContainer ::
    "DevicePlugin \<Rightarrow> PreStartContainerRequest \<Rightarrow> PreStartContainerResponse pres" where
  "PreStartContainer plugin r = Ok PreStartContainerResponse"

text \<open>
  The generated method handlers of \<open>api.pb.go\<close>: decode the request into a new message, then
  call the method directly or through the interceptor of the server, if it has one. The decoder
  \<open>dec\<close> is the codec of the library applied to the bytes received.
\<close>

type_synonym ('q, 'r) interceptor = "string \<Rightarrow> 'q \<Rightarrow> ('q \<Rightarrow> 'r pres) \<Rightarrow> 'r pres"

definition unary_handler :: "string \<Rightarrow> 'q \<times> unit pres \<Rightarrow> ('q, 'r) interceptor option \<Rightarrow>
    ('q \<Rightarrow> 'r pres) \<Rightarrow> 'r pres" where
  "unary_handler fullMethod decoded interceptor srv =
     (case decoded of (inp, err) \<Rightarrow> res_bind err (\<lambda>_.
        case interceptor of None \<Rightarrow> srv inp | Some ic \<Rightarrow> ic fullMethod inp srv))"

definition GetDevicePluginOptions_Handler :: "DevicePlugin \<Rightarrow> (Empty \<Rightarrow> Empty \<times> unit pres) \<Rightarrow>
    (Empty, DevicePluginOptions) interceptor option \<Rightarrow> DevicePluginOptions pres" where
  "GetDevicePluginOptions_Handler srv dec interceptor =
     unary_handler ''/v1beta1.DevicePlugin/GetDevicePluginOptions'' (dec Empty_Reset) interceptor
       (GetDevicePluginOptions srv)"

definition ListAndWatch_Handler :: "DevicePlugin \<Rightarrow> (Empty \<Rightarrow> Empty \<times> unit pres) \<Rightarrow> watch_event list \<Rightarrow>
    (ListAndWatchResponse list \<times> bool) pres" where
  "ListAndWatch_Handler srv recvMsg evs =
     (case recvMsg Empty_Reset of (m, err) \<Rightarrow> res_bind err (\<lambda>_. Ok (ListAndWatch srv evs)))"

definition Allocate_Handler :: "DevicePlugin \<Rightarrow> (AllocateRequest \<Rightarrow> AllocateRequest \<times> unit pres) \<Rightarrow>
    (AllocateRequest, AllocateResponse) interceptor option \<Rightarrow> AllocateResponse pres" where
  "Allocate_Handler srv dec interceptor =
     unary_handler ''/v1beta1.DevicePlugin/Allocate'' (dec AllocateRequest_Reset) interceptor (Allocate srv)"

definition PreStartContainer_Handler :: "DevicePlugin \<Rightarrow>
    (PreStartContainerRequest \<Rightarrow> PreStartContainerRequest \<times> unit pres) \<Rightarrow>
    (PreStartContainerRequest, PreStartContainerResponse) interceptor option \<Rightarrow>
    PreStartContainerResponse pres" where
  "PreStartContainer_Handler srv dec interceptor =
     unary_handler ''/v1beta1.DevicePlugin/PreStartContainer'' (dec PreStartContainerRequest_Reset)
       interceptor (PreStartContainer srv)"

text \<open>An \<open>Allocate\<close> call on the wire, as the server created without options runs it: the codec
  decodes the request, the handler answers, the codec encodes the reply.\<close>

definition serve_Allocate :: "DevicePlugin \<Rightarrow> bytes \<Rightarrow> bytes pres" where
  "serve_Allocate plugin dAtA =
     res_bind (Allocate_Handler plugin (AllocateRequest_Unmarshal dAtA) None) AllocateResponse_Marshal"

section \<open>The plugins of the service\<close>

definition fresh :: "DevicePlugin \<Rightarrow> bool" where
  "fresh p \<longleftrightarrow> gRpcServer p = None \<and> \<not> isRigistered p \<and> stopChan p = ChanOpen"

definition plugin_for :: "string \<Rightarrow> string \<Rightarrow> string \<Rightarrow> nat \<Rightarrow> DevicePlugin" where
  "plugin_for dev perm base n =
     \<lparr>devName = dev, permissions = perm, baseName = base, resourceName = ''openvmi/'' @ base,
      unixSockPath = ''/var/lib/kubelet/device-plugins/'' @ base @ ''.sock'',
      unixSock = None, gRpcServer = None, devInstances = map (dev_instance base) [0..<n],
      isRigistered = False, stopChan = ChanOpen\<rparr>"

definition service_plugins :: "nat \<Rightarrow> DevicePlugin list" where
  "service_plugins n =
     [plugin_for ''/dev/fuse'' ''rwm'' ''fuse'' n,
      plugin_for ''/dev/ashmem'' ''rwm'' ''ashmem'' n,
      plugin_for ''/dev/binder'' ''rwm'' ''binder'' n]"

lemma initPluginManager_eq:
  "initPluginManager (int n) = Ok \<lparr>devs = devList, devPlugins = service_plugins n\<rparr>"
  by (simp add: initPluginManager_def devList_def newDevicePlugin_def service_plugins_def plugin_for_def
      path_Base_def resourceNamePrefix_def DevicePluginPath_def Let_def)

lemma initPluginManager_negative: "n < 0 \<Longrightarrow> initPluginManager n = Panic"
  by (simp add: initPluginManager_def devList_def newDevicePlugin_def Let_def)

lemma fresh_service_plugins: "list_all fresh (service_plugins n)"
  by (simp add: service_plugins_def plugin_for_def fresh_def)

lemma distinct_socket_paths: "distinct (map unixSockPath (service_plugins n))"
  by (simp add: service_plugins_def plugin_for_def)

lemma dev_instance_ID [simp]: "Device_ID (dev_instance base i) = base @ nat_digits (Suc i)"
  using itoa_nat [of "Suc i"] by (simp add: dev_instance_def add.commute del: itoa_nat)

lemma dev_instance_inj: "inj_on (\<lambda>i. Device_ID (dev_instance base i)) A"
  by (simp add: inj_on_def)

section \<open>Operations applied to every plugin\<close>

text \<open>The part of a plugin that is fixed when it is created.\<close>

definition config :: "DevicePlugin \<Rightarrow> string \<times> string \<times> string \<times> string \<times> string \<times> Device list" where
  "config p = (devName p, permissions p, baseName p, resourceName p, unixSockPath p, devInstances p)"

lemma map_by_config:
  assumes "map config ps = map config qs" "\<And>p q. config p = config q \<Longrightarrow> f p = f q"
  shows "map f ps = map f qs"
proof -
  have "list_all2 (\<lambda>p q. config p = config q) ps qs"
    using assms(1) by (simp add: list.rel_eq [symmetric] list.rel_map)
  then have "list_all2 (\<lambda>p q. f p = f q) ps qs"
    by (rule list_all2_mono) (rule assms(2))
  then show ?thesis by (simp add: list.rel_eq [symmetric] list.rel_map)
qed

text \<open>The life cycle invariant of a plugin: as long as it has a server its stop channel is open, so
  the channel is closed at most once.\<close>

definition plugin_inv :: "DevicePlugin \<Rightarrow> bool" where
  "plugin_inv p \<longleftrightarrow> (gRpcServer p \<noteq> None \<longrightarrow> stopChan p = ChanOpen)"

text \<open>What the loops of the manager rely on: the operation on one plugin keeps its configuration
  and its invariant.\<close>

locale plugin_operation =
  fixes f :: "DevicePlugin \<Rightarrow> world \<Rightarrow> DevicePlugin \<times> world \<times> main_error option"
    and J :: "DevicePlugin \<Rightarrow> bool"
  assumes f_config: "config (fst (f p w)) = config p"
    and f_keeps: "J p \<Longrightarrow> J (fst (f p w))"
begin

lemma for_plugins_config: "map config (fst (for_plugins f ps w)) = map config ps"
proof (induction ps arbitrary: w)
  case (Cons p ps)
  then show ?case
    using f_config [of p w] Cons.IH by (auto split: prod.splits option.splits) (metis fst_conv)
qed simp

lemma for_plugins_keeps: "list_all J ps \<Longrightarrow> list_all J (fst (for_plugins f ps w))"
proof (induction ps arbitrary: w)
  case (Cons p ps)
  then show ?case
    using f_keeps [of p w] by (auto split: prod.splits option.splits) (metis fst_conv)+
qed simp

lemma for_plugins_length: "length (fst (for_plugins f ps w)) = length ps"
  using for_plugins_config [of ps w] by (metis length_map)

end

lemma for_plugins_error:
  "for_plugins f ps w = (ps', w', Some err) \<Longrightarrow> \<exists>p\<in>set ps. \<exists>w. snd (snd (f p w)) \<noteq> None"
proof (induction ps arbitrary: w ps' w')
  case (Cons p ps)
  obtain p1 w1 r1 where one: "f p w = (p1, w1, r1)" by (metis prod_cases3)
  show ?case
  proof (cases r1)
    case None
    with Cons.prems one Cons.IH [of w1] show ?thesis by (auto split: prod.splits)
  next
    case (Some e)
    with one have "snd (snd (f p w)) \<noteq> None" by simp
    then show ?thesis by auto
  qed
qed simp

definition open_chan :: "DevicePlugin \<Rightarrow> bool" where
  "open_chan p \<longleftrightarrow> stopChan p = ChanOpen"

definition register_step :: "env \<Rightarrow> DevicePlugin \<Rightarrow> world \<Rightarrow> DevicePlugin \<times> world \<times> main_error option" where
  "register_step e plugin w =
     (if isRigistered plugin then (plugin, w, None) else registerToKubelet e plugin w)"

lemma mgr_registerToKubelet_step:
  "mgr_registerToKubelet e mgr w = (case for_plugins (register_step e) (devPlugins mgr) w of
     (ps, w, r) \<Rightarrow> (mgr\<lparr>devPlugins := ps\<rparr>, w, r))"
  by (simp add: mgr_registerToKubelet_def register_step_def [abs_def])

lemmas start_simps = startGrpcServer_def connectGrpcServer_def os_Remove_def
lemmas register_simps = register_step_def registerToKubelet_def registrationClient_Register_def
  kubelet_invoke_def connectGrpcServer_def

interpretation start: plugin_operation "startGrpcServer e" open_chan
  by unfold_locales (auto simp: start_simps config_def open_chan_def Let_def)

interpretation register: plugin_operation "register_step e" plugin_inv
  by unfold_locales (auto simp: register_simps config_def plugin_inv_def Let_def)

section \<open>Starting, registering and stopping all plugins\<close>

definition servers :: "DevicePlugin list \<Rightarrow> (nat \<times> string) list" where
  "servers ps = map (\<lambda>p. (the (gRpcServer p), unixSockPath p)) (filter (\<lambda>p. gRpcServer p \<noteq> None) ps)"

lemma servers_Cons: "servers (p # ps) =
    (case gRpcServer p of None \<Rightarrow> [] | Some i \<Rightarrow> [(i, unixSockPath p)]) @ servers ps"
  by (auto simp: servers_def split: option.split)

lemma servers_fresh: "list_all fresh ps \<Longrightarrow> servers ps = []"
  by (induction ps) (auto simp: servers_def fresh_def)

lemma start_one:
  assumes "fresh p" "startGrpcServer e p w = (p', w', r)"
  shows "serving w' = serving w @ servers [p']" and "nextServer w \<le> nextServer w'"
    and "map fst (servers [p']) = [nextServer w ..< nextServer w']"
    and "r = None \<Longrightarrow> gRpcServer p' \<noteq> None" and "requests w' = requests w"
    and "undeletable w' = undeletable w"
    and "\<not> isRigistered p'" and "stopChan p' = ChanOpen"
  using assms
  by (auto simp: start_simps fresh_def servers_def Let_def split: if_splits)

text \<open>Fresh plugins, started in turn: whatever the outcome, exactly the plugins that have a server
  serve, under identities not used before, on existing sockets.\<close>

lemma start_all:
  assumes "list_all fresh ps" "for_plugins (startGrpcServer e) ps w = (ps', w', r)"
  shows "serving w' = serving w @ servers ps'"
    and "nextServer w \<le> nextServer w'"
    and "map fst (servers ps') = [nextServer w ..< nextServer w']"
    and "r = None \<Longrightarrow> \<forall>p\<in>set ps'. gRpcServer p \<noteq> None"
    and "requests w' = requests w"
    and "\<forall>p\<in>set ps'. \<not> isRigistered p \<and> stopChan p = ChanOpen"
    and "undeletable w' = undeletable w"
proof (atomize (full), use assms in \<open>induction ps arbitrary: w ps' w' r\<close>)
  case Nil
  then show ?case by (simp add: servers_def)
next
  case (Cons p ps)
  obtain p1 w1 r1 where one: "startGrpcServer e p w = (p1, w1, r1)" by (metis prod_cases3)
  from Cons.prems have fresh: "fresh p" "list_all fresh ps" by simp_all
  note p1 = start_one [OF fresh(1) one]
  show ?case
  proof (cases r1)
    case (Some err)
    with Cons.prems one have res: "ps' = p1 # ps" "w' = w1" "r = Some err" by auto
    with p1 fresh show ?thesis
      by (auto simp: servers_Cons servers_fresh fresh_def list_all_iff)
  next
    case None
    obtain ps2 w2 r2 where rest: "for_plugins (startGrpcServer e) ps w1 = (ps2, w2, r2)"
      by (metis prod_cases3)
    with None Cons.prems one have res: "ps' = p1 # ps2" "w' = w2" "r = r2" by auto
    note IH = Cons.IH [OF fresh(2) rest]
    have split: "servers (p1 # ps2) = servers [p1] @ servers ps2" by (simp add: servers_def)
    from IH p1 have "map fst (servers (p1 # ps2)) = [nextServer w ..< nextServer w1] @ [nextServer w1 ..< nextServer w2]"
      by (simp only: split map_append)
    also have "\<dots> = [nextServer w ..< nextServer w2]"
      using IH p1 by (metis upt_add_eq_append le_add_diff_inverse)
    finally show ?thesis using IH p1 None unfolding res split by auto
  qed
qed

lemma start_all_files:
  assumes "for_plugins (startGrpcServer e) ps w = (ps', w', r)" "distinct (map unixSockPath ps)"
    and "\<forall>p\<in>set ps. gRpcServer p = None"
  shows "\<forall>p\<in>set ps'. gRpcServer p \<noteq> None \<longrightarrow> unixSockPath p \<in> files w'"
    and "\<forall>f. f \<notin> unixSockPath ` set ps \<longrightarrow> (f \<in> files w' \<longleftrightarrow> f \<in> files w)"
proof (atomize (full), use assms in \<open>induction ps arbitrary: w ps' w' r\<close>)
  case (Cons p ps)
  obtain p1 w1 r1 where one: "startGrpcServer e p w = (p1, w1, r1)" by (metis prod_cases3)
  have p1: "unixSockPath p1 = unixSockPath p" "gRpcServer p1 \<noteq> None \<Longrightarrow> unixSockPath p \<in> files w1"
    "\<And>f. f \<noteq> unixSockPath p \<Longrightarrow> f \<in> files w1 \<longleftrightarrow> f \<in> files w"
    using one Cons.prems(3) by (auto simp: start_simps Let_def split: if_splits)
  show ?case
  proof (cases r1)
    case (Some err)
    with Cons.prems one have res: "ps' = p1 # ps" "w' = w1" by auto
    with p1 Cons.prems(3) show ?thesis by auto
  next
    case None
    obtain ps2 w2 r2 where rest: "for_plugins (startGrpcServer e) ps w1 = (ps2, w2, r2)"
      by (metis prod_cases3)
    with None Cons.prems one have res: "ps' = p1 # ps2" "w' = w2" by auto
    from Cons.prems have "unixSockPath p \<notin> unixSockPath ` set ps" by auto
    with Cons.IH [OF rest] Cons.prems p1 show ?thesis unfolding res by auto
  qed
qed simp

text \<open>Registration in turn: the servers and files are untouched; without an error every plugin is
  registered, and the kubelet has received one request for each plugin not registered before.\<close>

lemma register_all:
  assumes "for_plugins (register_step e) ps w = (ps', w', r)"
  shows "servers ps' = servers ps" and "serving w' = serving w" and "files w' = files w"
    and "nextServer w' = nextServer w" and "undeletable w' = undeletable w"
    and "map stopChan ps' = map stopChan ps" and "map gRpcServer ps' = map gRpcServer ps"
    and "r = None \<Longrightarrow> (\<forall>p\<in>set ps'. isRigistered p) \<and>
       requests w' = requests w @ map register_request (filter (\<lambda>p. \<not> isRigistered p) ps)"
proof (atomize (full), use assms in \<open>induction ps arbitrary: w ps' w' r\<close>)
  case Nil
  then show ?case by (simp add: servers_def)
next
  case (Cons p ps)
  obtain p1 w1 r1 where one: "register_step e p w = (p1, w1, r1)" by (metis prod_cases3)
  have p1: "gRpcServer p1 = gRpcServer p" "unixSockPath p1 = unixSockPath p" "stopChan p1 = stopChan p"
    "serving w1 = serving w" "files w1 = files w" "nextServer w1 = nextServer w" "undeletable w1 = undeletable w"
    "r1 = None \<Longrightarrow> isRigistered p1 \<and>
       requests w1 = requests w @ (if isRigistered p then [] else [register_request p])"
    using one by (auto simp: register_simps Let_def split: if_splits)
  show ?case
  proof (cases r1)
    case (Some err)
    with Cons.prems one p1 show ?thesis by (auto simp: servers_Cons cong: option.case_cong)
  next
    case None
    obtain ps2 w2 r2 where rest: "for_plugins (register_step e) ps w1 = (ps2, w2, r2)"
      by (metis prod_cases3)
    with None Cons.prems one have res: "ps' = p1 # ps2" "w' = w2" "r = r2" by auto
    from Cons.IH [OF rest] p1 None show ?thesis
      unfolding res by (auto simp: servers_Cons cong: option.case_cong)
  qed
qed

text \<open>Stopping in turn never panics under the invariant, and leaves no server of the plugins.\<close>

lemma stop_all:
  assumes "list_all plugin_inv ps" "distinct (map fst (servers ps @ rest))" "serving w = servers ps @ rest"
  shows "\<exists>ps' w'. stop_plugins ps w = Ok (ps', w') \<and> serving w' = rest \<and>
    (\<forall>p\<in>set ps'. gRpcServer p = None) \<and> list_all plugin_inv ps' \<and> map config ps' = map config ps \<and>
    files w' = files w - ({unixSockPath p |p. p \<in> set ps \<and> gRpcServer p \<noteq> None} - undeletable w) \<and>
    nextServer w' = nextServer w \<and> requests w' = requests w \<and> undeletable w' = undeletable w"
  using assms
proof (induction ps arbitrary: w)
  case Nil
  then show ?case by (simp add: servers_def)
next
  case (Cons p ps)
  show ?case
  proof (cases "gRpcServer p")
    case None
    then have stop: "stopGrpcServer p w = Ok (p, w)" and srv: "servers (p # ps) = servers ps"
      by (simp_all add: stopGrpcServer_def servers_Cons)
    have same: "{unixSockPath q |q. q \<in> set (p # ps) \<and> gRpcServer q \<noteq> None} =
        {unixSockPath q |q. q \<in> set ps \<and> gRpcServer q \<noteq> None}"
      using None by auto
    from Cons.IH [of w] Cons.prems srv obtain ps' w' where "stop_plugins ps w = Ok (ps', w')"
      "serving w' = rest" "\<forall>p\<in>set ps'. gRpcServer p = None" "list_all plugin_inv ps'"
      "map config ps' = map config ps"
      "files w' = files w - ({unixSockPath p |p. p \<in> set ps \<and> gRpcServer p \<noteq> None} - undeletable w)"
      "nextServer w' = nextServer w" "requests w' = requests w" "undeletable w' = undeletable w"
      by auto
    with stop None show ?thesis unfolding same by (simp add: plugin_inv_def [of p])
  next
    case (Some i)
    let ?p = "p\<lparr>gRpcServer := None, isRigistered := False, stopChan := ChanClosed\<rparr>"
    let ?w = "os_Remove (unixSockPath p) (server_Stop i w)"
    have srv: "servers (p # ps) = (i, unixSockPath p) # servers ps" by (simp add: servers_Cons Some)
    with Cons.prems have i: "i \<notin> fst ` set (servers ps @ rest)" by auto
    then have i': "\<And>q. (i, q) \<notin> set (servers ps @ rest)" by force
    then have "filter (\<lambda>(s, _). s \<noteq> i) (servers ps @ rest) = servers ps @ rest"
      by (intro filter_True) auto
    with Cons.prems srv have "filter (\<lambda>(s, _). s \<noteq> i) (serving w) = servers ps @ rest" by simp
    then have serving: "serving ?w = servers ps @ rest" by (simp add: os_Remove_def server_Stop_def)
    have "set (map snd (filter (\<lambda>(s, _). s = i) (serving w))) = {unixSockPath p}"
      using Cons.prems srv i' by (force simp: image_iff)
    then have files: "files ?w = files w - ({unixSockPath p} - undeletable w)"
      by (auto simp: os_Remove_def server_Stop_def)
    have same: "undeletable ?w = undeletable w" "nextServer ?w = nextServer w" "requests ?w = requests w"
      by (simp_all add: os_Remove_def server_Stop_def)
    have stop: "stopGrpcServer p w = Ok (?p, ?w)"
      using Cons.prems Some by (simp add: stopGrpcServer_def Let_def close_chan_def plugin_inv_def)
    have "list_all plugin_inv ps" "distinct (map fst (servers ps @ rest))"
      using Cons.prems srv by auto
    from Cons.IH [OF this serving] obtain ps' w' where IH: "stop_plugins ps ?w = Ok (ps', w')"
      "serving w' = rest" "\<forall>p\<in>set ps'. gRpcServer p = None" "list_all plugin_inv ps'"
      "map config ps' = map config ps"
      "files w' = files ?w - ({unixSockPath p |p. p \<in> set ps \<and> gRpcServer p \<noteq> None} - undeletable ?w)"
      "nextServer w' = nextServer ?w" "requests w' = requests ?w" "undeletable w' = undeletable ?w"
      by blast
    have "files w' = files w - ({unixSockPath q |q. q \<in> set (p # ps) \<and> gRpcServer q \<noteq> None} - undeletable w)"
      unfolding IH(6) files same using Some by auto
    with stop IH same show ?thesis
      by (simp add: config_def [of ?p] config_def [of p] plugin_inv_def [of ?p])
  qed
qed

section \<open>Properties of the plugins\<close>

lemma nat_digits_not_letter: "c \<in> set (nat_digits n) \<Longrightarrow> c \<notin> set ''binder''"
proof -
  assume "c \<in> set (nat_digits n)"
  then obtain d where d: "d < 10" "c = digit_char d" using set_nat_digits by blast
  then have "of_char c = 48 + d" by (simp add: digit_char_def)
  with d(1) have "of_char c < (58 :: nat)" by simp
  then show "c \<notin> set ''binder''" by auto
qed

lemma service_plugin_cases:
  assumes "p \<in> set (service_plugins n)"
  obtains base where "p = plugin_for (''/dev/'' @ base) ''rwm'' base n" "base \<in> {''fuse'', ''ashmem'', ''binder''}"
  using assms by (auto simp: service_plugins_def)

lemma is_binder_id:
  assumes "base \<in> {''fuse'', ''ashmem'', ''binder''}"
  shows "strings_Contains (base @ nat_digits k) ''binder'' \<longleftrightarrow> base = ''binder''"
proof
  assume "strings_Contains (base @ nat_digits k) ''binder''"
  then have "set ''binder'' \<subseteq> set (base @ nat_digits k)" by (rule strings_Contains_subset)
  then have "set ''binder'' \<subseteq> set base" using nat_digits_not_letter [of _ k] by auto
  with assms show "base = ''binder''" by auto
next
  assume "base = ''binder''"
  then show "strings_Contains (base @ nat_digits k) ''binder''"
    using strings_Contains_prefix [of "''binder''" "nat_digits k"] by simp
qed

lemma trim_binder_id: "strings_Trim (''binder'' @ nat_digits k) ''binder'' = nat_digits k"
proof -
  have "strings_Trim (''binder'' @ nat_digits k) ''binder'' = strings_Trim (nat_digits k) ''binder''"
    by (rule strings_Trim_prefix) simp
  also have "\<dots> = nat_digits k"
    by (intro strings_Trim_keep nat_digits_not_letter [of _ k] nat_digits_nonempty) simp_all
  finally show ?thesis .
qed

text \<open>C12: the manager is created with one plugin for each device, each with \<open>n\<close> healthy instances,
  and no two instances of any plugins share an ID.\<close>

theorem advertised_devices:
  assumes "initPluginManager (int n) = Ok m"
  shows "map devName (devPlugins m) = map dev_devName devList \<and>
    (\<forall>p\<in>set (devPlugins m). length (devInstances p) = n \<and>
      (\<forall>d\<in>set (devInstances p). Device_Health d = Healthy)) \<and>
    distinct (concat (map (\<lambda>p. map Device_ID (devInstances p)) (devPlugins m)))"
proof -
  have m: "devPlugins m = service_plugins n" using assms by (auto simp: initPluginManager_eq)
  have dist: "distinct (map (\<lambda>i. base @ nat_digits (Suc i)) [0..<n])" for base
    by (simp add: distinct_map inj_on_def)
  have "distinct (concat (map (\<lambda>p. map Device_ID (devInstances p)) (service_plugins n)))"
    using dist [of "''fuse''"] dist [of "''ashmem''"] dist [of "''binder''"]
    by (auto simp: service_plugins_def plugin_for_def comp_def)
  then show ?thesis
    by (auto simp: m service_plugins_def plugin_for_def devList_def dev_instance_def)
qed

theorem advertised_devices_witness:
  "\<exists>m. initPluginManager 2 = Ok m \<and>
     distinct (concat (map (\<lambda>p. map Device_ID (devInstances p)) (devPlugins m)))"
  using advertised_devices [of 2] initPluginManager_eq [of 2] by simp

text \<open>C9: an allocation of any advertised instance gives the container its device: under the plugin's
  device name, with the plugin's permissions, from the host device of that name; an instance \<open>i\<close>
  of the binder plugin from \<open>/dev/binder<i>\<close>, with the index \<open>i\<close> in the environment.\<close>

theorem allocate_advertised:
  assumes "initPluginManager (int n) = Ok m" "p \<in> set (devPlugins m)" "i < n"
    and "Device_ID (devInstances p ! i) = devId"
    and "AllocateRequest_ContainerRequests r = creq # creqs"
    and "ContainerAllocateRequest_DevicesIDs creq = devId # devIds"
  shows "devId = baseName p @ itoa (int i + 1) \<and>
    Allocate p r = Ok \<lparr>AllocateResponse_ContainerResponses =
      [\<lparr>ContainerAllocateResponse_Envs =
          (if baseName p = ''binder'' then [(''ANDROID_BINDER_IDX'', itoa (int i + 1))] else []),
        ContainerAllocateResponse_Mounts = [],
        ContainerAllocateResponse_Devices =
          [\<lparr>DeviceSpec_ContainerPath = devName p,
            DeviceSpec_HostPath = (if baseName p = ''binder'' then ''/dev/binder'' @ itoa (int i + 1) else devName p),
            DeviceSpec_Permissions = ''rwm''\<rparr>],
        ContainerAllocateResponse_Annotations = []\<rparr>]\<rparr>"
proof -
  have "p \<in> set (service_plugins n)" using assms(1,2) by (auto simp: initPluginManager_eq)
  then obtain base where p: "p = plugin_for (''/dev/'' @ base) ''rwm'' base n"
    and base: "base \<in> {''fuse'', ''ashmem'', ''binder''}" by (rule service_plugin_cases)
  have digits: "itoa (int i + 1) = nat_digits (Suc i)"
    using itoa_nat [of "Suc i"] by (simp add: add.commute del: itoa_nat)
  have id: "devId = base @ nat_digits (Suc i)"
    using assms(3,4) by (simp add: p plugin_for_def)
  show ?thesis
    using is_binder_id [OF base, of "Suc i"] trim_binder_id [of "Suc i"]
    by (cases "base = ''binder''")
      (simp_all add: Allocate_def index_def assms(5,6) digits id p plugin_for_def Let_def)
qed

theorem allocate_advertised_witness:
  "Allocate (plugin_for ''/dev/binder'' ''rwm'' ''binder'' 2)
      \<lparr>AllocateRequest_ContainerRequests = [\<lparr>ContainerAllocateRequest_DevicesIDs = [''binder2'']\<rparr>]\<rparr> =
    Ok \<lparr>AllocateResponse_ContainerResponses =
      [\<lparr>ContainerAllocateResponse_Envs = [(''ANDROID_BINDER_IDX'', ''2'')], ContainerAllocateResponse_Mounts = [],
        ContainerAllocateResponse_Devices = [\<lparr>DeviceSpec_ContainerPath = ''/dev/binder'',
          DeviceSpec_HostPath = ''/dev/binder2'', DeviceSpec_Permissions = ''rwm''\<rparr>],
        ContainerAllocateResponse_Annotations = []\<rparr>]\<rparr>"
proof -
  have digits: "nat_digits 2 = ''2''" by code_simp
  have "plugin_for ''/dev/binder'' ''rwm'' ''binder'' 2 \<in> set (service_plugins 2)"
    by (simp add: service_plugins_def)
  with allocate_advertised [OF initPluginManager_eq [of 2], where i = 1
      and p = "plugin_for ''/dev/binder'' ''rwm'' ''binder'' 2" and devId = "''binder2''"
      and creq = "\<lparr>ContainerAllocateRequest_DevicesIDs = [''binder2'']\<rparr>" and creqs = "[]" and devIds = "[]"
      and r = "\<lparr>AllocateRequest_ContainerRequests = [\<lparr>ContainerAllocateRequest_DevicesIDs = [''binder2'']\<rparr>]\<rparr>"]
  show ?thesis by (simp add: plugin_for_def digits itoa_def numeral_2_eq_2 [symmetric])
qed

text \<open>C13: \<open>Allocate\<close> panics on a request without containers or whose first container asks for no
  device; on every other request it answers with exactly one container response, computed from the
  first device of the first container alone.\<close>

theorem allocate_first_only:
  "Allocate p r = (case AllocateRequest_ContainerRequests r of
     [] \<Rightarrow> Panic
   | creq # _ \<Rightarrow> (case ContainerAllocateRequest_DevicesIDs creq of
       [] \<Rightarrow> Panic
     | devId # _ \<Rightarrow> Allocate p \<lparr>AllocateRequest_ContainerRequests = [\<lparr>ContainerAllocateRequest_DevicesIDs = [devId]\<rparr>]\<rparr>)) \<and>
   (\<forall>resp. Allocate p r = Ok resp \<longrightarrow> length (AllocateResponse_ContainerResponses resp) = 1)"
  by (auto simp: Allocate_def index_def Let_def split: list.split)

theorem allocate_first_only_witness:
  "Allocate (plugin_for ''/dev/fuse'' ''rwm'' ''fuse'' 1) \<lparr>AllocateRequest_ContainerRequests = []\<rparr> = Panic"
  using allocate_first_only [of "plugin_for ''/dev/fuse'' ''rwm'' ''fuse'' 1"
      "\<lparr>AllocateRequest_ContainerRequests = []\<rparr>"]
  by simp

lemma Allocate_wf: "Allocate p r = Ok resp \<Longrightarrow> AllocateResponse_wf resp"
  by (auto simp: Allocate_def Let_def AllocateResponse_wf_def ContainerAllocateResponse_wf_def split: if_splits)

text \<open>An \<open>Allocate\<close> call on the wire: what the kubelet gets when it sends an encoded request,
  decoded again, is the answer of \<open>Allocate\<close> to that request.\<close>

theorem serve_allocate_on_wire:
  assumes "length (AllocateRequest_enc r) < 2 ^ 63" "length (AllocateResponse_enc resp) < 2 ^ 63"
    and "Allocate p r = Ok resp"
  shows "\<exists>req reply. AllocateRequest_Marshal r = Ok req \<and> serve_Allocate p req = Ok reply \<and>
    AllocateResponse_Unmarshal reply AllocateResponse_Reset = (resp, Ok ())"
proof -
  obtain req where req: "AllocateRequest_Marshal r = Ok req"
    "AllocateRequest_Unmarshal req AllocateRequest_Reset = (r, Ok ())"
    using AllocateRequest.roundtrip [OF TrueI assms(1)]
    by (auto simp: AllocateRequest_Marshal_def AllocateRequest_Unmarshal_def)
  obtain reply where reply: "AllocateResponse_Marshal resp = Ok reply"
    "AllocateResponse_Unmarshal reply AllocateResponse_Reset = (resp, Ok ())"
    using AllocateResponse.roundtrip [OF Allocate_wf [OF assms(3)] assms(2)]
    by (auto simp: AllocateResponse_Marshal_def AllocateResponse_Unmarshal_def)
  from req reply assms(3) show ?thesis
    by (simp add: serve_Allocate_def Allocate_Handler_def unary_handler_def)
qed

theorem serve_allocate_on_wire_witness:
  "\<exists>resp req reply.
     Allocate (plugin_for ''/dev/binder'' ''rwm'' ''binder'' 2)
       \<lparr>AllocateRequest_ContainerRequests = [\<lparr>ContainerAllocateRequest_DevicesIDs = [''binder2'']\<rparr>]\<rparr> = Ok resp \<and>
     AllocateRequest_Marshal
       \<lparr>AllocateRequest_ContainerRequests = [\<lparr>ContainerAllocateRequest_DevicesIDs = [''binder2'']\<rparr>]\<rparr> = Ok req \<and>
     serve_Allocate (plugin_for ''/dev/binder'' ''rwm'' ''binder'' 2) req = Ok reply \<and>
     AllocateResponse_Unmarshal reply AllocateResponse_Reset = (resp, Ok ())"
proof -
  let ?r = "\<lparr>AllocateRequest_ContainerRequests = [\<lparr>ContainerAllocateRequest_DevicesIDs = [''binder2'']\<rparr>]\<rparr>"
  let ?p = "plugin_for ''/dev/binder'' ''rwm'' ''binder'' 2"
  let ?resp = "\<lparr>AllocateResponse_ContainerResponses =
      [\<lparr>ContainerAllocateResponse_Envs = [(''ANDROID_BINDER_IDX'', ''2'')], ContainerAllocateResponse_Mounts = [],
        ContainerAllocateResponse_Devices = [\<lparr>DeviceSpec_ContainerPath = ''/dev/binder'',
          DeviceSpec_HostPath = ''/dev/binder2'', DeviceSpec_Permissions = ''rwm''\<rparr>],
        ContainerAllocateResponse_Annotations = []\<rparr>]\<rparr>"
  have "Allocate ?p ?r = Ok ?resp" by code_simp
  moreover have "length (AllocateRequest_enc ?r) < 100" "length (AllocateResponse_enc ?resp) < 100"
    by code_simp+
  ultimately show ?thesis using serve_allocate_on_wire [of ?r ?resp ?p] by auto
qed

text \<open>\<open>ListAndWatch\<close> sends the whole device list at once and again at every tick before the stop
  channel is closed, and returns exactly when the stop channel is closed.\<close>

theorem list_and_watch:
  "ListAndWatch p evs =
     (replicate (Suc (length (filter (\<lambda>ev. ev = Tick) (takeWhile (\<lambda>ev. ev \<noteq> StopClosed) evs))))
        \<lparr>ListAndWatchResponse_Devices = devInstances p\<rparr>,
      StopClosed \<in> set evs)"
proof -
  have "watch_loop ds evs =
      (replicate (length (filter (\<lambda>ev. ev = Tick) (takeWhile (\<lambda>ev. ev \<noteq> StopClosed) evs))) \<lparr>ListAndWatchResponse_Devices = ds\<rparr>,
       StopClosed \<in> set evs)" for ds
    by (induction ds evs rule: watch_loop.induct) auto
  then show ?thesis by (simp add: ListAndWatch_def)
qed

text \<open>Runs of the manager's registration in a row, whatever each returns.\<close>

fun register_runs :: "env list \<Rightarrow> DevicePluginManager \<Rightarrow> world \<Rightarrow> DevicePluginManager \<times> world" where
  "register_runs [] mgr w = (mgr, w)"
| "register_runs (e # es) mgr w = (case mgr_registerToKubelet e mgr w of (mgr, w, _) \<Rightarrow> register_runs es mgr w)"

definition pending :: "DevicePlugin list \<Rightarrow> RegisterRequest list" where
  "pending ps = map register_request (filter (\<lambda>p. \<not> isRigistered p) ps)"

text \<open>What the kubelet receives for each of the requests \<open>qs\<close>: the failed attempts that arrived,
  as many as \<open>ks\<close> says, and then the one that succeeds.\<close>

definition attempts :: "RegisterRequest list \<Rightarrow> nat list \<Rightarrow> RegisterRequest list" where
  "attempts qs ks = concat (map2 (\<lambda>q k. replicate (Suc k) q) qs ks)"

text \<open>Registration has gone from \<open>todo\<close> to \<open>todo'\<close> with at most \<open>n\<close> failed attempts: a prefix is
  acknowledged, in order and once each, and the next plugin may have been tried in vain.\<close>

definition registered_in_turn ::
    "nat \<Rightarrow> world \<Rightarrow> RegisterRequest list \<Rightarrow> world \<Rightarrow> RegisterRequest list \<Rightarrow> bool" where
  "registered_in_turn n w todo w' todo' \<longleftrightarrow>
     (\<exists>reg ks a. todo = reg @ todo' \<and> length ks = length reg \<and> sum_list ks + a \<le> n \<and>
        acked w' = acked w @ reg \<and>
        requests w' = requests w @ attempts reg ks @ (if todo' = [] then [] else replicate a (hd todo')))"

lemma attempts_append:
  "length ks = length qs \<Longrightarrow> attempts (qs @ qs') (ks @ ks') = attempts qs ks @ attempts qs' ks'"
  by (simp add: attempts_def)

lemma attempts_once: "attempts qs (replicate (length qs) 0) = qs"
  by (induction qs) (simp_all add: attempts_def)

lemma registered_in_turn_refl: "registered_in_turn 0 w todo w todo"
  unfolding registered_in_turn_def by (intro exI [of _ "[]"] exI [of _ 0]) (simp add: attempts_def)

lemma registered_in_turn_mono:
  assumes "registered_in_turn n w todo w' todo'" "n \<le> m"
  shows "registered_in_turn m w todo w' todo'"
proof -
  obtain reg ks a where "todo = reg @ todo'" "length ks = length reg" "sum_list ks + a \<le> n" "acked w' = acked w @ reg"
    "requests w' = requests w @ attempts reg ks @ (if todo' = [] then [] else replicate a (hd todo'))"
    using assms(1) unfolding registered_in_turn_def by blast
  with assms(2) show ?thesis unfolding registered_in_turn_def
    by (intro exI [of _ reg] exI [of _ ks] exI [of _ a]) simp
qed

lemma registered_in_turn_trans:
  assumes "registered_in_turn n w todo w1 todo1" "registered_in_turn m w1 todo1 w2 todo2"
  shows "registered_in_turn (n + m) w todo w2 todo2"
proof -
  obtain reg ks a where one: "todo = reg @ todo1" "length ks = length reg" "sum_list ks + a \<le> n"
    "acked w1 = acked w @ reg"
    "requests w1 = requests w @ attempts reg ks @ (if todo1 = [] then [] else replicate a (hd todo1))"
    using assms(1) unfolding registered_in_turn_def by blast
  obtain reg' ks' a' where two: "todo1 = reg' @ todo2" "length ks' = length reg'" "sum_list ks' + a' \<le> m"
    "acked w2 = acked w1 @ reg'"
    "requests w2 = requests w1 @ attempts reg' ks' @ (if todo2 = [] then [] else replicate a' (hd todo2))"
    using assms(2) unfolding registered_in_turn_def by blast
  show ?thesis
  proof (cases reg')
    case Nil
    with one two show ?thesis unfolding registered_in_turn_def
      by (intro exI [of _ reg] exI [of _ ks] exI [of _ "a + a'"])
        (simp add: attempts_def [of "[]"] replicate_add)
  next
    case (Cons q qs)
    with two(2) obtain k js where ks': "ks' = k # js" by (cases ks') auto
    have "replicate a q @ attempts reg' ks' = attempts reg' ((a + k) # js)"
      by (simp add: Cons ks' attempts_def replicate_add replicate_app_Cons_same)
    then have "requests w2 = requests w @ attempts (reg @ reg') (ks @ (a + k) # js) @
        (if todo2 = [] then [] else replicate a' (hd todo2))"
      using one two Cons by (simp add: attempts_append)
    with one two Cons ks' show ?thesis unfolding registered_in_turn_def
      by (intro exI [of _ "reg @ reg'"] exI [of _ "ks @ (a + k) # js"] exI [of _ a']) simp
  qed
qed

lemma pending_simps: "pending [] = []"
  "pending (p # ps) = (if isRigistered p then [] else [register_request p]) @ pending ps"
  by (simp_all add: pending_def)

text \<open>One plugin: it is registered, or tried once in vain.\<close>

lemma register_one_in_turn:
  assumes "register_step e p w = (p', w', r)"
  shows "registered_in_turn (if r = None then 0 else 1) w (pending [p] @ qs) w' (pending [p'] @ qs)"
    and "r = None \<Longrightarrow> pending [p'] = []"
proof (atomize (full), cases "isRigistered p")
  case True
  with assms show "registered_in_turn (if r = None then 0 else 1) w (pending [p] @ qs) w' (pending [p'] @ qs) \<and>
      (r = None \<longrightarrow> pending [p'] = [])"
    by (auto simp: register_step_def registered_in_turn_refl pending_simps)
next
  case False
  let ?q = "register_request p" and ?ok = "dial_ok e KubeletSocket \<and> register_ok e (register_request p)"
  let ?a = "if dial_ok e KubeletSocket \<and> register_arrives e (register_request p) then 1 else 0 :: nat"
  show "registered_in_turn (if r = None then 0 else 1) w (pending [p] @ qs) w' (pending [p'] @ qs) \<and>
      (r = None \<longrightarrow> pending [p'] = [])"
  proof (cases ?ok)
    case True
    with assms False show ?thesis
      by (auto simp: register_simps Let_def pending_simps registered_in_turn_def attempts_def
          intro!: exI [of _ "[?q]"] exI [of _ "[0]"])
  next
    case fails: False
    with assms False show ?thesis
      by (auto simp: register_simps register_request_def Let_def pending_simps registered_in_turn_def attempts_def
          split: if_splits intro!: exI [of _ "[]"] exI [of _ ?a])
  qed
qed

lemma register_all_in_turn:
  "for_plugins (register_step e) ps w = (ps', w', r) \<Longrightarrow>
     registered_in_turn (if r = None then 0 else 1) w (pending ps) w' (pending ps') \<and>
     (r = None \<longrightarrow> pending ps' = [])"
proof (induction ps arbitrary: w ps' w' r)
  case (Cons p ps)
  obtain p1 w1 r1 where one: "register_step e p w = (p1, w1, r1)" by (metis prod_cases3)
  note p1 = register_one_in_turn [OF one]
  have split: "pending (p # ps) = pending [p] @ pending ps" for p ps by (simp add: pending_def)
  show ?case
  proof (cases r1)
    case None
    obtain ps2 w2 r2 where rest: "for_plugins (register_step e) ps w1 = (ps2, w2, r2)" by (metis prod_cases3)
    with None Cons.prems one have res: "ps' = p1 # ps2" "w' = w2" "r = r2" by auto
    show ?thesis
      using registered_in_turn_trans [OF p1(1) [of "pending ps"]] Cons.IH [OF rest] p1(2) None
      unfolding res split [of p1 ps2] split [of p ps] by fastforce
  next
    case (Some err)
    with Cons.prems one p1(1) [of "pending ps"] show ?thesis unfolding split [of p ps]
      by (auto simp: split [of p1 ps])
  qed
qed (simp add: pending_def registered_in_turn_refl)

lemma register_runs_in_turn:
  "register_runs es mgr w = (mgr', w') \<Longrightarrow>
     registered_in_turn (length es) w (pending (devPlugins mgr)) w' (pending (devPlugins mgr'))"
proof (induction es arbitrary: mgr w)
  case (Cons e es)
  obtain ps1 w1 r1 where one: "for_plugins (register_step e) (devPlugins mgr) w = (ps1, w1, r1)"
    by (metis prod_cases3)
  with Cons.prems have "register_runs es (mgr\<lparr>devPlugins := ps1\<rparr>) w1 = (mgr', w')"
    by (simp add: mgr_registerToKubelet_step)
  from Cons.IH [OF this] have rest: "registered_in_turn (length es) w1 (pending ps1) w' (pending (devPlugins mgr'))"
    by simp
  have "registered_in_turn 1 w (pending (devPlugins mgr)) w1 (pending ps1)"
    by (rule registered_in_turn_mono [OF conjunct1 [OF register_all_in_turn [OF one]]]) simp
  from registered_in_turn_trans [OF this rest] show ?case by simp
qed (simp add: registered_in_turn_refl)

text \<open>C15: registration is resumable: after any runs, failed or not, a run that succeeds leaves every
  plugin registered, and each plugin that was not registered at the beginning has been
  acknowledged by the kubelet exactly once, in order, and is not asked for again. What has reached the kubelet
  for it are its failed attempts followed by the one acknowledged, never interleaved with those of
  another plugin, and there are no more failed attempts than earlier runs.\<close>

theorem registration_resumable:
  assumes "register_runs es mgr w = (mgr1, w1)" "mgr_registerToKubelet e mgr1 w1 = (mgr', w', None)"
  shows "acked w' = acked w @ map register_request (filter (\<lambda>p. \<not> isRigistered p) (devPlugins mgr)) \<and>
    list_all isRigistered (devPlugins mgr') \<and>
    (\<exists>ks. length ks = length (filter (\<lambda>p. \<not> isRigistered p) (devPlugins mgr)) \<and> sum_list ks \<le> length es \<and>
       requests w' = requests w @ concat (map2 (\<lambda>p k. replicate (Suc k) (register_request p))
         (filter (\<lambda>p. \<not> isRigistered p) (devPlugins mgr)) ks))"
proof -
  obtain ps where run: "for_plugins (register_step e) (devPlugins mgr1) w1 = (ps, w', None)" "devPlugins mgr' = ps"
    using assms(2) by (auto simp: mgr_registerToKubelet_step split: prod.splits)
  from register_all(8) [OF run(1)] have all: "\<forall>p\<in>set ps. isRigistered p" by simp
  from register_all_in_turn [OF run(1)] have last: "registered_in_turn 0 w1 (pending (devPlugins mgr1)) w' []"
    by (metis (full_types))
  from registered_in_turn_trans [OF register_runs_in_turn [OF assms(1)] last]
  obtain ks where "length ks = length (pending (devPlugins mgr))" "sum_list ks \<le> length es"
    "acked w' = acked w @ pending (devPlugins mgr)"
    "requests w' = requests w @ attempts (pending (devPlugins mgr)) ks"
    unfolding registered_in_turn_def by auto
  with all run(2) show ?thesis
    by (auto simp: pending_def attempts_def list_all_iff zip_map1 split_def comp_def intro!: exI [of _ ks])
qed

theorem registration_resumable_witness:
  "\<exists>mgr1 w1 mgr' w'.
     mgr_registerToKubelet \<lparr>listen_ok = \<lambda>_. True, dial_ok = \<lambda>_. True,
         register_ok = \<lambda>q. RegisterRequest_ResourceName q \<noteq> ''openvmi/ashmem'', register_arrives = \<lambda>_. True\<rparr>
       \<lparr>devs = devList, devPlugins = service_plugins 1\<rparr>
       \<lparr>files = {}, undeletable = {}, serving = [], nextServer = 0, requests = [], acked = []\<rparr> =
     (mgr1, w1, Some (ErrRegister (register_request (service_plugins 1 ! 1)))) \<and>
     mgr_registerToKubelet \<lparr>listen_ok = \<lambda>_. True, dial_ok = \<lambda>_. True, register_ok = \<lambda>_. True,
         register_arrives = \<lambda>_. True\<rparr> mgr1 w1 = (mgr', w', None) \<and>
     acked w' = map register_request (service_plugins 1) \<and>
     map RegisterRequest_ResourceName (requests w') =
       [''openvmi/fuse'', ''openvmi/ashmem'', ''openvmi/ashmem'', ''openvmi/binder'']"
proof -
  let ?mgr = "\<lparr>devs = devList, devPlugins = service_plugins 1\<rparr>"
  let ?w = "\<lparr>files = {}, undeletable = {}, serving = [], nextServer = 0, requests = [], acked = []\<rparr>"
  let ?bad = "\<lparr>listen_ok = \<lambda>_. True, dial_ok = \<lambda>_. True,
    register_ok = \<lambda>q. RegisterRequest_ResourceName q \<noteq> ''openvmi/ashmem'', register_arrives = \<lambda>_. True\<rparr>"
  let ?e = "\<lparr>listen_ok = \<lambda>_. True, dial_ok = \<lambda>_. True, register_ok = \<lambda>_. True, register_arrives = \<lambda>_. True\<rparr>"
  obtain mgr1 w1 r1 where one: "mgr_registerToKubelet ?bad ?mgr ?w = (mgr1, w1, r1)" by (metis prod_cases3)
  obtain mgr' w' r2 where two: "mgr_registerToKubelet ?e mgr1 w1 = (mgr', w', r2)" by (metis prod_cases3)
  note run = mgr_registerToKubelet_step service_plugins_def plugin_for_def register_simps register_request_def Let_def
  have r1: "r1 = Some (ErrRegister (register_request (service_plugins 1 ! 1)))" using one by (auto simp: run)
  have r2: "r2 = None" "map RegisterRequest_ResourceName (requests w') =
      [''openvmi/fuse'', ''openvmi/ashmem'', ''openvmi/ashmem'', ''openvmi/binder'']"
    using one two by (auto simp: run)
  have "acked w' = acked ?w @ map register_request (filter (\<lambda>p. \<not> isRigistered p) (service_plugins 1))"
    using registration_resumable [of "[?bad]" ?mgr ?w mgr1 w1 ?e mgr' w'] one two r2(1) by simp
  then have "acked w' = map register_request (service_plugins 1)"
    by (simp add: service_plugins_def plugin_for_def)
  with one two r1 r2 show ?thesis by (intro exI [of _ mgr1] exI [of _ w1] exI [of _ mgr'] exI [of _ w']) simp
qed

text \<open>A plugin that is started and then stopped leaves no server behind, and its socket only when the
  system refuses to remove it; its stop channel is closed, so that a running \<open>ListAndWatch\<close> ends, and stopping it again changes nothing.\<close>

theorem start_then_stop:
  assumes "fresh p" "startGrpcServer e p w = (p1, w1, None)" "nextServer w \<notin> fst ` set (serving w)"
  shows "\<exists>p2 w2. stopGrpcServer p1 w1 = Ok (p2, w2) \<and> serving w2 = serving w \<and>
    (unixSockPath p \<in> files w2 \<longleftrightarrow> unixSockPath p \<in> undeletable w) \<and> stopChan p2 = ChanClosed \<and> \<not> isRigistered p2 \<and>
    config p2 = config p \<and> stopGrpcServer p2 w2 = Ok (p2, w2)"
proof -
  have keep: "filter (\<lambda>(s, _). s \<noteq> nextServer w) (serving w) = serving w"
    using assms(3) by (intro filter_True) force
  moreover have "filter (\<lambda>(s, _). s = nextServer w) (serving w) = []"
    using assms(3) by (intro filter_False) force
  ultimately show ?thesis
    using assms(1,2)
    by (auto simp: start_simps fresh_def stopGrpcServer_def server_Stop_def close_chan_def
        config_def Let_def split: if_splits)
qed

theorem start_then_stop_witness:
  "\<exists>p1 w1 p2 w2. startGrpcServer \<lparr>listen_ok = \<lambda>_. True, dial_ok = \<lambda>_. True, register_ok = \<lambda>_. True,
      register_arrives = \<lambda>_. True\<rparr>
      (plugin_for ''/dev/fuse'' ''rwm'' ''fuse'' 1)
      \<lparr>files = {}, undeletable = {}, serving = [(7, ''/x.sock'')], nextServer = 8, requests = [], acked = []\<rparr> = (p1, w1, None) \<and>
    stopGrpcServer p1 w1 = Ok (p2, w2) \<and> serving w2 = [(7, ''/x.sock'')] \<and> stopGrpcServer p2 w2 = Ok (p2, w2)"
proof -
  let ?p = "plugin_for ''/dev/fuse'' ''rwm'' ''fuse'' 1"
  let ?w = "\<lparr>files = {}, undeletable = {}, serving = [(7, ''/x.sock'')], nextServer = 8, requests = [], acked = []\<rparr>"
  let ?e = "\<lparr>listen_ok = \<lambda>_. True, dial_ok = \<lambda>_. True, register_ok = \<lambda>_. True,
      register_arrives = \<lambda>_. True\<rparr>"
  have "snd (snd (startGrpcServer ?e ?p ?w)) = None" by (simp add: start_simps Let_def)
  then obtain p1 w1 where "startGrpcServer ?e ?p ?w = (p1, w1, None)" by (metis prod.collapse)
  with start_then_stop [of ?p ?e ?w p1 w1] show ?thesis by (auto simp: plugin_for_def fresh_def)
qed

text \<open>The host initialisation reports the script's failure with what it wrote to standard error,
  less the last byte of each read; an empty read makes it panic.\<close>

theorem init_host_outcome:
  "initHostDevice run n =
     (if \<not> cmd_starts (run (init_cmd n)) then Err (ErrStartCmd (init_cmd n))
      else if [] \<in> set (cmd_stderr (run (init_cmd n))) then Panic
      else if cmd_succeeds (run (init_cmd n)) then Ok ()
      else Err (ErrInitHost (concat (map butlast (cmd_stderr (run (init_cmd n)))))))"
  by (simp add: initHostDevice_def Let_def read_stderr_eq)

end
