(* ===== verification/Service.thy ===== *)
theory Service
  imports Plugin
begin

text \<open>
  The service process, \<open>main.go\<close> and \<open>watcher.go\<close>: start-up with the pid file, the watchers, and
  the main loop that starts the plugins, registers them and then waits for file system events
  and signals. The loop is a step relation whose steps are one pass through the \<open>if restart\<close>
  block, one \<open>select\<close>, or the delivery of a signal. Answers of the environment are chosen anew
  at every pass.
\<close>

section \<open>Watchers\<close>

text \<open>\<open>fsnotify.Op\<close> is a bit mask; \<open>Create\<close> is its lowest bit.\<close>

definition fsnotify_Create :: "32 word" where "fsnotify_Create = 1"

text \<open>\<open>newFsWatcher\<close>: the watcher library is a parameter: whether a watcher can be created, and
  whether each path can be added. The result is the list of watched paths.\<close>

record host =
  stat_err :: bool
  init_run :: "string \<Rightarrow> cmd_run"
  watcher_new_ok :: bool
  watcher_add_ok :: "string \<Rightarrow> bool"
  create_ok :: bool
  write_ok :: bool

fun watcher_add_all :: "host \<Rightarrow> string list \<Rightarrow> string list \<Rightarrow> (main_error, string list) res" where
  "watcher_add_all h [] watched = Ok watched"
| "watcher_add_all h (f # fs) watched =
     (if watcher_add_ok h f then watcher_add_all h fs (watched @ [f]) else Err (ErrWatcher f))"

definition newFsWatcher :: "host \<Rightarrow> string list \<Rightarrow> (main_error, string list) res" where
  "newFsWatcher h fs =
     (if watcher_new_ok h then watcher_add_all h fs [] else Err (ErrWatcher []))"

text \<open>\<open>newOsWatcher\<close>: a channel of capacity one. \<open>signal.Notify\<close> does not block: a signal that
  arrives while the channel is full is dropped.\<close>

datatype signal = SIGHUP | SIGINT | SIGTERM | SIGQUIT

definition sigChan_cap :: nat where "sigChan_cap = 1"

definition newOsWatcher :: "signal list" where "newOsWatcher = []"

definition notify :: "signal \<Rightarrow> signal list \<Rightarrow> signal list" where
  "notify sig ch = (if length ch < sigChan_cap then ch @ [sig] else ch)"

section \<open>The pid file\<close>

definition pidFile :: string where "pidFile = ''/run/k8s_dev_plugin_service.pid''"

datatype stat_result = StatOk | StatNotExist | StatOther

definition os_Stat :: "host \<Rightarrow> string \<Rightarrow> world \<Rightarrow> stat_result" where
  "os_Stat h path w =
     (if stat_err h then StatOther else if path \<in> files w then StatOk else StatNotExist)"

definition appIsRunning :: "host \<Rightarrow> world \<Rightarrow> bool" where
  "appIsRunning h w = (case os_Stat h pidFile w of StatNotExist \<Rightarrow> False | _ \<Rightarrow> True)"

definition createPidFile :: "host \<Rightarrow> world \<Rightarrow> world \<times> main_error option" where
  "createPidFile h w =
     (if \<not> create_ok h then (w, Some ErrPidFile)
      else let w = w\<lparr>files := insert pidFile (files w)\<rparr>
        in if \<not> write_ok h then (w, Some ErrPidFile) else (w, None))"

definition deletePidFile :: "world \<Rightarrow> world" where
  "deletePidFile w = os_Remove pidFile w"

section \<open>The main function\<close>

record service =
  sworld :: world
  pluginManager :: "DevicePluginManager option"
  restart :: bool
  sigCh :: "signal list"

datatype fatal = AppIsRunning | FailedInitHost main_error | FailedWatcher main_error | FailedPidFile main_error
  | FailedInitManager main_error | FailedStart main_error

text \<open>The state of a process.
  \<open>Running\<close>: the loop goes on. \<open>Exited\<close>: \<open>log.Fatal\<close>, which ends the process without running
  the deferred calls. \<open>Returned\<close>: \<open>main\<close> has returned and the deferred calls have run.
  \<open>Crashed\<close>: a panic.\<close>

datatype outcome = Running service | Exited fatal world | Returned world | Crashed

text \<open>\<open>main\<close> up to the loop. The test for the pid file and its creation are two steps, and the
  script that prepares the devices runs between them: \<open>F\<close> is the set of files that other
  processes leave by the time the test has passed and the pid file is created.\<close>

definition main_init :: "host \<Rightarrow> string set \<Rightarrow> nat \<Rightarrow> world \<Rightarrow> outcome" where
  "main_init h F devInstanceNum w =
     (if appIsRunning h w then Exited AppIsRunning w
      else let w = w\<lparr>files := F\<rparr> in
      case initHostDevice (init_run h) (int devInstanceNum) of
        Err err \<Rightarrow> Exited (FailedInitHost err) w
      | Panic \<Rightarrow> Crashed
      | Stuck \<Rightarrow> Crashed
      | Ok _ \<Rightarrow>
        (case newFsWatcher h [DevicePluginPath] of
           Err err \<Rightarrow> Exited (FailedWatcher err) w
         | Panic \<Rightarrow> Crashed
         | Stuck \<Rightarrow> Crashed
         | Ok watcher \<Rightarrow>
           (case createPidFile h w of
              (w, Some err) \<Rightarrow> Exited (FailedPidFile err) w
            | (w, None) \<Rightarrow>
                Running \<lparr>sworld = w, pluginManager = None, restart = True, sigCh = newOsWatcher\<rparr>)))"

text \<open>The block \<open>if restart { ... }\<close> at the head of the loop. On a failed registration the servers
  are stopped and, after a pause, the loop starts again with \<open>restart\<close> still set.\<close>

definition restart_block :: "env \<Rightarrow> nat \<Rightarrow> service \<Rightarrow> outcome" where
  "restart_block e devInstanceNum s =
     (if \<not> restart s then Running s
      else case initPluginManager (int devInstanceNum) of
        Err err \<Rightarrow> Exited (FailedInitManager err) (sworld s)
      | Panic \<Rightarrow> Crashed
      | Stuck \<Rightarrow> Crashed
      | Ok mgr \<Rightarrow>
        (case mgr_startGrpcServer e mgr (sworld s) of
           (mgr, w, Some err) \<Rightarrow> Exited (FailedStart err) w
         | (mgr, w, None) \<Rightarrow>
           (case mgr_registerToKubelet e mgr w of
              (mgr, w, Some err) \<Rightarrow>
                (case mgr_stopGrpcServer mgr w of
                   Ok (mgr, w) \<Rightarrow> Running (s\<lparr>sworld := w, pluginManager := Some mgr\<rparr>)
                 | _ \<Rightarrow> Crashed)
            | (mgr, w, None) \<Rightarrow>
                Running (s\<lparr>sworld := w, pluginManager := Some mgr, restart := False\<rparr>))))"

datatype event = WatcherError string | WatcherEvent string "32 word" | SignalEvent signal

text \<open>\<open>pluginManager.stopGrpcServer()\<close> on the current manager; a nil manager is dereferenced.\<close>

definition stop_current :: "service \<Rightarrow> (main_error, service) res" where
  "stop_current s =
     (case pluginManager s of
        None \<Rightarrow> Panic
      | Some mgr \<Rightarrow> res_bind (mgr_stopGrpcServer mgr (sworld s)) (\<lambda>(mgr, w).
          Ok (s\<lparr>sworld := w, pluginManager := Some mgr\<rparr>)))"

definition is_kubelet_restart :: "string \<Rightarrow> 32 word \<Rightarrow> bool" where
  "is_kubelet_restart name op \<longleftrightarrow> name = KubeletSocket \<and> op AND fsnotify_Create = fsnotify_Create"

definition select_event :: "event \<Rightarrow> service \<Rightarrow> outcome" where
  "select_event ev s =
     (case ev of
        WatcherError err \<Rightarrow> Running s
      | WatcherEvent name op \<Rightarrow>
          if is_kubelet_restart name op
          then (case stop_current s of Ok s \<Rightarrow> Running (s\<lparr>restart := True\<rparr>) | _ \<Rightarrow> Crashed)
          else Running s
      | SignalEvent SIGHUP \<Rightarrow>
          (case stop_current s of Ok s \<Rightarrow> Running (s\<lparr>restart := True\<rparr>) | _ \<Rightarrow> Crashed)
      | SignalEvent _ \<Rightarrow>
          (case stop_current s of Ok s \<Rightarrow> Returned (deletePidFile (sworld s)) | _ \<Rightarrow> Crashed))"

text \<open>Passes of the loop in a row, one environment for each.\<close>

fun run_passes :: "nat \<Rightarrow> env list \<Rightarrow> service \<Rightarrow> outcome" where
  "run_passes n [] s = Running s"
| "run_passes n (e # es) s = (case restart_block e n s of Running s' \<Rightarrow> run_passes n es s' | out \<Rightarrow> out)"

text \<open>One step of the running service: a pass through the restart block, a choice of \<open>select\<close>, the
  delivery of a signal to the channel, or other processes (the kubelet empties its plugin
  directory when it starts) creating and removing files other than the pid file and changing
  which files can be removed.\<close>

inductive main_step :: "nat \<Rightarrow> service \<Rightarrow> outcome \<Rightarrow> bool" for n where
  pass: "restart s \<Longrightarrow> main_step n s (restart_block e n s)"
| watch_error: "\<not> restart s \<Longrightarrow> main_step n s (select_event (WatcherError err) s)"
| watch_event: "\<not> restart s \<Longrightarrow> main_step n s (select_event (WatcherEvent name op) s)"
| signal: "\<not> restart s \<Longrightarrow> sigCh s = sig # rest \<Longrightarrow>
    main_step n s (select_event (SignalEvent sig) (s\<lparr>sigCh := rest\<rparr>))"
| deliver: "main_step n s (Running (s\<lparr>sigCh := notify sig (sigCh s)\<rparr>))"
| others: "pidFile \<in> F \<longleftrightarrow> pidFile \<in> files (sworld s) \<Longrightarrow>
    main_step n s (Running (s\<lparr>sworld := (sworld s)\<lparr>files := F, undeletable := U\<rparr>\<rparr>))"

text \<open>The outcomes a process started on world \<open>w0\<close> can reach.\<close>

inductive main_reaches :: "nat \<Rightarrow> world \<Rightarrow> outcome \<Rightarrow> bool" for n w0 where
  init: "main_reaches n w0 (main_init h F n w0)"
| step: "main_reaches n w0 (Running s) \<Longrightarrow> main_step n s out \<Longrightarrow> main_reaches n w0 out"

section \<open>The invariant of the service\<close>

definition plugin_up :: "DevicePlugin \<Rightarrow> bool" where
  "plugin_up p \<longleftrightarrow> gRpcServer p \<noteq> None \<and> isRigistered p \<and> stopChan p = ChanOpen"

text \<open>A manager at work: its plugins are those of the service, each with a server of its own and
  registered, and nothing else serves.\<close>

definition manager_up :: "nat \<Rightarrow> DevicePluginManager \<Rightarrow> world \<Rightarrow> bool" where
  "manager_up n m w \<longleftrightarrow>
     map config (devPlugins m) = map config (service_plugins n) \<and> list_all plugin_up (devPlugins m) \<and>
     serving w = servers (devPlugins m) \<and> distinct (map fst (serving w))"

definition service_inv :: "nat \<Rightarrow> service \<Rightarrow> bool" where
  "service_inv n s \<longleftrightarrow>
     pidFile \<in> files (sworld s) \<and> length (sigCh s) \<le> sigChan_cap \<and>
     (if restart s then serving (sworld s) = []
      else case pluginManager s of None \<Rightarrow> False | Some m \<Rightarrow> manager_up n m (sworld s))"

definition socket_paths :: "nat \<Rightarrow> string set" where
  "socket_paths n = set (map unixSockPath (service_plugins n))"

text \<open>What holds of an outcome of the loop.\<close>

fun outcome_inv :: "nat \<Rightarrow> outcome \<Rightarrow> bool" where
  "outcome_inv n (Running s) = service_inv n s"
| "outcome_inv n (Exited f w) = (pidFile \<in> files w \<and> (\<exists>err. f = FailedStart err))"
| "outcome_inv n (Returned w) = (serving w = [] \<and> insert pidFile (socket_paths n) \<inter> files w \<subseteq> undeletable w)"
| "outcome_inv n Crashed = False"

lemma config_unixSockPath: "config p = config q \<Longrightarrow> unixSockPath p = unixSockPath q"
  by (simp add: config_def)

lemma config_register_request: "config p = config q \<Longrightarrow> register_request p = register_request q"
  by (simp add: config_def register_request_def)

lemma socket_paths_config:
  assumes "map config ps = map config (service_plugins n)"
  shows "unixSockPath ` set ps = socket_paths n"
proof -
  have "set (map unixSockPath ps) = socket_paths n"
    by (simp only: map_by_config [OF assms config_unixSockPath] socket_paths_def)
  then show ?thesis by simp
qed

lemma pidFile_not_socket: "pidFile \<notin> socket_paths n"
  by (simp add: pidFile_def socket_paths_def service_plugins_def plugin_for_def)

text \<open>The plugins of the service between two steps of the restart block: they have their
  configuration, those with a server serve and nothing else does, every stop channel is open.\<close>

definition launched :: "nat \<Rightarrow> DevicePlugin list \<Rightarrow> world \<Rightarrow> bool" where
  "launched n ps w \<longleftrightarrow>
     map config ps = map config (service_plugins n) \<and> serving w = servers ps \<and>
     distinct (map fst (serving w)) \<and> (\<forall>p\<in>set ps. stopChan p = ChanOpen)"

text \<open>When the environment lets the plugins serve, and when the kubelet accepts all of them.\<close>

definition sockets_ok :: "nat \<Rightarrow> env \<Rightarrow> bool" where
  "sockets_ok n e = list_all (\<lambda>p. listen_ok e (unixSockPath p) \<and> dial_ok e (unixSockPath p)) (service_plugins n)"

definition kubelet_ok :: "nat \<Rightarrow> env \<Rightarrow> bool" where
  "kubelet_ok n e \<longleftrightarrow>
     dial_ok e KubeletSocket \<and> list_all (\<lambda>p. register_ok e (register_request p)) (service_plugins n)"

lemma manager_up_launched:
  "manager_up n m w \<longleftrightarrow> launched n (devPlugins m) w \<and>
     (\<forall>p\<in>set (devPlugins m). gRpcServer p \<noteq> None \<and> isRigistered p)"
  by (auto simp: manager_up_def launched_def plugin_up_def list_all_iff)

lemma start_service:
  assumes "for_plugins (startGrpcServer e) (service_plugins n) w = (ps, w', r)" "serving w = []"
  shows "launched n ps w'" and "pidFile \<in> files w' \<longleftrightarrow> pidFile \<in> files w"
    and "requests w' = requests w" and "\<forall>p\<in>set ps. \<not> isRigistered p"
    and "r = None \<Longrightarrow> (\<forall>p\<in>set ps. gRpcServer p \<noteq> None) \<and> socket_paths n \<subseteq> files w'"
    and "r = Some err \<Longrightarrow>
      \<not> sockets_ok n e"
    and "undeletable w' = undeletable w"
proof -
  note started = start_all [OF fresh_service_plugins assms(1)]
  have "\<forall>p\<in>set (service_plugins n). gRpcServer p = None"
    using fresh_service_plugins [of n] by (simp add: list_all_iff fresh_def)
  note started_files = start_all_files [OF assms(1) distinct_socket_paths this]
  have conf: "map config ps = map config (service_plugins n)"
    using start.for_plugins_config [of e "service_plugins n" w] assms by simp
  then show "launched n ps w'" using started assms(2) by (simp add: launched_def)
  show "pidFile \<in> files w' \<longleftrightarrow> pidFile \<in> files w"
    using started_files(2) pidFile_not_socket [of n] by (simp add: socket_paths_def)
  show "requests w' = requests w" "\<forall>p\<in>set ps. \<not> isRigistered p" "undeletable w' = undeletable w"
    using started by simp_all
  show "(\<forall>p\<in>set ps. gRpcServer p \<noteq> None) \<and> socket_paths n \<subseteq> files w'" if "r = None"
  proof -
    from started(4) that have srv: "\<forall>p\<in>set ps. gRpcServer p \<noteq> None" by simp
    with started_files(1) have "unixSockPath ` set ps \<subseteq> files w'" by auto
    with srv show ?thesis by (simp only: socket_paths_config [OF conf])
  qed
  show "\<not> sockets_ok n e"
    if "r = Some err"
    using for_plugins_error [OF assms(1) [unfolded that]]
    by (auto simp: list_all_iff sockets_ok_def start_simps Let_def split: if_splits)
qed

lemma register_service:
  assumes "for_plugins (register_step e) ps w = (ps', w', r)" "launched n ps w"
    and unreg: "\<forall>p\<in>set ps. \<not> isRigistered p"
  shows "launched n ps' w'" and "files w' = files w"
    and "(\<forall>p\<in>set ps. gRpcServer p \<noteq> None) \<longrightarrow> (\<forall>p\<in>set ps'. gRpcServer p \<noteq> None)"
    and "r = None \<Longrightarrow> (\<forall>p\<in>set ps'. isRigistered p) \<and>
      requests w' = requests w @ map register_request (service_plugins n)"
    and "r = Some err \<Longrightarrow>
      \<not> kubelet_ok n e"
    and "undeletable w' = undeletable w"
proof -
  note registered = register_all [OF assms(1)]
  from assms(2) have conf: "map config ps = map config (service_plugins n)" by (simp add: launched_def)
  then have conf': "map config ps' = map config (service_plugins n)"
    using register.for_plugins_config [of e ps w] assms(1) by simp
  have reqs: "map register_request ps = map register_request (service_plugins n)"
    by (rule map_by_config [OF conf config_register_request])
  have "set (map stopChan ps) \<subseteq> {ChanOpen}" using assms(2) by (auto simp: launched_def)
  then have "set (map stopChan ps') \<subseteq> {ChanOpen}" unfolding registered(6) .
  then have "\<forall>p\<in>set ps'. stopChan p = ChanOpen" by auto
  with conf' registered(1,2) assms(2) show "launched n ps' w'" by (auto simp: launched_def)
  show "files w' = files w" "undeletable w' = undeletable w" by (rule registered)+
  have "None \<notin> set (map gRpcServer ps) \<longrightarrow> None \<notin> set (map gRpcServer ps')" by (simp only: registered(7)) simp
  then show "(\<forall>p\<in>set ps. gRpcServer p \<noteq> None) \<longrightarrow> (\<forall>p\<in>set ps'. gRpcServer p \<noteq> None)"
    by (simp only: set_map image_iff) metis
  have "filter (\<lambda>p. \<not> isRigistered p) ps = ps" using unreg by simp
  then show "(\<forall>p\<in>set ps'. isRigistered p) \<and>
      requests w' = requests w @ map register_request (service_plugins n)" if "r = None"
    using registered(8) [OF that] reqs by simp
  show "\<not> kubelet_ok n e"
    if "r = Some err"
  proof -
    have "\<exists>p\<in>set ps. \<not> (dial_ok e KubeletSocket \<and> register_ok e (register_request p))"
      using for_plugins_error [OF assms(1) [unfolded that]]
      by (auto simp: register_simps Let_def split: if_splits)
    then have "\<not> (dial_ok e KubeletSocket \<and> list_all (register_ok e) (map register_request ps))"
      by (auto simp: list_all_iff)
    then show ?thesis by (simp only: reqs list.pred_map comp_def kubelet_ok_def) simp
  qed
qed

lemma stop_service:
  assumes "launched n (devPlugins m) w"
  obtains m' w' where "mgr_stopGrpcServer m w = Ok (m', w')" "serving w' = []"
    "files w' = files w - ({unixSockPath p |p. p \<in> set (devPlugins m) \<and> gRpcServer p \<noteq> None} - undeletable w)"
    "requests w' = requests w" "undeletable w' = undeletable w" "\<forall>p\<in>set (devPlugins m'). gRpcServer p = None"
    "pidFile \<in> files w' \<longleftrightarrow> pidFile \<in> files w"
proof -
  from assms have conf: "map config (devPlugins m) = map config (service_plugins n)"
    and srv: "serving w = servers (devPlugins m) @ []" "distinct (map fst (servers (devPlugins m) @ []))"
    by (auto simp: launched_def)
  from assms have "list_all plugin_inv (devPlugins m)"
    by (auto simp: list_all_iff launched_def plugin_inv_def)
  from stop_all [OF this srv(2) srv(1)] obtain ps' w' where stop:
    "stop_plugins (devPlugins m) w = Ok (ps', w')" "serving w' = []" "\<forall>p\<in>set ps'. gRpcServer p = None"
    "files w' = files w - ({unixSockPath p |p. p \<in> set (devPlugins m) \<and> gRpcServer p \<noteq> None} - undeletable w)"
    "requests w' = requests w" "undeletable w' = undeletable w"
    by blast
  have "pidFile \<notin> unixSockPath ` set (devPlugins m)"
    unfolding socket_paths_config [OF conf] by (rule pidFile_not_socket)
  with stop(4) have "pidFile \<in> files w' \<longleftrightarrow> pidFile \<in> files w" by auto
  with stop show thesis
    using that [of "m\<lparr>devPlugins := ps'\<rparr>" w'] by (simp add: mgr_stopGrpcServer_def)
qed

lemma manager_up_stop:
  assumes "manager_up n m w"
  obtains m' w' where "mgr_stopGrpcServer m w = Ok (m', w')" "serving w' = []"
    "files w' = files w - (socket_paths n - undeletable w)" "requests w' = requests w"
    "undeletable w' = undeletable w" "\<forall>p\<in>set (devPlugins m'). gRpcServer p = None"
proof -
  from assms have up: "launched n (devPlugins m) w" "\<forall>p\<in>set (devPlugins m). gRpcServer p \<noteq> None"
    by (simp_all add: manager_up_launched)
  then have "{unixSockPath p |p. p \<in> set (devPlugins m) \<and> gRpcServer p \<noteq> None} = unixSockPath ` set (devPlugins m)"
    by auto
  also from up(1) have "\<dots> = socket_paths n" by (simp add: launched_def socket_paths_config)
  finally have paths: "{unixSockPath p |p. p \<in> set (devPlugins m) \<and> gRpcServer p \<noteq> None} = socket_paths n" .
  show thesis by (rule stop_service [OF up(1)], erule that) (use paths in simp_all)
qed

text \<open>The restart block, on a service with no server: the start fails and the process exits, the
  registration fails and all servers are stopped again, or the new manager is up and every plugin
  has been registered anew.\<close>

lemma restart_block_cases:
  assumes "service_inv n s" "restart s"
  obtains
    (failed) err w where "restart_block e n s = Exited (FailedStart err) w" "pidFile \<in> files w"
      "\<not> sockets_ok n e"
  | (again) m w where "restart_block e n s = Running (s\<lparr>sworld := w, pluginManager := Some m\<rparr>)"
      "serving w = []" "pidFile \<in> files w"
      "\<not> kubelet_ok n e"
  | (up) m w where "restart_block e n s = Running (s\<lparr>sworld := w, pluginManager := Some m, restart := False\<rparr>)"
      "manager_up n m w" "pidFile \<in> files w" "socket_paths n \<subseteq> files w"
      "requests w = requests (sworld s) @ map register_request (service_plugins n)"
      "undeletable w = undeletable (sworld s)"
proof -
  from assms have s: "pidFile \<in> files (sworld s)" "serving (sworld s) = []"
    by (simp_all add: service_inv_def)
  obtain ps w1 r1 where start: "for_plugins (startGrpcServer e) (service_plugins n) (sworld s) = (ps, w1, r1)"
    by (metis prod_cases3)
  note started = start_service [OF start s(2)]
  note block = restart_block_def initPluginManager_eq mgr_startGrpcServer_def mgr_registerToKubelet_step
  show thesis
  proof (cases r1)
    case (Some err)
    with failed [of err w1] started(2,6) start s assms(2) show thesis by (simp add: block)
  next
    case r1: None
    obtain qs w2 r2 where reg: "for_plugins (register_step e) ps w1 = (qs, w2, r2)" by (metis prod_cases3)
    note registered = register_service [OF reg started(1,4)]
    let ?m = "\<lparr>devs = devList, devPlugins = qs\<rparr>"
    have launched: "launched n (devPlugins ?m) w2" "pidFile \<in> files w2"
      using registered started(2) s(1) by simp_all
    show thesis
    proof (cases r2)
      case (Some err)
      obtain m' w' where "mgr_stopGrpcServer ?m w2 = Ok (m', w')" "serving w' = []" "pidFile \<in> files w'"
        by (rule stop_service [OF launched(1)]) (use launched(2) in simp)
      with again [of m' w'] registered(5) [OF Some] start reg r1 Some assms(2) show thesis
        by (simp add: block)
    next
      case None
      with registered started(5) [OF r1] launched(1) have "manager_up n ?m w2"
        by (simp add: manager_up_launched)
      with up [of ?m w2] registered(2,4,6) launched(2) started(3,7) started(5) [OF r1] None r1 start reg assms(2)
      show thesis by (simp add: block)
    qed
  qed
qed

text \<open>Stopping the current manager of a service that waits in \<open>select\<close>.\<close>

lemma stop_current_up:
  assumes "service_inv n s" "\<not> restart s"
  obtains m w where "stop_current s = Ok (s\<lparr>sworld := w, pluginManager := Some m\<rparr>)" "serving w = []"
    "files w = files (sworld s) - (socket_paths n - undeletable (sworld s))" "requests w = requests (sworld s)"
    "undeletable w = undeletable (sworld s)"
proof -
  from assms obtain m where m: "pluginManager s = Some m" "manager_up n m (sworld s)"
    by (auto simp: service_inv_def split: option.splits)
  from m(2) show thesis by (rule manager_up_stop) (use m(1) that in \<open>simp add: stop_current_def\<close>)
qed

lemma is_kubelet_restart_create: "is_kubelet_restart name op \<longleftrightarrow> name = KubeletSocket \<and> bit op 0"
proof -
  have "op AND 1 = 1 \<longleftrightarrow> bit op 0" for op :: "32 word"
    by (simp add: and_one_eq bit_0 mod_2_eq_odd)
  then show ?thesis by (simp add: is_kubelet_restart_def fsnotify_Create_def)
qed

lemma select_event_inv:
  assumes "service_inv n s" "\<not> restart s"
  shows "outcome_inv n (select_event ev s)"
proof -
  obtain m w where stop: "stop_current s = Ok (s\<lparr>sworld := w, pluginManager := Some m\<rparr>)" "serving w = []"
    "files w = files (sworld s) - (socket_paths n - undeletable (sworld s))"
    "undeletable w = undeletable (sworld s)"
    by (rule stop_current_up [OF assms])
  have "pidFile \<in> files w" using stop(3) assms(1) pidFile_not_socket by (simp add: service_inv_def)
  with stop assms show ?thesis
    by (auto simp: select_event_def service_inv_def deletePidFile_def os_Remove_def
        split: event.split signal.split)
qed

lemma notify_length: "length ch \<le> sigChan_cap \<Longrightarrow> length (notify sig ch) \<le> sigChan_cap"
  by (simp add: notify_def sigChan_cap_def)

theorem main_step_inv:
  assumes "main_step n s out" "service_inv n s"
  shows "outcome_inv n out"
  using assms
proof cases
  case (pass e)
  from assms(2) pass(2) show ?thesis
    unfolding pass(1) by (cases rule: restart_block_cases [where e = e]) (use assms(2) pass(2) in \<open>auto simp: service_inv_def\<close>)
next
  case (signal sig rest)
  with assms(2) have "service_inv n (s\<lparr>sigCh := rest\<rparr>)"
    by (auto simp: service_inv_def split: option.splits)
  with signal show ?thesis by (simp add: select_event_inv)
next
  case (deliver sig)
  with assms(2) show ?thesis by (auto simp: service_inv_def notify_length split: option.splits if_splits)
next
  case (others F U)
  with assms(2) show ?thesis
    by (auto simp: service_inv_def manager_up_def split: option.splits if_splits)
qed (use assms(2) in \<open>simp_all add: select_event_inv\<close>)

lemma main_init_Running:
  assumes "main_init h F n w0 = Running s" "serving w0 = []"
  shows "service_inv n s" and "restart s" and "pidFile \<notin> files w0" and "\<not> stat_err h"
proof -
  from assms show "service_inv n s" "restart s" "pidFile \<notin> files w0" "\<not> stat_err h"
    by (auto simp: main_init_def createPidFile_def service_inv_def newOsWatcher_def appIsRunning_def
        os_Stat_def Let_def split: if_splits res.splits)
qed

lemma main_init_not_Returned: "main_init h F n w0 \<noteq> Returned w"
  by (simp add: main_init_def Let_def split: res.split prod.split option.split)

lemma reaches_inv:
  assumes "main_reaches n w0 out" "serving w0 = []"
  shows "outcome_inv n out \<or> (\<exists>h F. out = main_init h F n w0)"
  using assms(1)
proof induction
  case (init h F)
  then show ?case by blast
next
  case (step s out)
  then have "service_inv n s" using main_init_Running(1) [OF _ assms(2)] by fastforce
  with step(2) show ?case by (simp add: main_step_inv)
qed

lemma reaches_Running: "main_reaches n w0 (Running s) \<Longrightarrow> serving w0 = [] \<Longrightarrow> service_inv n s"
  using reaches_inv [of n w0 "Running s"] main_init_Running(1) by fastforce

lemma reaches_Returned: "main_reaches n w0 (Returned w) \<Longrightarrow> serving w0 = [] \<Longrightarrow> outcome_inv n (Returned w)"
  using reaches_inv main_init_not_Returned by metis

lemma restart_block_up:
  assumes "service_inv n s" "restart s" "sockets_ok n e" "kubelet_ok n e"
  obtains m w where "restart_block e n s = Running (s\<lparr>sworld := w, pluginManager := Some m, restart := False\<rparr>)"
    "manager_up n m w" "socket_paths n \<subseteq> files w"
    "requests w = requests (sworld s) @ map register_request (service_plugins n)"
    "undeletable w = undeletable (sworld s)"
  using assms(1,2) by (cases rule: restart_block_cases [where e = e]) (use assms(3,4) that in simp_all)

lemma restart_block_sockets_ok:
  assumes "service_inv n s" "restart s" "sockets_ok n e"
  obtains s' where "restart_block e n s = Running s'" "service_inv n s'"
    "\<not> restart s' \<longrightarrow> socket_paths n \<subseteq> files (sworld s') \<and>
      requests (sworld s') = requests (sworld s) @ map register_request (service_plugins n)"
  using assms(1,2)
proof (cases rule: restart_block_cases [where e = e])
  case failed
  with assms show thesis by simp
next
  case (again m w)
  with assms(1,2) show thesis by (intro that [OF again(1)]) (auto simp: service_inv_def)
next
  case (up m w)
  with assms(1,2) show thesis by (intro that [OF up(1)]) (auto simp: service_inv_def)
qed

lemma run_passes_idle: "\<not> restart s \<Longrightarrow> run_passes n es s = Running s"
  by (induction es) (simp_all add: restart_block_def)

section \<open>A run of the service\<close>

text \<open>A concrete run, for one instance of each device, on a host without a pid file: start-up, one
  pass in which everything succeeds, and then a service that waits.\<close>

definition willing_host :: host where
  "willing_host = \<lparr>stat_err = False,
     init_run = (\<lambda>_. \<lparr>cmd_starts = True, cmd_stderr = [], cmd_succeeds = True\<rparr>),
     watcher_new_ok = True, watcher_add_ok = (\<lambda>_. True), create_ok = True, write_ok = True\<rparr>"

definition willing_env :: env where
  "willing_env = \<lparr>listen_ok = (\<lambda>_. True), dial_ok = (\<lambda>_. True), register_ok = (\<lambda>_. True),
     register_arrives = (\<lambda>_. True)\<rparr>"

definition kubelet_down :: env where
  "kubelet_down = willing_env\<lparr>dial_ok := (\<lambda>path. path \<noteq> KubeletSocket)\<rparr>"

definition sockets_down :: env where
  "sockets_down = willing_env\<lparr>listen_ok := (\<lambda>_. False)\<rparr>"

definition empty_world :: world where
  "empty_world = \<lparr>files = {}, undeletable = {}, serving = [], nextServer = 0, requests = [], acked = []\<rparr>"

definition initial_service :: service where
  "initial_service =
     \<lparr>sworld = empty_world\<lparr>files := {pidFile}\<rparr>, pluginManager = None, restart = True, sigCh = []\<rparr>"

definition waiting_service :: service where
  "waiting_service = (case restart_block willing_env 1 initial_service of
     Running s \<Rightarrow> s | _ \<Rightarrow> initial_service)"

lemma serving_empty_world [simp]: "serving empty_world = []"
  by (simp add: empty_world_def)

lemma main_init_willing: "main_init willing_host {} n empty_world = Running initial_service"
  by (simp add: main_init_def willing_host_def empty_world_def initial_service_def appIsRunning_def
      os_Stat_def initHostDevice_def newFsWatcher_def createPidFile_def newOsWatcher_def)

lemma reaches_initial: "main_reaches n empty_world (Running initial_service)"
  using main_reaches.init [of n empty_world willing_host "{}"] by (simp add: main_init_willing)

lemma initial_service_facts: "restart initial_service" "service_inv n initial_service"
  by (simp_all add: initial_service_def empty_world_def service_inv_def)

lemma envs_ok: "sockets_ok n willing_env" "kubelet_ok n willing_env" "sockets_ok n kubelet_down"
  by (simp_all add: sockets_ok_def kubelet_ok_def willing_env_def kubelet_down_def KubeletSocket_def
      DevicePluginPath_def service_plugins_def plugin_for_def)

lemma waiting_service_eq:
  shows "restart_block willing_env 1 initial_service = Running waiting_service"
    and "\<not> restart waiting_service" and "sigCh waiting_service = []"
    and "requests (sworld waiting_service) = map register_request (service_plugins 1)"
    and "undeletable (sworld waiting_service) = {}"
proof -
  obtain m w where up: "restart_block willing_env 1 initial_service =
      Running (initial_service\<lparr>sworld := w, pluginManager := Some m, restart := False\<rparr>)"
    "requests w = requests (sworld initial_service) @ map register_request (service_plugins 1)"
    "undeletable w = undeletable (sworld initial_service)"
    by (rule restart_block_up [OF initial_service_facts(2,1) envs_ok(1,2)])
  then show "restart_block willing_env 1 initial_service = Running waiting_service"
    "\<not> restart waiting_service" "sigCh waiting_service = []"
    "requests (sworld waiting_service) = map register_request (service_plugins 1)"
    "undeletable (sworld waiting_service) = {}"
    by (simp_all add: waiting_service_def) (simp_all add: initial_service_def empty_world_def)
qed

lemma reaches_waiting: "main_reaches 1 empty_world (Running waiting_service)"
  using main_reaches.step [OF reaches_initial main_step.pass [OF initial_service_facts(1), where e = willing_env], of 1]
  by (simp only: waiting_service_eq(1))

section \<open>Properties of the service\<close>

text \<open>The test for the pid file does not exclude a second process that is started at the same time:
  a process whose test found no pid file goes on although another one has created it by then.\<close>

theorem simultaneous_start:
  "main_init willing_host {pidFile} n empty_world =
     Running (initial_service\<lparr>sworld := empty_world\<lparr>files := {pidFile}\<rparr>\<rparr>)"
  by (simp add: main_init_def willing_host_def empty_world_def initial_service_def appIsRunning_def
      os_Stat_def initHostDevice_def newFsWatcher_def createPidFile_def newOsWatcher_def)

text \<open>C1: whenever the service waits for events, the manager has exactly the plugins of \<open>devList\<close>,
  each registered with the kubelet and served by a server of its own on its own socket, and no
  other server of the process is left over from an earlier start.\<close>

theorem service_ready:
  assumes "main_reaches n w0 (Running s)" "serving w0 = []" "\<not> restart s"
  shows "\<exists>m. pluginManager s = Some m \<and>
    map devName (devPlugins m) = map dev_devName devList \<and>
    map devInstances (devPlugins m) = map (\<lambda>b. map (dev_instance b) [0..<n]) [''fuse'', ''ashmem'', ''binder''] \<and>
    list_all isRigistered (devPlugins m) \<and>
    map (\<lambda>p. (gRpcServer p, unixSockPath p)) (devPlugins m) = map (\<lambda>(i, q). (Some i, q)) (serving (sworld s)) \<and>
    distinct (map fst (serving (sworld s))) \<and> distinct (map snd (serving (sworld s))) \<and>
    pidFile \<in> files (sworld s)"
proof -
  have inv: "service_inv n s" using assms(1,2) by (rule reaches_Running)
  then obtain m where m: "pluginManager s = Some m" "manager_up n m (sworld s)" "pidFile \<in> files (sworld s)"
    using assms(3) by (auto simp: service_inv_def split: option.splits)
  then have conf: "map config (devPlugins m) = map config (service_plugins n)"
    and up: "\<forall>p\<in>set (devPlugins m). gRpcServer p \<noteq> None"
    and srv: "serving (sworld s) = map (\<lambda>p. (the (gRpcServer p), unixSockPath p)) (devPlugins m)"
    by (auto simp: manager_up_def plugin_up_def list_all_iff servers_def cong: filter_cong)
  have names: "map devName (devPlugins m) = map devName (service_plugins n)"
    "map devInstances (devPlugins m) = map devInstances (service_plugins n)"
    "map unixSockPath (devPlugins m) = map unixSockPath (service_plugins n)"
    by (rule map_by_config [OF conf]; simp add: config_def)+
  have "distinct (map snd (serving (sworld s)))"
    using names(3) distinct_socket_paths [of n] by (simp add: srv comp_def)
  moreover have "map (\<lambda>p. (gRpcServer p, unixSockPath p)) (devPlugins m) =
      map (\<lambda>(i, q). (Some i, q)) (serving (sworld s))"
    using up by (auto simp: srv)
  ultimately show ?thesis
    using m names by (auto simp: manager_up_def plugin_up_def list_all_iff service_plugins_def
        plugin_for_def devList_def)
qed

theorem service_ready_witness:
  "\<exists>m. pluginManager waiting_service = Some m \<and>
    map devName (devPlugins m) = [''/dev/fuse'', ''/dev/ashmem'', ''/dev/binder''] \<and>
    list_all isRigistered (devPlugins m)"
  using service_ready [OF reaches_waiting serving_empty_world waiting_service_eq(2)]
  by (auto simp: devList_def)

text \<open>C2: no step of the loop panics: the manager is never nil when it is used and no stop channel is
  closed twice.\<close>

theorem service_never_crashes:
  assumes "main_reaches n w0 (Running s)" "main_step n s out" "serving w0 = []"
  shows "out \<noteq> Crashed"
  using main_step_inv [OF assms(2) reaches_Running [OF assms(1,3)]] by (cases out) auto

theorem service_never_crashes_witness: "restart_block willing_env 1 initial_service \<noteq> Crashed"
  by (rule service_never_crashes [OF reaches_initial main_step.pass [OF initial_service_facts(1)] serving_empty_world])

text \<open>C6: when \<open>main\<close> returns, all servers are stopped, and the socket files and the pid file are
  gone, each unless the system refuses to remove it: the errors of \<open>os.Remove\<close> are ignored, and a
  pid file that could not be removed makes every later start exit.\<close>

theorem shutdown_clean:
  assumes "main_reaches n w0 (Returned w)" "serving w0 = []"
  shows "serving w = [] \<and>
    (\<forall>f\<in>{pidFile, DevicePluginPath @ ''fuse.sock'', DevicePluginPath @ ''ashmem.sock'',
         DevicePluginPath @ ''binder.sock''}. f \<in> files w \<longrightarrow> f \<in> undeletable w) \<and>
    (pidFile \<in> files w \<longrightarrow> (\<forall>h F k. main_init h F k w = Exited AppIsRunning w))"
  using reaches_Returned [OF assms]
  by (auto simp: socket_paths_def service_plugins_def plugin_for_def DevicePluginPath_def
      main_init_def appIsRunning_def os_Stat_def)

theorem shutdown_clean_witness:
  "\<exists>w. main_reaches 1 empty_world (Returned w) \<and> serving w = [] \<and> pidFile \<notin> files w"
proof -
  let ?s = "waiting_service\<lparr>sigCh := [SIGTERM]\<rparr>"
  have "main_step 1 waiting_service (Running ?s)"
    using main_step.deliver [of 1 waiting_service SIGTERM]
    by (simp add: waiting_service_eq(3) notify_def sigChan_cap_def)
  with reaches_waiting have reach: "main_reaches 1 empty_world (Running ?s)" by (rule main_reaches.step)
  have idle: "\<not> restart ?s" using waiting_service_eq(2) by simp
  then have "main_step 1 ?s (select_event (SignalEvent SIGTERM) (?s\<lparr>sigCh := []\<rparr>))"
    by (rule main_step.signal) simp
  with reach have "main_reaches 1 empty_world (select_event (SignalEvent SIGTERM) (?s\<lparr>sigCh := []\<rparr>))"
    by (rule main_reaches.step)
  moreover have "waiting_service\<lparr>sigCh := []\<rparr> = waiting_service"
    using waiting_service_eq(3) by (cases waiting_service) simp
  moreover obtain m w where "stop_current waiting_service =
      Ok (waiting_service\<lparr>sworld := w, pluginManager := Some m\<rparr>)"
    and w: "undeletable w = undeletable (sworld waiting_service)"
    by (rule stop_current_up [OF reaches_Running [OF reaches_waiting serving_empty_world] waiting_service_eq(2)])
  ultimately have "main_reaches 1 empty_world (Returned (deletePidFile w))" by (simp add: select_event_def)
  moreover have "undeletable (deletePidFile w) = {}"
    using w waiting_service_eq(5) by (simp add: deletePidFile_def os_Remove_def)
  ultimately show ?thesis using shutdown_clean [of 1 empty_world "deletePidFile w"] by auto
qed

text \<open>C7: a second process started beside a running service exits at once and changes nothing.\<close>

theorem single_instance:
  assumes "main_reaches n w0 (Running s)" "serving w0 = []"
  shows "main_init h F k (sworld s) = Exited AppIsRunning (sworld s)"
  using reaches_Running [OF assms]
  by (simp add: service_inv_def main_init_def appIsRunning_def os_Stat_def)

theorem single_instance_witness:
  "main_init willing_host {} 1 (sworld waiting_service) = Exited AppIsRunning (sworld waiting_service)"
  by (rule single_instance [OF reaches_waiting serving_empty_world])

text \<open>C8: a fatal error in the loop (a plugin's socket cannot be opened) ends the process without
  the deferred \<open>deletePidFile\<close>: the pid file stays and every later start of the service exits.\<close>

theorem fatal_exit_locks_out:
  assumes "main_reaches n w0 (Running s)" "main_step n s (Exited f w)" "serving w0 = []"
  shows "(\<exists>err. f = FailedStart err) \<and> (\<forall>h F k. main_init h F k w = Exited AppIsRunning w)"
  using main_step_inv [OF assms(2) reaches_Running [OF assms(1,3)]]
  by (simp add: main_init_def appIsRunning_def os_Stat_def)

theorem fatal_exit_locks_out_witness:
  "\<exists>err w. restart_block sockets_down 1 initial_service = Exited (FailedStart err) w \<and>
     main_init willing_host {} 1 w = Exited AppIsRunning w"
proof -
  have step: "main_step 1 initial_service (restart_block sockets_down 1 initial_service)"
    by (rule main_step.pass) (rule initial_service_facts)
  have "restart_block sockets_down 1 initial_service = Exited (FailedStart
      (ErrListen (DevicePluginPath @ ''fuse.sock''))) (sworld initial_service)"
    by (simp add: restart_block_def initial_service_def initPluginManager_eq [of 1, simplified]
        mgr_startGrpcServer_def start_simps sockets_down_def service_plugins_def plugin_for_def DevicePluginPath_def
        empty_world_def pidFile_def willing_env_def Let_def)
  with step fatal_exit_locks_out [OF reaches_initial _ serving_empty_world] show ?thesis by auto
qed

text \<open>C3: as long as the sockets can be opened, failed registrations only delay the service: it
  retries, and the first pass in which the kubelet accepts all plugins ends with the service
  waiting for events, every socket in place and all three plugins just registered.\<close>

theorem retries_until_registered:
  assumes "main_reaches n w0 (Running s)" "serving w0 = []" "restart s"
    and "list_all (sockets_ok n) (es @ [e])" "kubelet_ok n e"
  shows "\<exists>s' reqs. run_passes n (es @ [e]) s = Running s' \<and> main_reaches n w0 (Running s') \<and> \<not> restart s' \<and>
    socket_paths n \<subseteq> files (sworld s') \<and>
    requests (sworld s') = reqs @ map register_request (service_plugins n)"
  using assms
proof (induction es arbitrary: s)
  case Nil
  obtain m w where up: "restart_block e n s = Running (s\<lparr>sworld := w, pluginManager := Some m, restart := False\<rparr>)"
    "socket_paths n \<subseteq> files w" "requests w = requests (sworld s) @ map register_request (service_plugins n)"
    by (rule restart_block_up [of n s e]) (use Nil reaches_Running in auto)
  moreover have "main_reaches n w0 (restart_block e n s)"
    using Nil by (blast intro: main_reaches.step main_step.pass)
  ultimately show ?case by auto
next
  case (Cons e' es)
  then have inv: "service_inv n s" "restart s" "sockets_ok n e'" using reaches_Running by auto
  then obtain s1 where s1: "restart_block e' n s = Running s1"
    "\<not> restart s1 \<longrightarrow> socket_paths n \<subseteq> files (sworld s1) \<and>
      requests (sworld s1) = requests (sworld s) @ map register_request (service_plugins n)"
    by (rule restart_block_sockets_ok)
  have reach: "main_reaches n w0 (Running s1)"
    using Cons.prems(1,3) s1(1) by (metis main_reaches.step main_step.pass)
  show ?case
  proof (cases "restart s1")
    case True
    with Cons.IH [OF reach] Cons.prems s1(1) show ?thesis by simp
  next
    case False
    with s1 reach show ?thesis by (simp add: run_passes_idle)
  qed
qed

theorem retries_until_registered_witness:
  "\<exists>s'. run_passes 1 ([kubelet_down, kubelet_down] @ [willing_env]) initial_service = Running s' \<and> \<not> restart s'"
  using retries_until_registered [OF reaches_initial serving_empty_world initial_service_facts(1), of 1
      "[kubelet_down, kubelet_down]" willing_env]
  by (auto simp: envs_ok)

text \<open>C4: on SIGHUP, or when the kubelet's socket is created anew, a waiting service stops all its
  servers, and its next pass under a willing environment starts and registers all plugins again.\<close>

theorem restart_reregisters:
  assumes "main_reaches n w0 (Running s)" "serving w0 = []" "\<not> restart s"
    and "ev = SignalEvent SIGHUP \<or> (\<exists>op. ev = WatcherEvent KubeletSocket op \<and> bit op 0)"
    and "sockets_ok n e" "kubelet_ok n e"
  shows "\<exists>s1 s2. select_event ev s = Running s1 \<and> restart s1 \<and> serving (sworld s1) = [] \<and>
    restart_block e n s1 = Running s2 \<and> \<not> restart s2 \<and> length (serving (sworld s2)) = 3 \<and>
    requests (sworld s2) = requests (sworld s) @ map register_request (service_plugins n)"
proof -
  have inv: "service_inv n s" using assms(1,2) by (rule reaches_Running)
  obtain m w where stop: "stop_current s = Ok (s\<lparr>sworld := w, pluginManager := Some m\<rparr>)" "serving w = []"
    "requests w = requests (sworld s)"
    by (rule stop_current_up [OF inv assms(3)])
  let ?s1 = "s\<lparr>sworld := w, pluginManager := Some m, restart := True\<rparr>"
  have sel: "select_event ev s = Running ?s1"
    using assms(4) stop(1) by (auto simp: select_event_def is_kubelet_restart_create)
  have "service_inv n ?s1" using select_event_inv [OF inv assms(3), of ev] unfolding sel by simp
  then obtain m' w' where up: "restart_block e n ?s1 = Running (?s1\<lparr>sworld := w', pluginManager := Some m', restart := False\<rparr>)"
    "manager_up n m' w'" "requests w' = requests w @ map register_request (service_plugins n)"
    by (rule restart_block_up [where e = e]) (use assms(5,6) in simp_all)
  from up(2) have "length (serving w') = length (service_plugins n)"
    by (auto simp: manager_up_def servers_def list_all_iff plugin_up_def dest: map_eq_imp_length_eq)
  then have "length (serving w') = 3" by (simp add: service_plugins_def)
  with sel up stop(2,3) show ?thesis by simp
qed

theorem restart_reregisters_witness:
  "\<exists>s1 s2. select_event (SignalEvent SIGHUP) waiting_service = Running s1 \<and>
     restart_block willing_env 1 s1 = Running s2 \<and> length (requests (sworld s2)) = 6"
  using restart_reregisters [OF reaches_waiting serving_empty_world waiting_service_eq(2), of
      "SignalEvent SIGHUP" willing_env]
  by (auto simp: envs_ok waiting_service_eq(4) service_plugins_def)

text \<open>The signal channel holds one signal: of the signals that arrive before the loop reads the
  channel only the first is kept, whatever it is.\<close>

theorem signals_coalesce:
  assumes "length ch \<le> sigChan_cap"
  shows "foldl (\<lambda>ch sig. notify sig ch) ch sigs = take sigChan_cap (ch @ sigs)"
  using assms
  by (induction sigs arbitrary: ch) (auto simp: notify_def not_less take_Cons' Suc_diff_Suc)

theorem signals_coalesce_witness:
  "foldl (\<lambda>ch sig. notify sig ch) [] [SIGHUP, SIGTERM, SIGHUP] = [SIGHUP]"
  using signals_coalesce [of "[]" "[SIGHUP, SIGTERM, SIGHUP]"] by (simp add: sigChan_cap_def)

end
