(* ===== verification/Inotify.thy ===== *)
theory Inotify
  imports Prelude
begin

text \<open>
  The file system watcher the service relies on: the Linux files \<open>inotify.go\<close>, \<open>inotify_poller.go\<close> and
  \<open>fsnotify.go\<close> of \<open>github.com/fsnotify/fsnotify\<close>. The kernel is a parameter: what the system calls return,
  the bytes read from the inotify descriptor, and which files exist.
\<close>

section \<open>Constants, errors and events\<close>

text \<open>The masks of \<open>inotify(7)\<close> (\<open>golang.org/x/sys/unix\<close>, linux/amd64).\<close>

definition IN_MODIFY :: "32 word" where "IN_MODIFY = 0x2"
definition IN_ATTRIB :: "32 word" where "IN_ATTRIB = 0x4"
definition IN_MOVED_FROM :: "32 word" where "IN_MOVED_FROM = 0x40"
definition IN_MOVED_TO :: "32 word" where "IN_MOVED_TO = 0x80"
definition IN_CREATE :: "32 word" where "IN_CREATE = 0x100"
definition IN_DELETE :: "32 word" where "IN_DELETE = 0x200"
definition IN_DELETE_SELF :: "32 word" where "IN_DELETE_SELF = 0x400"
definition IN_MOVE_SELF :: "32 word" where "IN_MOVE_SELF = 0x800"
definition IN_Q_OVERFLOW :: "32 word" where "IN_Q_OVERFLOW = 0x4000"
definition IN_IGNORED :: "32 word" where "IN_IGNORED = 0x8000"
definition IN_MASK_ADD :: "32 word" where "IN_MASK_ADD = 0x20000000"

definition EPOLLIN :: "32 word" where "EPOLLIN = 0x1"
definition EPOLLERR :: "32 word" where "EPOLLERR = 0x8"
definition EPOLLHUP :: "32 word" where "EPOLLHUP = 0x10"

definition SizeofInotifyEvent :: nat where "SizeofInotifyEvent = 16"
definition PathMax :: nat where "PathMax = 4096"

lemmas in_masks = IN_MODIFY_def IN_ATTRIB_def IN_MOVED_FROM_def IN_MOVED_TO_def IN_CREATE_def IN_DELETE_def
  IN_DELETE_SELF_def IN_MOVE_SELF_def IN_Q_OVERFLOW_def IN_IGNORED_def IN_MASK_ADD_def

datatype errno = EINTR | EAGAIN | Errno int

datatype fs_error = Sys errno | io_EOF | ShortRead | ErrEventOverflow | AlreadyClosed | NoSuchWatch string
  | TooManyEvents | PipeDescriptor

text \<open>\<open>fsnotify.Op\<close> and \<open>Event\<close>.\<close>

definition Op_Create :: "32 word" where "Op_Create = 1"
definition Op_Write :: "32 word" where "Op_Write = 2"
definition Op_Remove :: "32 word" where "Op_Remove = 4"
definition Op_Rename :: "32 word" where "Op_Rename = 8"
definition Op_Chmod :: "32 word" where "Op_Chmod = 16"

lemmas op_masks = Op_Create_def Op_Write_def Op_Remove_def Op_Rename_def Op_Chmod_def

record Event =
  ev_Name :: string
  ev_Op :: "32 word"

definition Op_String :: "32 word \<Rightarrow> string" where
  "Op_String op =
     (let s = (if op AND Op_Create = Op_Create then ''|CREATE'' else []) @
              (if op AND Op_Remove = Op_Remove then ''|REMOVE'' else []) @
              (if op AND Op_Write = Op_Write then ''|WRITE'' else []) @
              (if op AND Op_Rename = Op_Rename then ''|RENAME'' else []) @
              (if op AND Op_Chmod = Op_Chmod then ''|CHMOD'' else []) in
      if s = [] then [] else tl s)"

section \<open>The poller\<close>

text \<open>The open file descriptors of the process, as far as the watcher is concerned, are a list.\<close>

definition unix_Close :: "int \<Rightarrow> int list \<Rightarrow> int list" where
  "unix_Close fd fds = removeAll fd fds"

record fdPoller =
  po_fd :: int
  po_epfd :: int
  po_pipe0 :: int
  po_pipe1 :: int

definition emptyPoller :: "int \<Rightarrow> fdPoller" where
  "emptyPoller fd = \<lparr>po_fd = fd, po_epfd = - 1, po_pipe0 = - 1, po_pipe1 = - 1\<rparr>"

definition poller_close :: "fdPoller \<Rightarrow> int list \<Rightarrow> int list" where
  "poller_close p fds =
     (let fds = (if po_pipe1 p \<noteq> - 1 then unix_Close (po_pipe1 p) fds else fds);
          fds = (if po_pipe0 p \<noteq> - 1 then unix_Close (po_pipe0 p) fds else fds) in
      if po_epfd p \<noteq> - 1 then unix_Close (po_epfd p) fds else fds)"

text \<open>What the system calls of the start-up return: an errno, or the descriptors made. On failure
  \<open>unix.Pipe2\<close> stores the two zeros of its own array in the slice it was given.\<close>

record boot =
  su_inotify :: "errno + int"
  su_epoll :: "errno + int"
  su_pipe :: "errno + int \<times> int"
  su_ctl_fd :: "errno option"
  su_ctl_pipe :: "errno option"

definition newFdPoller :: "boot \<Rightarrow> int \<Rightarrow> int list \<Rightarrow> int list \<times> (errno + fdPoller)" where
  "newFdPoller su fd fds =
     (let poller = emptyPoller fd in
      case su_epoll su of
        Inl e \<Rightarrow> (poller_close poller fds, Inl e)
      | Inr epfd \<Rightarrow>
        (let poller = poller\<lparr>po_epfd := epfd\<rparr>; fds = epfd # fds in
         case su_pipe su of
           Inl e \<Rightarrow> (poller_close (poller\<lparr>po_pipe0 := 0, po_pipe1 := 0\<rparr>) fds, Inl e)
         | Inr (r, w) \<Rightarrow>
           (let poller = poller\<lparr>po_pipe0 := r, po_pipe1 := w\<rparr>; fds = r # w # fds in
            case su_ctl_fd su of
              Some e \<Rightarrow> (poller_close poller fds, Inl e)
            | None \<Rightarrow>
              (case su_ctl_pipe su of
                 Some e \<Rightarrow> (poller_close poller fds, Inl e)
               | None \<Rightarrow> (fds, Inr poller)))))"

text \<open>\<open>clearWake\<close>: what \<open>read\<close> on the pipe returns is an argument.\<close>

definition clearWake :: "errno option \<Rightarrow> fs_error option" where
  "clearWake r = (case r of None \<Rightarrow> None | Some EAGAIN \<Rightarrow> None | Some e \<Rightarrow> Some (Sys e))"

definition wake :: "errno option \<Rightarrow> fs_error option" where
  "wake r = (case r of None \<Rightarrow> None | Some EAGAIN \<Rightarrow> None | Some e \<Rightarrow> Some (Sys e))"

text \<open>The loop of \<open>wait\<close> over the ready descriptors, each with its event mask; it gathers whether one of the
  three events of the inotify descriptor was seen.\<close>

fun wait_scan :: "errno option \<Rightarrow> fdPoller \<Rightarrow> (int \<times> 32 word) list \<Rightarrow> bool \<Rightarrow> (fs_error, bool) res" where
  "wait_scan clear p [] seen = Ok seen"
| "wait_scan clear p ((fd, ev) # ready) seen =
     (let seen = (seen \<or> fd = po_fd p \<and> (ev AND EPOLLHUP \<noteq> 0 \<or> ev AND EPOLLERR \<noteq> 0 \<or> ev AND EPOLLIN \<noteq> 0)) in
      if fd = po_pipe0 p then
        (if ev AND EPOLLERR \<noteq> 0 then Err PipeDescriptor
         else if ev AND EPOLLIN \<noteq> 0 then
           (case clearWake clear of Some e \<Rightarrow> Err e | None \<Rightarrow> wait_scan clear p ready seen)
         else wait_scan clear p ready seen)
      else wait_scan clear p ready seen)"

text \<open>\<open>wait\<close>: one answer of \<open>epoll_wait\<close> for each turn of the loop; without a further one it blocks.\<close>

fun poller_wait :: "errno option \<Rightarrow> fdPoller \<Rightarrow> (errno + (int \<times> 32 word) list) list \<Rightarrow> (fs_error, bool) res" where
  "poller_wait clear p [] = Stuck"
| "poller_wait clear p (Inl e # answers) = (if e = EINTR then poller_wait clear p answers else Err (Sys e))"
| "poller_wait clear p (Inr ready # answers) =
     (if ready = [] then poller_wait clear p answers
      else if length ready > 6 then Err TooManyEvents
      else wait_scan clear p ready False)"

section \<open>The watcher\<close>

record watch =
  wt_wd :: "32 word"
  wt_flags :: "32 word"

text \<open>\<open>w_done\<close> says whether the channel \<open>done\<close> is closed, \<open>w_exited\<close> whether the reading goroutine has returned
  and closed \<open>Events\<close>, \<open>Errors\<close> and \<open>doneResp\<close>.\<close>

record Watcher =
  w_fd :: int
  w_poller :: fdPoller
  w_watches :: "string \<rightharpoonup> watch"
  w_paths :: "int \<rightharpoonup> string"
  w_done :: bool
  w_exited :: bool

definition NewWatcher :: "boot \<Rightarrow> int list \<Rightarrow> int list \<times> (errno + Watcher)" where
  "NewWatcher su fds =
     (case su_inotify su of
        Inl e \<Rightarrow> (fds, Inl e)
      | Inr fd \<Rightarrow>
        (case newFdPoller su fd (fd # fds) of
           (fds, Inl e) \<Rightarrow> (unix_Close fd fds, Inl e)
         | (fds, Inr poller) \<Rightarrow>
             (fds, Inr \<lparr>w_fd = fd, w_poller = poller, w_watches = Map.empty, w_paths = Map.empty,
               w_done = False, w_exited = False\<rparr>)))"

definition isClosed :: "Watcher \<Rightarrow> bool" where
  "isClosed w = w_done w"

text \<open>\<open>Close\<close> up to the point where it waits for the goroutine; the result of \<open>wake\<close> is not used.\<close>

definition watcher_Close :: "Watcher \<Rightarrow> Watcher" where
  "watcher_Close w = (if isClosed w then w else w\<lparr>w_done := True\<rparr>)"

text \<open>\<open>filepath.Clean\<close>: the elements between slashes, without empty ones and \<open>.\<close>, and with each \<open>..\<close>
  taking back the element before it (at the root it takes back nothing).\<close>

fun split_path :: "string \<Rightarrow> string \<Rightarrow> string list" where
  "split_path cur [] = [rev cur]"
| "split_path cur (c # s) = (if c = CHR ''/'' then rev cur # split_path [] s else split_path (c # cur) s)"

fun clean_elems :: "bool \<Rightarrow> string list \<Rightarrow> string list \<Rightarrow> string list" where
  "clean_elems rooted out [] = rev out"
| "clean_elems rooted out (e # es) =
     (if e = [] \<or> e = ''.'' then clean_elems rooted out es
      else if e = ''..'' then
        (if out \<noteq> [] \<and> hd out \<noteq> ''..'' then clean_elems rooted (tl out) es
         else if rooted then clean_elems rooted out es
         else clean_elems rooted (e # out) es)
      else clean_elems rooted (e # out) es)"

fun join_path :: "string list \<Rightarrow> string" where
  "join_path [] = []"
| "join_path [e] = e"
| "join_path (e # es) = e @ ''/'' @ join_path es"

definition filepath_Clean :: "string \<Rightarrow> string" where
  "filepath_Clean p =
     (let rooted = (p \<noteq> [] \<and> hd p = CHR ''/'');
          s = join_path (clean_elems rooted [] (split_path [] p)) in
      if rooted then ''/'' @ s else if s = [] then ''.'' else s)"

definition agnosticEvents :: "32 word" where
  "agnosticEvents = IN_MOVED_TO OR IN_MOVED_FROM OR IN_CREATE OR IN_ATTRIB OR IN_MODIFY OR IN_MOVE_SELF OR
     IN_DELETE OR IN_DELETE_SELF"

text \<open>\<open>Add\<close>: the kernel is given the path and the flags and answers with a watch descriptor.\<close>

definition watcher_Add :: "(string \<Rightarrow> 32 word \<Rightarrow> errno + int) \<Rightarrow> string \<Rightarrow> Watcher \<Rightarrow> (fs_error, Watcher) res" where
  "watcher_Add add_watch name w =
     (let name = filepath_Clean name in
      if isClosed w then Err AlreadyClosed
      else
        (let watchEntry = w_watches w name;
             flags = (case watchEntry of None \<Rightarrow> agnosticEvents | Some e \<Rightarrow> agnosticEvents OR (wt_flags e OR IN_MASK_ADD)) in
         case add_watch name flags of
           Inl e \<Rightarrow> Err (Sys e)
         | Inr wd \<Rightarrow>
           (case watchEntry of
              None \<Rightarrow> Ok (w\<lparr>w_watches := (w_watches w)(name \<mapsto> \<lparr>wt_wd = word_of_int wd, wt_flags = flags\<rparr>),
                          w_paths := (w_paths w)(wd \<mapsto> name)\<rparr>)
            | Some _ \<Rightarrow> Ok (w\<lparr>w_watches := (w_watches w)(name \<mapsto> \<lparr>wt_wd = word_of_int wd, wt_flags = flags\<rparr>)\<rparr>))))"

text \<open>\<open>Remove\<close> changes the maps before it asks the kernel, and keeps the change when the kernel refuses.\<close>

definition watcher_Remove :: "(32 word \<Rightarrow> errno option) \<Rightarrow> string \<Rightarrow> Watcher \<Rightarrow> Watcher \<times> fs_error option" where
  "watcher_Remove rm_watch name w =
     (let name = filepath_Clean name in
      case w_watches w name of
        None \<Rightarrow> (w, Some (NoSuchWatch name))
      | Some e \<Rightarrow>
        (let w = w\<lparr>w_paths := (w_paths w)(uint (wt_wd e) := None), w_watches := (w_watches w)(name := None)\<rparr> in
         case rm_watch (wt_wd e) of
           Some err \<Rightarrow> (w, Some (Sys err))
         | None \<Rightarrow> (w, None)))"

definition newEvent :: "string \<Rightarrow> 32 word \<Rightarrow> Event" where
  "newEvent name msk =
     (let op = 0;
          op = (if msk AND IN_CREATE = IN_CREATE \<or> msk AND IN_MOVED_TO = IN_MOVED_TO then op OR Op_Create else op);
          op = (if msk AND IN_DELETE_SELF = IN_DELETE_SELF \<or> msk AND IN_DELETE = IN_DELETE then op OR Op_Remove else op);
          op = (if msk AND IN_MODIFY = IN_MODIFY then op OR Op_Write else op);
          op = (if msk AND IN_MOVE_SELF = IN_MOVE_SELF \<or> msk AND IN_MOVED_FROM = IN_MOVED_FROM then op OR Op_Rename else op);
          op = (if msk AND IN_ATTRIB = IN_ATTRIB then op OR Op_Chmod else op) in
      \<lparr>ev_Name = name, ev_Op = op\<rparr>)"

text \<open>\<open>missing\<close> says of which names \<open>Lstat\<close> reports that they do not exist.\<close>

definition ignoreLinux :: "(string \<Rightarrow> bool) \<Rightarrow> Event \<Rightarrow> 32 word \<Rightarrow> bool" where
  "ignoreLinux missing e msk =
     (if msk AND IN_IGNORED = IN_IGNORED then True
      else if \<not> (ev_Op e AND Op_Remove = Op_Remove \<or> ev_Op e AND Op_Rename = Op_Rename) then missing (ev_Name e)
      else False)"

section \<open>Reading events\<close>

text \<open>The memory that starts with the buffer of \<open>readEvents\<close>: the buffer and whatever follows it.\<close>

definition mem_at :: "bytes \<Rightarrow> (nat \<Rightarrow> byte) \<Rightarrow> nat \<Rightarrow> byte" where
  "mem_at buf beyond i = (if i < length buf then buf ! i else beyond i)"

definition mem_slice :: "bytes \<Rightarrow> (nat \<Rightarrow> byte) \<Rightarrow> nat \<Rightarrow> nat \<Rightarrow> bytes" where
  "mem_slice buf beyond i n = map (\<lambda>j. mem_at buf beyond (i + j)) [0..<n]"

text \<open>A little-endian field of \<open>unix.InotifyEvent\<close>.\<close>

definition le_Uint32 :: "bytes \<Rightarrow> 32 word" where
  "le_Uint32 bs = push_bit 24 (ucast (bs ! 3)) OR push_bit 16 (ucast (bs ! 2)) OR push_bit 8 (ucast (bs ! 1)) OR ucast (bs ! 0)"

record InotifyEvent =
  raw_Wd :: int
  raw_Mask :: "32 word"
  raw_Cookie :: "32 word"
  raw_Len :: "32 word"

text \<open>The cast of \<open>&buf[offset]\<close> to a pointer to an event; the index expression checks its bound.\<close>

definition raw_event :: "bytes \<Rightarrow> (nat \<Rightarrow> byte) \<Rightarrow> nat \<Rightarrow> (fs_error, InotifyEvent) res" where
  "raw_event buf beyond offset =
     (if offset < length buf
      then Ok \<lparr>raw_Wd = sint (le_Uint32 (mem_slice buf beyond offset 4)),
               raw_Mask = le_Uint32 (mem_slice buf beyond (offset + 4) 4),
               raw_Cookie = le_Uint32 (mem_slice buf beyond (offset + 8) 4),
               raw_Len = le_Uint32 (mem_slice buf beyond (offset + 12) 4)\<rparr>
      else Panic)"

text \<open>The name that follows an event: the cast of \<open>&buf[offset+16]\<close> to an array of \<open>PathMax\<close> bytes, its slice
  of \<open>nameLen\<close> bytes, and \<open>strings.TrimRight\<close> of the NULs.\<close>

definition raw_name :: "bytes \<Rightarrow> (nat \<Rightarrow> byte) \<Rightarrow> 32 word \<Rightarrow> 32 word \<Rightarrow> (fs_error, string) res" where
  "raw_name buf beyond offset nameLen =
     (let start = unat (offset + of_nat SizeofInotifyEvent) in
      if start < length buf \<and> unat nameLen \<le> PathMax
      then Ok (string_of_bytes (rev (dropWhile (\<lambda>b. b = 0) (rev (mem_slice buf beyond start (unat nameLen))))))
      else Panic)"

text \<open>
  The channels: a send is received, or \<open>done\<close> is closed first. \<open>takes k\<close> says which for the \<open>k\<close>-th send of a
  pass. The watcher, the items received so far and the number of sends are the state of a pass;
  \<open>False\<close> as its result says that the goroutine returns.
\<close>

datatype item = EventItem Event | ErrorItem fs_error

type_synonym rstate = "Watcher \<times> item list \<times> nat"

definition send :: "(nat \<Rightarrow> bool) \<Rightarrow> item \<Rightarrow> rstate \<Rightarrow> rstate \<times> bool" where
  "send takes i = (\<lambda>(w, out, k). if takes k then ((w, out @ [i], Suc k), True) else ((w\<lparr>w_done := True\<rparr>, out, Suc k), False))"

text \<open>The lookup of the path of a watch descriptor, which forgets a path that was removed.\<close>

definition event_path :: "int \<Rightarrow> 32 word \<Rightarrow> Watcher \<Rightarrow> string \<times> Watcher" where
  "event_path wd msk w =
     (case w_paths w wd of
        None \<Rightarrow> ([], w)
      | Some name \<Rightarrow>
          (name, if msk AND IN_DELETE_SELF = IN_DELETE_SELF
                 then w\<lparr>w_paths := (w_paths w)(wd := None), w_watches := (w_watches w)(name := None)\<rparr> else w))"

text \<open>The part of the loop that deals with one event once its fields are read.\<close>

definition handle_event :: "(string \<Rightarrow> bool) \<Rightarrow> (nat \<Rightarrow> bool) \<Rightarrow> int \<Rightarrow> 32 word \<Rightarrow> string option \<Rightarrow> rstate \<Rightarrow> rstate \<times> bool" where
  "handle_event missing takes wd msk file s =
     (case (if msk AND IN_Q_OVERFLOW \<noteq> 0 then send takes (ErrorItem ErrEventOverflow) s else (s, True)) of
        (s, False) \<Rightarrow> (s, False)
      | ((w, out, k), True) \<Rightarrow>
        (let (name, w) = event_path wd msk w;
             name = (case file of None \<Rightarrow> name | Some f \<Rightarrow> name @ ''/'' @ f);
             event = newEvent name msk in
         if \<not> ignoreLinux missing event msk then send takes (EventItem event) (w, out, k)
         else ((w, out, k), True)))"

text \<open>The loop over the events of the buffer, \<open>n\<close> bytes of which were read. The offset is a \<open>uint32\<close>.\<close>

fun events_loop :: "(string \<Rightarrow> bool) \<Rightarrow> (nat \<Rightarrow> bool) \<Rightarrow> bytes \<Rightarrow> (nat \<Rightarrow> byte) \<Rightarrow> nat \<Rightarrow> nat \<Rightarrow> 32 word \<Rightarrow> rstate \<Rightarrow>
    (fs_error, rstate \<times> bool) res" where
  "events_loop missing takes buf beyond n 0 offset s = Stuck"
| "events_loop missing takes buf beyond n (Suc fuel) offset s =
     (if offset \<le> of_nat (n - SizeofInotifyEvent) then
        res_bind (raw_event buf beyond (unat offset)) (\<lambda>raw.
        res_bind (if raw_Len raw > 0 then res_bind (raw_name buf beyond offset (raw_Len raw)) (\<lambda>f. Ok (Some f)) else Ok None) (\<lambda>file.
        (case handle_event missing takes (raw_Wd raw) (raw_Mask raw) file s of
           (s, False) \<Rightarrow> Ok (s, False)
         | (s, True) \<Rightarrow> events_loop missing takes buf beyond n fuel (offset + (of_nat SizeofInotifyEvent + raw_Len raw)) s)))
      else Ok (s, True))"

text \<open>What the kernel does during one pass of \<open>readEvents\<close>: the answers of \<open>epoll_wait\<close> and of the read of the
  wake pipe, whether \<open>Close\<close> is called while the pass waits, and what \<open>read\<close> returns. \<open>stale\<close> is what the rest of
  the buffer holds from earlier passes.\<close>

record kernel_pass =
  kp_epoll :: "(errno + (int \<times> 32 word) list) list"
  kp_clear :: "errno option"
  kp_closed :: bool
  kp_read :: "errno + bytes"
  kp_stale :: bytes
  kp_beyond :: "nat \<Rightarrow> byte"
  kp_missing :: "string \<Rightarrow> bool"
  kp_takes :: "nat \<Rightarrow> bool"

definition readEvents_pass :: "kernel_pass \<Rightarrow> Watcher \<Rightarrow> (fs_error, rstate \<times> bool) res" where
  "readEvents_pass kp w =
     (if isClosed w then Ok ((w, [], 0), False)
      else
        (case poller_wait (kp_clear kp) (w_poller w) (kp_epoll kp) of
           Err e \<Rightarrow> Ok (send (kp_takes kp) (ErrorItem e) (w, [], 0))
         | Panic \<Rightarrow> Panic | Stuck \<Rightarrow> Stuck
         | Ok ok \<Rightarrow>
           (let w = (if kp_closed kp then watcher_Close w else w) in
            if \<not> ok then Ok ((w, [], 0), True)
            else if kp_read kp = Inl EINTR then Ok ((w, [], 0), True)
            else if isClosed w then Ok ((w, [], 0), False)
            else
              (case kp_read kp of
                 Inl e \<Rightarrow> Ok (send (kp_takes kp) (ErrorItem (Sys e)) (w, [], 0))
               | Inr bs \<Rightarrow>
                 (if length bs < SizeofInotifyEvent
                  then Ok (send (kp_takes kp) (ErrorItem (if bs = [] then io_EOF else ShortRead)) (w, [], 0))
                  else events_loop (kp_missing kp) (kp_takes kp) (bs @ kp_stale kp) (kp_beyond kp) (length bs)
                    (Suc (length bs)) 0 (w, [], 0))))))"

text \<open>The deferred calls of \<open>readEvents\<close>.\<close>

definition readEvents_exit :: "Watcher \<Rightarrow> int list \<Rightarrow> Watcher \<times> int list" where
  "readEvents_exit w fds = (w\<lparr>w_exited := True\<rparr>, unix_Close (w_fd w) (poller_close (w_poller w) fds))"

text \<open>\<open>readEvents\<close>: passes in a row, and the deferred calls when one of them returns.\<close>

fun readEvents :: "kernel_pass list \<Rightarrow> Watcher \<Rightarrow> int list \<Rightarrow> (fs_error, Watcher \<times> int list \<times> item list) res" where
  "readEvents [] w fds = Ok (w, fds, [])"
| "readEvents (kp # kps) w fds =
     res_bind (readEvents_pass kp w) (\<lambda>((w, out, k), goes_on).
       if goes_on then res_bind (readEvents kps w fds) (\<lambda>(w, fds, out'). Ok (w, fds, out @ out'))
       else let (w, fds) = readEvents_exit w fds in Ok (w, fds, out))"

section \<open>The events the kernel writes\<close>

text \<open>
  The format of \<open>inotify(7)\<close>: the four fields, then the name, if there is one, padded with NULs.
\<close>

record kernel_event =
  ke_wd :: "32 word"
  ke_mask :: "32 word"
  ke_cookie :: "32 word"
  ke_name :: string
  ke_pad :: nat

definition le_bytes :: "32 word \<Rightarrow> bytes" where
  "le_bytes v = [ucast v, ucast (drop_bit 8 v), ucast (drop_bit 16 v), ucast (drop_bit 24 v)]"

definition ke_len :: "kernel_event \<Rightarrow> nat" where
  "ke_len e = length (ke_name e) + ke_pad e"

definition ke_bytes :: "kernel_event \<Rightarrow> bytes" where
  "ke_bytes e = le_bytes (ke_wd e) @ le_bytes (ke_mask e) @ le_bytes (ke_cookie e) @ le_bytes (of_nat (ke_len e)) @
     bytes_of_string (ke_name e) @ replicate (ke_pad e) 0"

definition ke_ok :: "kernel_event \<Rightarrow> bool" where
  "ke_ok e \<longleftrightarrow> CHR 0x00 \<notin> set (ke_name e) \<and> ke_len e \<le> PathMax"

text \<open>What the loop makes of a sequence of events, without the buffer.\<close>

fun handle_all :: "(string \<Rightarrow> bool) \<Rightarrow> (nat \<Rightarrow> bool) \<Rightarrow> kernel_event list \<Rightarrow> rstate \<Rightarrow> rstate \<times> bool" where
  "handle_all missing takes [] s = (s, True)"
| "handle_all missing takes (e # es) s =
     (case handle_event missing takes (sint (ke_wd e)) (ke_mask e) (if ke_len e = 0 then None else Some (ke_name e)) s of
        (s, False) \<Rightarrow> (s, False)
      | (s, True) \<Rightarrow> handle_all missing takes es s)"

lemma le_Uint32_bytes [simp]: "le_Uint32 (le_bytes v) = v"
  using word32_bytes [of v] by (simp add: le_Uint32_def le_bytes_def)

lemma length_le_bytes [simp]: "length (le_bytes v) = 4"
  by (simp add: le_bytes_def)

lemma mem_slice_in:
  assumes "buf = pre @ xs @ post" "i = length pre" "n = length xs"
  shows "mem_slice buf beyond i n = xs"
  using assms by (auto simp: mem_slice_def mem_at_def nth_append intro: nth_equalityI)

lemma raw_event_bytes:
  assumes "buf = pre @ ke_bytes e @ post"
  shows "raw_event buf beyond (length pre) =
    Ok \<lparr>raw_Wd = sint (ke_wd e), raw_Mask = ke_mask e, raw_Cookie = ke_cookie e, raw_Len = of_nat (ke_len e)\<rparr>"
proof -
  let ?w = "le_bytes (ke_wd e)" and ?m = "le_bytes (ke_mask e)" and ?c = "le_bytes (ke_cookie e)" and ?l = "le_bytes (of_nat (ke_len e))"
  let ?n = "bytes_of_string (ke_name e) @ replicate (ke_pad e) 0 @ post"
  have buf: "buf = pre @ ?w @ ?m @ ?c @ ?l @ ?n" using assms by (simp add: ke_bytes_def)
  have "mem_slice buf beyond (length pre) 4 = ?w" "mem_slice buf beyond (length pre + 4) 4 = ?m"
    "mem_slice buf beyond (length pre + 8) 4 = ?c" "mem_slice buf beyond (length pre + 12) 4 = ?l"
    by (rule mem_slice_in [of _ pre _ "?m @ ?c @ ?l @ ?n"] mem_slice_in [of _ "pre @ ?w" _ "?c @ ?l @ ?n"]
        mem_slice_in [of _ "pre @ ?w @ ?m" _ "?l @ ?n"] mem_slice_in [of _ "pre @ ?w @ ?m @ ?c" _ "?n"]; simp add: buf)+
  then show ?thesis by (simp add: raw_event_def buf)
qed

lemma string_of_bytes_of_string [simp]: "string_of_bytes (bytes_of_string s) = s"
  by (induction s) (auto simp: string_of_bytes_def bytes_of_string_def)

lemma char_of_zero: "char_of (0 :: nat) = CHR 0x00"
  by code_simp

lemma unat_of_nat32: "n < 2 ^ 32 \<Longrightarrow> unat (of_nat n :: 32 word) = n"
  by (simp add: unat_of_nat)

lemma trim_pad:
  assumes "CHR 0x00 \<notin> set s"
  shows "rev (dropWhile (\<lambda>b. b = 0) (rev (bytes_of_string s @ replicate k (0 :: byte)))) = bytes_of_string s"
proof -
  have "byte_of_char c \<noteq> 0" if "c \<in> set s" for c
    using that assms char_byte_inverse [of c] by (auto simp: char_of_byte_def char_of_zero)
  then have "dropWhile (\<lambda>b. b = 0) (rev (bytes_of_string s)) = rev (bytes_of_string s)"
    by (cases s rule: rev_cases) (auto simp: bytes_of_string_def)
  then show ?thesis by (simp add: dropWhile_append dropWhile_replicate)
qed

lemma raw_name_bytes:
  assumes "buf = pre @ ke_bytes e @ post" "ke_ok e" "ke_len e \<noteq> 0" "length pre + length (ke_bytes e) < 2 ^ 32"
  shows "raw_name buf beyond (of_nat (length pre)) (of_nat (ke_len e)) = Ok (ke_name e)"
proof -
  let ?xs = "bytes_of_string (ke_name e) @ replicate (ke_pad e) 0"
  have len: "length (ke_bytes e) = 16 + ke_len e" by (simp add: ke_bytes_def ke_len_def bytes_of_string_def)
  have start: "unat (of_nat (length pre) + of_nat SizeofInotifyEvent :: 32 word) = length pre + 16"
    unfolding SizeofInotifyEvent_def of_nat_add [symmetric] by (rule unat_of_nat32) (use assms(4) len in simp)
  have n: "unat (of_nat (ke_len e) :: 32 word) = ke_len e" using assms(4) len by (simp add: unat_of_nat)
  have "mem_slice buf beyond (length pre + 16) (ke_len e) = ?xs"
    by (rule mem_slice_in [of _ "pre @ le_bytes (ke_wd e) @ le_bytes (ke_mask e) @ le_bytes (ke_cookie e) @ le_bytes (of_nat (ke_len e))" _ post])
      (simp_all add: assms(1) ke_bytes_def ke_len_def bytes_of_string_def)
  moreover have "length pre + 16 < length buf" using assms(1,3) len by simp
  ultimately show ?thesis
    using trim_pad [of "ke_name e" "ke_pad e"] assms(2) by (simp add: raw_name_def start n ke_ok_def Let_def)
qed

lemma events_loop_decodes:
  assumes "buf = pre @ concat (map ke_bytes es) @ stale" "n = length pre + length (concat (map ke_bytes es))" "16 \<le> n" "n < 2 ^ 32"
    "\<forall>e\<in>set es. ke_ok e" "length es < fuel"
  shows "events_loop missing takes buf beyond n fuel (of_nat (length pre)) s = Ok (handle_all missing takes es s)"
  using assms
proof (induction es arbitrary: pre fuel s)
  case Nil
  then obtain m where "fuel = Suc m" by (cases fuel) auto
  moreover have "\<not> (of_nat n :: 32 word) \<le> of_nat (n - 16)"
    using Nil.prems unat_of_nat32 [of n] unat_of_nat32 [of "n - 16"]
    by (simp add: word_le_nat_alt del: of_nat_diff)
  ultimately show ?case using Nil.prems by (simp add: SizeofInotifyEvent_def)
next
  case (Cons e es)
  then obtain m where fuel: "fuel = Suc m" by (cases fuel) auto
  let ?post = "concat (map ke_bytes es) @ stale"
  have buf: "buf = pre @ ke_bytes e @ ?post" using Cons.prems(1) by simp
  have len: "length (ke_bytes e) = 16 + ke_len e" by (simp add: ke_bytes_def ke_len_def bytes_of_string_def)
  then have bound: "length pre + (16 + ke_len e) \<le> n" using Cons.prems(2) by simp
  then have un: "unat (of_nat (length pre) :: 32 word) = length pre" "unat (of_nat (n - 16) :: 32 word) = n - 16"
    "unat (of_nat (ke_len e) :: 32 word) = ke_len e"
    using Cons.prems(4) by (simp_all add: unat_of_nat32 del: of_nat_diff)
  have le: "(of_nat (length pre) :: 32 word) \<le> of_nat (n - SizeofInotifyEvent)"
    using bound un by (simp add: word_le_nat_alt SizeofInotifyEvent_def del: of_nat_diff)
  have pos: "0 < (of_nat (ke_len e) :: 32 word) \<longleftrightarrow> ke_len e \<noteq> 0" using un(3) by (simp add: word_less_nat_alt)
  have name: "(if 0 < (of_nat (ke_len e) :: 32 word)
      then res_bind (raw_name buf beyond (of_nat (length pre)) (of_nat (ke_len e))) (\<lambda>f. Ok (Some f)) else Ok None) =
      (Ok (if ke_len e = 0 then None else Some (ke_name e)) :: (fs_error, string option) res)"
    using raw_name_bytes [OF buf] Cons.prems(4,5) bound len by (simp add: pos)
  have step: "(of_nat (length pre) :: 32 word) + (of_nat SizeofInotifyEvent + of_nat (ke_len e)) = of_nat (length (pre @ ke_bytes e))"
    by (simp add: len SizeofInotifyEvent_def)
  have IH: "events_loop missing takes buf beyond n m (of_nat (length (pre @ ke_bytes e))) s' = Ok (handle_all missing takes es s')" for s'
    by (rule Cons.IH) (use Cons.prems fuel in simp_all)
  show ?case
    unfolding fuel events_loop.simps(2) raw_event_bytes [OF buf] un(1) res_bind_simps InotifyEvent.select_convs name step IH
    using le by (simp del: of_nat_diff split: prod.split bool.split)
qed

text \<open>The items a receiver that takes everything is given, as a function of the events alone.\<close>

definition event_name :: "(int \<rightharpoonup> string) \<Rightarrow> kernel_event \<Rightarrow> string" where
  "event_name paths e =
     (case paths (sint (ke_wd e)) of None \<Rightarrow> [] | Some dir \<Rightarrow> dir) @ (if ke_len e = 0 then [] else ''/'' @ ke_name e)"

fun reported :: "(string \<Rightarrow> bool) \<Rightarrow> (int \<rightharpoonup> string) \<Rightarrow> kernel_event list \<Rightarrow> item list" where
  "reported missing paths [] = []"
| "reported missing paths (e # es) =
     (if ke_mask e AND IN_Q_OVERFLOW \<noteq> 0 then [ErrorItem ErrEventOverflow] else []) @
     (let event = newEvent (event_name paths e) (ke_mask e) in
      if ignoreLinux missing event (ke_mask e) then [] else [EventItem event]) @
     reported missing (if ke_mask e AND IN_DELETE_SELF = IN_DELETE_SELF then paths(sint (ke_wd e) := None) else paths) es"

lemma handle_event_takes:
  assumes "\<forall>k. takes k" "event_path wd msk w = (d, w1)"
  shows "\<exists>k'. handle_event missing takes wd msk file (w, out, k) =
    ((w1, out @ (if msk AND IN_Q_OVERFLOW \<noteq> 0 then [ErrorItem ErrEventOverflow] else []) @
      (let event = newEvent (case file of None \<Rightarrow> d | Some f \<Rightarrow> d @ ''/'' @ f) msk in
       if ignoreLinux missing event msk then [] else [EventItem event]), k'), True)"
  using assms
  by (cases "msk AND IN_Q_OVERFLOW = 0";
      cases "ignoreLinux missing (newEvent (case file of None \<Rightarrow> d | Some f \<Rightarrow> d @ ''/'' @ f) msk) msk")
    (simp_all add: handle_event_def send_def Let_def)

lemma length_ke_bytes: "length es \<le> length (concat (map ke_bytes es))"
  by (induction es) (auto simp: ke_bytes_def)

lemma handle_all_reported:
  assumes "\<forall>k. takes k"
  shows "\<exists>w' k'. handle_all missing takes es (w, out, k) = ((w', out @ reported missing (w_paths w) es, k'), True)"
proof (induction es arbitrary: w out k)
  case (Cons e es)
  let ?ps = "if ke_mask e AND IN_DELETE_SELF = IN_DELETE_SELF then (w_paths w)(sint (ke_wd e) := None) else w_paths w"
  have paths: "w_paths (snd (event_path (sint (ke_wd e)) (ke_mask e) w)) = ?ps"
    by (auto simp: event_path_def split: option.split)
  obtain d w1 where path: "event_path (sint (ke_wd e)) (ke_mask e) w = (d, w1)" by (cases "event_path (sint (ke_wd e)) (ke_mask e) w")
  let ?file = "if ke_len e = 0 then None else Some (ke_name e)"
  have name: "(case ?file of None \<Rightarrow> d | Some f \<Rightarrow> d @ ''/'' @ f) = event_name (w_paths w) e"
    using path by (auto simp: event_path_def event_name_def split: option.splits)
  obtain k1 where "handle_event missing takes (sint (ke_wd e)) (ke_mask e) ?file (w, out, k) =
    ((w1, out @ (if ke_mask e AND IN_Q_OVERFLOW \<noteq> 0 then [ErrorItem ErrEventOverflow] else []) @
      (let event = newEvent (event_name (w_paths w) e) (ke_mask e) in
       if ignoreLinux missing event (ke_mask e) then [] else [EventItem event]), k1), True)" (is "_ = ((w1, ?out, k1), True)")
    using handle_event_takes [OF assms path, of missing ?file out k] unfolding name by blast
  moreover obtain w2 k2 where "handle_all missing takes es (w1, ?out, k1) = ((w2, ?out @ reported missing ?ps es, k2), True)"
    using Cons.IH [of w1 ?out k1] paths path by auto
  ultimately show ?case unfolding handle_all.simps(2) reported.simps(2) by simp
qed auto

section \<open>The maps of the watcher\<close>

text \<open>The two maps are inverse to each other: every watch is found under its descriptor and every path is watched.\<close>

definition watch_sync :: "Watcher \<Rightarrow> bool" where
  "watch_sync w \<longleftrightarrow>
     (\<forall>name e. w_watches w name = Some e \<longrightarrow> 0 \<le> sint (wt_wd e) \<and> w_paths w (sint (wt_wd e)) = Some name) \<and>
     (\<forall>wd name. w_paths w wd = Some name \<longrightarrow> (\<exists>e. w_watches w name = Some e \<and> sint (wt_wd e) = wd))"

text \<open>One half of it: every path in the map is watched under the descriptor it is found by.\<close>

definition paths_watched :: "Watcher \<Rightarrow> bool" where
  "paths_watched w \<longleftrightarrow>
     (\<forall>name e. w_watches w name = Some e \<longrightarrow> 0 \<le> sint (wt_wd e)) \<and>
     (\<forall>wd name. w_paths w wd = Some name \<longrightarrow> (\<exists>e. w_watches w name = Some e \<and> sint (wt_wd e) = wd))"

text \<open>What is asked of \<open>inotify_add_watch(2)\<close>, which answers with the descriptor of the watch that the inode
  of the path already has, or else with a new one. A path that has an entry still leads to the inode that is watched, so that it gets its descriptor
  again. Without \<open>aliases\<close>, a path that has no entry leads to an inode that no other entry leads to (as
  another name of the same directory, or a symbolic link to it, would), so that its descriptor is not in use.\<close>

definition add_watch_ok :: "bool \<Rightarrow> (string \<Rightarrow> 32 word \<Rightarrow> errno + int) \<Rightarrow> string \<Rightarrow> Watcher \<Rightarrow> bool" where
  "add_watch_ok aliases add_watch name w \<longleftrightarrow>
     (\<forall>flags wd. add_watch name flags = Inr wd \<longrightarrow> 0 \<le> wd \<and> wd < 2 ^ 31 \<and>
        (case w_watches w name of None \<Rightarrow> aliases \<or> w_paths w wd = None | Some e \<Rightarrow> wd = sint (wt_wd e)))"

inductive watcher_step :: "bool \<Rightarrow> Watcher \<Rightarrow> Watcher \<Rightarrow> bool" for aliases where
  step_Add: "add_watch_ok aliases add_watch (filepath_Clean name) w \<Longrightarrow> watcher_Add add_watch name w = Ok w' \<Longrightarrow>
    watcher_step aliases w w'"
| step_Remove: "watcher_Remove rm_watch name w = (w', err) \<Longrightarrow> watcher_step aliases w w'"
| step_pass: "readEvents_pass kp w = Ok ((w', out, k), goes_on) \<Longrightarrow> watcher_step aliases w w'"
| step_Close: "watcher_step aliases w (watcher_Close w)"

inductive_cases watcher_stepE: "watcher_step aliases w w'"

lemma sint_word_of_int32: "0 \<le> k \<Longrightarrow> k < 2 ^ 31 \<Longrightarrow> sint (word_of_int k :: 32 word) = k"
  by (simp add: sint_uint unsigned_of_int take_bit_int_eq_self signed_take_bit_int_eq_self)

lemma sint_uint_nonneg:
  fixes x :: "32 word"
  assumes "0 \<le> sint x"
  shows "uint x = sint x"
proof -
  have "uint x = take_bit 32 (sint x)" 
    using uint_lt2p [of x] by (simp add: sint_uint take_bit_signed_take_bit take_bit_int_eq_self)
  moreover have "sint x < 2 ^ 31" using sint_less [of x] by simp
  ultimately show ?thesis using assms by (simp add: take_bit_int_eq_self)
qed

lemma watch_sync_done [simp]: "watch_sync (w\<lparr>w_done := b\<rparr>) = watch_sync w"
  by (simp add: watch_sync_def)

lemma paths_watched_done [simp]: "paths_watched (w\<lparr>w_done := b\<rparr>) = paths_watched w"
  by (simp add: paths_watched_def)

lemma sync_watch: "watch_sync w \<Longrightarrow> w_watches w n = Some e \<Longrightarrow> w_paths w (sint (wt_wd e)) = Some n \<and> 0 \<le> sint (wt_wd e)"
  unfolding watch_sync_def by blast

lemma sync_path: "watch_sync w \<Longrightarrow> w_paths w wd = Some n \<Longrightarrow> \<exists>e. w_watches w n = Some e \<and> sint (wt_wd e) = wd"
  unfolding watch_sync_def by blast

lemma sync_forget:
  assumes "watch_sync w" "w_watches w name = Some e"
  shows "watch_sync (w\<lparr>w_paths := (w_paths w)(sint (wt_wd e) := None), w_watches := (w_watches w)(name := None)\<rparr>)"
proof -
  note fwd = sync_watch [OF assms(1)] and bwd = sync_path [OF assms(1)]
  have "sint (wt_wd e') \<noteq> sint (wt_wd e)" if "w_watches w n = Some e'" "n \<noteq> name" for n e'
    using fwd [OF that(1)] fwd [OF assms(2)] that(2) by auto
  moreover have "n \<noteq> name" if "w_paths w wd = Some n" "wd \<noteq> sint (wt_wd e)" for n wd
    using bwd [OF that(1)] assms(2) that(2) by auto
  ultimately show ?thesis using fwd bwd by (simp add: watch_sync_def)
qed

lemma watched_path: "paths_watched w \<Longrightarrow> w_paths w wd = Some n \<Longrightarrow> \<exists>e. w_watches w n = Some e \<and> sint (wt_wd e) = wd"
  unfolding paths_watched_def by blast

lemma watched_nonneg: "paths_watched w \<Longrightarrow> w_watches w n = Some e \<Longrightarrow> 0 \<le> sint (wt_wd e)"
  unfolding paths_watched_def by blast

lemma watched_forget:
  assumes "paths_watched w" "w_watches w name = Some e"
  shows "paths_watched (w\<lparr>w_paths := (w_paths w)(sint (wt_wd e) := None), w_watches := (w_watches w)(name := None)\<rparr>)"
proof -
  have "n \<noteq> name" if "w_paths w wd = Some n" "wd \<noteq> sint (wt_wd e)" for n wd
    using watched_path [OF assms(1) that(1)] assms(2) that(2) by auto
  then show ?thesis using watched_path [OF assms(1)] watched_nonneg [OF assms(1)] by (simp add: paths_watched_def)
qed

lemma Add_cases:
  assumes "add_watch_ok aliases add_watch (filepath_Clean name) w" "watcher_Add add_watch name w = Ok w'"
  obtains flags wd where "0 \<le> wd" "sint (word_of_int wd :: 32 word) = wd"
    "case w_watches w (filepath_Clean name) of None \<Rightarrow> aliases \<or> w_paths w wd = None | Some e \<Rightarrow> wd = sint (wt_wd e)"
    "w' = (let w1 = w\<lparr>w_watches := (w_watches w)(filepath_Clean name \<mapsto> \<lparr>wt_wd = word_of_int wd, wt_flags = flags\<rparr>)\<rparr> in
      case w_watches w (filepath_Clean name) of None \<Rightarrow> w1\<lparr>w_paths := (w_paths w)(wd \<mapsto> filepath_Clean name)\<rparr> | Some _ \<Rightarrow> w1)"
proof -
  let ?n = "filepath_Clean name"
  obtain flags wd where "add_watch ?n flags = Inr wd" "0 \<le> wd" "wd < 2 ^ 31"
    "case w_watches w ?n of None \<Rightarrow> aliases \<or> w_paths w wd = None | Some e \<Rightarrow> wd = sint (wt_wd e)"
    "w' = (let w1 = w\<lparr>w_watches := (w_watches w)(?n \<mapsto> \<lparr>wt_wd = word_of_int wd, wt_flags = flags\<rparr>)\<rparr> in
      case w_watches w ?n of None \<Rightarrow> w1\<lparr>w_paths := (w_paths w)(wd \<mapsto> ?n)\<rparr> | Some _ \<Rightarrow> w1)"
    using assms by (auto simp: watcher_Add_def add_watch_ok_def Let_def split: if_splits sum.splits option.splits)
  then show thesis by (intro that [of wd flags]) (simp_all add: sint_word_of_int32)
qed

lemma Add_watched:
  assumes "paths_watched w" "add_watch_ok aliases add_watch (filepath_Clean name) w" "watcher_Add add_watch name w = Ok w'"
  shows "paths_watched w'"
proof -
  let ?n = "filepath_Clean name"
  obtain flags wd where wd: "0 \<le> wd" "sint (word_of_int wd :: 32 word) = wd"
    "case w_watches w ?n of None \<Rightarrow> aliases \<or> w_paths w wd = None | Some e \<Rightarrow> wd = sint (wt_wd e)"
    and w': "w' = (let w1 = w\<lparr>w_watches := (w_watches w)(?n \<mapsto> \<lparr>wt_wd = word_of_int wd, wt_flags = flags\<rparr>)\<rparr> in
      case w_watches w ?n of None \<Rightarrow> w1\<lparr>w_paths := (w_paths w)(wd \<mapsto> ?n)\<rparr> | Some _ \<Rightarrow> w1)"
    by (rule Add_cases [OF assms(2,3)])
  show ?thesis
  proof (cases "w_watches w ?n")
    case None
    have "w_paths w k \<noteq> Some ?n" for k using watched_path [OF assms(1), of k ?n] None by auto
    then show ?thesis using assms(1) wd None unfolding w' by (auto simp: paths_watched_def)
  next
    case (Some e)
    then show ?thesis
      using watched_path [OF assms(1)] watched_nonneg [OF assms(1)] wd unfolding w' by (fastforce simp: paths_watched_def)
  qed
qed

lemma Add_sync:
  assumes "watch_sync w" "add_watch_ok False add_watch (filepath_Clean name) w" "watcher_Add add_watch name w = Ok w'"
  shows "watch_sync w'"
proof -
  let ?n = "filepath_Clean name"
  obtain flags wd where wd: "0 \<le> wd" "sint (word_of_int wd :: 32 word) = wd"
    "case w_watches w ?n of None \<Rightarrow> False \<or> w_paths w wd = None | Some e \<Rightarrow> wd = sint (wt_wd e)"
    and w': "w' = (let w1 = w\<lparr>w_watches := (w_watches w)(?n \<mapsto> \<lparr>wt_wd = word_of_int wd, wt_flags = flags\<rparr>)\<rparr> in
      case w_watches w ?n of None \<Rightarrow> w1\<lparr>w_paths := (w_paths w)(wd \<mapsto> ?n)\<rparr> | Some _ \<Rightarrow> w1)"
    by (rule Add_cases [OF assms(2,3)])
  show ?thesis
  proof (cases "w_watches w ?n")
    case None
    then have free: "w_paths w wd = None" using wd(3) by simp
    have "w_paths w k \<noteq> Some ?n" for k using sync_path [OF assms(1), of k ?n] None by auto
    then show ?thesis using assms(1) wd free None unfolding w' by (auto simp: watch_sync_def)
  next
    case (Some e)
    then show ?thesis
      using sync_watch [OF assms(1)] sync_path [OF assms(1)] wd unfolding w' by (fastforce simp: watch_sync_def)
  qed
qed

lemma Remove_watched: "paths_watched w \<Longrightarrow> paths_watched (fst (watcher_Remove rm_watch name w))"
  using watched_forget [of w "filepath_Clean name"] sint_uint_nonneg watched_nonneg [of w "filepath_Clean name"]
  by (auto simp: watcher_Remove_def Let_def split: option.splits)

lemma path_watched: "paths_watched w \<Longrightarrow> paths_watched (snd (event_path wd msk w))"
proof (cases "w_paths w wd")
  case (Some n)
  moreover assume w: "paths_watched w"
  ultimately obtain e where "w_watches w n = Some e" "sint (wt_wd e) = wd" using watched_path [OF w] by blast
  then show ?thesis using watched_forget [OF w, of n e] w Some by (simp add: event_path_def)
qed (simp add: event_path_def)

lemma Remove_sync: "watch_sync w \<Longrightarrow> watch_sync (fst (watcher_Remove rm_watch name w))"
  using sync_forget [of w "filepath_Clean name"] sint_uint_nonneg
  by (auto simp: watcher_Remove_def Let_def watch_sync_def split: option.splits)

lemma path_sync: "watch_sync w \<Longrightarrow> watch_sync (snd (event_path wd msk w))"
proof (cases "w_paths w wd")
  case (Some n)
  moreover assume w: "watch_sync w"
  ultimately obtain e where "w_watches w n = Some e" "sint (wt_wd e) = wd" using sync_path [OF w] by blast
  then show ?thesis using sync_forget [OF w, of n e] w Some by (simp add: event_path_def)
qed (simp add: event_path_def)

text \<open>What a pass keeps: any property of the watcher that neither the closing of \<open>done\<close> nor the lookup of an
  event's path can break.\<close>

locale pass_invariant =
  fixes P :: "Watcher \<Rightarrow> bool"
  assumes keeps_done: "P w \<Longrightarrow> P (w\<lparr>w_done := True\<rparr>)"
    and keeps_path: "P w \<Longrightarrow> P (snd (event_path wd msk w))"
begin

lemma handle_event_keeps:
  assumes "P (fst s)"
  shows "P (fst (fst (handle_event missing takes wd msk file s)))"
proof -
  obtain w out k where s: "s = (w, out, k)" by (cases s)
  obtain d w1 where w1: "event_path wd msk w = (d, w1)" by (cases "event_path wd msk w")
  then have "P w1" "P (w1\<lparr>w_done := True\<rparr>)" "P (w\<lparr>w_done := True\<rparr>)"
    using keeps_path [of w wd msk] keeps_done assms by (auto simp: s)
  then show ?thesis using w1 by (simp add: s handle_event_def send_def Let_def)
qed

lemma events_loop_keeps:
  assumes "P (fst s)" "events_loop missing takes buf beyond n fuel offset s = Ok (s', b)"
  shows "P (fst s')"
  using assms
proof (induction fuel arbitrary: offset s)
  case (Suc fuel)
  show ?case
  proof (cases "offset \<le> of_nat (n - SizeofInotifyEvent)")
    case True
    then obtain raw :: InotifyEvent and fl where ev: "(case handle_event missing takes (raw_Wd raw) (raw_Mask raw) fl s of
           (s, False) \<Rightarrow> Ok (s, False)
         | (s, True) \<Rightarrow> events_loop missing takes buf beyond n fuel (offset + (of_nat SizeofInotifyEvent + raw_Len raw)) s) =
        Ok (s', b)"
      using Suc.prems(2) by (simp only: events_loop.simps if_True res_bind_eq_Ok) (elim exE conjE, rule that, assumption)
    then show ?thesis
      using Suc.IH handle_event_keeps [OF Suc.prems(1), of missing takes "raw_Wd raw" "raw_Mask raw" fl]
      by (auto split: prod.splits bool.splits)
  qed (use Suc.prems in auto)
qed auto

lemma pass_keeps:
  assumes "P w" "readEvents_pass kp w = Ok ((w', out, k), b)"
  shows "P w'"
  using assms events_loop_keeps [where s = "(w, [], 0)"] keeps_done [OF assms(1)]
  by (auto simp: readEvents_pass_def send_def Let_def watcher_Close_def isClosed_def simp del: events_loop.simps
      split: if_splits res.splits sum.splits)

end

interpretation sync: pass_invariant watch_sync
  by unfold_locales (simp_all add: path_sync)

interpretation watched: pass_invariant paths_watched
  by unfold_locales (simp_all add: path_watched)

interpretation frame: pass_invariant "\<lambda>w. w_fd w = fd \<and> w_poller w = po \<and> w_exited w = ex"
  by unfold_locales (auto simp: event_path_def split: option.split)

lemma step_sync: "watcher_step False w w' \<Longrightarrow> watch_sync w \<Longrightarrow> watch_sync w'"
  by (erule watcher_step.cases)
    (auto dest: Add_sync sync.pass_keeps simp: watcher_Close_def, metis Remove_sync fst_conv)

lemma step_watched: "watcher_step aliases w w' \<Longrightarrow> paths_watched w \<Longrightarrow> paths_watched w'"
  by (erule watcher_step.cases)
    (auto dest: Add_watched watched.pass_keeps simp: watcher_Close_def, metis Remove_watched fst_conv)

lemma pass_reported:
  assumes "es \<noteq> []" "\<forall>e\<in>set es. ke_ok e" "kp_read kp = Inr (concat (map ke_bytes es))"
    and "length (concat (map ke_bytes es)) \<le> 16 * 4096"
    and "poller_wait (kp_clear kp) (w_poller w) (kp_epoll kp) = Ok True" "\<not> w_done w" "\<not> kp_closed kp" "\<forall>k. kp_takes kp k"
  shows "\<exists>w' k. readEvents_pass kp w = Ok ((w', reported (kp_missing kp) (w_paths w) es, k), True)"
proof -
  let ?bs = "concat (map ke_bytes es)"
  have "length (ke_bytes (hd es)) \<le> length ?bs" using assms(1) by (cases es) auto
  moreover have "16 \<le> length (ke_bytes e)" "0 < length (ke_bytes e)" for e by (simp_all add: ke_bytes_def)
  ultimately have n: "16 \<le> length ?bs" using le_trans by blast
  have "events_loop (kp_missing kp) (kp_takes kp) (?bs @ kp_stale kp) (kp_beyond kp) (length ?bs) (Suc (length ?bs)) (of_nat (length ([] :: bytes))) (w, [], 0) =
    Ok (handle_all (kp_missing kp) (kp_takes kp) es (w, [], 0))"
    using n assms(2,4) length_ke_bytes [of es] by (intro events_loop_decodes [where stale = "kp_stale kp"]) (simp_all add: less_Suc_eq_le)
  then show ?thesis
    using handle_all_reported [OF assms(8), of "kp_missing kp" es w "[]" 0] n assms(3,5-7)
    by (auto simp: readEvents_pass_def isClosed_def SizeofInotifyEvent_def simp del: events_loop.simps)
qed

section \<open>The properties of the watcher\<close>

definition create_event :: "32 word \<Rightarrow> string \<Rightarrow> nat \<Rightarrow> kernel_event" where
  "create_event wd name pad = \<lparr>ke_wd = wd, ke_mask = IN_CREATE, ke_cookie = 0, ke_name = name, ke_pad = pad\<rparr>"

definition delete_self_event :: "32 word \<Rightarrow> kernel_event" where
  "delete_self_event wd = \<lparr>ke_wd = wd, ke_mask = IN_DELETE_SELF, ke_cookie = 0, ke_name = [], ke_pad = 0\<rparr>"

text \<open>A watcher whose poller reports the inotify descriptor, and a pass in which the kernel delivers \<open>es\<close>.\<close>

definition sample_boot :: boot where
  "sample_boot = \<lparr>su_inotify = Inr 3, su_epoll = Inr 4, su_pipe = Inr (5, 6), su_ctl_fd = None, su_ctl_pipe = None\<rparr>"

definition sample_watcher :: Watcher where
  "sample_watcher = \<lparr>w_fd = 3, w_poller = \<lparr>po_fd = 3, po_epfd = 4, po_pipe0 = 5, po_pipe1 = 6\<rparr>,
     w_watches = Map.empty, w_paths = Map.empty, w_done = False, w_exited = False\<rparr>"

definition sample_pass :: "kernel_event list \<Rightarrow> kernel_pass" where
  "sample_pass es = \<lparr>kp_epoll = [Inr [(3, EPOLLIN)]], kp_clear = None, kp_closed = False,
     kp_read = Inr (concat (map ke_bytes es)), kp_stale = [], kp_beyond = (\<lambda>_. 0), kp_missing = (\<lambda>_. False), kp_takes = (\<lambda>_. True)\<rparr>"

lemma sample_NewWatcher: "NewWatcher sample_boot [] = ([5, 6, 4, 3], Inr sample_watcher)"
  by (simp add: NewWatcher_def sample_boot_def newFdPoller_def emptyPoller_def sample_watcher_def)

lemma sample_ready: "w_poller w = w_poller sample_watcher \<Longrightarrow>
  poller_wait (kp_clear (sample_pass es)) (w_poller w) (kp_epoll (sample_pass es)) = Ok True"
  by (simp add: sample_pass_def sample_watcher_def EPOLLIN_def EPOLLHUP_def EPOLLERR_def)

text \<open>C38: when the inotify descriptor is ready and the kernel fills the buffer with events, the pass of
  \<open>readEvents\<close> over the raw bytes ends without a panic and the receiver is given exactly the items the events
  stand for, in order: an overflow error for a queue overflow, and for every event that is not ignored its
  operation with the path of its watch joined to the file name, whatever the buffer holds after them.\<close>

theorem inotify_events_reported:
  assumes "es \<noteq> []" "\<forall>e\<in>set es. ke_ok e" "kp_read kp = Inr (concat (map ke_bytes es))"
    and "length (concat (map ke_bytes es)) \<le> 16 * 4096"
    and "poller_wait (kp_clear kp) (w_poller w) (kp_epoll kp) = Ok True" "\<not> w_done w" "\<not> kp_closed kp" "\<forall>k. kp_takes kp k"
  shows "\<exists>w' k. readEvents_pass kp w = Ok ((w', reported (kp_missing kp) (w_paths w) es, k), True)"
  using assms by (rule pass_reported)

theorem inotify_events_reported_witness:
  "\<exists>w' k. readEvents_pass (sample_pass [create_event 1 ''kubelet.sock'' 4, delete_self_event 1])
     (sample_watcher\<lparr>w_paths := [1 \<mapsto> ''/d'']\<rparr>) =
     Ok ((w', [EventItem \<lparr>ev_Name = ''/d/kubelet.sock'', ev_Op = Op_Create\<rparr>, EventItem \<lparr>ev_Name = ''/d'', ev_Op = Op_Remove\<rparr>], k), True)"
proof -
  let ?es = "[create_event 1 ''kubelet.sock'' 4, delete_self_event 1]"
  have "reported (\<lambda>_. False) [1 \<mapsto> ''/d''] ?es =
    [EventItem \<lparr>ev_Name = ''/d/kubelet.sock'', ev_Op = Op_Create\<rparr>, EventItem \<lparr>ev_Name = ''/d'', ev_Op = Op_Remove\<rparr>]"
    by code_simp
  moreover have "\<forall>e\<in>set ?es. ke_ok e"
    by (simp add: ke_ok_def ke_len_def create_event_def delete_self_event_def PathMax_def)
  ultimately show ?thesis
    using inotify_events_reported [of ?es "sample_pass ?es" "sample_watcher\<lparr>w_paths := [1 \<mapsto> ''/d'']\<rparr>"]
      sample_ready [of "sample_watcher\<lparr>w_paths := [1 \<mapsto> ''/d'']\<rparr>" ?es]
    by (simp add: sample_pass_def sample_watcher_def ke_bytes_def bytes_of_string_def create_event_def delete_self_event_def)
qed

text \<open>C39: as long as a path that is added again still leads to the inode it led to, every path in the map of a
  watcher is watched under the descriptor it is found by, after any sequence of \<open>Add\<close>, \<open>Remove\<close> and \<open>Close\<close> calls
  and passes of the reading goroutine over arbitrary input: no path is kept for a watch that is gone. If moreover no
  two of the added paths lead to the same inode (the kernel gives them the same descriptor), the two maps are inverse to each other: every
  watched path is also found under the descriptor its events carry.\<close>

theorem watch_maps_in_sync:
  assumes "NewWatcher su fds = (fds', Inr w0)" "(watcher_step aliases)\<^sup>*\<^sup>* w0 w"
  shows "(\<forall>wd name. w_paths w wd = Some name \<longrightarrow> (\<exists>e. w_watches w name = Some e \<and> sint (wt_wd e) = wd)) \<and>
    (\<not> aliases \<longrightarrow> (\<forall>name e. w_watches w name = Some e \<longrightarrow> w_paths w (sint (wt_wd e)) = Some name))"
proof -
  have w0: "watch_sync w0" "paths_watched w0" using assms(1)
    by (auto simp: NewWatcher_def watch_sync_def paths_watched_def split: sum.splits prod.splits)
  from assms(2) w0(2) have "paths_watched w" by induction (auto intro: step_watched)
  moreover have "watch_sync w" if "\<not> aliases"
    using assms(2) w0(1) that by induction (auto intro: step_sync)
  ultimately show ?thesis using sync_watch watched_path by blast
qed

theorem watch_maps_in_sync_witness:
  "\<exists>w e. watcher_Add (\<lambda>_ _. Inr 1) ''/d/'' sample_watcher = Ok w \<and> w_watches w ''/d'' = Some e \<and>
     w_paths w (sint (wt_wd e)) = Some ''/d'' \<and> wt_wd e = 1"
proof -
  have clean: "filepath_Clean ''/d/'' = ''/d''" by code_simp
  obtain w e where w: "watcher_Add (\<lambda>_ _. Inr 1) ''/d/'' sample_watcher = Ok w" "w_watches w ''/d'' = Some e" "wt_wd e = 1"
    by (simp add: watcher_Add_def sample_watcher_def isClosed_def clean Let_def)
  have "add_watch_ok False (\<lambda>_ _. Inr 1) (filepath_Clean ''/d/'') sample_watcher" by (simp add: add_watch_ok_def sample_watcher_def)
  then have "watcher_step False sample_watcher w" using w(1) by (rule step_Add)
  then show ?thesis using watch_maps_in_sync [OF sample_NewWatcher, of False w] w by blast
qed

text \<open>Two paths to one inode share its descriptor: the events of both carry the path added last, and removing the
  path added first, which removes the watch of the inode, leaves the other in \<open>watches\<close> without an entry in \<open>paths\<close>.\<close>

theorem aliased_path_unwatched:
  "\<exists>w1 w2 w3 e. watcher_Add (\<lambda>_ _. Inr 1) ''/a'' sample_watcher = Ok w1 \<and> watcher_Add (\<lambda>_ _. Inr 1) ''/b'' w1 = Ok w2 \<and>
     w_paths w2 = [1 \<mapsto> ''/b''] \<and> watcher_Remove (\<lambda>_. None) ''/a'' w2 = (w3, None) \<and>
     w_watches w3 ''/b'' = Some e \<and> w_paths w3 = Map.empty"
proof -
  have clean: "filepath_Clean ''/a'' = ''/a''" "filepath_Clean ''/b'' = ''/b''" by code_simp+
  show ?thesis
    by (simp add: watcher_Add_def watcher_Remove_def sample_watcher_def isClosed_def clean Let_def fun_eq_iff)
qed

text \<open>A path that is removed and made again and then added again before the removal has been read keeps a
  stale entry: the new descriptor is not entered in \<open>paths\<close>, the pending removal drops the watch, and the
  events of the new directory are delivered without its path.\<close>

theorem readded_path_loses_events:
  "\<exists>w1 w2 w3 k. watcher_Add (\<lambda>_ _. Inr 1) ''/d'' sample_watcher = Ok w1 \<and> watcher_Add (\<lambda>_ _. Inr 2) ''/d'' w1 = Ok w2 \<and>
     readEvents_pass (sample_pass [delete_self_event 1, create_event 2 ''f'' 15]) w2 =
       Ok ((w3, [EventItem \<lparr>ev_Name = ''/d'', ev_Op = Op_Remove\<rparr>, EventItem \<lparr>ev_Name = ''/f'', ev_Op = Op_Create\<rparr>], k), True)"
proof -
  let ?es = "[delete_self_event 1, create_event 2 ''f'' 15]"
  have clean: "filepath_Clean ''/d'' = ''/d''" by code_simp
  obtain w1 w2 where w: "watcher_Add (\<lambda>_ _. Inr 1) ''/d'' sample_watcher = Ok w1" "watcher_Add (\<lambda>_ _. Inr 2) ''/d'' w1 = Ok w2"
    "w_paths w2 = [1 \<mapsto> ''/d'']" "w_poller w2 = w_poller sample_watcher" "\<not> w_done w2"
    by (simp add: watcher_Add_def sample_watcher_def isClosed_def clean Let_def)
  have "reported (\<lambda>_. False) [1 \<mapsto> ''/d''] ?es =
    [EventItem \<lparr>ev_Name = ''/d'', ev_Op = Op_Remove\<rparr>, EventItem \<lparr>ev_Name = ''/f'', ev_Op = Op_Create\<rparr>]"
    by code_simp
  moreover have "\<forall>e\<in>set ?es. ke_ok e"
    by (simp add: ke_ok_def ke_len_def create_event_def delete_self_event_def PathMax_def)
  ultimately show ?thesis
    using pass_reported [of ?es "sample_pass ?es" w2] sample_ready [of w2 ?es] w
    by (simp add: sample_pass_def ke_bytes_def bytes_of_string_def create_event_def delete_self_event_def)
qed

definition boot_fds :: "boot \<Rightarrow> int list" where
  "boot_fds su = (case su_inotify su of Inl _ \<Rightarrow> [] | Inr fd \<Rightarrow> [fd]) @ (case su_epoll su of Inl _ \<Rightarrow> [] | Inr fd \<Rightarrow> [fd]) @
     (case su_pipe su of Inl _ \<Rightarrow> [] | Inr (r, w) \<Rightarrow> [r, w])"

definition fresh_fds :: "boot \<Rightarrow> int list \<Rightarrow> bool" where
  "fresh_fds su fds \<longleftrightarrow> distinct (boot_fds su) \<and> set (boot_fds su) \<inter> set fds = {} \<and> - 1 \<notin> set (boot_fds su)"

text \<open>Whether \<open>NewWatcher\<close> gets as far as \<open>Pipe2\<close>, and this call fails.\<close>

definition pipe_fails :: "boot \<Rightarrow> bool" where
  "pipe_fails su \<longleftrightarrow> \<not> isl (su_inotify su) \<and> \<not> isl (su_epoll su) \<and> isl (su_pipe su)"

lemma close_all:
  assumes "fd \<notin> set fds" "epfd \<notin> set fds" "r \<notin> set fds" "wr \<notin> set fds" "distinct [fd, epfd, r, wr]" "- 1 \<notin> set [epfd, r, wr]"
  shows "unix_Close fd (poller_close \<lparr>po_fd = fd, po_epfd = epfd, po_pipe0 = r, po_pipe1 = wr\<rparr> (r # wr # epfd # fd # fds)) = fds"
proof -
  have "epfd \<noteq> - 1" "r \<noteq> - 1" "wr \<noteq> - 1" using assms(6) by auto
  then have "poller_close \<lparr>po_fd = fd, po_epfd = epfd, po_pipe0 = r, po_pipe1 = wr\<rparr> (r # wr # epfd # fd # fds) = fd # fds"
    using assms(1-5) by (auto simp: poller_close_def unix_Close_def)
  then show ?thesis using assms(1) by (simp add: unix_Close_def)
qed

lemma close_failed_pipe:
  assumes "fd \<notin> set fds" "epfd \<notin> set fds" "epfd \<noteq> - 1"
  shows "unix_Close fd (poller_close \<lparr>po_fd = fd, po_epfd = epfd, po_pipe0 = 0, po_pipe1 = 0\<rparr> (epfd # fd # fds)) = removeAll 0 fds"
proof -
  have "removeAll fd (removeAll epfd (removeAll 0 (removeAll 0 (epfd # fd # fds)))) = removeAll 0 fds"
    using assms(1,2) by (auto simp: removeAll_filter_not_eq intro: filter_cong)
  with assms(3) show ?thesis by (simp only: poller_close_def unix_Close_def Let_def fdPoller.simps) simp
qed

lemma new_closes:
  assumes "fresh_fds su fds"
  shows "case NewWatcher su fds of (fds', Inl e) \<Rightarrow> fds' = (if pipe_fails su then removeAll 0 fds else fds)
    | (fds', Inr w) \<Rightarrow> \<not> w_exited w \<and> unix_Close (w_fd w) (poller_close (w_poller w) fds') = fds"
proof (cases "su_inotify su")
  case (Inr fd)
  note defs = NewWatcher_def newFdPoller_def Let_def emptyPoller_def poller_close_def unix_Close_def fresh_fds_def boot_fds_def pipe_fails_def
  show ?thesis
  proof (cases "su_epoll su")
    case (Inl e)
    with Inr show ?thesis using assms by (simp add: defs)
  next
    case (Inr epfd)
    note fd = \<open>su_inotify su = Inr fd\<close> \<open>su_epoll su = Inr epfd\<close>
    show ?thesis
    proof (cases "su_pipe su")
      case (Inl e)
      have "unix_Close fd (poller_close \<lparr>po_fd = fd, po_epfd = epfd, po_pipe0 = 0, po_pipe1 = 0\<rparr> (epfd # fd # fds)) = removeAll 0 fds"
        using assms unfolding fresh_fds_def boot_fds_def fd by (intro close_failed_pipe) auto
      with fd Inl show ?thesis by (simp add: NewWatcher_def newFdPoller_def emptyPoller_def pipe_fails_def Let_def)
    next
      case (Inr p)
      then obtain r wr where p: "su_pipe su = Inr (r, wr)" by (cases p) simp
      have "unix_Close fd (poller_close \<lparr>po_fd = fd, po_epfd = epfd, po_pipe0 = r, po_pipe1 = wr\<rparr> (r # wr # epfd # fd # fds)) = fds"
        using assms unfolding fresh_fds_def boot_fds_def fd p by (intro close_all) auto
      with fd p show ?thesis by (simp add: NewWatcher_def newFdPoller_def emptyPoller_def pipe_fails_def Let_def split: option.split)
    qed
  qed
qed (simp add: NewWatcher_def pipe_fails_def)

lemma readEvents_fds:
  assumes "readEvents kps w fds' = Ok (w', fds'', out)" "\<not> w_exited w" "unix_Close (w_fd w) (poller_close (w_poller w) fds') = fds"
  shows "if w_exited w' then fds'' = fds else fds'' = fds' \<and> unix_Close (w_fd w') (poller_close (w_poller w') fds'') = fds"
  using assms
proof (induction kps arbitrary: w out)
  case (Cons kp kps)
  then obtain w1 out1 k b where p: "readEvents_pass kp w = Ok ((w1, out1, k), b)" by auto
  have f: "w_fd w1 = w_fd w \<and> w_poller w1 = w_poller w \<and> w_exited w1 = False"
    using frame.pass_keeps [OF _ p] Cons.prems by simp
  show ?case
  proof (cases b)
    case True
    then obtain out2 where "readEvents kps w1 fds' = Ok (w', fds'', out2)" using Cons.prems(1) p by auto
    then show ?thesis using Cons.IH [of w1 out2] Cons.prems f by simp
  next
    case False
    then show ?thesis using Cons.prems p f by (auto simp: readEvents_exit_def)
  qed
qed auto

lemma close_exits:
  "readEvents [kp] (watcher_Close w) fds =
     Ok (w\<lparr>w_done := True, w_exited := True\<rparr>, unix_Close (w_fd w) (poller_close (w_poller w) fds), [])"
  by (simp add: watcher_Close_def isClosed_def readEvents_pass_def readEvents_exit_def del: res_bind_eq_Ok)

text \<open>C40: a failed \<open>NewWatcher\<close> closes every descriptor it has opened and no other, except when \<open>Pipe2\<close> is the call that fails:
  then it also closes descriptor 0, whatever the process has open there. The descriptors of a watcher are closed, and no
  others, when its goroutine returns, which it does at the latest in the pass after \<open>Close\<close>.\<close>

theorem watcher_descriptors:
  assumes "fresh_fds su fds"
  shows "case NewWatcher su fds of
      (fds', Inl _) \<Rightarrow> fds' = (if pipe_fails su then removeAll 0 fds else fds)
    | (fds', Inr w) \<Rightarrow> (\<forall>kps w' fds'' out. readEvents kps w fds' = Ok (w', fds'', out) \<longrightarrow>
        (if w_exited w' then fds'' = fds
         else fds'' = fds' \<and> (\<forall>kp. readEvents [kp] (watcher_Close w') fds'' = Ok (w'\<lparr>w_done := True, w_exited := True\<rparr>, fds, []))))"
proof (cases "NewWatcher su fds")
  case (Pair fds' r)
  show ?thesis
  proof (cases r)
    case (Inl e)
    then show ?thesis using Pair new_closes [OF assms] by simp
  next
    case (Inr w)
    then have w: "\<not> w_exited w" "unix_Close (w_fd w) (poller_close (w_poller w) fds') = fds" using new_closes [OF assms] Pair by auto
    have "if w_exited w' then fds'' = fds
         else fds'' = fds' \<and> (\<forall>kp. readEvents [kp] (watcher_Close w') fds'' = Ok (w'\<lparr>w_done := True, w_exited := True\<rparr>, fds, []))"
      if "readEvents kps w fds' = Ok (w', fds'', out)" for kps w' fds'' out
      using readEvents_fds [OF that w] unfolding close_exits by (auto split: if_splits)
    then show ?thesis unfolding Pair Inr prod.case sum.case by blast
  qed
qed

theorem watcher_descriptors_witness:
  "fresh_fds sample_boot [] \<and> NewWatcher sample_boot [] = ([5, 6, 4, 3], Inr sample_watcher) \<and>
   readEvents [sample_pass []] (watcher_Close sample_watcher) [5, 6, 4, 3] = Ok (sample_watcher\<lparr>w_done := True, w_exited := True\<rparr>, [], [])"
proof -
  have fresh: "fresh_fds sample_boot []" by (simp add: fresh_fds_def boot_fds_def sample_boot_def)
  have "readEvents [] sample_watcher [5, 6, 4, 3] = Ok (sample_watcher, [5, 6, 4, 3], [])" "\<not> w_exited sample_watcher"
    by (simp_all add: sample_watcher_def)
  then show ?thesis
    using watcher_descriptors [OF fresh] fresh unfolding sample_NewWatcher prod.case sum.case by metis
qed

end
