(* ===== verification/Http2Pipe.thy ===== *)
theory Http2Pipe
  imports Prelude
begin

text \<open>
  The buffered pipe through which the body of an HTTP/2 stream flows: \<open>databuffer.go\<close> and \<open>pipe.go\<close> of
  \<open>golang.org/x/net/http2\<close>. The pipe uses its buffer through the interface \<open>pipeBuffer\<close>; what it relies on
  is the locale \<open>pipe_buffer\<close>, which the chunked \<open>dataBuffer\<close> interprets.
\<close>

section \<open>The chunked buffer\<close>

datatype pipe_error = errReadEmpty | errClosedPipeWrite | StreamErr string

type_synonym 'a pires = "(pipe_error, 'a) res"

definition dataChunkSizeClasses :: "nat list" where
  "dataChunkSizeClasses = [1024, 2048, 4096, 8192, 16384]"

text \<open>The search for a size class stops at the last one. The pool of a class holds slices of that size with
  any contents (what is put back was checked to have it); \<open>pool\<close> says what they hold.\<close>

fun chunk_class :: "int \<Rightarrow> nat list \<Rightarrow> nat" where
  "chunk_class sz [] = 0"
| "chunk_class sz [c] = c"
| "chunk_class sz (c # cs) = (if sz \<le> int c then c else chunk_class sz cs)"

definition getDataBufferChunk :: "(nat \<Rightarrow> nat \<Rightarrow> byte) \<Rightarrow> int \<Rightarrow> bytes" where
  "getDataBufferChunk pool sz = (let c = chunk_class sz dataChunkSizeClasses in map (pool c) [0..<c])"

definition putDataBufferChunk :: "bytes \<Rightarrow> unit pires" where
  "putDataBufferChunk p = (if length p \<in> set dataChunkSizeClasses then Ok () else Panic)"

record dataBuffer =
  db_chunks :: "bytes list"
  db_r :: int
  db_w :: int
  db_size :: int
  db_expected :: int

definition db_new :: "int \<Rightarrow> dataBuffer" where
  "db_new expected = \<lparr>db_chunks = [], db_r = 0, db_w = 0, db_size = 0, db_expected = expected\<rparr>"

definition bytesFromFirstChunk :: "dataBuffer \<Rightarrow> bytes pires" where
  "bytesFromFirstChunk b =
     (if length (db_chunks b) = 1
      then res_bind (index (db_chunks b) 0) (\<lambda>c. gslice c (db_r b) (db_w b))
      else res_bind (index (db_chunks b) 0) (\<lambda>c. gslice_from c (db_r b)))"

text \<open>\<open>Read\<close> into a slice of length \<open>n\<close>: the loop over the chunks, and the bytes copied so far.\<close>

fun db_read_loop :: "nat \<Rightarrow> nat \<Rightarrow> bytes \<Rightarrow> dataBuffer \<Rightarrow> (dataBuffer \<times> bytes) pires" where
  "db_read_loop 0 n out b = Stuck"
| "db_read_loop (Suc fuel) n out b =
     (if n > 0 \<and> db_size b > 0 then
        res_bind (bytesFromFirstChunk b) (\<lambda>readFrom.
        let k = min n (length readFrom);
            b = b\<lparr>db_r := db_r b + int k, db_size := db_size b - int k\<rparr> in
        res_bind (index (db_chunks b) 0) (\<lambda>c0.
        if db_r b = int (length c0)
        then res_bind (putDataBufferChunk c0) (\<lambda>_.
          db_read_loop fuel (n - k) (out @ take k readFrom) (b\<lparr>db_chunks := tl (db_chunks b), db_r := 0\<rparr>))
        else db_read_loop fuel (n - k) (out @ take k readFrom) b))
      else Ok (b, out))"

definition db_Read :: "nat \<Rightarrow> dataBuffer \<Rightarrow> (dataBuffer \<times> bytes) pires" where
  "db_Read n b = (if db_size b = 0 then Err errReadEmpty else db_read_loop (Suc n) n [] b)"

definition db_Len :: "dataBuffer \<Rightarrow> int" where
  "db_Len b = db_size b"

definition lastChunkOrAlloc :: "(nat \<Rightarrow> nat \<Rightarrow> byte) \<Rightarrow> int \<Rightarrow> dataBuffer \<Rightarrow> dataBuffer" where
  "lastChunkOrAlloc pool want b =
     (if length (db_chunks b) \<noteq> 0 \<and> db_w b < int (length (last (db_chunks b))) then b
      else b\<lparr>db_chunks := db_chunks b @ [getDataBufferChunk pool want], db_w := 0\<rparr>)"

text \<open>\<open>Write\<close>: the chunk returned by \<open>lastChunkOrAlloc\<close> is the last one of the buffer, updated in place.\<close>

fun db_write_loop :: "(nat \<Rightarrow> nat \<Rightarrow> byte) \<Rightarrow> nat \<Rightarrow> bytes \<Rightarrow> dataBuffer \<Rightarrow> dataBuffer pires" where
  "db_write_loop pool 0 p b = Stuck"
| "db_write_loop pool (Suc fuel) p b =
     (if length p > 0 then
        let want = (if db_expected b > int (length p) then db_expected b else int (length p));
            b = lastChunkOrAlloc pool want b;
            chunk = last (db_chunks b) in
        res_bind (gslice_from chunk (db_w b)) (\<lambda>dst.
        let n = min (length dst) (length p);
            chunk' = take (nat (db_w b)) chunk @ take n p @ drop (nat (db_w b) + n) chunk in
        db_write_loop pool fuel (drop n p)
          (b\<lparr>db_chunks := butlast (db_chunks b) @ [chunk'], db_w := db_w b + int n,
             db_size := db_size b + int n, db_expected := int64 (db_expected b - int n)\<rparr>))
      else Ok b)"

definition db_Write :: "(nat \<Rightarrow> nat \<Rightarrow> byte) \<Rightarrow> bytes \<Rightarrow> dataBuffer \<Rightarrow> (dataBuffer \<times> nat) pires" where
  "db_Write pool p b = res_bind (db_write_loop pool (Suc (length p)) p b) (\<lambda>b. Ok (b, length p))"

section \<open>The buffer is a queue of bytes\<close>

definition db_content :: "dataBuffer \<Rightarrow> bytes" where
  "db_content b = (if db_chunks b = [] then []
     else drop (nat (db_r b)) (concat (butlast (db_chunks b)) @ take (nat (db_w b)) (last (db_chunks b))))"

definition db_inv :: "dataBuffer \<Rightarrow> bool" where
  "db_inv b \<longleftrightarrow> (\<forall>c\<in>set (db_chunks b). length c \<in> set dataChunkSizeClasses) \<and> 0 \<le> db_r b \<and>
     db_size b = int (length (db_content b)) \<and>
     (if db_chunks b = [] then db_r b = 0
      else db_r b < int (length (hd (db_chunks b))) \<and> 0 \<le> db_w b \<and> db_w b \<le> int (length (last (db_chunks b))) \<and>
        (length (db_chunks b) = 1 \<longrightarrow> db_r b \<le> db_w b))"

lemma db_new_content [simp]: "db_content (db_new n) = []" "db_inv (db_new n)"
  by (simp_all add: db_content_def db_new_def db_inv_def)

lemma bytesFromFirst:
  assumes "db_inv b" "db_content b \<noteq> []"
  obtains c cs f where "db_chunks b = c # cs" "bytesFromFirstChunk b = Ok f" "f \<noteq> []" "db_r b + int (length f) \<le> int (length c)"
    "cs = [] \<Longrightarrow> db_r b + int (length f) \<le> db_w b"
    "db_content b = f @ (if cs = [] then [] else concat (butlast cs) @ take (nat (db_w b)) (last cs))"
proof -
  obtain c cs where cs: "db_chunks b = c # cs" using assms(2) by (cases "db_chunks b") (auto simp: db_content_def)
  show thesis
  proof (cases "cs = []")
    case True
    let ?f = "take (nat (db_w b) - nat (db_r b)) (drop (nat (db_r b)) c)"
    have "bytesFromFirstChunk b = Ok ?f" "db_content b = ?f"
      using True cs assms(1) by (auto simp: bytesFromFirstChunk_def index_def gslice_def db_inv_def db_content_def drop_take nat_diff_distrib)
    with True cs assms show thesis by (intro that [of c cs ?f]) (auto simp: db_inv_def)
  next
    case False
    let ?f = "drop (nat (db_r b)) c"
    have "bytesFromFirstChunk b = Ok ?f"
      using False cs assms(1) by (simp add: bytesFromFirstChunk_def index_def gslice_def gslice_from_def db_inv_def nat_diff_distrib)
    moreover have "nat (db_r b) < length c" using cs assms(1) by (simp add: db_inv_def nat_less_iff)
    then have "db_content b = ?f @ concat (butlast cs) @ take (nat (db_w b)) (last cs)"
      using False cs by (simp add: db_content_def)
    ultimately show thesis using False cs assms(1) by (intro that [of c cs ?f]) (auto simp: db_inv_def)
  qed
qed

lemma classes_pos: "n \<in> set dataChunkSizeClasses \<Longrightarrow> 0 < n"
  by (auto simp: dataChunkSizeClasses_def)

lemma db_read_step:
  assumes "db_inv b" "db_content b \<noteq> []" "0 < n"
  obtains k f b' where "0 < k" "k \<le> n" "db_content b' = drop k (db_content b)" "db_inv b'" "k \<le> length (db_content b)"
    "\<And>fuel out. db_read_loop (Suc fuel) n out b = db_read_loop fuel (n - k) (out @ take k (db_content b)) b'"
proof -
  obtain c cs f where f: "db_chunks b = c # cs" "bytesFromFirstChunk b = Ok f" "f \<noteq> []" "db_r b + int (length f) \<le> int (length c)"
    "cs = [] \<Longrightarrow> db_r b + int (length f) \<le> db_w b"
    "db_content b = f @ (if cs = [] then [] else concat (butlast cs) @ take (nat (db_w b)) (last cs))"
    using bytesFromFirst [OF assms(1,2)] by metis
  let ?k = "min n (length f)"
  let ?b1 = "b\<lparr>db_r := db_r b + int ?k, db_size := db_size b - int ?k\<rparr>"
  let ?b2 = "?b1\<lparr>db_chunks := cs, db_r := 0\<rparr>"
  have size: "db_size b = int (length (db_content b))" using assms(1) by (simp add: db_inv_def)
  then have pos: "db_size b > 0" using assms(2) by simp
  have k0: "0 < ?k" "take ?k f = take ?k (db_content b)" "?k \<le> length (db_content b)" using assms(3) f(3,6) by auto
  have put: "putDataBufferChunk c = Ok ()" using assms(1) f(1) by (simp add: putDataBufferChunk_def db_inv_def)
  show thesis
  proof (cases "db_r b + int ?k = int (length c)")
    case True
    then have k: "?k = length f" using f(4) by auto
    have "db_content ?b2 = drop ?k (db_content b)"
      unfolding f(6) k by (simp add: db_content_def)
    moreover have "0 < length (hd cs)" if "cs \<noteq> []"
      using that assms(1) f(1) classes_pos by (cases cs) (auto simp: db_inv_def simp del: length_greater_0_conv)
    moreover have "db_inv ?b2"
      using assms(1) f(1) calculation size k0(3) by (auto simp: db_inv_def split: if_splits)
    ultimately show thesis
      using True pos k0 f(1,2) put assms(3) by (intro that [of ?k ?b2]) (simp_all add: Let_def index_def)
  next
    case False
    have "nat (db_r b + int ?k) = nat (db_r b) + ?k" using assms(1) by (simp add: db_inv_def nat_add_distrib)
    then have "db_content ?b1 = drop ?k (db_content b)"
      by (simp add: db_content_def add.commute del: drop_append)
    moreover have "db_r b + int ?k < int (length c)" "cs = [] \<Longrightarrow> db_r b + int ?k \<le> db_w b"
      using False f(4,5) by (auto simp: min_def)
    moreover have "db_inv ?b1"
      using assms(1) f(1) calculation size k0(3) by (auto simp: db_inv_def)
    ultimately show thesis
      using False pos k0 f(1,2) assms(3) by (intro that [of ?k ?b1]) (simp_all add: Let_def index_def)
  qed
qed

lemma db_read_loop_queue:
  assumes "db_inv b" "n < fuel"
  shows "\<exists>b'. db_read_loop fuel n out b = Ok (b', out @ take n (db_content b)) \<and> db_inv b' \<and>
    db_content b' = drop n (db_content b)"
  using assms
proof (induction n arbitrary: fuel out b rule: less_induct)
  case (less n)
  then obtain m where fuel: "fuel = Suc m" by (cases fuel) auto
  have size: "db_size b = int (length (db_content b))" using less.prems by (simp add: db_inv_def)
  show ?case
  proof (cases "0 < n \<and> db_content b \<noteq> []")
    case True
    obtain k b' where k: "0 < k" "k \<le> n" "db_content b' = drop k (db_content b)" "db_inv b'" "k \<le> length (db_content b)"
      "db_read_loop (Suc m) n out b = db_read_loop m (n - k) (out @ take k (db_content b)) b'"
      using db_read_step [OF less.prems(1), of n] True by metis
    have "take k xs @ take (n - k) (drop k xs) = take n xs" for xs :: bytes
      using k(2) take_add [of k "n - k" xs] by simp
    with less.IH [of "n - k" b' m "out @ take k (db_content b)"] k less.prems fuel show ?thesis by auto
  next
    case False
    then show ?thesis using fuel less.prems size by auto
  qed
qed

lemma db_Read_queue:
  assumes "db_inv b"
  shows "if db_content b = [] then db_Read n b = Err errReadEmpty
    else \<exists>b'. db_Read n b = Ok (b', take n (db_content b)) \<and> db_inv b' \<and> db_content b' = drop n (db_content b)"
  using db_read_loop_queue [OF assms, of n "Suc n" "[]"] assms
  by (simp add: db_Read_def db_inv_def del: db_read_loop.simps)

lemma chunk_class_in: "chunk_class sz dataChunkSizeClasses \<in> set dataChunkSizeClasses"
  by (simp add: dataChunkSizeClasses_def)

lemma concat_butlast_last: "cs \<noteq> [] \<Longrightarrow> concat (butlast cs) @ last cs = concat cs"
  by (induction cs) auto

text \<open>After \<open>lastChunkOrAlloc\<close> the last chunk has room, and the contents are the same.\<close>

lemma lastChunk_room:
  assumes "db_inv b"
  shows "let b' = lastChunkOrAlloc pool want b in db_inv b' \<and> db_content b' = db_content b \<and> db_chunks b' \<noteq> [] \<and>
    db_w b' < int (length (last (db_chunks b'))) \<and> db_size b' = db_size b \<and> db_expected b' = db_expected b"
proof (cases "length (db_chunks b) \<noteq> 0 \<and> db_w b < int (length (last (db_chunks b)))")
  case True
  then show ?thesis using assms by (simp add: lastChunkOrAlloc_def)
next
  case False
  let ?c = "getDataBufferChunk pool want"
  let ?b = "b\<lparr>db_chunks := db_chunks b @ [?c], db_w := 0\<rparr>"
  have c: "length ?c \<in> set dataChunkSizeClasses"
    using chunk_class_in [of want] by (simp add: getDataBufferChunk_def Let_def)
  have "db_content ?b = db_content b"
  proof (cases "db_chunks b = []")
    case False2: False
    then have "nat (db_w b) = length (last (db_chunks b))" using False assms(1) by (simp add: db_inv_def)
    then show ?thesis using False2 by (simp add: db_content_def concat_butlast_last del: drop_append)
  qed (use assms(1) in \<open>simp add: db_content_def db_inv_def\<close>)
  moreover have "db_inv ?b"
    using assms(1) c classes_pos [OF c] calculation by (cases "db_chunks b = []") (auto simp: db_inv_def)
  ultimately show ?thesis using False classes_pos [OF c] by (auto simp: lastChunkOrAlloc_def Let_def)
qed

lemma db_write_step:
  assumes "db_inv b" "p \<noteq> []"
  obtains k b' where "0 < k" "k \<le> length p" "db_content b' = db_content b @ take k p" "db_inv b'"
    "\<And>fuel. db_write_loop pool (Suc fuel) p b = db_write_loop pool fuel (drop k p) b'"
proof -
  define want where "want = (if db_expected b > int (length p) then db_expected b else int (length p))"
  define a where "a = lastChunkOrAlloc pool want b"
  have a: "db_inv a" "db_content a = db_content b" "db_chunks a \<noteq> []" "db_w a < int (length (last (db_chunks a)))"
    using lastChunk_room [OF assms(1), of pool want] by (auto simp: a_def Let_def)
  define w where "w = nat (db_w a)"
  define c where "c = last (db_chunks a)"
  have w: "db_w a = int w" "w < length c" using a by (auto simp: w_def c_def db_inv_def nat_less_iff)
  define k where "k = min (length (drop w c)) (length p)"
  define c' where "c' = take w c @ take k p @ drop (w + k) c"
  define b' where "b' = a\<lparr>db_chunks := butlast (db_chunks a) @ [c'], db_w := db_w a + int k,
    db_size := db_size a + int k, db_expected := int64 (db_expected a - int k)\<rparr>"
  have k: "0 < k" "k \<le> length p" "w + k \<le> length c" using w assms(2) by (auto simp: k_def)
  have c': "length c' = length c" "take (w + k) c' = take w c @ take k p" using w k by (auto simp: c'_def)
  have r: "nat (db_r a) \<le> length (concat (butlast (db_chunks a))) + w"
  proof (cases "butlast (db_chunks a)")
    case Nil
    then have "length (db_chunks a) = 1" using a(3) by (cases "db_chunks a") (auto split: if_splits)
    then show ?thesis using a(1,3) w by (auto simp: db_inv_def)
  next
    case (Cons x xs)
    then have "hd (db_chunks a) = x" by (cases "db_chunks a") (auto split: if_splits)
    then show ?thesis using Cons a(1,3) by (auto simp: db_inv_def)
  qed
  have con: "db_content b' = db_content b @ take k p"
    unfolding a(2) [symmetric] using a(3) w k r c'(2)
    by (simp add: b'_def db_content_def nat_add_distrib c_def)
  have "db_inv b'"
    unfolding db_inv_def con using a w k c'(1)
    by (cases "db_chunks a" rule: rev_cases; cases "butlast (db_chunks a)")
      (auto simp: db_inv_def b'_def c_def dest: in_set_butlastD)
  moreover have "db_write_loop pool (Suc fuel) p b = db_write_loop pool fuel (drop k p) b'" for fuel
    using assms(2) w by (simp add: want_def [symmetric] a_def [symmetric] c_def [symmetric] Let_def gslice_from_def gslice_def
        k_def b'_def c'_def)
  ultimately show thesis using that [OF k(1,2) con] by blast
qed

lemma db_write_loop_queue:
  assumes "db_inv b" "length p < fuel"
  shows "\<exists>b'. db_write_loop pool fuel p b = Ok b' \<and> db_inv b' \<and> db_content b' = db_content b @ p"
  using assms
proof (induction "length p" arbitrary: fuel p b rule: less_induct)
  case less
  then obtain m where fuel: "fuel = Suc m" by (cases fuel) auto
  show ?case
  proof (cases "p = []")
    case False
    obtain k b' where k: "0 < k" "k \<le> length p" "db_content b' = db_content b @ take k p" "db_inv b'"
      "db_write_loop pool (Suc m) p b = db_write_loop pool m (drop k p) b'"
      using db_write_step [OF less.prems(1) False] by metis
    with less.hyps [of "drop k p" b' m] less.prems fuel show ?thesis by auto
  qed (use fuel less.prems in auto)
qed

lemma db_Write_queue:
  assumes "db_inv b"
  shows "\<exists>b'. db_Write pool p b = Ok (b', length p) \<and> db_inv b' \<and> db_content b' = db_content b @ p"
  using db_write_loop_queue [OF assms, of p "Suc (length p)"] by (auto simp: db_Write_def simp del: db_write_loop.simps)

section \<open>The pipe\<close>

text \<open>The method set of the interface \<open>pipeBuffer\<close>. A call of \<open>Read\<close> is given the length of its slice.\<close>

record 'b pipeBuffer =
  buf_Len :: "'b \<Rightarrow> int"
  buf_Write :: "bytes \<Rightarrow> 'b \<Rightarrow> ('b \<times> nat) pires"
  buf_Read :: "nat \<Rightarrow> 'b \<Rightarrow> ('b \<times> bytes) pires"

definition dataBuffer_methods :: "(nat \<Rightarrow> nat \<Rightarrow> byte) \<Rightarrow> dataBuffer pipeBuffer" where
  "dataBuffer_methods pool = \<lparr>buf_Len = db_Len, buf_Write = db_Write pool, buf_Read = db_Read\<rparr>"

text \<open>
  The fields of \<open>pipe\<close>; every method runs with the mutex held. A nil interface, error or function is
  \<open>None\<close>, the channel \<open>donec\<close> is nil or has a state (closed or not), a function is known by its number and
  \<open>p_ran\<close> lists the functions \<open>Read\<close> has run.
\<close>

record 'b pipe =
  p_b :: "'b option"
  p_err :: "pipe_error option"
  p_breakErr :: "pipe_error option"
  p_donec :: "bool option"
  p_readFn :: "nat option"
  p_ran :: "nat list"

definition pipe_new :: "'b \<Rightarrow> 'b pipe" where
  "pipe_new b = \<lparr>p_b = Some b, p_err = None, p_breakErr = None, p_donec = None, p_readFn = None, p_ran = []\<rparr>"

definition pipe_Len :: "'b pipeBuffer \<Rightarrow> 'b pipe \<Rightarrow> int" where
  "pipe_Len m p = (case p_b p of None \<Rightarrow> 0 | Some b \<Rightarrow> buf_Len m b)"

text \<open>One pass of the loop of \<open>Read\<close>: it returns data or an error, or waits for a signal.\<close>

datatype read_result = ReadData bytes | ReadErr pipe_error | ReadWaits

definition pipe_Read :: "'b pipeBuffer \<Rightarrow> nat \<Rightarrow> 'b pipe \<Rightarrow> ('b pipe \<times> read_result) pires" where
  "pipe_Read m n p =
     (case p_breakErr p of Some e \<Rightarrow> Ok (p, ReadErr e)
      | None \<Rightarrow>
        (if p_b p \<noteq> None \<and> buf_Len m (the (p_b p)) > 0 then
           (case buf_Read m n (the (p_b p)) of
              Ok (b, d) \<Rightarrow> Ok (p\<lparr>p_b := Some b\<rparr>, ReadData d)
            | Err e \<Rightarrow> Ok (p, ReadErr e)
            | Panic \<Rightarrow> Panic | Stuck \<Rightarrow> Stuck)
         else
           (case p_err p of
              Some e \<Rightarrow>
                (let p = (case p_readFn p of None \<Rightarrow> p | Some f \<Rightarrow> p\<lparr>p_ran := p_ran p @ [f], p_readFn := None\<rparr>) in
                 Ok (p\<lparr>p_b := None\<rparr>, ReadErr e))
            | None \<Rightarrow> Ok (p, ReadWaits))))"

definition pipe_Write :: "'b pipeBuffer \<Rightarrow> bytes \<Rightarrow> 'b pipe \<Rightarrow> ('b pipe \<times> nat) pires" where
  "pipe_Write m d p =
     (if p_err p \<noteq> None then Err errClosedPipeWrite
      else if p_breakErr p \<noteq> None then Ok (p, length d)
      else (case p_b p of None \<Rightarrow> Panic
            | Some b \<Rightarrow> res_bind (buf_Write m d b) (\<lambda>(b, n). Ok (p\<lparr>p_b := Some b\<rparr>, n))))"

definition closeDoneLocked :: "'b pipe \<Rightarrow> 'b pipe" where
  "closeDoneLocked p = (case p_donec p of None \<Rightarrow> p | Some True \<Rightarrow> p | Some False \<Rightarrow> p\<lparr>p_donec := Some True\<rparr>)"

text \<open>The destination of \<open>closeWithError\<close>, a pointer to one of the two error fields.\<close>

datatype close_dst = dst_err | dst_breakErr

definition closeWithError :: "close_dst \<Rightarrow> pipe_error option \<Rightarrow> nat option \<Rightarrow> 'b pipe \<Rightarrow> 'b pipe pires" where
  "closeWithError dst err fn p =
     (if err = None then Panic
      else if (case dst of dst_err \<Rightarrow> p_err p | dst_breakErr \<Rightarrow> p_breakErr p) \<noteq> None then Ok p
      else
        (let p = p\<lparr>p_readFn := fn\<rparr>;
             p = (if dst = dst_breakErr then p\<lparr>p_b := None\<rparr> else p);
             p = (case dst of dst_err \<Rightarrow> p\<lparr>p_err := err\<rparr> | dst_breakErr \<Rightarrow> p\<lparr>p_breakErr := err\<rparr>) in
         Ok (closeDoneLocked p)))"

definition CloseWithError :: "pipe_error option \<Rightarrow> 'b pipe \<Rightarrow> 'b pipe pires" where
  "CloseWithError err = closeWithError dst_err err None"

definition BreakWithError :: "pipe_error option \<Rightarrow> 'b pipe \<Rightarrow> 'b pipe pires" where
  "BreakWithError err = closeWithError dst_breakErr err None"

definition closeWithErrorAndCode :: "pipe_error option \<Rightarrow> nat option \<Rightarrow> 'b pipe \<Rightarrow> 'b pipe pires" where
  "closeWithErrorAndCode err fn = closeWithError dst_err err fn"

definition pipe_Err :: "'b pipe \<Rightarrow> pipe_error option" where
  "pipe_Err p = (if p_breakErr p \<noteq> None then p_breakErr p else p_err p)"

definition pipe_Done :: "'b pipe \<Rightarrow> 'b pipe \<times> bool option" where
  "pipe_Done p =
     (let p = (if p_donec p = None
               then let p = p\<lparr>p_donec := Some False\<rparr> in
                 (if p_err p \<noteq> None \<or> p_breakErr p \<noteq> None then closeDoneLocked p else p)
               else p) in
      (p, p_donec p))"

section \<open>Runs of a pipe\<close>

text \<open>
  The methods take the mutex, so the goroutines that share a pipe produce a sequence of calls. \<open>pipe_run\<close>
  performs one: it gathers the bytes that \<open>Write\<close> accepted and those that \<open>Read\<close> returned.
\<close>

datatype pipe_call =
    CallRead nat
  | CallWrite bytes
  | CallClose pipe_error
  | CallCloseCode pipe_error nat
  | CallBreak pipe_error
  | CallDone

fun pipe_do :: "'b pipeBuffer \<Rightarrow> pipe_call \<Rightarrow> 'b pipe \<times> bytes \<times> bytes \<Rightarrow> ('b pipe \<times> bytes \<times> bytes) pires" where
  "pipe_do m (CallRead n) (p, acc, del) =
     res_bind (pipe_Read m n p) (\<lambda>(p, r). Ok (p, acc, case r of ReadData d \<Rightarrow> del @ d | _ \<Rightarrow> del))"
| "pipe_do m (CallWrite d) (p, acc, del) =
     (case pipe_Write m d p of Ok (p, n) \<Rightarrow> Ok (p, acc @ take n d, del) | Err e \<Rightarrow> Ok (p, acc, del) | Panic \<Rightarrow> Panic | Stuck \<Rightarrow> Stuck)"
| "pipe_do m (CallClose e) (p, acc, del) = res_bind (CloseWithError (Some e) p) (\<lambda>p. Ok (p, acc, del))"
| "pipe_do m (CallCloseCode e f) (p, acc, del) =
     res_bind (closeWithErrorAndCode (Some e) (Some f) p) (\<lambda>p. Ok (p, acc, del))"
| "pipe_do m (CallBreak e) (p, acc, del) = res_bind (BreakWithError (Some e) p) (\<lambda>p. Ok (p, acc, del))"
| "pipe_do m CallDone (p, acc, del) = Ok (fst (pipe_Done p), acc, del)"

fun pipe_run :: "'b pipeBuffer \<Rightarrow> pipe_call list \<Rightarrow> 'b pipe \<times> bytes \<times> bytes \<Rightarrow> ('b pipe \<times> bytes \<times> bytes) pires" where
  "pipe_run m [] s = Ok s"
| "pipe_run m (c # cs) s = res_bind (pipe_do m c s) (pipe_run m cs)"

text \<open>A reader that calls \<open>Read\<close> with slices of length \<open>n\<close> until it is given an error.\<close>

fun pipe_drain :: "'b pipeBuffer \<Rightarrow> nat \<Rightarrow> nat \<Rightarrow> bytes \<Rightarrow> 'b pipe \<Rightarrow> ('b pipe \<times> bytes \<times> pipe_error option) pires" where
  "pipe_drain m 0 n out p = Stuck"
| "pipe_drain m (Suc fuel) n out p =
     res_bind (pipe_Read m n p) (\<lambda>(p, r).
       (case r of ReadData d \<Rightarrow> pipe_drain m fuel n (out @ d) p | ReadErr e \<Rightarrow> Ok (p, out, Some e) | ReadWaits \<Rightarrow> Ok (p, out, None)))"

section \<open>What a pipe needs of its buffer, and what it gives\<close>

text \<open>
  What a pipe still holds, and its invariant: accepted bytes are returned in their order and none is lost
  unless the pipe is broken; \<open>donec\<close> is closed exactly when the pipe has an error.
\<close>

definition unread :: "('b \<Rightarrow> bytes) \<Rightarrow> 'b pipe \<Rightarrow> bytes" where
  "unread content p = (case p_b p of None \<Rightarrow> [] | Some b \<Rightarrow> content b)"

definition pipe_inv :: "('b \<Rightarrow> bytes) \<Rightarrow> ('b \<Rightarrow> bool) \<Rightarrow> 'b pipe \<times> bytes \<times> bytes \<Rightarrow> bool" where
  "pipe_inv content ok = (\<lambda>(p, acc, del). (\<forall>b. p_b p = Some b \<longrightarrow> ok b) \<and>
     (case p_breakErr p of None \<Rightarrow> acc = del @ unread content p | Some _ \<Rightarrow> \<exists>r. acc = del @ r) \<and>
     (p_breakErr p \<noteq> None \<longrightarrow> p_b p = None) \<and> (p_b p = None \<longrightarrow> p_err p \<noteq> None \<or> p_breakErr p \<noteq> None) \<and>
     (p_donec p \<noteq> None \<longrightarrow> p_donec p = Some (p_err p \<noteq> None \<or> p_breakErr p \<noteq> None)))"

locale pipe_buffer =
  fixes m :: "'b pipeBuffer"
    and content :: "'b \<Rightarrow> bytes"
    and ok :: "'b \<Rightarrow> bool"
  assumes buf_len: "ok b \<Longrightarrow> buf_Len m b = int (length (content b))"
    and buf_write: "ok b \<Longrightarrow> \<exists>b'. buf_Write m d b = Ok (b', length d) \<and> ok b' \<and> content b' = content b @ d"
    and buf_read: "ok b \<Longrightarrow> content b \<noteq> [] \<Longrightarrow>
      \<exists>b'. buf_Read m n b = Ok (b', take n (content b)) \<and> ok b' \<and> content b' = drop n (content b)"
begin

lemma new_inv: "ok b \<Longrightarrow> content b = [] \<Longrightarrow> pipe_inv content ok (pipe_new b, [], [])"
  by (simp add: pipe_inv_def pipe_new_def unread_def)

lemma read_data:
  assumes "\<forall>b. p_b p = Some b \<longrightarrow> ok b" "p_breakErr p = None" "unread content p \<noteq> []"
  shows "\<exists>b'. pipe_Read m n p = Ok (p\<lparr>p_b := Some b'\<rparr>, ReadData (take n (unread content p))) \<and> ok b' \<and> content b' = drop n (unread content p)"
proof -
  obtain b where b: "p_b p = Some b" "ok b" "content b = unread content p"
    using assms(1,3) by (cases "p_b p") (auto simp: unread_def)
  then show ?thesis using buf_read [of b n] buf_len [of b] assms(2,3) by (auto simp: pipe_Read_def)
qed

lemma read_end:
  assumes "\<forall>b. p_b p = Some b \<longrightarrow> ok b" "p_breakErr p = None" "unread content p = []"
  shows "pipe_Read m n p = (case p_err p of None \<Rightarrow> Ok (p, ReadWaits) | Some e \<Rightarrow>
    Ok (p\<lparr>p_ran := p_ran p @ (case p_readFn p of None \<Rightarrow> [] | Some f \<Rightarrow> [f]), p_readFn := None, p_b := None\<rparr>, ReadErr e))"
  using assms buf_len
  by (cases "p_b p"; cases "p_readFn p") (auto simp: pipe_Read_def unread_def Let_def split: option.splits)

lemma close_inv:
  assumes "pipe_inv content ok (p, acc, del)"
  shows "\<exists>p'. closeWithError dst (Some e) fn p = Ok p' \<and> pipe_inv content ok (p', acc, del)"
  using assms
  by (cases dst; cases "p_err p"; cases "p_breakErr p"; cases "p_donec p")
    (simp_all add: closeWithError_def Let_def closeDoneLocked_def pipe_inv_def unread_def)

lemma done_inv:
  assumes "pipe_inv content ok (p, acc, del)"
  shows "pipe_inv content ok (fst (pipe_Done p), acc, del)"
  using assms
  by (cases "p_err p"; cases "p_breakErr p"; cases "p_donec p")
    (simp_all add: pipe_Done_def Let_def closeDoneLocked_def pipe_inv_def unread_def)

lemma call_inv:
  assumes "pipe_inv content ok s"
  shows "\<exists>s'. pipe_do m c s = Ok s' \<and> pipe_inv content ok s'"
proof -
  obtain p acc del where s: "s = (p, acc, del)" by (cases s)
  have b: "\<forall>b. p_b p = Some b \<longrightarrow> ok b" using assms by (simp add: s pipe_inv_def)
  show ?thesis
  proof (cases c)
    case (CallRead n)
    show ?thesis
    proof (cases "p_breakErr p")
      case (Some e)
      then show ?thesis using assms by (simp add: s CallRead pipe_Read_def)
    next
      case None
      show ?thesis
      proof (cases "unread content p = []")
        case True
        then show ?thesis using assms None read_end [OF b None, of n]
          by (auto simp: s CallRead pipe_inv_def unread_def split: option.splits)
      next
        case False
        then obtain b' where "pipe_Read m n p = Ok (p\<lparr>p_b := Some b'\<rparr>, ReadData (take n (unread content p)))" "ok b'"
          "content b' = drop n (unread content p)" using read_data [OF b None, of n] by auto
        then show ?thesis using assms None by (auto simp: s CallRead pipe_inv_def unread_def)
      qed
    qed
  next
    case (CallWrite d)
    show ?thesis
    proof (cases "p_err p = None \<and> p_breakErr p = None")
      case True
      then obtain b0 where "p_b p = Some b0" "ok b0" using assms by (auto simp: s pipe_inv_def)
      with buf_write [of b0 d] assms True show ?thesis by (auto simp: s CallWrite pipe_Write_def pipe_inv_def unread_def)
    next
      case False
      then show ?thesis using assms by (auto simp: s CallWrite pipe_Write_def pipe_inv_def)
    qed
  qed (use assms close_inv done_inv in \<open>force simp: s CloseWithError_def BreakWithError_def closeWithErrorAndCode_def\<close>)+
qed

lemma run_inv: "pipe_inv content ok s \<Longrightarrow> \<exists>s'. pipe_run m cs s = Ok s' \<and> pipe_inv content ok s'"
proof (induction cs arbitrary: s)
  case (Cons c cs)
  then show ?case using call_inv [of s c] by fastforce
qed auto

lemma drain:
  assumes "\<forall>b. p_b p = Some b \<longrightarrow> ok b" "p_breakErr p = None" "p_err p = Some e" "0 < n" "length (unread content p) < fuel"
  shows "\<exists>p'. pipe_drain m fuel n out p = Ok (p', out @ unread content p, Some e) \<and> p_b p' = None \<and> p_err p' = Some e \<and> p_breakErr p' = None \<and>
    p_readFn p' = None \<and> p_ran p' = p_ran p @ (case p_readFn p of None \<Rightarrow> [] | Some f \<Rightarrow> [f])"
  using assms
proof (induction "length (unread content p)" arbitrary: fuel p out rule: less_induct)
  case less
  then obtain k where fuel: "fuel = Suc k" by (cases fuel) auto
  show ?case
  proof (cases "unread content p = []")
    case True
    then show ?thesis using read_end [of p n] less.prems fuel by simp
  next
    case False
    then obtain b where b: "pipe_Read m n p = Ok (p\<lparr>p_b := Some b\<rparr>, ReadData (take n (unread content p)))" "ok b" "content b = drop n (unread content p)"
      using read_data [of p n] less.prems by auto
    then have "unread content (p\<lparr>p_b := Some b\<rparr>) = drop n (unread content p)" by (simp add: unread_def)
    moreover have "length (unread content p) - n < k" using less.prems fuel False by (cases "unread content p") auto
    ultimately show ?thesis using less.hyps [of "p\<lparr>p_b := Some b\<rparr>" k "out @ take n (unread content p)"] b less.prems fuel False by simp
  qed
qed

end

interpretation chunked: pipe_buffer "dataBuffer_methods pool" db_content db_inv
proof
  show "db_inv b \<Longrightarrow> buf_Len (dataBuffer_methods pool) b = int (length (db_content b))" for b
    by (simp add: dataBuffer_methods_def db_Len_def db_inv_def)
  show "db_inv b \<Longrightarrow> \<exists>b'. buf_Write (dataBuffer_methods pool) d b = Ok (b', length d) \<and> db_inv b' \<and> db_content b' = db_content b @ d" for b d
    using db_Write_queue by (simp add: dataBuffer_methods_def)
  show "db_inv b \<Longrightarrow> db_content b \<noteq> [] \<Longrightarrow>
      \<exists>b'. buf_Read (dataBuffer_methods pool) n b = Ok (b', take n (db_content b)) \<and> db_inv b' \<and> db_content b' = drop n (db_content b)" for b n
    using db_Read_queue [of b n] by (simp add: dataBuffer_methods_def)
qed

section \<open>The properties of the buffered pipe\<close>

text \<open>C36: whatever calls the goroutines that share a pipe over a chunked buffer make, in whatever order, none
  panics and every loop ends; the bytes returned by \<open>Read\<close> are, in order, a prefix of those accepted by
  \<open>Write\<close>, with nothing missing in between: what is not yet returned is what the buffer holds, and \<open>Len\<close> is
  its length, unless \<open>BreakWithError\<close> discarded it; and a \<open>Done\<close> channel is closed exactly when an error is set.\<close>

theorem pipe_delivers:
  "\<exists>p acc del. pipe_run (dataBuffer_methods pool) calls (pipe_new (db_new expected), [], []) = Ok (p, acc, del) \<and>
     (case p_breakErr p of
        None \<Rightarrow> acc = del @ unread db_content p \<and> pipe_Len (dataBuffer_methods pool) p = int (length acc - length del)
      | Some _ \<Rightarrow> p_b p = None \<and> (\<exists>lost. acc = del @ lost)) \<and>
     snd (pipe_Done p) = Some (pipe_Err p \<noteq> None)"
proof -
  obtain p acc del where run: "pipe_run (dataBuffer_methods pool) calls (pipe_new (db_new expected), [], []) = Ok (p, acc, del)"
    and inv: "pipe_inv db_content db_inv (p, acc, del)"
    using chunked.run_inv [OF chunked.new_inv, of "db_new expected" pool calls] by auto
  have "pipe_Len (dataBuffer_methods pool) p = int (length (unread db_content p))"
    using inv chunked.buf_len [of _ pool] by (cases "p_b p") (auto simp: pipe_Len_def unread_def pipe_inv_def)
  then show ?thesis using run inv
    by (auto simp: pipe_inv_def pipe_Done_def pipe_Err_def closeDoneLocked_def Let_def split: option.splits)
qed

text \<open>C37: once a pipe is closed with an error and not broken, a reader that keeps calling \<open>Read\<close> is given exactly
  the accepted bytes it has not had yet and then that error, after as many calls as there are bytes at most;
  the code handed to \<open>closeWithErrorAndCode\<close> runs once, before the error; every later \<open>Read\<close> gives the error
  again without running it, and \<open>Write\<close> is refused.\<close>

theorem closed_pipe_drains:
  assumes "pipe_run (dataBuffer_methods pool) calls (pipe_new (db_new expected), [], []) = Ok (p, acc, del)"
    and "p_err p = Some e" "p_breakErr p = None" "0 < n"
  shows "\<exists>p'. pipe_drain (dataBuffer_methods pool) (Suc (length acc)) n [] p = Ok (p', drop (length del) acc, Some e) \<and>
    p_ran p' = p_ran p @ (case p_readFn p of None \<Rightarrow> [] | Some f \<Rightarrow> [f]) \<and>
    (\<forall>k. pipe_Read (dataBuffer_methods pool) k p' = Ok (p', ReadErr e)) \<and>
    (\<forall>d. pipe_Write (dataBuffer_methods pool) d p' = Err errClosedPipeWrite)"
proof -
  have inv: "pipe_inv db_content db_inv (p, acc, del)"
    using chunked.run_inv [OF chunked.new_inv, of "db_new expected" pool calls] assms(1) by simp
  then have rest: "unread db_content p = drop (length del) acc" "\<forall>b. p_b p = Some b \<longrightarrow> db_inv b"
    using assms(3) by (auto simp: pipe_inv_def)
  then show ?thesis
    using chunked.drain [OF rest(2) assms(3,2,4), of "Suc (length acc)" pool "[]"] assms(2)
    by (fastforce simp: pipe_Read_def pipe_Write_def simp del: pipe_drain.simps)
qed

lemmas pipe_eval = pipe_new_def db_new_def dataBuffer_methods_def pipe_Write_def db_Write_def lastChunkOrAlloc_def
  getDataBufferChunk_def dataChunkSizeClasses_def map_replicate_const gslice_from_def gslice_def Let_def pipe_Read_def
  db_Len_def db_Read_def bytesFromFirstChunk_def index_def closeWithErrorAndCode_def closeWithError_def
  closeDoneLocked_def putDataBufferChunk_def

theorem closed_pipe_drains_witness:
  "\<exists>p p'. pipe_run (dataBuffer_methods (\<lambda>c i. 0)) [CallWrite [1, 2, 3], CallRead 1, CallCloseCode (StreamErr ''EOF'') 7]
       (pipe_new (db_new 0), [], []) = Ok (p, [1, 2, 3], [1]) \<and>
     pipe_drain (dataBuffer_methods (\<lambda>c i. 0)) (Suc (Suc (Suc (Suc 0)))) 2 [] p = Ok (p', [2, 3], Some (StreamErr ''EOF'')) \<and> p_ran p' = [7]"
proof -
  let ?m = "dataBuffer_methods (\<lambda>c i. 0)"
  obtain p where p: "pipe_run ?m [CallWrite [1, 2, 3], CallRead 1, CallCloseCode (StreamErr ''EOF'') 7]
       (pipe_new (db_new 0), [], []) = Ok (p, [1, 2, 3], [1])"
    and e: "p_err p = Some (StreamErr ''EOF'')" "p_breakErr p = None" "p_readFn p = Some 7" "p_ran p = []"
    by (simp add: pipe_eval)
  obtain p' where "pipe_drain ?m (Suc (Suc (Suc (Suc 0)))) 2 [] p = Ok (p', [2, 3], Some (StreamErr ''EOF''))" "p_ran p' = [7]"
    using closed_pipe_drains [OF p e(1,2), of 2] e(3,4) by (auto simp del: pipe_drain.simps)
  with p show ?thesis by blast
qed

end
