(* ===== verification/GrpcLifecycle.thy ===== *)
theory GrpcLifecycle
  imports Prelude
begin

text \<open>
  The life of a gRPC server, \<open>server.go\<close> of \<open>google.golang.org/grpc\<close>: \<open>Serve\<close> with its accept loop, the goroutine of each
  connection up to its streams, \<open>Stop\<close> and \<open>GracefulStop\<close>. Goroutines interleave wherever the code holds no lock; what the
  network does, the results of \<open>Accept\<close>, of handshakes and of \<open>NewServerTransport\<close>, is an argument. Listeners and connections are
  numbers; a connection and the transport on it are closed together. Left out are the event log and the handler for tests.
\<close>

section \<open>State\<close>

text \<open>Where the goroutine of a connection is: before the check of \<open>handleRawConn\<close>, before \<open>addConn\<close>, or in \<open>serveStreams\<close>.\<close>

datatype conn_phase = Raw | Creating | Serving

text \<open>
  The fields of \<open>Server\<close>, of which \<open>nil\<close> maps are \<open>None\<close>; then the running goroutines: \<open>Serve\<close> with its \<open>tempDelay\<close>, the
  connections, calls of \<open>Stop\<close> that have yet to close what they took, calls of \<open>GracefulStop\<close> that sleep in \<open>cv.Wait\<close> and
  those that a broadcast has woken but that have yet to take the lock and look at the map again; then what was
  closed, drained, and given away by a handshake; then all listeners served and all connections accepted.
\<close>

record Server =
  sv_lis :: "nat set option"
  sv_conns :: "nat set option"
  sv_drain :: bool
  sv_done :: bool
  sv_accepting :: "nat \<rightharpoonup> int"
  sv_handling :: "nat \<rightharpoonup> conn_phase"
  sv_stops :: "(nat set \<times> nat set) list"
  sv_asleep :: nat
  sv_awake :: nat
  sv_closed_lis :: "nat set"
  sv_closed_conns :: "nat set"
  sv_drained :: "nat set"
  sv_dispatched :: "nat set"
  sv_served :: "nat set"
  sv_accepted :: "nat set"

definition NewServer :: Server where
  "NewServer = \<lparr>sv_lis = Some {}, sv_conns = Some {}, sv_drain = False, sv_done = False, sv_accepting = Map.empty, sv_handling = Map.empty,
     sv_stops = [], sv_asleep = 0, sv_awake = 0, sv_closed_lis = {}, sv_closed_conns = {}, sv_drained = {}, sv_dispatched = {}, sv_served = {}, sv_accepted = {}\<rparr>"

definition close_lis :: "nat set \<Rightarrow> Server \<Rightarrow> Server" where
  "close_lis ls s = s\<lparr>sv_closed_lis := sv_closed_lis s \<union> ls\<rparr>"

definition close_conns :: "nat set \<Rightarrow> Server \<Rightarrow> Server" where
  "close_conns cs s = s\<lparr>sv_closed_conns := sv_closed_conns s \<union> cs\<rparr>"

text \<open>\<open>cv.Broadcast\<close>: every sleeping call is woken. A call wakes up in no other way.\<close>

definition cv_broadcast :: "Server \<Rightarrow> Server" where
  "cv_broadcast s = s\<lparr>sv_asleep := 0, sv_awake := sv_asleep s + sv_awake s\<rparr>"

definition go_exit :: "nat \<Rightarrow> Server \<Rightarrow> Server" where
  "go_exit c s = s\<lparr>sv_handling := (sv_handling s)(c := None)\<rparr>"

section \<open>Accepting\<close>

datatype serve_error = ErrServerStopped | AcceptError

datatype accept_result = Accepted nat | Temporary | Failed

text \<open>\<open>Serve\<close> up to its loop.\<close>

definition Serve_enter :: "nat \<Rightarrow> Server \<Rightarrow> Server \<times> serve_error option" where
  "Serve_enter l s =
     (let s = s\<lparr>sv_served := insert l (sv_served s)\<rparr> in
      case sv_lis s of
        None \<Rightarrow> (close_lis {l} s, Some ErrServerStopped)
      | Some ls \<Rightarrow> (s\<lparr>sv_lis := Some (insert l ls), sv_accepting := (sv_accepting s)(l \<mapsto> 0)\<rparr>, None))"

text \<open>The deferred function.\<close>

definition Serve_exit :: "nat \<Rightarrow> Server \<Rightarrow> Server" where
  "Serve_exit l s =
     (let s = (case sv_lis s of
                 None \<Rightarrow> s
               | Some ls \<Rightarrow> if l \<in> ls then (close_lis {l} s)\<lparr>sv_lis := Some (ls - {l})\<rparr> else s)
      in s\<lparr>sv_accepting := (sv_accepting s)(l := None)\<rparr>)"

text \<open>The delay after a temporary error, in nanoseconds.\<close>

definition next_delay :: "int \<Rightarrow> int" where
  "next_delay d =
     (let d = (if d = 0 then 5 * 10 ^ 6 else d * 2) in
      if d > 10 ^ 9 then 10 ^ 9 else d)"

text \<open>One turn of the loop.\<close>

definition Serve_turn :: "nat \<Rightarrow> accept_result \<Rightarrow> Server \<Rightarrow> Server \<times> serve_error option" where
  "Serve_turn l r s =
     (case sv_accepting s l of
        None \<Rightarrow> (s, None)
      | Some tempDelay \<Rightarrow>
        (case r of
           Temporary \<Rightarrow> (s\<lparr>sv_accepting := (sv_accepting s)(l \<mapsto> next_delay tempDelay)\<rparr>, None)
         | Failed \<Rightarrow> (Serve_exit l s, Some AcceptError)
         | Accepted c \<Rightarrow>
             (s\<lparr>sv_accepting := (sv_accepting s)(l \<mapsto> 0), sv_handling := (sv_handling s)(c \<mapsto> Raw), sv_accepted := insert c (sv_accepted s)\<rparr>, None)))"

section \<open>Connections\<close>

definition addConn :: "nat \<Rightarrow> Server \<Rightarrow> Server \<times> bool" where
  "addConn c s =
     (case sv_conns s of
        None \<Rightarrow> (s, False)
      | Some cs \<Rightarrow> if sv_drain s then (s, False) else (s\<lparr>sv_conns := Some (insert c cs)\<rparr>, True))"

definition removeConn :: "nat \<Rightarrow> Server \<Rightarrow> Server" where
  "removeConn c s =
     (case sv_conns s of
        None \<Rightarrow> s
      | Some cs \<Rightarrow> cv_broadcast (s\<lparr>sv_conns := Some (cs - {c})\<rparr>))"

text \<open>\<open>useTransportAuthenticator\<close>: without credentials every handshake succeeds.\<close>

datatype handshake = HsOk | HsError | ErrConnDispatched

definition useTransportAuthenticator :: "(nat \<Rightarrow> handshake) option \<Rightarrow> nat \<Rightarrow> handshake" where
  "useTransportAuthenticator creds c = (case creds of None \<Rightarrow> HsOk | Some ServerHandshake \<Rightarrow> ServerHandshake c)"

definition handleRawConn :: "(nat \<Rightarrow> handshake) option \<Rightarrow> nat \<Rightarrow> Server \<Rightarrow> Server" where
  "handleRawConn creds c s =
     (case useTransportAuthenticator creds c of
        HsError \<Rightarrow> go_exit c (close_conns {c} s)
      | ErrConnDispatched \<Rightarrow> go_exit c (s\<lparr>sv_dispatched := insert c (sv_dispatched s)\<rparr>)
      | HsOk \<Rightarrow>
          if sv_conns s = None then go_exit c (close_conns {c} s)
          else s\<lparr>sv_handling := (sv_handling s)(c \<mapsto> Creating)\<rparr>)"

text \<open>\<open>created\<close> is whether \<open>NewServerTransport\<close> succeeds.\<close>

definition serveHTTP2Transport :: "bool \<Rightarrow> nat \<Rightarrow> Server \<Rightarrow> Server" where
  "serveHTTP2Transport created c s =
     (if \<not> created then go_exit c (close_conns {c} s)
      else
        (case addConn c s of
           (s, False) \<Rightarrow> go_exit c (close_conns {c} s)
         | (s, True) \<Rightarrow> s\<lparr>sv_handling := (sv_handling s)(c \<mapsto> Serving)\<rparr>))"

text \<open>The end of \<open>serveStreams\<close>, when the transport has no more streams and every call has returned.\<close>

definition serveStreams_exit :: "nat \<Rightarrow> Server \<Rightarrow> Server" where
  "serveStreams_exit c s = go_exit c (removeConn c (close_conns {c} s))"

section \<open>Stopping\<close>

text \<open>\<open>Stop\<close> takes the maps under the lock and closes their members without it.\<close>

definition Stop_take :: "Server \<Rightarrow> Server" where
  "Stop_take s =
     cv_broadcast (s\<lparr>sv_lis := None, sv_conns := None,
       sv_stops := sv_stops s @ [(case sv_lis s of None \<Rightarrow> {} | Some ls \<Rightarrow> ls, case sv_conns s of None \<Rightarrow> {} | Some cs \<Rightarrow> cs)]\<rparr>)"

definition Stop_close :: "nat \<Rightarrow> Server \<Rightarrow> Server" where
  "Stop_close i s =
     (case sv_stops s ! i of
        (listeners, st) \<Rightarrow>
          (close_conns st (close_lis listeners s))\<lparr>sv_done := True, sv_stops := take i (sv_stops s) @ drop (Suc i) (sv_stops s)\<rparr>)"

definition len_conns :: "Server \<Rightarrow> nat" where
  "len_conns s = (case sv_conns s of None \<Rightarrow> 0 | Some cs \<Rightarrow> card cs)"

text \<open>The loop of \<open>GracefulStop\<close> each time it holds the lock: with connections left it sleeps, which gives up the lock;
  otherwise it ends and the map becomes \<open>nil\<close>.\<close>

definition GracefulStop_loop :: "Server \<Rightarrow> Server" where
  "GracefulStop_loop s =
     (if len_conns s \<noteq> 0 then s\<lparr>sv_asleep := Suc (sv_asleep s)\<rparr>
      else s\<lparr>sv_conns := None\<rparr>)"

definition GracefulStop :: "Server \<Rightarrow> Server" where
  "GracefulStop s =
     (case sv_conns s of
        None \<Rightarrow> s
      | Some cs \<Rightarrow>
        (let s = (close_lis (case sv_lis s of None \<Rightarrow> {} | Some ls \<Rightarrow> ls) s)\<lparr>sv_lis := None, sv_done := True\<rparr>;
             s = (if \<not> sv_drain s then s\<lparr>sv_drained := sv_drained s \<union> cs, sv_drain := True\<rparr> else s)
         in GracefulStop_loop s))"

text \<open>A woken call takes the lock again.\<close>

definition GracefulStop_wake :: "Server \<Rightarrow> Server option" where
  "GracefulStop_wake s =
     (if sv_awake s > 0 then Some (GracefulStop_loop (s\<lparr>sv_awake := sv_awake s - 1\<rparr>)) else None)"

section \<open>Runs\<close>

text \<open>Each listener is served once, and an accepted connection is a new one.\<close>

inductive server_step :: "(nat \<Rightarrow> handshake) option \<Rightarrow> Server \<Rightarrow> Server \<Rightarrow> bool" for creds where
  Serve: "l \<notin> sv_served s \<Longrightarrow> server_step creds s (fst (Serve_enter l s))"
| Accept: "(case r of Accepted c \<Rightarrow> c \<notin> sv_accepted s | _ \<Rightarrow> True) \<Longrightarrow> server_step creds s (fst (Serve_turn l r s))"
| RawConn: "sv_handling s c = Some Raw \<Longrightarrow> server_step creds s (handleRawConn creds c s)"
| Transport: "sv_handling s c = Some Creating \<Longrightarrow> server_step creds s (serveHTTP2Transport created c s)"
| Streams: "sv_handling s c = Some Serving \<Longrightarrow> server_step creds s (serveStreams_exit c s)"
| Stop: "server_step creds s (Stop_take s)"
| StopClose: "i < length (sv_stops s) \<Longrightarrow> server_step creds s (Stop_close i s)"
| Graceful: "server_step creds s (GracefulStop s)"
| GracefulWake: "GracefulStop_wake s = Some s' \<Longrightarrow> server_step creds s s'"

abbreviation server_reaches :: "(nat \<Rightarrow> handshake) option \<Rightarrow> Server \<Rightarrow> bool" where
  "server_reaches creds s \<equiv> (server_step creds)\<^sup>*\<^sup>* NewServer s"

section \<open>The invariant\<close>

text \<open>Nothing is forgotten: a listener or connection is closed, in the maps, or in the hands of a goroutine that will close it. The
  map of connections holds only those in service, and a call of \<open>GracefulStop\<close> sleeps only while there are some.\<close>

definition lis_kept :: "Server \<Rightarrow> nat \<Rightarrow> bool" where
  "lis_kept s l \<longleftrightarrow> l \<in> sv_closed_lis s \<or> (\<exists>ls. sv_lis s = Some ls \<and> l \<in> ls) \<or> (\<exists>x\<in>set (sv_stops s). l \<in> fst x)"

definition conn_kept :: "Server \<Rightarrow> nat \<Rightarrow> bool" where
  "conn_kept s c \<longleftrightarrow> c \<in> sv_closed_conns s \<or> c \<in> sv_dispatched s \<or> sv_handling s c \<in> {Some Raw, Some Creating} \<or>
     (\<exists>cs. sv_conns s = Some cs \<and> c \<in> cs) \<or> (\<exists>x\<in>set (sv_stops s). c \<in> snd x)"

definition lifecycle_inv :: "Server \<Rightarrow> bool" where
  "lifecycle_inv s \<longleftrightarrow> (\<forall>l\<in>sv_served s. lis_kept s l) \<and> (\<forall>c\<in>sv_accepted s. conn_kept s c) \<and>
     (\<forall>cs. sv_conns s = Some cs \<longrightarrow> finite cs \<and> (\<forall>c\<in>cs. sv_handling s c = Some Serving)) \<and>
     (sv_conns s = None \<longrightarrow> sv_lis s = None) \<and> dom (sv_handling s) \<subseteq> sv_accepted s \<and>
     (\<forall>l d. sv_accepting s l = Some d \<longrightarrow> d = 0 \<or> 5 * 10 ^ 6 \<le> d \<and> d \<le> 10 ^ 9) \<and>
     (sv_asleep s + sv_awake s > 0 \<longrightarrow> sv_drain s) \<and> (sv_drain s \<longrightarrow> sv_lis s = None) \<and>
     (sv_asleep s > 0 \<longrightarrow> (\<exists>cs. sv_conns s = Some cs \<and> cs \<noteq> {}))"

lemmas server_defs = close_lis_def close_conns_def go_exit_def cv_broadcast_def


lemma lifecycle_invI:
  assumes "\<And>l. l \<in> sv_served s \<Longrightarrow> lis_kept s l" "\<And>c. c \<in> sv_accepted s \<Longrightarrow> conn_kept s c"
    and "\<And>cs. sv_conns s = Some cs \<Longrightarrow> finite cs \<and> (\<forall>c\<in>cs. sv_handling s c = Some Serving)" "sv_conns s = None \<Longrightarrow> sv_lis s = None"
    and "dom (sv_handling s) \<subseteq> sv_accepted s" "\<And>l d. sv_accepting s l = Some d \<Longrightarrow> d = 0 \<or> 5 * 10 ^ 6 \<le> d \<and> d \<le> 10 ^ 9"
    and "sv_asleep s + sv_awake s > 0 \<Longrightarrow> sv_drain s" "sv_drain s \<Longrightarrow> sv_lis s = None"
    and "sv_asleep s > 0 \<Longrightarrow> \<exists>cs. sv_conns s = Some cs \<and> cs \<noteq> {}"
  shows "lifecycle_inv s"
  using assms by (simp add: lifecycle_inv_def)

lemma lifecycle_invD:
  assumes "lifecycle_inv s"
  shows "l \<in> sv_served s \<Longrightarrow> lis_kept s l" "c \<in> sv_accepted s \<Longrightarrow> conn_kept s c"
    and "sv_conns s = Some cs \<Longrightarrow> finite cs" "sv_conns s = Some cs \<Longrightarrow> c \<in> cs \<Longrightarrow> sv_handling s c = Some Serving" "sv_conns s = None \<Longrightarrow> sv_lis s = None"
    and "sv_handling s c = Some ph \<Longrightarrow> c \<in> sv_accepted s" "sv_accepting s l = Some d \<Longrightarrow> d = 0 \<or> 5 * 10 ^ 6 \<le> d \<and> d \<le> 10 ^ 9"
    and "sv_asleep s + sv_awake s > 0 \<Longrightarrow> sv_drain s" "sv_drain s \<Longrightarrow> sv_lis s = None"
    and "sv_asleep s > 0 \<Longrightarrow> \<exists>cs. sv_conns s = Some cs \<and> cs \<noteq> {}"
  using assms by (auto simp: lifecycle_inv_def)

lemma next_delay_bounds: "d = 0 \<or> 5 * 10 ^ 6 \<le> d \<Longrightarrow> 5 * 10 ^ 6 \<le> next_delay d \<and> next_delay d \<le> 10 ^ 9"
  by (auto simp: next_delay_def Let_def)

lemma inv_Serve_enter: "lifecycle_inv s \<Longrightarrow> lifecycle_inv (fst (Serve_enter l s))"
  by (cases "sv_lis s") (auto simp: Serve_enter_def Let_def server_defs lifecycle_inv_def lis_kept_def conn_kept_def)

lemma inv_Serve_exit: "lifecycle_inv s \<Longrightarrow> lifecycle_inv (Serve_exit l s)"
  by (cases "sv_lis s") (auto simp: Serve_exit_def Let_def server_defs lifecycle_inv_def lis_kept_def conn_kept_def)

lemma inv_Serve_turn:
  assumes "lifecycle_inv s" "case r of Accepted c \<Rightarrow> c \<notin> sv_accepted s | _ \<Rightarrow> True"
  shows "lifecycle_inv (fst (Serve_turn l r s))"
proof (cases "sv_accepting s l")
  case (Some d)
  show ?thesis
  proof (cases r)
    case (Accepted c)
    then have "sv_handling s c \<noteq> Some Serving" using assms by (auto dest: lifecycle_invD(6))
    then show ?thesis using assms(1) Some Accepted by (auto simp: Serve_turn_def lifecycle_inv_def lis_kept_def conn_kept_def)
  next
    case Temporary
    have "5 * 10 ^ 6 \<le> next_delay d" "next_delay d \<le> 10 ^ 9" using next_delay_bounds [of d] lifecycle_invD(7) [OF assms(1) Some] by blast+
    then show ?thesis using assms(1) Some Temporary
      by (auto simp: Serve_turn_def lifecycle_inv_def lis_kept_def conn_kept_def)
  qed (use inv_Serve_exit [OF assms(1)] Some in \<open>simp add: Serve_turn_def\<close>)
qed (use assms in \<open>simp add: Serve_turn_def\<close>)

text \<open>A goroutine that ends has closed its connection or given it away.\<close>

lemma inv_go_exit:
  assumes "lifecycle_inv s" "c \<in> sv_closed_conns s \<or> c \<in> sv_dispatched s" "\<forall>cs. sv_conns s = Some cs \<longrightarrow> c \<notin> cs"
  shows "lifecycle_inv (go_exit c s)"
proof (rule lifecycle_invI)
  fix x
  assume "x \<in> sv_accepted (go_exit c s)"
  then show "conn_kept (go_exit c s) x" using lifecycle_invD(2) [OF assms(1)] assms(2) by (auto simp: go_exit_def conn_kept_def)
qed (use assms in \<open>auto simp: go_exit_def lifecycle_inv_def lis_kept_def\<close>)

lemma inv_close [simp]: "lifecycle_inv s \<Longrightarrow> lifecycle_inv (close_conns cs s)" "lifecycle_inv s \<Longrightarrow> lifecycle_inv (close_lis ls s)"
  "lifecycle_inv s \<Longrightarrow> lifecycle_inv (s\<lparr>sv_dispatched := insert c (sv_dispatched s)\<rparr>)"
  by (auto simp: server_defs lifecycle_inv_def lis_kept_def conn_kept_def)

lemma inv_handleRawConn:
  assumes "lifecycle_inv s" "sv_handling s c = Some Raw"
  shows "lifecycle_inv (handleRawConn creds c s)"
proof -
  have "\<forall>cs. sv_conns s = Some cs \<longrightarrow> c \<notin> cs" using assms by (auto dest: lifecycle_invD(4))
  then have "lifecycle_inv (go_exit c (close_conns {c} s))" "lifecycle_inv (go_exit c (s\<lparr>sv_dispatched := insert c (sv_dispatched s)\<rparr>))"
    using assms(1) by (intro inv_go_exit inv_close; auto simp: close_conns_def)+
  moreover have "lifecycle_inv (s\<lparr>sv_handling := (sv_handling s)(c \<mapsto> Creating)\<rparr>)" using assms by (auto simp: lifecycle_inv_def lis_kept_def conn_kept_def)
  ultimately show ?thesis by (auto simp: handleRawConn_def split: handshake.split)
qed

lemma inv_serveHTTP2Transport:
  assumes "lifecycle_inv s" "sv_handling s c = Some Creating"
  shows "lifecycle_inv (serveHTTP2Transport created c s)"
proof -
  have "\<forall>cs. sv_conns s = Some cs \<longrightarrow> c \<notin> cs" using assms by (auto dest: lifecycle_invD(4))
  then have "lifecycle_inv (go_exit c (close_conns {c} s))" using assms(1) by (intro inv_go_exit inv_close) (auto simp: close_conns_def)
  moreover have "lifecycle_inv (s\<lparr>sv_conns := Some (insert c cs), sv_handling := (sv_handling s)(c \<mapsto> Serving)\<rparr>)" if "sv_conns s = Some cs" for cs
    using assms that by (auto simp: lifecycle_inv_def lis_kept_def conn_kept_def)
  ultimately show ?thesis by (auto simp: serveHTTP2Transport_def addConn_def split: option.split)
qed

lemma inv_removeConn:
  assumes "lifecycle_inv s" "c \<in> sv_closed_conns s"
  shows "lifecycle_inv (removeConn c s)"
  using assms by (cases "sv_conns s") (auto simp: removeConn_def cv_broadcast_def lifecycle_inv_def lis_kept_def conn_kept_def)

lemma inv_serveStreams_exit:
  assumes "lifecycle_inv s"
  shows "lifecycle_inv (serveStreams_exit c s)"
proof -
  have "lifecycle_inv (removeConn c (close_conns {c} s))" by (rule inv_removeConn [OF inv_close(1) [OF assms]]) (simp add: close_conns_def)
  then show ?thesis unfolding serveStreams_exit_def
    by (rule inv_go_exit) (auto simp: removeConn_def close_conns_def cv_broadcast_def split: option.splits)
qed

lemma inv_Stop_take: "lifecycle_inv s \<Longrightarrow> lifecycle_inv (Stop_take s)"
  by (auto simp: Stop_take_def cv_broadcast_def lifecycle_inv_def lis_kept_def conn_kept_def split: option.splits)

lemma stops_split: "i < length xs \<Longrightarrow> set xs = insert (xs ! i) (set (take i xs @ drop (Suc i) xs))"
  using id_take_nth_drop [of i xs] by (metis list.simps(15) set_append Un_insert_right)

lemma inv_Stop_close:
  assumes "lifecycle_inv s" "i < length (sv_stops s)"
  shows "lifecycle_inv (Stop_close i s)"
proof -
  obtain ls cs where x: "sv_stops s ! i = (ls, cs)" by fastforce
  have "set (sv_stops s) = insert (ls, cs) (set (take i (sv_stops s) @ drop (Suc i) (sv_stops s)))" using stops_split [OF assms(2)] x by simp
  then show ?thesis using assms(1) by (auto simp: Stop_close_def x server_defs lifecycle_inv_def lis_kept_def conn_kept_def)
qed

lemma len_conns_0: "lifecycle_inv s \<Longrightarrow> len_conns s = 0 \<longleftrightarrow> (\<forall>cs. sv_conns s = Some cs \<longrightarrow> cs = {})"
  using lifecycle_invD(3) by (auto simp: len_conns_def split: option.split)

lemma inv_GracefulStop_loop:
  assumes "lifecycle_inv s" "sv_drain s"
  shows "lifecycle_inv (GracefulStop_loop s)"
proof (cases "len_conns s = 0")
  case True
  with len_conns_0 [OF assms(1)] have none: "sv_conns s = Some cs \<Longrightarrow> cs = {}" for cs by blast
  show ?thesis unfolding GracefulStop_loop_def using True
  proof (simp, intro lifecycle_invI)
    show "conn_kept (s\<lparr>sv_conns := None\<rparr>) c" if "c \<in> sv_accepted (s\<lparr>sv_conns := None\<rparr>)" for c
      using lifecycle_invD(2) [OF assms(1), of c] that none by (auto simp: conn_kept_def)
    show "lis_kept (s\<lparr>sv_conns := None\<rparr>) l" if "l \<in> sv_served (s\<lparr>sv_conns := None\<rparr>)" for l
      using lifecycle_invD(1) [OF assms(1), of l] that by (simp add: lis_kept_def)
    show "\<exists>cs. sv_conns (s\<lparr>sv_conns := None\<rparr>) = Some cs \<and> cs \<noteq> {}" if "0 < sv_asleep (s\<lparr>sv_conns := None\<rparr>)"
      using lifecycle_invD(10) [OF assms(1)] that none by auto
  qed (use assms in \<open>auto simp: lifecycle_inv_def\<close>)
next
  case False
  then have "\<exists>cs. sv_conns s = Some cs \<and> cs \<noteq> {}" using len_conns_0 [OF assms(1)] by simp
  with False assms show ?thesis by (auto simp: GracefulStop_loop_def lifecycle_inv_def lis_kept_def conn_kept_def)
qed

lemma inv_GracefulStop:
  assumes "lifecycle_inv s"
  shows "lifecycle_inv (GracefulStop s)"
proof (cases "sv_conns s")
  case None
  with assms show ?thesis by (simp add: GracefulStop_def)
next
  case (Some cs)
  let ?t = "(close_lis (case sv_lis s of None \<Rightarrow> {} | Some ls \<Rightarrow> ls) s)\<lparr>sv_lis := None, sv_done := True\<rparr>"
  let ?u = "if \<not> sv_drain ?t then ?t\<lparr>sv_drained := sv_drained ?t \<union> cs, sv_drain := True\<rparr> else ?t"
  have "lifecycle_inv ?t"
    using assms Some by (cases "sv_lis s") (auto simp: server_defs lifecycle_inv_def lis_kept_def conn_kept_def)
  then have "lifecycle_inv ?u" by (simp add: lifecycle_inv_def lis_kept_def conn_kept_def)
  then have "lifecycle_inv (GracefulStop_loop ?u)" by (rule inv_GracefulStop_loop) simp
  then show ?thesis by (simp only: GracefulStop_def Some Let_def option.case)
qed

lemma inv_GracefulStop_wake:
  assumes "lifecycle_inv s" "GracefulStop_wake s = Some s'"
  shows "lifecycle_inv s'"
proof -
  have s': "s' = GracefulStop_loop (s\<lparr>sv_awake := sv_awake s - 1\<rparr>)" "sv_awake s > 0"
    using assms(2) by (auto simp: GracefulStop_wake_def split: if_splits)
  then have "sv_drain s" using lifecycle_invD(8) [OF assms(1)] by simp
  with assms(1) show ?thesis unfolding s'(1)
    by (intro inv_GracefulStop_loop) (auto simp: lifecycle_inv_def lis_kept_def conn_kept_def)
qed

lemma server_reaches_inv: "server_reaches creds s \<Longrightarrow> lifecycle_inv s"
proof (induction rule: rtranclp_induct)
  case base
  then show ?case by (simp add: NewServer_def lifecycle_inv_def)
next
  case (step s s')
  from step(2,3) show ?case
    by cases (auto intro: inv_Serve_enter inv_Serve_turn inv_handleRawConn inv_serveHTTP2Transport inv_serveStreams_exit inv_Stop_take inv_Stop_close
        inv_GracefulStop inv_GracefulStop_wake)
qed

section \<open>Properties of a stopped server\<close>

text \<open>C21: a stopped server keeps nothing open. Once \<open>Stop\<close> or \<open>GracefulStop\<close> has taken the maps and no \<open>Stop\<close> is still closing,
  every listener that was ever given to \<open>Serve\<close> is closed, and so is every accepted connection, except those a handshake gave
  away and those whose goroutine has not looked at the maps yet: the next step of such a goroutine closes its connection, unless
  the handshake gives it away. The delay after a failed \<open>Accept\<close> is between 5 ms and 1 s throughout.\<close>

theorem stopped_server_closed:
  assumes "server_reaches creds s"
  shows "(\<forall>l d. sv_accepting s l = Some d \<longrightarrow> d = 0 \<or> 5 * 10 ^ 6 \<le> d \<and> d \<le> 10 ^ 9) \<and>
    (sv_conns s = None \<and> sv_stops s = [] \<longrightarrow>
      sv_served s \<subseteq> sv_closed_lis s \<and>
      (\<forall>c\<in>sv_accepted s. c \<in> sv_closed_conns s \<or> c \<in> sv_dispatched s \<or>
         (sv_handling s c = Some Raw \<and> (c \<in> sv_closed_conns (handleRawConn creds c s) \<or> c \<in> sv_dispatched (handleRawConn creds c s)) \<and> sv_handling (handleRawConn creds c s) c = None) \<or>
         (sv_handling s c = Some Creating \<and> (\<forall>created. c \<in> sv_closed_conns (serveHTTP2Transport created c s) \<and> sv_handling (serveHTTP2Transport created c s) c = None))))"
proof -
  have inv: "lifecycle_inv s" using assms by (rule server_reaches_inv)
  have raw: "(c \<in> sv_closed_conns (handleRawConn creds c s) \<or> c \<in> sv_dispatched (handleRawConn creds c s)) \<and> sv_handling (handleRawConn creds c s) c = None"
    "c \<in> sv_closed_conns (serveHTTP2Transport created c s) \<and> sv_handling (serveHTTP2Transport created c s) c = None"
    if "sv_conns s = None" for c created
    using that by (auto simp: handleRawConn_def serveHTTP2Transport_def addConn_def server_defs split: handshake.split)
  have "sv_served s \<subseteq> sv_closed_lis s" if "sv_conns s = None" "sv_stops s = []"
    using that lifecycle_invD(1,5) [OF inv] by (fastforce simp: lis_kept_def)
  moreover have "c \<in> sv_closed_conns s \<or> c \<in> sv_dispatched s \<or> sv_handling s c = Some Raw \<or> sv_handling s c = Some Creating"
    if "sv_conns s = None" "sv_stops s = []" "c \<in> sv_accepted s" for c
    using that lifecycle_invD(2) [OF inv that(3)] by (auto simp: conn_kept_def)
  ultimately show ?thesis using raw lifecycle_invD(7) [OF inv] by metis
qed

text \<open>Two connections on one listener, one of them in service when \<open>Stop\<close> comes, the other just accepted.\<close>

definition in_service :: Server where
  "in_service = serveHTTP2Transport True 1 (handleRawConn None 1
     (fst (Serve_turn 7 (Accepted 2) (fst (Serve_turn 7 (Accepted 1) (fst (Serve_enter 7 NewServer)))))))"

lemmas in_service_defs = in_service_def NewServer_def Serve_enter_def Serve_turn_def handleRawConn_def useTransportAuthenticator_def serveHTTP2Transport_def addConn_def

lemma in_service_reached: "server_reaches None in_service"
proof -
  let ?a = "fst (Serve_enter 7 NewServer)"
  let ?b = "fst (Serve_turn 7 (Accepted 1) ?a)"
  let ?c = "fst (Serve_turn 7 (Accepted 2) ?b)"
  let ?d = "handleRawConn None 1 ?c"
  have "server_reaches None ?a" by (intro r_into_rtranclp Serve) (simp add: NewServer_def)
  then have "server_reaches None ?b" by (rule rtranclp.rtrancl_into_rtrancl) (rule Accept, simp add: in_service_defs)
  then have "server_reaches None ?c" by (rule rtranclp.rtrancl_into_rtrancl) (rule Accept, simp add: in_service_defs)
  then have "server_reaches None ?d" by (rule rtranclp.rtrancl_into_rtrancl) (rule RawConn, simp add: in_service_defs)
  then show ?thesis unfolding in_service_def by (rule rtranclp.rtrancl_into_rtrancl) (rule Transport, simp add: in_service_defs)
qed

definition stopped_early :: Server where
  "stopped_early = Stop_close 0 (Stop_take in_service)"

lemma stopped_early_reached: "server_reaches None stopped_early"
proof -
  have "server_reaches None (Stop_take in_service)" using in_service_reached by (rule rtranclp.rtrancl_into_rtrancl) (rule server_step.Stop)
  then show ?thesis unfolding stopped_early_def by (rule rtranclp.rtrancl_into_rtrancl) (rule StopClose, simp add: Stop_take_def cv_broadcast_def)
qed

theorem stopped_server_closed_witness:
  "server_reaches None stopped_early \<and> sv_closed_lis stopped_early = {7} \<and> sv_closed_conns stopped_early = {1} \<and> sv_handling stopped_early 2 = Some Raw \<and>
    2 \<in> sv_closed_conns (handleRawConn None 2 stopped_early)"
proof -
  have "sv_conns stopped_early = None" "sv_stops stopped_early = []" "sv_closed_lis stopped_early = {7}" "sv_closed_conns stopped_early = {1}"
    "sv_handling stopped_early 2 = Some Raw" "sv_dispatched (handleRawConn None 2 stopped_early) = {}" "sv_dispatched stopped_early = {}" "2 \<in> sv_accepted stopped_early"
    by (simp_all add: stopped_early_def in_service_defs Stop_take_def Stop_close_def server_defs)
  then show ?thesis using stopped_server_closed [OF stopped_early_reached] stopped_early_reached by auto
qed

text \<open>As long as there is a map, it holds every connection in service.\<close>

lemma serving_in_map:
  "server_reaches creds s \<Longrightarrow> sv_conns s = Some cs \<Longrightarrow> sv_handling s c = Some Serving \<Longrightarrow> c \<in> cs"
proof (induction arbitrary: cs c rule: rtranclp_induct)
  case (step s s')
  from step(2,4,5) step.IH show ?case
    by cases (auto simp: Serve_enter_def Serve_turn_def Serve_exit_def Let_def handleRawConn_def serveHTTP2Transport_def addConn_def
        serveStreams_exit_def removeConn_def Stop_take_def Stop_close_def GracefulStop_def GracefulStop_loop_def GracefulStop_wake_def server_defs
        split: option.splits accept_result.splits handshake.splits prod.splits if_splits)
qed (simp add: NewServer_def)

text \<open>What a step does to a call of \<open>GracefulStop\<close> that waits.\<close>

lemma step_len_conns:
  assumes "lifecycle_inv s" "sv_drain s" "server_step creds s s'"
  shows "len_conns s' \<le> len_conns s"
  using assms(3)
proof cases
  case (Streams c)
  then show ?thesis using lifecycle_invD(3) [OF assms(1)]
    by (auto simp: serveStreams_exit_def removeConn_def len_conns_def server_defs split: option.split intro: card_mono)
qed (use assms(2) lifecycle_invD(9) [OF assms(1)] in \<open>auto simp: Serve_enter_def Serve_turn_def Serve_exit_def Let_def handleRawConn_def
    serveHTTP2Transport_def addConn_def Stop_take_def Stop_close_def GracefulStop_def GracefulStop_loop_def GracefulStop_wake_def len_conns_def
    server_defs split: option.splits accept_result.splits handshake.splits prod.splits if_splits\<close>)

lemma conn_end:
  assumes "lifecycle_inv s" "sv_conns s = Some cs" "c \<in> cs"
  shows "len_conns (serveStreams_exit c s) < len_conns s" "sv_asleep (serveStreams_exit c s) = 0"
    "sv_awake (serveStreams_exit c s) = sv_asleep s + sv_awake s"
  using assms(2,3) lifecycle_invD(3) [OF assms(1,2)] card_Diff1_less [of cs c]
  by (simp_all add: serveStreams_exit_def removeConn_def len_conns_def server_defs del: card_Diff_insert)

lemma all_ended:
  assumes "lifecycle_inv s" "len_conns s = 0"
  shows "sv_asleep s = 0"
    and "sv_awake s > 0 \<Longrightarrow> GracefulStop_wake s = Some (s\<lparr>sv_conns := None, sv_awake := sv_awake s - 1\<rparr>)"
proof -
  show "sv_asleep s = 0" using lifecycle_invD(10) [OF assms(1)] len_conns_0 [OF assms(1)] assms(2) by auto
  show "GracefulStop_wake s = Some (s\<lparr>sv_conns := None, sv_awake := sv_awake s - 1\<rparr>)" if "sv_awake s > 0"
    using that assms(2) by (simp add: GracefulStop_wake_def GracefulStop_loop_def len_conns_def)
qed

lemma waiters_return:
  assumes "lifecycle_inv s" "len_conns s = 0" "sv_awake s > 0"
  shows "\<exists>s'. (server_step creds)\<^sup>*\<^sup>* s s' \<and> sv_conns s' = None \<and> sv_asleep s' = 0 \<and> sv_awake s' = 0"
  using assms
proof (induction "sv_awake s" arbitrary: s)
  case (Suc k)
  let ?s = "s\<lparr>sv_conns := None, sv_awake := sv_awake s - 1\<rparr>"
  have wake: "GracefulStop_wake s = Some ?s" using all_ended(2) [OF Suc.prems] .
  then have inv: "lifecycle_inv ?s" by (rule inv_GracefulStop_wake [OF Suc.prems(1)])
  have zero: "len_conns ?s = 0" by (simp add: len_conns_def)
  from wake have step: "server_step creds s ?s" by (rule GracefulWake)
  show ?case
  proof (cases "sv_awake ?s = 0")
    case True
    with step all_ended(1) [OF inv zero] show ?thesis by (intro exI [of _ ?s]) simp
  next
    case False
    have "k = sv_awake ?s" using Suc.hyps(2) by simp
    from Suc.hyps(1) [OF this inv zero] False obtain s' where
      "(server_step creds)\<^sup>*\<^sup>* ?s s'" "sv_conns s' = None" "sv_asleep s' = 0" "sv_awake s' = 0" by blast
    with step show ?thesis by (meson converse_rtranclp_into_rtranclp)
  qed
qed simp

lemma graceful_stop_can_end:
  assumes "lifecycle_inv s" "sv_asleep s + sv_awake s > 0"
  shows "\<exists>s'. (server_step creds)\<^sup>*\<^sup>* s s' \<and> sv_conns s' = None \<and> sv_asleep s' = 0 \<and> sv_awake s' = 0"
  using assms
proof (induction "len_conns s" arbitrary: s rule: less_induct)
  case less
  show ?case
  proof (cases "len_conns s = 0")
    case True
    with less.prems all_ended(1) show ?thesis by (intro waiters_return) simp_all
  next
    case False
    then obtain cs c where c: "sv_conns s = Some cs" "c \<in> cs" using len_conns_0 [OF less.prems(1)] by auto
    then have "sv_handling s c = Some Serving" using lifecycle_invD(4) [OF less.prems(1)] by blast
    then have step: "server_step creds s (serveStreams_exit c s)" by (rule Streams)
    have waits: "sv_asleep (serveStreams_exit c s) + sv_awake (serveStreams_exit c s) > 0"
      using conn_end(2,3) [OF less.prems(1) c] less.prems(2) by simp
    obtain s' where "(server_step creds)\<^sup>*\<^sup>* (serveStreams_exit c s) s'" "sv_conns s' = None" "sv_asleep s' = 0" "sv_awake s' = 0"
      using less.hyps [OF conn_end(1) [OF less.prems(1) c] inv_serveStreams_exit [OF less.prems(1)] waits] by blast
    with step show ?thesis by (meson converse_rtranclp_into_rtranclp)
  qed
qed

text \<open>C22: a \<open>GracefulStop\<close> ends. While calls of it wait, asleep in \<open>cv.Wait\<close> or woken and not yet back, no connection is added, no
  listener is open to \<open>Serve\<close>, no step of any goroutine adds to the map, and the map holds exactly the connections in service. The end of each of them takes it out of
  the map and wakes every call that sleeps, and so does \<open>Stop\<close>; once none is left, no call sleeps, and the next step of each woken
  call returns. So no wake-up is lost: from every such state the calls can all return, with the map \<open>nil\<close>.\<close>

theorem graceful_stop_ends:
  assumes "server_reaches creds s" "sv_asleep s + sv_awake s > 0"
  shows "sv_lis s = None \<and> (\<forall>c. addConn c s = (s, False)) \<and>
    (\<forall>s'. server_step creds s s' \<longrightarrow> len_conns s' \<le> len_conns s) \<and>
    (\<forall>cs. sv_conns s = Some cs \<longrightarrow> cs = {c. sv_handling s c = Some Serving}) \<and>
    (\<forall>cs c. sv_conns s = Some cs \<and> c \<in> cs \<longrightarrow> len_conns (serveStreams_exit c s) < len_conns s \<and>
       sv_asleep (serveStreams_exit c s) = 0 \<and> sv_awake (serveStreams_exit c s) = sv_asleep s + sv_awake s) \<and>
    sv_asleep (Stop_take s) = 0 \<and> sv_awake (Stop_take s) = sv_asleep s + sv_awake s \<and> len_conns (Stop_take s) = 0 \<and>
    (len_conns s = 0 \<longrightarrow> sv_asleep s = 0 \<and>
       (\<exists>s'. GracefulStop_wake s = Some s' \<and> sv_conns s' = None \<and> sv_asleep s' = 0 \<and> Suc (sv_awake s') = sv_awake s)) \<and>
    (\<exists>s'. (server_step creds)\<^sup>*\<^sup>* s s' \<and> sv_conns s' = None \<and> sv_asleep s' = 0 \<and> sv_awake s' = 0)"
proof -
  have inv: "lifecycle_inv s" using assms(1) by (rule server_reaches_inv)
  have drain: "sv_drain s" by (rule lifecycle_invD(8) [OF inv assms(2)])
  then have "addConn c s = (s, False)" for c by (simp add: addConn_def split: option.split)
  moreover have "sv_asleep s = 0 \<and> (\<exists>s'. GracefulStop_wake s = Some s' \<and> sv_conns s' = None \<and> sv_asleep s' = 0 \<and> Suc (sv_awake s') = sv_awake s)"
    if "len_conns s = 0"
    using all_ended [OF inv that] assms(2) by simp
  moreover have "sv_asleep (Stop_take s) = 0" "sv_awake (Stop_take s) = sv_asleep s + sv_awake s" "len_conns (Stop_take s) = 0"
    by (simp_all add: Stop_take_def cv_broadcast_def len_conns_def)
  moreover have "cs = {c. sv_handling s c = Some Serving}" if "sv_conns s = Some cs" for cs
    using lifecycle_invD(4) [OF inv that] serving_in_map [OF assms(1) that] by blast
  moreover have "sv_lis s = None" by (rule lifecycle_invD(9) [OF inv drain])
  ultimately show ?thesis
    using step_len_conns [OF inv drain] conn_end [OF inv] graceful_stop_can_end [OF inv assms(2)]
    by (intro conjI allI impI; (elim conjE)?; (simp; fail | blast))
qed

text \<open>A \<open>GracefulStop\<close> sleeps while the connection in service is open, and is woken by its end.\<close>

definition draining_one :: Server where
  "draining_one = serveStreams_exit 1 (GracefulStop in_service)"

theorem graceful_stop_ends_witness:
  "sv_asleep (GracefulStop in_service) = 1 \<and> server_reaches None draining_one \<and> sv_drained draining_one = {1} \<and>
    sv_handling draining_one 2 = Some Raw \<and> (\<exists>s'. GracefulStop_wake draining_one = Some s' \<and> sv_conns s' = None)"
proof -
  have "server_reaches None (GracefulStop in_service)" using in_service_reached by (rule rtranclp.rtrancl_into_rtrancl) (rule Graceful)
  then have r: "server_reaches None draining_one" unfolding draining_one_def
    by (rule rtranclp.rtrancl_into_rtrancl) (rule Streams, simp add: GracefulStop_def GracefulStop_loop_def in_service_defs server_defs len_conns_def)
  note run = draining_one_def serveStreams_exit_def removeConn_def GracefulStop_def GracefulStop_loop_def in_service_defs server_defs len_conns_def
  have d: "sv_asleep draining_one + sv_awake draining_one > 0" "sv_drained draining_one = {1}" "sv_handling draining_one 2 = Some Raw"
    "len_conns draining_one = 0" "sv_asleep (GracefulStop in_service) = 1"
    by (simp_all add: run)
  show ?thesis using graceful_stop_ends [OF r d(1)] r d by blast
qed

end
