(* ===== verification/GrpcControl.thy ===== *)
theory GrpcControl
  imports Prelude
begin

text \<open>
  Flow control and message buffers of the gRPC transport the service runs on: \<open>control.go\<close> and the receive
  buffers of \<open>transport.go\<close> in \<open>google.golang.org/grpc/transport\<close>. Every method holds the mutex of its
  object, so a run is a sequence of calls; a channel of capacity one is an option.
\<close>

section \<open>Status codes\<close>

text \<open>\<open>codes.Code\<close> (\<open>codes/codes.go\<close>), in the order of the values.\<close>

datatype code = OK | Canceled | Unknown | InvalidArgument | DeadlineExceeded | NotFound | AlreadyExists | PermissionDenied
  | ResourceExhausted | FailedPrecondition | Aborted | OutOfRange | Unimplemented | Internal | Unavailable | DataLoss | Unauthenticated

section \<open>Outbound quota\<close>

text \<open>\<open>quotaPool\<close>: the channel \<open>c\<close> and the quota that is not on it. Go's \<open>int\<close> has 64 bits here and the quotas
  are sums of 32-bit increments, so they are written as \<open>int\<close>.\<close>

record quotaPool =
  qp_c :: "int option"
  qp_quota :: int

definition newQuotaPool :: "int \<Rightarrow> quotaPool" where
  "newQuotaPool q = (if q > 0 then \<lparr>qp_c = Some q, qp_quota = 0\<rparr> else \<lparr>qp_c = None, qp_quota = q\<rparr>)"

definition quota_add :: "int \<Rightarrow> quotaPool \<Rightarrow> quotaPool" where
  "quota_add v qb =
     (let qb = (case qp_c qb of Some n \<Rightarrow> qb\<lparr>qp_c := None, qp_quota := qp_quota qb + n\<rparr> | None \<Rightarrow> qb);
          qb = qb\<lparr>qp_quota := qp_quota qb + v\<rparr> in
      if qp_quota qb \<le> 0 then qb
      else (case qp_c qb of None \<Rightarrow> qb\<lparr>qp_c := Some (qp_quota qb), qp_quota := 0\<rparr> | Some _ \<Rightarrow> qb))"

text \<open>A receive from the channel \<open>acquire()\<close> returns; without a value it waits.\<close>

definition quota_acquire :: "quotaPool \<Rightarrow> (int \<times> quotaPool) option" where
  "quota_acquire qb = (case qp_c qb of None \<Rightarrow> None | Some n \<Rightarrow> Some (n, qb\<lparr>qp_c := None\<rparr>))"

section \<open>Inbound flow control\<close>

record inFlow =
  fl_limit :: "32 word"
  pendingData :: "32 word"
  pendingUpdate :: "32 word"

definition newInFlow :: "32 word \<Rightarrow> inFlow" where
  "newInFlow limit = \<lparr>fl_limit = limit, pendingData = 0, pendingUpdate = 0\<rparr>"

text \<open>\<open>onData\<close>: the error carries the amount it names. The data are counted also when they exceed the limit.\<close>

definition onData :: "32 word \<Rightarrow> inFlow \<Rightarrow> inFlow \<times> 32 word option" where
  "onData n f =
     (let f = f\<lparr>pendingData := pendingData f + n\<rparr> in
      if pendingData f + pendingUpdate f > fl_limit f then (f, Some (pendingData f + pendingUpdate f)) else (f, None))"

definition onRead :: "32 word \<Rightarrow> inFlow \<Rightarrow> inFlow \<times> 32 word" where
  "onRead n f =
     (if pendingData f = 0 then (f, 0)
      else
        (let f = f\<lparr>pendingData := pendingData f - n, pendingUpdate := pendingUpdate f + n\<rparr> in
         if pendingUpdate f \<ge> fl_limit f div 4 then (f\<lparr>pendingUpdate := 0\<rparr>, pendingUpdate f) else (f, 0)))"

definition resetPendingData :: "inFlow \<Rightarrow> inFlow \<times> 32 word" where
  "resetPendingData f = (f\<lparr>pendingData := 0\<rparr>, pendingData f)"

section \<open>The unbounded channel\<close>

record 'a recvBuffer =
  rb_c :: "'a option"
  rb_backlog :: "'a list"

definition newRecvBuffer :: "'a recvBuffer" where
  "newRecvBuffer = \<lparr>rb_c = None, rb_backlog = []\<rparr>"

definition rb_put :: "'a \<Rightarrow> 'a recvBuffer \<Rightarrow> 'a recvBuffer" where
  "rb_put r b =
     (if rb_backlog b = [] \<and> rb_c b = None then b\<lparr>rb_c := Some r\<rparr> else b\<lparr>rb_backlog := rb_backlog b @ [r]\<rparr>)"

definition rb_load :: "'a recvBuffer \<Rightarrow> 'a recvBuffer" where
  "rb_load b =
     (case rb_backlog b of
        [] \<Rightarrow> b
      | x # xs \<Rightarrow> (if rb_c b = None then b\<lparr>rb_c := Some x, rb_backlog := xs\<rparr> else b))"

text \<open>A receive from the channel \<open>get()\<close> returns.\<close>

definition rb_receive :: "'a recvBuffer \<Rightarrow> ('a \<times> 'a recvBuffer) option" where
  "rb_receive b = (case rb_c b of None \<Rightarrow> None | Some x \<Rightarrow> Some (x, b\<lparr>rb_c := None\<rparr>))"

section \<open>The reader of a stream\<close>

datatype recv_err = RecvEOF | RecvUnexpectedEOF | CtxDeadline | CtxCanceled | ErrStreamDrain | TransportErr string

record recvMsg =
  m_data :: bytes
  m_err :: "recv_err option"

text \<open>\<open>last\<close> is the unread part of the \<open>bytes.Reader\<close>; the context is done with an error or not.\<close>

record recvBufferReader =
  rr_ctx :: "recv_err option"
  rr_goAway :: bool
  rr_recv :: "recvMsg recvBuffer"
  rr_last :: "bytes option"
  rr_err :: "recv_err option"

datatype select_choice = SelCtx | SelGoAway | SelRecv

text \<open>\<open>Read\<close> into a slice of length \<open>n\<close>. \<open>sel\<close> is the case the \<open>select\<close> statement takes; the result is \<open>None\<close>
  when that case is not ready and the call waits. Every return records its error in \<open>err\<close>.\<close>

definition bytes_Reader_Read :: "nat \<Rightarrow> bytes \<Rightarrow> bytes \<times> bytes \<times> recv_err option" where
  "bytes_Reader_Read n s = (if s = [] then ([], [], Some RecvEOF) else (drop n s, take n s, None))"

definition reader_Read :: "select_choice \<Rightarrow> nat \<Rightarrow> recvBufferReader \<Rightarrow> (recvBufferReader \<times> bytes \<times> recv_err option) option" where
  "reader_Read sel n r =
     (case rr_err r of
        Some e \<Rightarrow> Some (r, [], Some e)
      | None \<Rightarrow>
        (case rr_last r of
           Some (b # bs) \<Rightarrow> (case bytes_Reader_Read n (b # bs) of (rest, d, e) \<Rightarrow> Some (r\<lparr>rr_last := Some rest, rr_err := e\<rparr>, d, e))
         | _ \<Rightarrow>
           (case sel of
              SelCtx \<Rightarrow> (case rr_ctx r of None \<Rightarrow> None | Some e \<Rightarrow> Some (r\<lparr>rr_err := Some e\<rparr>, [], Some e))
            | SelGoAway \<Rightarrow> (if rr_goAway r then Some (r\<lparr>rr_err := Some ErrStreamDrain\<rparr>, [], Some ErrStreamDrain) else None)
            | SelRecv \<Rightarrow>
              (case rb_receive (rr_recv r) of
                 None \<Rightarrow> None
               | Some (m, rb) \<Rightarrow>
                 (let r = r\<lparr>rr_recv := rb_load rb\<rparr> in
                  case m_err m of
                    Some e \<Rightarrow> Some (r\<lparr>rr_err := Some e\<rparr>, [], Some e)
                  | None \<Rightarrow> (case bytes_Reader_Read n (m_data m) of
                      (rest, d, e) \<Rightarrow> Some (r\<lparr>rr_last := Some rest, rr_err := e\<rparr>, d, e)))))))"

section \<open>Quota is neither lost nor made\<close>

definition quota_total :: "quotaPool \<Rightarrow> int" where
  "quota_total qb = qp_quota qb + (case qp_c qb of None \<Rightarrow> 0 | Some n \<Rightarrow> n)"

definition quota_inv :: "quotaPool \<Rightarrow> bool" where
  "quota_inv qb \<longleftrightarrow> (case qp_c qb of None \<Rightarrow> qp_quota qb \<le> 0 | Some n \<Rightarrow> n > 0 \<and> qp_quota qb = 0)"

lemma newQuotaPool_inv [simp]: "quota_inv (newQuotaPool q)" "quota_total (newQuotaPool q) = q"
  by (simp_all add: quota_inv_def quota_total_def newQuotaPool_def)

lemma quota_add_inv [simp]:
  assumes "quota_inv qb"
  shows "quota_inv (quota_add v qb)" "quota_total (quota_add v qb) = quota_total qb + v"
  using assms by (cases "qp_c qb"; simp add: quota_inv_def quota_total_def quota_add_def Let_def)+

lemma quota_acquire_inv:
  assumes "quota_inv qb"
  shows "case quota_acquire qb of None \<Rightarrow> quota_total qb \<le> 0
    | Some (n, qb') \<Rightarrow> n = quota_total qb \<and> n > 0 \<and> quota_inv qb' \<and> quota_total qb' = 0"
  using assms by (auto simp: quota_inv_def quota_total_def quota_acquire_def split: option.splits)

section \<open>The inbound window\<close>

text \<open>
  A peer that starts with a window of \<open>limit\<close> bytes, spends it on the data it sends and is given the window
  updates that \<open>onRead\<close> returns. \<open>flow_runs limit f w\<close>: after some data and reads, none refused, the flow
  control is in state \<open>f\<close> and the peer has a window of \<open>w\<close> bytes.
\<close>

inductive flow_runs :: "32 word \<Rightarrow> inFlow \<Rightarrow> int \<Rightarrow> bool" for limit where
  start: "flow_runs limit (newInFlow limit) (uint limit)"
| data: "flow_runs limit f w \<Longrightarrow> unat n < 2 ^ 24 \<Longrightarrow> onData n f = (f', None) \<Longrightarrow> flow_runs limit f' (w - uint n)"
| read: "flow_runs limit f w \<Longrightarrow> n \<le> pendingData f \<Longrightarrow> onRead n f = (f', u) \<Longrightarrow> flow_runs limit f' (w + uint u)"

definition flow_inv :: "32 word \<Rightarrow> inFlow \<Rightarrow> int \<Rightarrow> bool" where
  "flow_inv limit f w \<longleftrightarrow> fl_limit f = limit \<and> w + uint (pendingData f) + uint (pendingUpdate f) = uint limit \<and> 0 \<le> w \<and>
     (pendingUpdate f = 0 \<or> pendingUpdate f < limit div 4)"

lemma uint_add32: "uint x + uint y < 4294967296 \<Longrightarrow> uint (x + y :: 32 word) = uint x + uint y"
  by (simp add: uint_word_ariths)

text \<open>The counters stay within the limit, so that their sums do not wrap around.\<close>

definition flow_ok :: "inFlow \<Rightarrow> bool" where
  "flow_ok f \<longleftrightarrow> uint (pendingData f) + uint (pendingUpdate f) \<le> uint (fl_limit f) \<and> uint (fl_limit f) < 2147483648"

lemma onData_ok:
  assumes "flow_ok f" "unat n < 2 ^ 24" "onData n f = (f', e)"
  shows "uint (pendingData f') = uint (pendingData f) + uint n" "fl_limit f' = fl_limit f" "pendingUpdate f' = pendingUpdate f"
    "e = None \<longleftrightarrow> flow_ok f'"
proof -
  have n: "uint n < 16777216"
  proof -
    have "int (unat n) < int 16777216" using assms(2) by (simp only: of_nat_less_iff) simp
    then show ?thesis by simp
  qed
  have b: "uint (pendingData f) + uint (pendingUpdate f) \<le> uint (fl_limit f)" "uint (fl_limit f) < 2147483648"
    using assms(1) by (simp_all add: flow_ok_def)
  have b0: "0 \<le> uint (pendingUpdate f)" "0 \<le> uint (pendingData f)" by simp_all
  have d: "uint (pendingData f + n) = uint (pendingData f) + uint n" using b b0 n by (intro uint_add32) linarith
  then have s: "uint (pendingData f + n + pendingUpdate f) = uint (pendingData f) + uint n + uint (pendingUpdate f)"
    using b b0 n uint_add32 [of "pendingData f + n" "pendingUpdate f"] by linarith
  show "uint (pendingData f') = uint (pendingData f) + uint n" "fl_limit f' = fl_limit f" "pendingUpdate f' = pendingUpdate f"
    using assms(3) d by (auto simp: onData_def Let_def split: if_splits)
  show "e = None \<longleftrightarrow> flow_ok f'"
    using assms(3) d s b by (auto simp: onData_def Let_def flow_ok_def word_less_def split: if_splits)
qed

lemma onRead_ok:
  assumes "flow_ok f" "n \<le> pendingData f" "onRead n f = (f', u)"
  shows "uint (pendingData f') = uint (pendingData f) - uint n" "fl_limit f' = fl_limit f" "flow_ok f'"
    "uint (pendingUpdate f') + uint u = uint (pendingUpdate f) + uint n"
    "pendingUpdate f' = 0 \<or> pendingUpdate f' = pendingUpdate f \<or> pendingUpdate f' < fl_limit f div 4"
proof -
  have n: "uint n \<le> uint (pendingData f)" using assms(2) by (simp add: word_le_def)
  have z: "pendingData f = 0 \<Longrightarrow> uint n = 0" using n by (simp add: antisym)
  have b: "uint (pendingData f) + uint (pendingUpdate f) \<le> uint (fl_limit f)" "uint (fl_limit f) < 2147483648"
    using assms(1) by (simp_all add: flow_ok_def)
  have d: "uint (pendingData f - n) = uint (pendingData f) - uint n" using n by (simp add: uint_sub_if_size)
  have u: "uint (pendingUpdate f + n) = uint (pendingUpdate f) + uint n" using b n by (intro uint_add32) linarith
  have l: "uint (pendingData f) - uint n \<le> uint (fl_limit f)" using b uint_ge_0 [of n] uint_ge_0 [of "pendingUpdate f"] by linarith
  show "uint (pendingData f') = uint (pendingData f) - uint n" "fl_limit f' = fl_limit f" "flow_ok f'"
    "uint (pendingUpdate f') + uint u = uint (pendingUpdate f) + uint n"
    "pendingUpdate f' = 0 \<or> pendingUpdate f' = pendingUpdate f \<or> pendingUpdate f' < fl_limit f div 4"
    using assms(1,3) d u n z b l by (auto simp: onRead_def Let_def flow_ok_def not_le split: if_splits)
qed

lemma flow_inv_ok: "flow_inv limit f w \<Longrightarrow> uint limit < 2 ^ 31 \<Longrightarrow> flow_ok f"
  by (auto simp: flow_inv_def flow_ok_def)

lemma onData_flow:
  assumes "flow_inv limit f w" "uint limit < 2 ^ 31" "unat n < 2 ^ 24"
  shows "case onData n f of (f', None) \<Rightarrow> uint n \<le> w \<and> flow_inv limit f' (w - uint n) | (f', Some a) \<Rightarrow> w < uint n"
proof (cases "onData n f")
  case (Pair f' e)
  note ok = onData_ok [OF flow_inv_ok [OF assms(1,2)] assms(3) Pair]
  show ?thesis using assms(1,2) ok unfolding Pair by (cases e) (auto simp: flow_inv_def flow_ok_def)
qed

lemma onRead_flow:
  assumes "flow_inv limit f w" "uint limit < 2 ^ 31" "n \<le> pendingData f" "onRead n f = (f', u)"
  shows "flow_inv limit f' (w + uint u)"
  using onRead_ok [OF flow_inv_ok [OF assms(1,2)] assms(3,4)] assms(1) by (auto simp: flow_inv_def)

lemma flow_runs_inv: "flow_runs limit f w \<Longrightarrow> uint limit < 2 ^ 31 \<Longrightarrow> flow_inv limit f w"
proof (induction rule: flow_runs.induct)
  case start
  then show ?case by (simp add: flow_inv_def newInFlow_def)
next
  case (data f w n f')
  then show ?case using onData_flow [of limit f w n] by simp
next
  case (read f w n f' u)
  then show ?case using onRead_flow [of limit f w n f' u] by simp
qed

section \<open>The unbounded channel is a queue\<close>

definition rb_content :: "'a recvBuffer \<Rightarrow> 'a list" where
  "rb_content b = (case rb_c b of None \<Rightarrow> [] | Some x \<Rightarrow> [x]) @ rb_backlog b"

lemma rb_put_content [simp]: "rb_content (rb_put x b) = rb_content b @ [x]"
  by (auto simp: rb_content_def rb_put_def split: option.split)

lemma rb_load_content [simp]: "rb_content (rb_load b) = rb_content b"
  by (auto simp: rb_content_def rb_load_def split: option.split list.split)

lemma rb_receive_content: "rb_receive b = Some (x, b') \<Longrightarrow> rb_content b = x # rb_content b'"
  by (auto simp: rb_content_def rb_receive_def split: option.splits)

text \<open>Between a receive and the \<open>load\<close> after it the channel may be empty with a backlog; otherwise it is not.\<close>

definition rb_settled :: "'a recvBuffer \<Rightarrow> bool" where
  "rb_settled b \<longleftrightarrow> rb_c b \<noteq> None \<or> rb_backlog b = []"

lemma rb_settled_simps [simp]: "rb_settled newRecvBuffer" "rb_settled (rb_load b)" "rb_settled b \<Longrightarrow> rb_settled (rb_put x b)"
  by (auto simp: rb_settled_def newRecvBuffer_def rb_load_def rb_put_def split: list.split)

lemma rb_content_new [simp]: "rb_content newRecvBuffer = []"
  by (simp add: rb_content_def newRecvBuffer_def)

lemma rb_receive_settled:
  "rb_settled b \<Longrightarrow> rb_receive b = (case rb_content b of [] \<Rightarrow> None | x # xs \<Rightarrow> Some (x, b\<lparr>rb_c := None\<rparr>))"
  by (auto simp: rb_settled_def rb_receive_def rb_content_def split: option.splits list.splits)

text \<open>A sequence of calls: what was put, and what was received.\<close>

datatype 'a rb_call = Put 'a | Receive | Load

fun rb_run :: "'a rb_call list \<Rightarrow> 'a recvBuffer \<Rightarrow> 'a list \<Rightarrow> 'a recvBuffer \<times> 'a list" where
  "rb_run [] b out = (b, out)"
| "rb_run (Put x # cs) b out = rb_run cs (rb_put x b) out"
| "rb_run (Load # cs) b out = rb_run cs (rb_load b) out"
| "rb_run (Receive # cs) b out =
     (case rb_receive b of None \<Rightarrow> rb_run cs b out | Some (x, b') \<Rightarrow> rb_run cs b' (out @ [x]))"

fun rb_puts :: "'a rb_call list \<Rightarrow> 'a list" where
  "rb_puts [] = []"
| "rb_puts (Put x # cs) = x # rb_puts cs"
| "rb_puts (c # cs) = rb_puts cs"

lemma rb_run_fifo: "rb_run cs b out = (b', out') \<Longrightarrow> out' @ rb_content b' = out @ rb_content b @ rb_puts cs"
  by (induction cs b out rule: rb_run.induct) (auto simp: rb_receive_content split: option.splits)

section \<open>The properties of flow control and buffers\<close>

text \<open>C29: the inbound window is enforced exactly: whatever data and reads came before, the window \<open>w\<close> that the peer has
  left is never negative and never exceeds the limit, and \<open>onData\<close> refuses a frame if and only if it is larger than
  \<open>w\<close>, without an overflow of the 32-bit counters; and once the application has read everything, the peer has more than three quarters of the
  limit again, so it is never starved.\<close>

theorem inbound_window_exact:
  assumes "flow_runs limit f w" "uint limit < 2 ^ 31"
  shows "0 \<le> w \<and> w \<le> uint limit \<and>
    (\<forall>n. unat n < 2 ^ 24 \<longrightarrow> (snd (onData n f) = None \<longleftrightarrow> uint n \<le> w)) \<and>
    (pendingData f = 0 \<longrightarrow> 4 * w > 3 * uint limit - 4)"
proof -
  have inv: "flow_inv limit f w" using assms by (rule flow_runs_inv)
  have "snd (onData n f) = None \<longleftrightarrow> uint n \<le> w" if "unat n < 2 ^ 24" for n
    using onData_flow [OF inv assms(2) that] by (auto split: prod.splits option.splits)
  moreover have "4 * w > 3 * uint limit - 4" if "pendingData f = 0"
  proof -
    have "w + uint (pendingUpdate f) = uint limit" "pendingUpdate f = 0 \<or> uint (pendingUpdate f) < uint limit div 4"
      using inv that by (auto simp: flow_inv_def word_less_def uint_div)
    then consider "w = uint limit" | "w + uint (pendingUpdate f) = uint limit" "uint (pendingUpdate f) < uint limit div 4" by auto
    then show ?thesis by cases (use uint_ge_0 [of limit] in linarith)+
  qed
  moreover have "0 \<le> w" "w \<le> uint limit"
    using inv uint_ge_0 [of "pendingData f"] uint_ge_0 [of "pendingUpdate f"] unfolding flow_inv_def by linarith+
  ultimately show ?thesis by blast
qed

theorem inbound_window_exact_witness:
  "snd (onData 60 (newInFlow 100)) = None \<and> snd (onData 40 (fst (onData 60 (newInFlow 100)))) = None \<and>
   snd (onData 41 (fst (onData 60 (newInFlow 100)))) \<noteq> None"
proof -
  have "onData 60 (newInFlow 100) = (fst (onData 60 (newInFlow 100)), None)" by (simp add: onData_def newInFlow_def Let_def)
  then have runs: "flow_runs 100 (fst (onData 60 (newInFlow 100))) (uint (100 :: 32 word) - uint (60 :: 32 word))"
    by (intro flow_runs.data [OF flow_runs.start]) simp_all
  have "\<forall>n. unat n < 2 ^ 24 \<longrightarrow> (snd (onData n (fst (onData 60 (newInFlow 100)))) = None \<longleftrightarrow> uint n \<le> uint (100 :: 32 word) - uint (60 :: 32 word))"
    using inbound_window_exact [OF runs] by simp
  from this [rule_format, of 40] this [rule_format, of 41] show ?thesis
    by (simp add: onData_def newInFlow_def Let_def)
qed

text \<open>The unbounded channel is a first-in first-out queue under every interleaving of \<open>put\<close>, \<open>load\<close> and
  receives: what was received followed by what is still held is exactly what was put, in order; and a buffer
  whose reader calls \<open>load\<close> after each receive never hides an item: a receive finds one unless all were taken.\<close>

theorem recv_buffer_fifo:
  "case rb_run calls newRecvBuffer [] of (b, out) \<Rightarrow>
     out @ rb_content b = rb_puts calls \<and> (rb_receive (rb_load b) = None \<longleftrightarrow> out = rb_puts calls)"
proof -
  obtain b out where run: "rb_run calls newRecvBuffer [] = (b, out)" by (cases "rb_run calls newRecvBuffer []")
  then have fifo: "out @ rb_content b = rb_puts calls" using rb_run_fifo [OF run] by simp
  moreover have "rb_receive (rb_load b) = None \<longleftrightarrow> rb_content b = []"
    using rb_receive_settled [of "rb_load b"] by (auto split: list.splits)
  ultimately show ?thesis using run by (auto simp flip: fifo)
qed

end
