(* ===== verification/GrpcMessage.thy ===== *)
theory GrpcMessage
  imports GrpcControl
begin

text \<open>
  Length-prefixed gRPC messages, \<open>rpc_util.go\<close> of \<open>google.golang.org/grpc\<close>: \<open>encode\<close>, the \<open>parser\<close> and \<open>recv\<close>.
  The parser reads from an \<open>io.Reader\<close>, whose contract is the locale \<open>byte_source\<close>; the reader of a stream's
  receive buffer interprets it. Codec and compressor are parameters.
\<close>

section \<open>Reading in full\<close>

datatype waiting = Waits

type_synonym 's reader = "nat \<Rightarrow> 's \<Rightarrow> ('s \<times> bytes \<times> recv_err option) option"

text \<open>The loop of \<open>io.ReadAtLeast\<close> with \<open>n\<close> bytes wanted; a call of \<open>Read\<close> that blocks makes it wait.\<close>

fun read_loop :: "'s reader \<Rightarrow> nat \<Rightarrow> nat \<Rightarrow> bytes \<Rightarrow> 's \<Rightarrow> (waiting, 's \<times> bytes \<times> recv_err option) res" where
  "read_loop rd 0 n got s = Stuck"
| "read_loop rd (Suc fuel) n got s =
     (if length got < n then
        (case rd (n - length got) s of
           None \<Rightarrow> Err Waits
         | Some (s, d, None) \<Rightarrow> read_loop rd fuel n (got @ d) s
         | Some (s, d, Some e) \<Rightarrow> Ok (s, got @ d, Some e))
      else Ok (s, got, None))"

definition io_ReadFull_from :: "'s reader \<Rightarrow> nat \<Rightarrow> 's \<Rightarrow> (waiting, 's \<times> bytes \<times> recv_err option) res" where
  "io_ReadFull_from rd n s =
     res_bind (read_loop rd (Suc n) n [] s) (\<lambda>(s, got, err).
       Ok (s, got, if length got \<ge> n then None
                   else if length got > 0 \<and> err = Some RecvEOF then Some RecvUnexpectedEOF else err))"

section \<open>Messages\<close>

datatype rpc_err = Recv recv_err | Status code | CodecErr string

definition compressionNone :: byte where "compressionNone = 0"
definition compressionMade :: byte where "compressionMade = 1"

text \<open>\<open>binary.BigEndian\<close>.\<close>

definition binary_Uint32 :: "bytes \<Rightarrow> 32 word" where
  "binary_Uint32 b = push_bit 24 (ucast (b ! 0)) OR push_bit 16 (ucast (b ! 1)) OR push_bit 8 (ucast (b ! 2)) OR ucast (b ! 3)"

definition binary_PutUint32 :: "32 word \<Rightarrow> bytes" where
  "binary_PutUint32 v = [ucast (drop_bit 24 v), ucast (drop_bit 16 v), ucast (drop_bit 8 v), ucast v]"

text \<open>\<open>encode\<close>: a nil message has length zero; the compressor, if there is one, replaces the marshalled bytes.\<close>

definition encode :: "('m \<Rightarrow> rpc_err + bytes) \<Rightarrow> 'm option \<Rightarrow> (bytes \<Rightarrow> rpc_err + bytes) option \<Rightarrow> (rpc_err, bytes) res" where
  "encode marshal msg cp =
     (case (case msg of
              None \<Rightarrow> Inr []
            | Some m \<Rightarrow>
              (case marshal m of
                 Inl e \<Rightarrow> Inl e
               | Inr b \<Rightarrow> (case cp of None \<Rightarrow> Inr b | Some c \<Rightarrow> c b))) of
        Inl e \<Rightarrow> Err e
      | Inr b \<Rightarrow>
        (if length b > 2 ^ 32 - 1 then Err (Status InvalidArgument)
         else Ok ([if cp = None then compressionNone else compressionMade] @ binary_PutUint32 (of_nat (length b)) @ b)))"

definition recvMsg_parse :: "'s reader \<Rightarrow> int \<Rightarrow> 's \<Rightarrow> (waiting, 's \<times> (rpc_err + byte \<times> bytes)) res" where
  "recvMsg_parse rd maxMsgSize s =
     res_bind (io_ReadFull_from rd 5 s) (\<lambda>(s, header, err).
     (case err of
        Some e \<Rightarrow> Ok (s, Inl (Recv e))
      | None \<Rightarrow>
        (let pf = header ! 0; len = binary_Uint32 (drop 1 header) in
         if len = 0 then Ok (s, Inr (pf, []))
         else if len > word_of_int maxMsgSize then Ok (s, Inl (Status Internal))
         else
           res_bind (io_ReadFull_from rd (unat len) s) (\<lambda>(s, msg, err).
           (case err of
              Some e \<Rightarrow> Ok (s, Inl (Recv (if e = RecvEOF then RecvUnexpectedEOF else e)))
            | None \<Rightarrow> Ok (s, Inr (pf, msg)))))))"

text \<open>A decompressor has a type, the name of its encoding.\<close>

type_synonym decompressor = "string \<times> (bytes \<Rightarrow> rpc_err + bytes)"

definition checkRecvPayload :: "byte \<Rightarrow> string \<Rightarrow> decompressor option \<Rightarrow> rpc_err option" where
  "checkRecvPayload pf recvCompress dc =
     (if pf = compressionNone then None
      else if pf = compressionMade then
        (if dc = None \<or> recvCompress \<noteq> fst (the dc) then Some (Status Unimplemented) else None)
      else Some (Status Internal))"

definition recv :: "'s reader \<Rightarrow> (bytes \<Rightarrow> rpc_err + 'm) \<Rightarrow> string \<Rightarrow> decompressor option \<Rightarrow> int \<Rightarrow> 's \<Rightarrow>
    (waiting, 's \<times> (rpc_err + 'm)) res" where
  "recv rd unmarshal recvCompress dc maxMsgSize s =
     res_bind (recvMsg_parse rd maxMsgSize s) (\<lambda>(s, r).
     (case r of
        Inl e \<Rightarrow> Ok (s, Inl e)
      | Inr (pf, d) \<Rightarrow>
        (case checkRecvPayload pf recvCompress dc of
           Some e \<Rightarrow> Ok (s, Inl e)
         | None \<Rightarrow>
           (case (if pf = compressionMade then (case snd (the dc) d of Inl _ \<Rightarrow> Inl (Status Internal) | Inr d \<Rightarrow> Inr d) else Inr d) of
              Inl e \<Rightarrow> Ok (s, Inl e)
            | Inr d \<Rightarrow>
              (if int (length d) > maxMsgSize then Ok (s, Inl (Status Internal))
               else (case unmarshal d of Inl _ \<Rightarrow> Ok (s, Inl (Status Internal)) | Inr m \<Rightarrow> Ok (s, Inr m)))))))"

text \<open>A receiver that calls \<open>recv\<close> until it is given an error.\<close>

fun recv_all :: "nat \<Rightarrow> 's reader \<Rightarrow> (bytes \<Rightarrow> rpc_err + 'm) \<Rightarrow> string \<Rightarrow> decompressor option \<Rightarrow> int \<Rightarrow> 's \<Rightarrow>
    (waiting, 'm list \<times> rpc_err) res" where
  "recv_all 0 rd unmarshal enc dc maxMsgSize s = Stuck"
| "recv_all (Suc fuel) rd unmarshal enc dc maxMsgSize s =
     res_bind (recv rd unmarshal enc dc maxMsgSize s) (\<lambda>(s, r).
       (case r of
          Inl e \<Rightarrow> Ok ([], e)
        | Inr m \<Rightarrow> res_bind (recv_all fuel rd unmarshal enc dc maxMsgSize s) (\<lambda>(ms, e). Ok (m # ms, e))))"

section \<open>What the parser needs of a reader\<close>

text \<open>What sender and receiver must agree on for a message: its bytes are unmarshalled to it, what the compressor
  makes of them is undone by the decompressor registered for the encoding, and both fit into the limit.\<close>

definition message_fits :: "('m \<Rightarrow> rpc_err + bytes) \<Rightarrow> (bytes \<Rightarrow> rpc_err + 'm) \<Rightarrow> (bytes \<Rightarrow> rpc_err + bytes) option \<Rightarrow> string \<Rightarrow>
    decompressor option \<Rightarrow> int \<Rightarrow> 'm \<Rightarrow> bool" where
  "message_fits marshal unmarshal cp enc dc maxMsgSize m \<longleftrightarrow> maxMsgSize < 2 ^ 32 \<and>
     (\<exists>b. marshal m = Inr b \<and> unmarshal b = Inr m \<and> int (length b) \<le> maxMsgSize \<and>
       (case cp of None \<Rightarrow> True
        | Some c \<Rightarrow> \<exists>z D. c b = Inr z \<and> dc = Some (enc, D) \<and> D z = Inr b \<and> int (length z) \<le> maxMsgSize))"

locale byte_source =
  fixes rd :: "'s reader"
    and content :: "'s \<Rightarrow> bytes"
    and fin :: recv_err
    and ok :: "'s \<Rightarrow> bool"
  assumes read_some: "ok s \<Longrightarrow> content s \<noteq> [] \<Longrightarrow> 0 < n \<Longrightarrow>
      \<exists>s' d. rd n s = Some (s', d, None) \<and> d \<noteq> [] \<and> length d \<le> n \<and> content s = d @ content s' \<and> ok s'"
    and read_end: "ok s \<Longrightarrow> content s = [] \<Longrightarrow> \<exists>s'. rd n s = Some (s', [], Some fin) \<and> content s' = [] \<and> ok s'"
begin

lemma read_loop_all:
  assumes "ok s" "n - length got < fuel" "length got \<le> n"
  shows "\<exists>s'. ok s' \<and> (if n - length got \<le> length (content s)
      then read_loop rd fuel n got s = Ok (s', got @ take (n - length got) (content s), None) \<and> content s' = drop (n - length got) (content s)
      else read_loop rd fuel n got s = Ok (s', got @ content s, Some fin) \<and> content s' = [])"
  using assms
proof (induction fuel arbitrary: got s)
  case (Suc fuel)
  show ?case
  proof (cases "length got < n")
    case True
    show ?thesis
    proof (cases "content s = []")
      case False
      obtain s1 d where d: "rd (n - length got) s = Some (s1, d, None)" "d \<noteq> []" "length d \<le> n - length got" "content s = d @ content s1" "ok s1"
        using read_some [OF Suc.prems(1) False, of "n - length got"] True by auto
      have "n - length (got @ d) < fuel" "length (got @ d) \<le> n" using d(2,3) Suc.prems by (auto simp: neq_Nil_conv)
      from Suc.IH [OF d(5) this] show ?thesis using d True by (auto simp: le_diff_conv add.commute)
    next
      case empty: True
      obtain s1 where "rd (n - length got) s = Some (s1, [], Some fin)" "content s1 = []" "ok s1" using read_end [OF Suc.prems(1) empty] by blast
      then show ?thesis using True empty by auto
    qed
  qed (use Suc.prems in auto)
qed auto

lemma ReadFull_prefix:
  assumes "ok s" "content s = d @ rest" "length d = n"
  shows "\<exists>s'. io_ReadFull_from rd n s = Ok (s', d, None) \<and> content s' = rest \<and> ok s'"
  using read_loop_all [OF assms(1), of n "[]" "Suc n"] assms(2,3)
  by (auto simp: io_ReadFull_from_def simp del: read_loop.simps)

lemma ReadFull_end:
  assumes "ok s" "content s = []" "0 < n"
  shows "\<exists>s'. io_ReadFull_from rd n s = Ok (s', [], Some fin) \<and> ok s' \<and> content s' = []"
  using read_loop_all [OF assms(1), of n "[]" "Suc n"] assms(2,3)
  by (auto simp: io_ReadFull_from_def simp del: read_loop.simps)

lemma recvMsg_frame:
  assumes "ok s" "content s = (flag # binary_PutUint32 (of_nat (length b)) @ b) @ rest"
    and "int (length b) \<le> maxMsgSize" "maxMsgSize < 2 ^ 32"
  shows "\<exists>s'. recvMsg_parse rd maxMsgSize s = Ok (s', Inr (flag, b)) \<and> content s' = rest \<and> ok s'"
proof -
  let ?h = "flag # binary_PutUint32 (of_nat (length b))"
  have len: "length b < 2 ^ 32" using assms(3,4) by simp
  then have u: "unat (of_nat (length b) :: 32 word) = length b" by (simp add: unat_of_nat)
  have v: "binary_Uint32 (drop 1 ?h) = of_nat (length b)"
    using word32_bytes by (simp add: binary_Uint32_def binary_PutUint32_def)
  have le: "\<not> (of_nat (length b) :: 32 word) > word_of_int maxMsgSize"
  proof -
    have "uint (word_of_int maxMsgSize :: 32 word) = maxMsgSize"
      using assms(3,4) by (simp add: unsigned_of_int take_bit_int_eq_self)
    moreover have "uint (of_nat (length b) :: 32 word) = int (length b)" using u by (metis uint_nat)
    ultimately show ?thesis using assms(3) unfolding word_less_def by linarith
  qed
  obtain s1 where s1: "io_ReadFull_from rd 5 s = Ok (s1, ?h, None)" "content s1 = b @ rest" "ok s1"
    using ReadFull_prefix [OF assms(1), of ?h "b @ rest" 5] assms(2) by (auto simp: binary_PutUint32_def)
  obtain s2 where s2: "io_ReadFull_from rd (length b) s1 = Ok (s2, b, None)" "content s2 = rest" "ok s2"
    using ReadFull_prefix [OF s1(3,2), of "length b"] by auto
  have zero: "(of_nat (length b) :: 32 word) = 0 \<longleftrightarrow> b = []" unfolding word_unat_eq_iff u by simp
  show ?thesis
    using s1 s2 le unfolding recvMsg_parse_def s1(1) res_bind_simps prod.case option.case Let_def v u zero
    by (cases "b = []") (auto simp: zero)
qed

lemma recvMsg_end:
  assumes "ok s" "content s = []"
  shows "\<exists>s'. recvMsg_parse rd maxMsgSize s = Ok (s', Inl (Recv fin)) \<and> ok s' \<and> content s' = []"
  using ReadFull_end [OF assms, of 5] by (auto simp: recvMsg_parse_def)

lemma recv_encoded:
  assumes "ok s" "content s = e @ rest" "encode marshal (Some m) cp = Ok e" "message_fits marshal unmarshal cp enc dc maxMsgSize m"
  shows "\<exists>s'. recv rd unmarshal enc dc maxMsgSize s = Ok (s', Inr m) \<and> content s' = rest \<and> ok s'"
proof -
  obtain b where b: "marshal m = Inr b" "unmarshal b = Inr m" "int (length b) \<le> maxMsgSize" "maxMsgSize < 2 ^ 32"
    using assms(4) by (auto simp: message_fits_def)
  show ?thesis
  proof (cases cp)
    case None
    then have "e = compressionNone # binary_PutUint32 (of_nat (length b)) @ b" using assms(3) b by (auto simp: encode_def split: if_splits)
    then obtain s' where "recvMsg_parse rd maxMsgSize s = Ok (s', Inr (compressionNone, b))" "content s' = rest" "ok s'"
      using recvMsg_frame [OF assms(1), of compressionNone b rest maxMsgSize] assms(2) b by auto
    then show ?thesis using b by (simp add: recv_def checkRecvPayload_def compressionNone_def compressionMade_def)
  next
    case (Some c)
    then obtain z D where z: "c b = Inr z" "dc = Some (enc, D)" "D z = Inr b" "int (length z) \<le> maxMsgSize"
      using assms(4) b(1) by (auto simp: message_fits_def)
    then have "e = compressionMade # binary_PutUint32 (of_nat (length z)) @ z" using assms(3) b Some by (auto simp: encode_def split: if_splits)
    then obtain s' where "recvMsg_parse rd maxMsgSize s = Ok (s', Inr (compressionMade, z))" "content s' = rest" "ok s'"
      using recvMsg_frame [OF assms(1), of compressionMade z rest maxMsgSize] assms(2) b z by auto
    then show ?thesis using b z by (simp add: recv_def checkRecvPayload_def compressionNone_def compressionMade_def)
  qed
qed

lemma recv_all_encoded:
  assumes "ok s" "content s = concat es" "list_all2 (\<lambda>m e. encode marshal (Some m) cp = Ok e) ms es"
    and "\<forall>m\<in>set ms. message_fits marshal unmarshal cp enc dc maxMsgSize m"
  shows "recv_all (Suc (length ms)) rd unmarshal enc dc maxMsgSize s = Ok (ms, Recv fin)"
  using assms(3,1,2,4)
proof (induction ms es arbitrary: s rule: list_all2_induct)
  case Nil
  then show ?case using recvMsg_end [of s maxMsgSize] by (auto simp: recv_def)
next
  case (Cons m ms e es)
  obtain s' where "recv rd unmarshal enc dc maxMsgSize s = Ok (s', Inr m)" "content s' = concat es" "ok s'"
    using recv_encoded [OF Cons.prems(1) _ Cons.hyps(1), of "concat es" unmarshal enc dc maxMsgSize] Cons.prems(2,3) by auto
  moreover from this have "recv_all (Suc (length ms)) rd unmarshal enc dc maxMsgSize s' = Ok (ms, Recv fin)"
    using Cons.IH [of s'] Cons.prems by simp
  ultimately show ?case unfolding list.size(4) add_Suc_right recv_all.simps(2) by (simp del: recv_all.simps)
qed

end

section \<open>The reader of a stream is such a source\<close>

definition data_msg :: "bytes \<Rightarrow> recvMsg" where
  "data_msg d = \<lparr>m_data = d, m_err = None\<rparr>"

definition err_msg :: "recv_err \<Rightarrow> recvMsg" where
  "err_msg e = \<lparr>m_data = [], m_err = Some e\<rparr>"

definition stream_content :: "recvBufferReader \<Rightarrow> bytes" where
  "stream_content r = (if rr_err r \<noteq> None then []
     else (case rr_last r of None \<Rightarrow> [] | Some l \<Rightarrow> l) @ concat (map m_data (rb_content (rr_recv r))))"

definition stream_ok :: "recv_err \<Rightarrow> recvBufferReader \<Rightarrow> bool" where
  "stream_ok fin r \<longleftrightarrow> (case rr_err r of Some e \<Rightarrow> e = fin
     | None \<Rightarrow> rb_settled (rr_recv r) \<and> (\<exists>ds. rb_content (rr_recv r) = map data_msg ds @ [err_msg fin] \<and> [] \<notin> set ds))"

lemma receive_load:
  assumes "rb_settled b" "rb_content b = m # ms"
  shows "\<exists>b'. rb_receive b = Some (m, b') \<and> rb_content (rb_load b') = ms \<and> rb_settled (rb_load b')"
  using assms rb_receive_settled [OF assms(1)] rb_receive_content [of b m] by auto

interpretation stream: byte_source "reader_Read SelRecv" stream_content fin "stream_ok fin"
proof
  fix r n
  assume ok: "stream_ok fin r" and ne: "stream_content r \<noteq> []" and n: "0 < (n :: nat)"
  then have err: "rr_err r = None" by (auto simp: stream_content_def split: if_splits)
  obtain ds where ds: "rb_settled (rr_recv r)" "rb_content (rr_recv r) = map data_msg ds @ [err_msg fin]" "[] \<notin> set ds"
    using ok err by (auto simp: stream_ok_def)
  show "\<exists>r' d. reader_Read SelRecv n r = Some (r', d, None) \<and> d \<noteq> [] \<and> length d \<le> n \<and> stream_content r = d @ stream_content r' \<and> stream_ok fin r'"
  proof (cases "rr_last r = None \<or> rr_last r = Some []")
    case True
    then obtain d ds' where d: "ds = d # ds'" using ne ds err by (cases ds) (auto simp: stream_content_def err_msg_def)
    obtain b where "rb_receive (rr_recv r) = Some (data_msg d, b)" "rb_content (rb_load b) = map data_msg ds' @ [err_msg fin]" "rb_settled (rb_load b)"
      using receive_load [OF ds(1), of "data_msg d" "map data_msg ds' @ [err_msg fin]"] ds(2) d by auto
    note b = this
    let ?r = "r\<lparr>rr_recv := rb_load b, rr_last := Some (drop n d), rr_err := None\<rparr>"
    have "reader_Read SelRecv n r = Some (?r, take n d, None)"
      using True err ds(3) d b(1) by (auto simp: reader_Read_def bytes_Reader_Read_def data_msg_def)
    moreover have "stream_content r = take n d @ stream_content ?r"
      using True err ds(2) d b(2) by (auto simp: stream_content_def data_msg_def simp del: rb_load_content)
    moreover have "stream_ok fin ?r" using b(2,3) ds(3) d by (auto simp: stream_ok_def simp del: rb_load_content)
    ultimately show ?thesis using n d ds(3) by (intro exI [of _ ?r] exI [of _ "take n d"]) auto
  next
    case False
    then obtain x l where "rr_last r = Some (x # l)" by (cases "rr_last r") (auto simp: neq_Nil_conv)
    then show ?thesis using err ds n by (auto simp: reader_Read_def bytes_Reader_Read_def stream_content_def stream_ok_def)
  qed
next
  fix r n
  assume ok: "stream_ok fin r" and e: "stream_content r = []"
  show "\<exists>r'. reader_Read SelRecv n r = Some (r', [], Some fin) \<and> stream_content r' = [] \<and> stream_ok fin r'"
  proof (cases "rr_err r")
    case None
    then obtain ds where ds: "rb_settled (rr_recv r)" "rb_content (rr_recv r) = map data_msg ds @ [err_msg fin]" "[] \<notin> set ds"
      using ok by (auto simp: stream_ok_def)
    then have "ds = []" using e None by (cases ds) (auto simp: stream_content_def data_msg_def)
    then obtain b where "rb_receive (rr_recv r) = Some (err_msg fin, b)" using receive_load [OF ds(1), of "err_msg fin" "[]"] ds(2) by auto
    moreover have "rr_last r = None \<or> rr_last r = Some []" using e None by (auto simp: stream_content_def split: option.splits)
    ultimately show ?thesis using None by (auto simp: reader_Read_def err_msg_def stream_content_def stream_ok_def)
  qed (use ok in \<open>auto simp: reader_Read_def stream_content_def stream_ok_def\<close>)
qed

section \<open>The property of the message layer\<close>

text \<open>The buffer of a stream after its data frames and the end of the stream have arrived.\<close>

definition filled :: "bytes list \<Rightarrow> recv_err \<Rightarrow> recvBufferReader" where
  "filled ds e = \<lparr>rr_ctx = None, rr_goAway = False,
     rr_recv = foldl (\<lambda>b m. rb_put m b) newRecvBuffer (map data_msg ds @ [err_msg e]), rr_last = None, rr_err = None\<rparr>"

lemma filled_content: "rb_content (foldl (\<lambda>b m. rb_put m b) b ms) = rb_content b @ ms"
  "rb_settled b \<Longrightarrow> rb_settled (foldl (\<lambda>b m. rb_put m b) b ms)"
  by (induction ms arbitrary: b) auto

lemma filled_source:
  assumes "[] \<notin> set ds"
  shows "stream_ok fin (filled ds fin)" "stream_content (filled ds fin) = concat ds"
proof -
  show "stream_ok fin (filled ds fin)"
    using assms filled_content [of newRecvBuffer "map data_msg ds"] by (auto simp: stream_ok_def filled_def)
  show "stream_content (filled ds fin) = concat ds"
    by (simp add: stream_content_def filled_def filled_content data_msg_def err_msg_def comp_def)
qed

text \<open>C26: messages that \<open>encode\<close> wrote, one after the other, survive the transport: however the byte stream is
  cut into non-empty data frames, a receiver on the buffer of the stream is given exactly the messages, in
  order, and then the error that ended the stream; every read loop ends. With a compressor the decompressor
  of the same encoding has to undo it.\<close>

theorem messages_arrive:
  assumes "list_all2 (\<lambda>m e. encode marshal (Some m) cp = Ok e) ms es"
    and "\<forall>m\<in>set ms. message_fits marshal unmarshal cp enc dc maxMsgSize m"
    and "concat frames = concat es" "[] \<notin> set frames"
  shows "recv_all (Suc (length ms)) (reader_Read SelRecv) unmarshal enc dc maxMsgSize (filled frames fin) = Ok (ms, Recv fin)"
  using filled_source [OF assms(4), of fin] assms(3) by (intro stream.recv_all_encoded [OF _ _ assms(1,2)]) simp_all

theorem messages_arrive_witness:
  "recv_all (Suc (length [[1, 2], [], [3 :: byte]])) (reader_Read SelRecv) Inr [] None 100
     (filled [[0, 0], [0, 0, 2, 1], [2, 0, 0, 0, 0, 0, 0], [0, 0, 0, 1, 3]] RecvEOF) = Ok ([[1, 2], [], [3]], Recv RecvEOF)"
  by (rule messages_arrive [where marshal = Inr and cp = None and es = "[[0, 0, 0, 0, 2, 1, 2], [0, 0, 0, 0, 0], [0, 0, 0, 0, 1, 3]]"])
    (simp_all add: encode_def compressionNone_def binary_PutUint32_def message_fits_def)

end
