(* ===== verification/HpackTables.thy ===== *)
theory HpackTables
  imports Prelude
begin

text \<open>
  The header tables of HPACK, \<open>golang.org/x/net/http2/hpack\<close>: the list of entries with its two
  search maps (\<open>tables.go\<close>) and the dynamic table with its size bound (\<open>hpack.go\<close>), shared by the
  encoder and the decoder.
\<close>

section \<open>Header fields and tables\<close>

datatype hpack_error =
    errNeedMore
  | errVarintOverflow
  | ErrStringLength
  | ErrInvalidHuffman
  | InvalidIndexError int
  | DecodingError string
  | ErrShortWriteHpack
  | HpackWriterError string

type_synonym 'a kres = "(hpack_error, 'a) res"

record HeaderField =
  hf_Name :: string
  hf_Value :: string
  hf_Sensitive :: bool

definition IsPseudo :: "HeaderField \<Rightarrow> bool" where
  "IsPseudo hf \<longleftrightarrow> length (hf_Name hf) \<noteq> 0 \<and> hf_Name hf ! 0 = CHR '':''"

definition HeaderField_Size :: "HeaderField \<Rightarrow> 32 word" where
  "HeaderField_Size hf = word_of_nat (length (hf_Name hf) + length (hf_Value hf) + 32)"

record headerFieldTable =
  ents :: "HeaderField list"
  evictCount :: uint64
  byName :: "string \<rightharpoonup> uint64"
  byNameValue :: "string \<times> string \<rightharpoonup> uint64"

definition table_init :: headerFieldTable where
  "table_init = \<lparr>ents = [], evictCount = 0, byName = Map.empty, byNameValue = Map.empty\<rparr>"

definition table_len :: "headerFieldTable \<Rightarrow> nat" where
  "table_len t = length (ents t)"

definition addEntry :: "HeaderField \<Rightarrow> headerFieldTable \<Rightarrow> headerFieldTable" where
  "addEntry f t =
     (let ident = word_of_nat (table_len t) + evictCount t + 1 in
      t\<lparr>byName := (byName t)(hf_Name f \<mapsto> ident),
        byNameValue := (byNameValue t)((hf_Name f, hf_Value f) \<mapsto> ident),
        ents := ents t @ [f]\<rparr>)"

text \<open>Reading a missing key of a Go map gives the zero value.\<close>

definition lookup0 :: "('k \<rightharpoonup> uint64) \<Rightarrow> 'k \<Rightarrow> uint64" where
  "lookup0 m k = (case m k of None \<Rightarrow> 0 | Some v \<Rightarrow> v)"

fun evict_loop :: "nat \<Rightarrow> HeaderField list \<Rightarrow> headerFieldTable \<Rightarrow> headerFieldTable" where
  "evict_loop k [] t = t"
| "evict_loop k (f # fs) t =
     (let ident = evictCount t + word_of_nat k + 1;
          t = (if lookup0 (byName t) (hf_Name f) = ident then t\<lparr>byName := (byName t)(hf_Name f := None)\<rparr> else t);
          p = (hf_Name f, hf_Value f);
          t = (if lookup0 (byNameValue t) p = ident then t\<lparr>byNameValue := (byNameValue t)(p := None)\<rparr> else t)
      in evict_loop (Suc k) fs t)"

definition evictOldest :: "nat \<Rightarrow> headerFieldTable \<Rightarrow> headerFieldTable kres" where
  "evictOldest n t =
     (if n > table_len t then Panic
      else
        let t = evict_loop 0 (take n (ents t)) t;
            t = t\<lparr>ents := drop n (ents t)\<rparr>
        in if evictCount t + word_of_nat n < evictCount t then Panic
           else Ok (t\<lparr>evictCount := evictCount t + word_of_nat n\<rparr>))"

text \<open>\<open>idToIndex\<close> treats the static table, which the code recognises by its address, differently.\<close>

definition idToIndex :: "bool \<Rightarrow> uint64 \<Rightarrow> headerFieldTable \<Rightarrow> uint64 kres" where
  "idToIndex static ident t =
     (if ident \<le> evictCount t then Panic
      else
        let k = ident - evictCount t - 1
        in if \<not> static then Ok (word_of_nat (table_len t) - k) else Ok (k + 1))"

definition table_search :: "bool \<Rightarrow> HeaderField \<Rightarrow> headerFieldTable \<Rightarrow> (uint64 \<times> bool) kres" where
  "table_search static f t =
     (let pair = lookup0 (byNameValue t) (hf_Name f, hf_Value f); name = lookup0 (byName t) (hf_Name f) in
      if \<not> hf_Sensitive f \<and> pair \<noteq> 0 then res_bind (idToIndex static pair t) (\<lambda>i. Ok (i, True))
      else if name \<noteq> 0 then res_bind (idToIndex static name t) (\<lambda>i. Ok (i, False))
      else Ok (0, False))"

section \<open>The dynamic table\<close>

record dynamicTable =
  dt_table :: headerFieldTable
  dt_size :: "32 word"
  dt_maxSize :: "32 word"
  dt_allowedMaxSize :: "32 word"

text \<open>The loop of \<open>evict\<close>: how many of the oldest entries go, and the size that is left.\<close>

fun evict_count :: "HeaderField list \<Rightarrow> 32 word \<Rightarrow> 32 word \<Rightarrow> nat \<times> 32 word" where
  "evict_count [] sz maxSize = (0, sz)"
| "evict_count (f # fs) sz maxSize =
     (if sz > maxSize
      then (case evict_count fs (sz - HeaderField_Size f) maxSize of (n, s) \<Rightarrow> (Suc n, s))
      else (0, sz))"

definition dt_evict :: "dynamicTable \<Rightarrow> dynamicTable kres" where
  "dt_evict dt =
     (case evict_count (ents (dt_table dt)) (dt_size dt) (dt_maxSize dt) of (n, sz) \<Rightarrow>
      res_bind (evictOldest n (dt_table dt)) (\<lambda>t. Ok (dt\<lparr>dt_size := sz, dt_table := t\<rparr>)))"

definition dt_setMaxSize :: "32 word \<Rightarrow> dynamicTable \<Rightarrow> dynamicTable kres" where
  "dt_setMaxSize v dt = dt_evict (dt\<lparr>dt_maxSize := v\<rparr>)"

definition dt_add :: "HeaderField \<Rightarrow> dynamicTable \<Rightarrow> dynamicTable kres" where
  "dt_add f dt = dt_evict (dt\<lparr>dt_table := addEntry f (dt_table dt), dt_size := dt_size dt + HeaderField_Size f\<rparr>)"

section \<open>The newest entry with a property\<close>

definition last_index :: "('a \<Rightarrow> bool) \<Rightarrow> 'a list \<Rightarrow> nat option" where
  "last_index P xs =
     (let ks = filter (\<lambda>k. P (xs ! k)) [0..<length xs] in if ks = [] then None else Some (last ks))"

lemma last_index_Nil [simp]: "last_index P [] = None"
  by (simp add: last_index_def)

lemma last_index_snoc [simp]: "last_index P (xs @ [x]) = (if P x then Some (length xs) else last_index P xs)"
proof -
  have "filter (\<lambda>k. P ((xs @ [x]) ! k)) [0..<length xs] = filter (\<lambda>k. P (xs ! k)) [0..<length xs]"
    by (rule filter_cong) (simp_all add: nth_append)
  then show ?thesis by (simp add: last_index_def Let_def)
qed

lemma last_index_Some: "last_index P xs = Some k \<Longrightarrow>
    k < length xs \<and> P (xs ! k) \<and> (\<forall>j. k < j \<longrightarrow> j < length xs \<longrightarrow> \<not> P (xs ! j))"
proof (induction xs rule: rev_induct)
  case (snoc x xs)
  then show ?case by (auto simp: nth_append less_Suc_eq split: if_splits)
qed simp

lemma last_index_None: "last_index P xs = None \<longleftrightarrow> (\<forall>x\<in>set xs. \<not> P x)"
  by (induction xs rule: rev_induct) auto

lemma last_index_drop:
  "last_index P (drop n xs) = (case last_index P xs of None \<Rightarrow> None | Some k \<Rightarrow> if n \<le> k then Some (k - n) else None)"
proof (induction xs rule: rev_induct)
  case (snoc x xs)
  show ?case
  proof (cases "n \<le> length xs")
    case True
    with snoc show ?thesis by (simp split: option.split)
  next
    case False
    then have "drop n (xs @ [x]) = []" by simp
    moreover have "k < length xs" if "last_index P xs = Some k" for k using last_index_Some [OF that] by simp
    ultimately show ?thesis using False by (force split: option.split)
  qed
qed simp

section \<open>The invariant of a table\<close>

text \<open>The search maps point to the newest entry with the name, and with the name and value. The
  identifier of entry \<open>k\<close> is \<open>evictCount + k + 1\<close>.\<close>

definition entry_id :: "headerFieldTable \<Rightarrow> nat \<Rightarrow> uint64" where
  "entry_id t k = evictCount t + word_of_nat k + 1"

definition field_pair :: "HeaderField \<Rightarrow> string \<times> string" where
  "field_pair f = (hf_Name f, hf_Value f)"

definition newest :: "headerFieldTable \<Rightarrow> (HeaderField \<Rightarrow> 'k) \<Rightarrow> ('k \<rightharpoonup> uint64) \<Rightarrow> bool" where
  "newest t key m \<longleftrightarrow> (\<forall>x. m x = map_option (entry_id t) (last_index (\<lambda>f. key f = x) (ents t)))"

definition table_inv :: "headerFieldTable \<Rightarrow> bool" where
  "table_inv t \<longleftrightarrow> unat (evictCount t) + length (ents t) < 2 ^ 64 - 1 \<and>
     newest t hf_Name (byName t) \<and> newest t field_pair (byNameValue t)"

lemma unat_of_nat64: "n < 2 ^ 64 \<Longrightarrow> unat (word_of_nat n :: uint64) = n"
  by (simp add: unsigned_of_nat take_bit_nat_eq_self)

lemma unat_entry_id:
  assumes "unat (evictCount t) + k < 2 ^ 64 - 1"
  shows "unat (entry_id t k) = unat (evictCount t) + k + 1"
proof -
  have "entry_id t k = word_of_nat (unat (evictCount t) + k + 1)"
    by (simp add: entry_id_def)
  with assms show ?thesis by (simp only: unat_of_nat64)
qed

lemma entry_id_facts:
  assumes "unat (evictCount t) + length (ents t) < 2 ^ 64 - 1" "k < length (ents t)"
  shows "entry_id t k \<noteq> 0" and "evictCount t < entry_id t k"
    and "l < length (ents t) \<Longrightarrow> entry_id t k = entry_id t l \<longleftrightarrow> k = l"
proof -
  have k: "unat (entry_id t k) = unat (evictCount t) + k + 1" using assms by (intro unat_entry_id) simp
  then show "entry_id t k \<noteq> 0" by (metis Suc_eq_plus1 nat.distinct(1) unsigned_0)
  show "evictCount t < entry_id t k" by (simp add: word_less_nat_alt k)
  show "entry_id t k = entry_id t l \<longleftrightarrow> k = l" if "l < length (ents t)"
    using k unat_entry_id [of t l] assms that by (auto simp: word_unat_eq_iff)
qed

lemma table_inv_init: "table_inv table_init"
  by (simp add: table_inv_def table_init_def newest_def)

lemma addEntry_inv:
  assumes "table_inv t" "unat (evictCount t) + length (ents t) + 1 < 2 ^ 64 - 1"
  shows "table_inv (addEntry f t)"
proof -
  have ident: "word_of_nat (table_len t) + evictCount t + 1 = entry_id t (length (ents t))"
    by (simp add: entry_id_def table_len_def)
  have same: "entry_id (addEntry f t) = entry_id t" by (simp add: entry_id_def addEntry_def Let_def fun_eq_iff)
  show ?thesis
    using assms unfolding table_inv_def newest_def same
    by (auto simp: addEntry_def Let_def ident field_pair_def)
qed

section \<open>Eviction\<close>

fun del_loop :: "(nat \<Rightarrow> uint64) \<Rightarrow> (HeaderField \<Rightarrow> 'k) \<Rightarrow> nat \<Rightarrow> HeaderField list \<Rightarrow>
    ('k \<rightharpoonup> uint64) \<Rightarrow> ('k \<rightharpoonup> uint64)" where
  "del_loop idf key k [] m = m"
| "del_loop idf key k (f # fs) m =
     del_loop idf key (Suc k) fs (if lookup0 m (key f) = idf k then m(key f := None) else m)"

lemma evict_loop_del:
  "evict_loop k fs t = t\<lparr>byName := del_loop (entry_id t) hf_Name k fs (byName t),
     byNameValue := del_loop (entry_id t) field_pair k fs (byNameValue t)\<rparr>"
proof (induction fs arbitrary: k t)
  case (Cons f fs)
  have "entry_id (t\<lparr>byName := m, byNameValue := m'\<rparr>) = entry_id t" for m m'
    by (simp add: entry_id_def fun_eq_iff)
  with Cons show ?case by (simp add: Let_def entry_id_def field_pair_def)
qed simp

lemma del_loop_eq:
  assumes "\<And>j. j < length fs \<Longrightarrow> idf (k + j) \<noteq> 0"
  shows "del_loop idf key k fs m x =
    (if \<exists>j<length fs. key (fs ! j) = x \<and> m x = Some (idf (k + j)) then None else m x)"
  using assms
proof (induction fs arbitrary: k m)
  case (Cons f fs)
  let ?m = "if lookup0 m (key f) = idf k then m(key f := None) else m"
  have hd: "lookup0 m (key f) = idf k \<longleftrightarrow> m (key f) = Some (idf k)"
    using Cons.prems [of 0] by (auto simp: lookup0_def split: option.splits)
  have IH: "del_loop idf key (Suc k) fs ?m x =
      (if \<exists>j<length fs. key (fs ! j) = x \<and> ?m x = Some (idf (Suc k + j)) then None else ?m x)"
    by (rule Cons.IH) (use Cons.prems [of "Suc _"] in simp)
  show ?case
    by (simp only: del_loop.simps IH) (auto simp: hd Ex_less_Suc2)
qed simp

lemma newest_drop:
  assumes "newest t key m" "n \<le> length (ents t)" "unat (evictCount t) + length (ents t) < 2 ^ 64 - 1"
    and "ents t' = drop n (ents t)" "evictCount t' = evictCount t + word_of_nat n"
  shows "newest t' key (del_loop (entry_id t) key 0 (take n (ents t)) m)"
  unfolding newest_def
proof
  fix x
  have "entry_id t k \<noteq> 0" if "k < length (take n (ents t))" for k
    using that assms(2,3) by (intro entry_id_facts) simp_all
  then have del: "del_loop (entry_id t) key 0 (take n (ents t)) m x =
      (if \<exists>j<n. key (ents t ! j) = x \<and> m x = Some (entry_id t j) then None else m x)"
    using assms(2) by (subst del_loop_eq) (simp_all cong: conj_cong)
  have m: "m x = map_option (entry_id t) (last_index (\<lambda>f. key f = x) (ents t))"
    using assms(1) by (simp add: newest_def)
  have shift: "entry_id t' (l - n) = entry_id t l" if "n \<le> l" for l
    using that by (simp add: entry_id_def assms(5) of_nat_diff)
  show "del_loop (entry_id t) key 0 (take n (ents t)) m x =
      map_option (entry_id t') (last_index (\<lambda>f. key f = x) (ents t'))"
  proof (cases "last_index (\<lambda>f. key f = x) (ents t)")
    case None
    then show ?thesis unfolding del assms(4) last_index_drop m by simp
  next
    case (Some l)
    note l = last_index_Some [OF Some]
    have "entry_id t l = entry_id t j \<longleftrightarrow> l = j" if "j < n" for j
      using that l assms(2,3) by (intro entry_id_facts) simp_all
    then show ?thesis
      unfolding del assms(4) last_index_drop m Some using l shift [of l] by auto
  qed
qed

lemma evictOldest_inv:
  assumes "table_inv t" "n \<le> length (ents t)"
  obtains t' where "evictOldest n t = Ok t'" "table_inv t'" "ents t' = drop n (ents t)"
    "unat (evictCount t') = unat (evictCount t) + n"
proof -
  let ?t = "t\<lparr>byName := del_loop (entry_id t) hf_Name 0 (take n (ents t)) (byName t),
    byNameValue := del_loop (entry_id t) field_pair 0 (take n (ents t)) (byNameValue t),
    ents := drop n (ents t), evictCount := evictCount t + word_of_nat n\<rparr>"
  from assms(1) have bound: "unat (evictCount t) + length (ents t) < 2 ^ 64 - 1" by (simp add: table_inv_def)
  have "evictCount t + word_of_nat n = word_of_nat (unat (evictCount t) + n)" by simp
  then have cnt: "unat (evictCount t + word_of_nat n) = unat (evictCount t) + n"
    using bound assms(2) unat_of_nat64 [of "unat (evictCount t) + n"] by (simp only:)
  have "evictOldest n t = Ok ?t"
    using assms(2) cnt by (simp add: evictOldest_def evict_loop_del table_len_def Let_def word_less_nat_alt)
  moreover have "table_inv ?t"
    unfolding table_inv_def
    using assms bound cnt newest_drop [OF _ assms(2) bound, of hf_Name "byName t" ?t]
      newest_drop [OF _ assms(2) bound, of field_pair "byNameValue t" ?t]
    by (simp add: table_inv_def)
  ultimately show thesis using that cnt by simp
qed

section \<open>Searching\<close>

definition hpack_index :: "bool \<Rightarrow> headerFieldTable \<Rightarrow> nat \<Rightarrow> nat" where
  "hpack_index static t k = (if static then k + 1 else length (ents t) - k)"

lemma idToIndex_entry:
  assumes "table_inv t" "k < length (ents t)"
  shows "idToIndex static (entry_id t k) t = Ok (word_of_nat (hpack_index static t k))"
proof -
  have bound: "unat (evictCount t) + length (ents t) < 2 ^ 64 - 1" using assms(1) by (simp add: table_inv_def)
  have "\<not> entry_id t k \<le> evictCount t" using entry_id_facts(2) [OF bound assms(2)] by simp
  moreover have "entry_id t k - evictCount t - 1 = word_of_nat k" by (simp add: entry_id_def)
  ultimately show ?thesis
    using assms(2) by (simp add: idToIndex_def hpack_index_def table_len_def of_nat_diff add.commute)
qed

lemma table_search_eq:
  assumes "table_inv t"
  shows "table_search static f t = Ok
    (case (if hf_Sensitive f then None else last_index (\<lambda>g. field_pair g = field_pair f) (ents t)) of
       Some k \<Rightarrow> (word_of_nat (hpack_index static t k), True)
     | None \<Rightarrow> (case last_index (\<lambda>g. hf_Name g = hf_Name f) (ents t) of
         Some k \<Rightarrow> (word_of_nat (hpack_index static t k), False) | None \<Rightarrow> (0, False)))"
proof -
  have bound: "unat (evictCount t) + length (ents t) < 2 ^ 64 - 1" using assms by (simp add: table_inv_def)
  have id0: "entry_id t k \<noteq> 0" if "last_index P (ents t) = Some k" for P k
    using last_index_Some [OF that] entry_id_facts(1) [OF bound] by simp
  have idx: "idToIndex static (entry_id t k) t = Ok (word_of_nat (hpack_index static t k))"
    if "last_index P (ents t) = Some k" for P k
    using last_index_Some [OF that] idToIndex_entry [OF assms] by simp
  have "lookup0 (byNameValue t) (hf_Name f, hf_Value f) =
      (case last_index (\<lambda>g. field_pair g = field_pair f) (ents t) of None \<Rightarrow> 0 | Some k \<Rightarrow> entry_id t k)"
    "lookup0 (byName t) (hf_Name f) =
      (case last_index (\<lambda>g. hf_Name g = hf_Name f) (ents t) of None \<Rightarrow> 0 | Some k \<Rightarrow> entry_id t k)"
    using assms by (simp_all add: table_inv_def newest_def lookup0_def field_pair_def split: option.split)
  then show ?thesis
    by (simp add: table_search_def Let_def id0 idx del: res_bind_eq_Ok split: option.split)
qed

section \<open>The size of the dynamic table\<close>

definition hf_size :: "HeaderField \<Rightarrow> nat" where
  "hf_size f = length (hf_Name f) + length (hf_Value f) + 32"

definition total_size :: "HeaderField list \<Rightarrow> nat" where
  "total_size fs = sum_list (map hf_size fs)"

lemma total_size_simps [simp]:
  "total_size [] = 0" "total_size (f # fs) = hf_size f + total_size fs"
  "total_size (fs @ gs) = total_size fs + total_size gs"
  by (simp_all add: total_size_def)

text \<open>What RFC 7541 asks of eviction: the oldest entries go until the rest fits.\<close>

fun fit :: "nat \<Rightarrow> HeaderField list \<Rightarrow> HeaderField list" where
  "fit mx [] = []"
| "fit mx (f # fs) = (if total_size (f # fs) \<le> mx then f # fs else fit mx fs)"

lemma fit_suffix: "\<exists>n \<le> length fs. fit mx fs = drop n fs"
proof (induction fs)
  case (Cons f fs)
  then obtain n where "n \<le> length fs" "fit mx fs = drop n fs" by blast
  then show ?case by (cases "total_size (f # fs) \<le> mx") (auto intro: exI [of _ 0] exI [of _ "Suc n"])
qed simp

lemma total_size_fit: "total_size (fit mx fs) \<le> mx"
  by (induction fs) auto

lemma fit_id: "total_size fs \<le> mx \<Longrightarrow> fit mx fs = fs"
  by (cases fs) auto

definition dt_inv :: "dynamicTable \<Rightarrow> bool" where
  "dt_inv dt \<longleftrightarrow> table_inv (dt_table dt) \<and> unat (dt_size dt) = total_size (ents (dt_table dt)) \<and>
     dt_size dt \<le> dt_maxSize dt"

lemma unat_Size: "hf_size f < 2 ^ 32 \<Longrightarrow> unat (HeaderField_Size f) = hf_size f"
  by (simp only: HeaderField_Size_def hf_size_def unsigned_of_nat) (simp add: take_bit_nat_eq_self)

lemma evict_count_fit:
  "evict_count fs sz mx = (n, sz') \<Longrightarrow> unat sz = total_size fs \<Longrightarrow>
     n \<le> length fs \<and> drop n fs = fit (unat mx) fs \<and> unat sz' = total_size (fit (unat mx) fs)"
proof (induction fs arbitrary: sz n sz')
  case (Cons f fs)
  have lt: "total_size (f # fs) < 2 ^ 32" using unsigned_less [of sz, where ?'a = nat] Cons.prems(2) by simp
  show ?case
  proof (cases "sz > mx")
    case False
    with Cons.prems show ?thesis by (auto simp: word_less_nat_alt)
  next
    case True
    obtain n1 s1 where rec: "evict_count fs (sz - HeaderField_Size f) mx = (n1, s1)" by (metis surj_pair)
    have f: "unat (HeaderField_Size f) = hf_size f" using lt by (intro unat_Size) simp
    then have "unat (sz - HeaderField_Size f) = total_size fs"
      using Cons.prems(2) by (simp add: unat_sub word_le_nat_alt)
    from Cons.IH [OF rec this] True Cons.prems rec show ?thesis by (auto simp: word_less_nat_alt)
  qed
qed simp

lemma dt_evict_fit:
  assumes "table_inv (dt_table dt)" "unat (dt_size dt) = total_size (ents (dt_table dt))"
  obtains dt' where "dt_evict dt = Ok dt'" "dt_inv dt'" "dt_maxSize dt' = dt_maxSize dt"
    "dt_allowedMaxSize dt' = dt_allowedMaxSize dt"
    "ents (dt_table dt') = fit (unat (dt_maxSize dt)) (ents (dt_table dt))"
    "unat (evictCount (dt_table dt')) + length (ents (dt_table dt')) =
     unat (evictCount (dt_table dt)) + length (ents (dt_table dt))"
proof -
  obtain n s where ev: "evict_count (ents (dt_table dt)) (dt_size dt) (dt_maxSize dt) = (n, s)"
    by (metis surj_pair)
  note fit = evict_count_fit [OF ev assms(2)]
  then obtain t' where t': "evictOldest n (dt_table dt) = Ok t'" "table_inv t'" "ents t' = drop n (ents (dt_table dt))"
    "unat (evictCount t') = unat (evictCount (dt_table dt)) + n"
    using evictOldest_inv [OF assms(1), of n] by blast
  let ?dt = "dt\<lparr>dt_size := s, dt_table := t'\<rparr>"
  have "dt_inv ?dt"
    using t' fit total_size_fit [of "unat (dt_maxSize dt)"] by (simp add: dt_inv_def word_le_nat_alt)
  moreover have "dt_evict dt = Ok ?dt" using ev t'(1) by (simp add: dt_evict_def)
  moreover have "n + length (ents t') = length (ents (dt_table dt))"
    unfolding t'(3) using fit [THEN conjunct1] by simp
  ultimately show thesis using that [of ?dt] t' fit by simp
qed

lemma dt_setMaxSize_fit:
  assumes "dt_inv dt"
  obtains dt' where "dt_setMaxSize v dt = Ok dt'" "dt_inv dt'" "dt_maxSize dt' = v"
    "dt_allowedMaxSize dt' = dt_allowedMaxSize dt"
    "ents (dt_table dt') = fit (unat v) (ents (dt_table dt))"
    "unat (evictCount (dt_table dt')) + length (ents (dt_table dt')) =
     unat (evictCount (dt_table dt)) + length (ents (dt_table dt))"
  using assms dt_evict_fit [of "dt\<lparr>dt_maxSize := v\<rparr>"] by (auto simp: dt_inv_def dt_setMaxSize_def)

text \<open>How much room for entries and identifiers is left before a counter would wrap around.\<close>

definition dt_room :: "HeaderField \<Rightarrow> dynamicTable \<Rightarrow> bool" where
  "dt_room f dt \<longleftrightarrow> total_size (ents (dt_table dt)) + hf_size f < 2 ^ 32 \<and>
     unat (evictCount (dt_table dt)) + length (ents (dt_table dt)) + 1 < 2 ^ 64 - 1"

lemma dt_add_fit:
  assumes "dt_inv dt" "dt_room f dt"
  obtains dt' where "dt_add f dt = Ok dt'" "dt_inv dt'" "dt_maxSize dt' = dt_maxSize dt"
    "dt_allowedMaxSize dt' = dt_allowedMaxSize dt"
    "ents (dt_table dt') = fit (unat (dt_maxSize dt)) (ents (dt_table dt) @ [f])"
    "unat (evictCount (dt_table dt')) + length (ents (dt_table dt')) =
     unat (evictCount (dt_table dt)) + length (ents (dt_table dt)) + 1"
proof -
  let ?t = "addEntry f (dt_table dt)"
  let ?dt = "dt\<lparr>dt_table := ?t, dt_size := dt_size dt + HeaderField_Size f\<rparr>"
  have t: "table_inv ?t" using assms by (intro addEntry_inv) (simp_all add: dt_inv_def dt_room_def)
  have ents: "ents ?t = ents (dt_table dt) @ [f]" "evictCount ?t = evictCount (dt_table dt)"
    by (simp_all add: addEntry_def Let_def)
  have f: "unat (HeaderField_Size f) = hf_size f" using assms(2) by (intro unat_Size) (simp add: dt_room_def)
  have "unat (dt_size dt + HeaderField_Size f) = unat (dt_size dt) + unat (HeaderField_Size f)"
    using assms f by (intro unat_plus_simple [THEN iffD1] no_olen_add_nat [THEN iffD2])
      (simp add: dt_inv_def dt_room_def)
  with f assms(1) have "unat (dt_size ?dt) = total_size (ents (dt_table ?dt))" by (simp add: ents dt_inv_def)
  with dt_evict_fit [of ?dt] t that show thesis by (auto simp: dt_add_def ents)
qed

end
