(* ===== verification/GrpcHeaders.thy ===== *)
theory GrpcHeaders
  imports GrpcControl HpackTables
begin

text \<open>
  The header fields of gRPC over HTTP/2, \<open>transport/http_util.go\<close> of \<open>google.golang.org/grpc\<close>: reserved names,
  percent-encoded messages, timeouts, binary metadata and the state that collects the fields of a header block.
\<close>

section \<open>Names\<close>

definition isReservedHeader :: "string \<Rightarrow> bool" where
  "isReservedHeader hdr \<longleftrightarrow> (hdr \<noteq> [] \<and> hd hdr = CHR '':'') \<or>
     hdr \<in> set [''content-type'', ''grpc-message-type'', ''grpc-encoding'', ''grpc-message'', ''grpc-status'', ''grpc-timeout'',
       ''grpc-status-details-bin'', ''te'']"

definition isWhitelistedPseudoHeader :: "string \<Rightarrow> bool" where
  "isWhitelistedPseudoHeader hdr \<longleftrightarrow> hdr = '':authority''"

definition validContentType :: "string \<Rightarrow> bool" where
  "validContentType t =
     (let e = ''application/grpc'' in
      if take (length e) t \<noteq> e then False
      else if length t > length e \<and> t ! length e \<noteq> CHR ''+'' \<and> t ! length e \<noteq> CHR '';'' then False
      else True)"

section \<open>Percent encoding of status messages\<close>

definition passes :: "char \<Rightarrow> bool" where
  "passes c \<longleftrightarrow> of_char c \<ge> (32 :: nat) \<and> of_char c < (126 :: nat) \<and> c \<noteq> CHR ''%''"

text \<open>\<open>fmt.Sprintf\<close> with \<open>%02X\<close>, and \<open>strconv.ParseUint\<close> of two characters in base 16.\<close>

definition hex_char :: "nat \<Rightarrow> char" where
  "hex_char d = char_of (if d < 10 then 48 + d else 55 + d)"

definition hex_val :: "char \<Rightarrow> nat option" where
  "hex_val c =
     (let n = of_char c in
      if 48 \<le> n \<and> n \<le> 57 then Some (n - 48)
      else if 65 \<le> n \<and> n \<le> 70 then Some (n - 55)
      else if 97 \<le> n \<and> n \<le> 102 then Some (n - 87)
      else None)"

definition percent_byte :: "char \<Rightarrow> string" where
  "percent_byte c = [CHR ''%'', hex_char (of_char c div 16), hex_char (of_char c mod 16)]"

definition encodeGrpcMessageUnchecked :: "string \<Rightarrow> string" where
  "encodeGrpcMessageUnchecked msg = concat (map (\<lambda>c. if passes c then [c] else percent_byte c) msg)"

fun encode_scan :: "string \<Rightarrow> string \<Rightarrow> string" where
  "encode_scan msg [] = msg"
| "encode_scan msg (c # cs) = (if \<not> passes c then encodeGrpcMessageUnchecked msg else encode_scan msg cs)"

definition encodeGrpcMessage :: "string \<Rightarrow> string" where
  "encodeGrpcMessage msg = (if msg = [] then [] else encode_scan msg msg)"

text \<open>The loops of the decoder: \<open>i + 2 < lenMsg\<close> says that two more characters follow.\<close>

fun decodeGrpcMessageUnchecked :: "string \<Rightarrow> string" where
  "decodeGrpcMessageUnchecked [] = []"
| "decodeGrpcMessageUnchecked (c # cs) =
     (if c = CHR ''%'' then
        (case cs of
           h # l # rest \<Rightarrow>
             (case (hex_val h, hex_val l) of
                (Some a, Some b) \<Rightarrow> char_of (16 * a + b) # decodeGrpcMessageUnchecked rest
              | _ \<Rightarrow> c # decodeGrpcMessageUnchecked cs)
         | _ \<Rightarrow> c # decodeGrpcMessageUnchecked cs)
      else c # decodeGrpcMessageUnchecked cs)"

fun decode_scan :: "string \<Rightarrow> string \<Rightarrow> string" where
  "decode_scan msg [] = msg"
| "decode_scan msg (c # cs) =
     (if c = CHR ''%'' \<and> length cs \<ge> 2 then decodeGrpcMessageUnchecked msg else decode_scan msg cs)"

definition decodeGrpcMessage :: "string \<Rightarrow> string" where
  "decodeGrpcMessage msg = (if msg = [] then [] else decode_scan msg msg)"

section \<open>Timeouts\<close>

text \<open>A \<open>time.Duration\<close> is an \<open>int64\<close> of nanoseconds.\<close>

definition nanosecond :: int where "nanosecond = 1"
definition microsecond :: int where "microsecond = 1000"
definition millisecond :: int where "millisecond = 1000000"
definition second :: int where "second = 1000000000"
definition minute :: int where "minute = 60000000000"
definition hour :: int where "hour = 3600000000000"

lemmas durations = nanosecond_def microsecond_def millisecond_def second_def minute_def hour_def

definition timeoutUnitToDuration :: "char \<Rightarrow> int option" where
  "timeoutUnitToDuration u =
     (if u = CHR ''H'' then Some hour else if u = CHR ''M'' then Some minute else if u = CHR ''S'' then Some second
      else if u = CHR ''m'' then Some millisecond else if u = CHR ''u'' then Some microsecond
      else if u = CHR ''n'' then Some nanosecond else None)"

definition maxTimeoutValue :: int where "maxTimeoutValue = 100000000 - 1"

text \<open>\<open>div\<close> is only called with positive arguments, on which Go's division rounds like \<open>div\<close>.\<close>

definition div_up :: "int \<Rightarrow> int \<Rightarrow> int" where
  "div_up d r = (if d mod r > 0 then d div r + 1 else d div r)"

definition encodeTimeout :: "int \<Rightarrow> string" where
  "encodeTimeout t =
     (if t \<le> 0 then ''0n''
      else if div_up t nanosecond \<le> maxTimeoutValue then itoa (div_up t nanosecond) @ ''n''
      else if div_up t microsecond \<le> maxTimeoutValue then itoa (div_up t microsecond) @ ''u''
      else if div_up t millisecond \<le> maxTimeoutValue then itoa (div_up t millisecond) @ ''m''
      else if div_up t second \<le> maxTimeoutValue then itoa (div_up t second) @ ''S''
      else if div_up t minute \<le> maxTimeoutValue then itoa (div_up t minute) @ ''M''
      else itoa (div_up t hour) @ ''H'')"

text \<open>\<open>strconv.ParseInt\<close> in base 10 with 64 bits, and \<open>strconv.Atoi\<close>.\<close>

definition is_digit :: "char \<Rightarrow> bool" where
  "is_digit c \<longleftrightarrow> 48 \<le> (of_char c :: nat) \<and> (of_char c :: nat) \<le> 57"

definition parse_int64 :: "string \<Rightarrow> int option" where
  "parse_int64 s =
     (let neg = (s \<noteq> [] \<and> hd s = CHR ''-'');
          ds = (if s \<noteq> [] \<and> (hd s = CHR ''-'' \<or> hd s = CHR ''+'') then tl s else s);
          v = int (digits_value ds) in
      if ds = [] \<or> \<not> list_all is_digit ds then None
      else if neg then (if v \<le> 2 ^ 63 then Some (- v) else None)
      else (if v < 2 ^ 63 then Some v else None))"

datatype header_error = TimeoutTooShort | TimeoutUnit | ParseError | CorruptInput | StatusProto

definition decodeTimeout :: "string \<Rightarrow> (header_error, int) res" where
  "decodeTimeout s =
     (if length s < 2 then Err TimeoutTooShort
      else
        (case timeoutUnitToDuration (last s) of
           None \<Rightarrow> Err TimeoutUnit
         | Some d \<Rightarrow>
           (case parse_int64 (butlast s) of
              None \<Rightarrow> Err ParseError
            | Some t \<Rightarrow> Ok (int64 (d * t)))))"

section \<open>Binary metadata\<close>

text \<open>\<open>encoding/base64\<close>: the standard alphabet; the decoder skips line ends.\<close>

definition base64_alphabet :: string where
  "base64_alphabet = ''ABCDEFGHIJKLMNOPQRSTUVWXYZabcdefghijklmnopqrstuvwxyz0123456789+/''"

definition base64_char :: "nat \<Rightarrow> char" where
  "base64_char i = base64_alphabet ! i"

fun char_index :: "char \<Rightarrow> string \<Rightarrow> nat option" where
  "char_index c [] = None"
| "char_index c (x # xs) = (if c = x then Some 0 else map_option Suc (char_index c xs))"

definition base64_val :: "char \<Rightarrow> nat option" where
  "base64_val c = char_index c base64_alphabet"

text \<open>\<open>RawStdEncoding.EncodeToString\<close>, on the values of the bytes.\<close>

fun base64_encode :: "nat list \<Rightarrow> string" where
  "base64_encode [] = []"
| "base64_encode [a] = [base64_char (a div 4), base64_char (a mod 4 * 16)]"
| "base64_encode [a, b] = [base64_char (a div 4), base64_char (a mod 4 * 16 + b div 16), base64_char (b mod 16 * 4)]"
| "base64_encode (a # b # c # rest) =
     base64_char (a div 4) # base64_char (a mod 4 * 16 + b div 16) # base64_char (b mod 16 * 4 + c div 64) # base64_char (c mod 64) #
     base64_encode rest"

text \<open>\<open>DecodeString\<close> of \<open>StdEncoding\<close> (\<open>padded\<close>) and \<open>RawStdEncoding\<close>, without line ends.\<close>

fun base64_quanta :: "bool \<Rightarrow> string \<Rightarrow> nat list option" where
  "base64_quanta padded [] = Some []"
| "base64_quanta padded (w # x # y # z # rest) =
     (case (base64_val w, base64_val x, base64_val y, base64_val z) of
        (Some w, Some x, Some y, Some z) \<Rightarrow>
          (case base64_quanta padded rest of
             None \<Rightarrow> None
           | Some bs \<Rightarrow> Some ([w * 4 + x div 16, x mod 16 * 16 + y div 4, y mod 4 * 64 + z] @ bs))
      | (Some w, Some x, Some y, None) \<Rightarrow>
          (if padded \<and> z = CHR ''='' \<and> rest = [] then Some [w * 4 + x div 16, x mod 16 * 16 + y div 4] else None)
      | (Some w, Some x, None, _) \<Rightarrow>
          (if padded \<and> y = CHR ''='' \<and> z = CHR ''='' \<and> rest = [] then Some [w * 4 + x div 16] else None)
      | _ \<Rightarrow> None)"
| "base64_quanta padded [w, x, y] =
     (case (base64_val w, base64_val x, base64_val y) of
        (Some w, Some x, Some y) \<Rightarrow> (if padded then None else Some [w * 4 + x div 16, x mod 16 * 16 + y div 4])
      | _ \<Rightarrow> None)"
| "base64_quanta padded [w, x] =
     (case (base64_val w, base64_val x) of (Some w, Some x) \<Rightarrow> (if padded then None else Some [w * 4 + x div 16]) | _ \<Rightarrow> None)"
| "base64_quanta padded [w] = None"

definition base64_decode :: "bool \<Rightarrow> string \<Rightarrow> nat list option" where
  "base64_decode padded s = base64_quanta padded (filter (\<lambda>c. c \<noteq> CHR 0x0A \<and> c \<noteq> CHR 0x0D) s)"

definition binHdrSuffix :: string where "binHdrSuffix = ''-bin''"

definition HasSuffix :: "string \<Rightarrow> string \<Rightarrow> bool" where
  "HasSuffix s suffix \<longleftrightarrow> length suffix \<le> length s \<and> drop (length s - length suffix) s = suffix"

definition encodeBinHeader :: "string \<Rightarrow> string" where
  "encodeBinHeader v = base64_encode (map of_char v)"

definition decodeBinHeader :: "string \<Rightarrow> (header_error, string) res" where
  "decodeBinHeader v =
     (case base64_decode (length v mod 4 = 0) v of None \<Rightarrow> Err CorruptInput | Some bs \<Rightarrow> Ok (map char_of bs))"

definition encodeMetadataHeader :: "string \<Rightarrow> string \<Rightarrow> string" where
  "encodeMetadataHeader k v = (if HasSuffix k binHdrSuffix then encodeBinHeader v else v)"

definition decodeMetadataHeader :: "string \<Rightarrow> string \<Rightarrow> (header_error, string) res" where
  "decodeMetadataHeader k v = (if HasSuffix k binHdrSuffix then decodeBinHeader v else Ok v)"

section \<open>The fields of a header block\<close>

text \<open>\<open>decodeState\<close>; the status proto is a type of its own, which \<open>unmarshal_status\<close> reads.\<close>

record 'st decodeState =
  ds_encoding :: string
  ds_statusGen :: "'st option"
  rawStatusCode :: int
  rawStatusMsg :: string
  timeoutSet :: bool
  ds_timeout :: int
  ds_method :: string
  ds_mdata :: "string \<rightharpoonup> string list"

definition decodeState0 :: "'st decodeState" where
  "decodeState0 = \<lparr>ds_encoding = [], ds_statusGen = None, rawStatusCode = 0, rawStatusMsg = [], timeoutSet = False, ds_timeout = 0,
     ds_method = [], ds_mdata = Map.empty\<rparr>"

text \<open>\<open>processHeaderField\<close>: the new state and the code of the stream error, if there is one.\<close>

definition processHeaderField :: "(string \<Rightarrow> 'st option) \<Rightarrow> HeaderField \<Rightarrow> 'st decodeState \<Rightarrow> 'st decodeState \<times> code option" where
  "processHeaderField unmarshal_status f d =
     (if hf_Name f = ''content-type'' then (if \<not> validContentType (hf_Value f) then (d, Some FailedPrecondition) else (d, None))
      else if hf_Name f = ''grpc-encoding'' then (d\<lparr>ds_encoding := hf_Value f\<rparr>, None)
      else if hf_Name f = ''grpc-status'' then
        (case parse_int64 (hf_Value f) of
           None \<Rightarrow> (d, Some Internal)
         | Some code \<Rightarrow> (d\<lparr>rawStatusCode := signed_take_bit 31 code\<rparr>, None))
      else if hf_Name f = ''grpc-message'' then (d\<lparr>rawStatusMsg := decodeGrpcMessage (hf_Value f)\<rparr>, None)
      else if hf_Name f = ''grpc-status-details-bin'' then
        (case decodeBinHeader (hf_Value f) of
           Ok v \<Rightarrow> (case unmarshal_status v of None \<Rightarrow> (d, Some Internal) | Some st \<Rightarrow> (d\<lparr>ds_statusGen := Some st\<rparr>, None))
         | _ \<Rightarrow> (d, Some Internal))
      else if hf_Name f = ''grpc-timeout'' then
        (let d = d\<lparr>timeoutSet := True\<rparr> in
         case decodeTimeout (hf_Value f) of
           Ok t \<Rightarrow> (d\<lparr>ds_timeout := t\<rparr>, None)
         | _ \<Rightarrow> (d\<lparr>ds_timeout := 0\<rparr>, Some Internal))
      else if hf_Name f = '':path'' then (d\<lparr>ds_method := hf_Value f\<rparr>, None)
      else if \<not> isReservedHeader (hf_Name f) \<or> isWhitelistedPseudoHeader (hf_Name f) then
        (case decodeMetadataHeader (hf_Name f) (hf_Value f) of
           Ok v \<Rightarrow> (d\<lparr>ds_mdata := (ds_mdata d)(hf_Name f \<mapsto> (case ds_mdata d (hf_Name f) of None \<Rightarrow> [] | Some vs \<Rightarrow> vs) @ [v])\<rparr>, None)
         | _ \<Rightarrow> (d, None))
      else (d, None))"

section \<open>Lemmas\<close>

lemma hex_val_char: "d < 16 \<Longrightarrow> hex_val (hex_char d) = Some d"
  by (auto simp: hex_val_def hex_char_def Let_def)

lemma of_char_256: "of_char c < (256 :: nat)"
  by simp

lemma decode_percent: "decodeGrpcMessageUnchecked (percent_byte c @ s) = c # decodeGrpcMessageUnchecked s"
proof -
  have "of_char c div 16 < (16 :: nat)" "of_char c mod 16 < (16 :: nat)" using of_char_256 [of c] by linarith+
  then show ?thesis by (simp add: percent_byte_def hex_val_char)
qed

lemma decode_encode_unchecked: "decodeGrpcMessageUnchecked (encodeGrpcMessageUnchecked msg) = msg"
  by (induction msg) (auto simp: encodeGrpcMessageUnchecked_def decode_percent passes_def)

text \<open>The quick scans only save work.\<close>

lemma encode_scan_eq: "encode_scan msg cs = (if list_all passes cs then msg else encodeGrpcMessageUnchecked msg)"
  by (induction cs) auto

lemma encode_passes: "list_all passes msg \<Longrightarrow> encodeGrpcMessageUnchecked msg = msg"
  by (induction msg) (auto simp: encodeGrpcMessageUnchecked_def)

lemma encode_unchecked: "encodeGrpcMessage msg = encodeGrpcMessageUnchecked msg"
  by (auto simp: encodeGrpcMessage_def encode_scan_eq encode_passes)

fun has_percent :: "string \<Rightarrow> bool" where
  "has_percent [] = False"
| "has_percent (c # cs) = (c = CHR ''%'' \<and> length cs \<ge> 2 \<or> has_percent cs)"

lemma decode_scan_eq: "decode_scan msg cs = (if has_percent cs then decodeGrpcMessageUnchecked msg else msg)"
  by (induction cs) auto

lemma decode_no_percent: "\<not> has_percent msg \<Longrightarrow> decodeGrpcMessageUnchecked msg = msg"
  by (induction msg) (auto split: list.split)

lemma decode_unchecked: "decodeGrpcMessage msg = decodeGrpcMessageUnchecked msg"
  by (auto simp: decodeGrpcMessage_def decode_scan_eq decode_no_percent)

lemma base64_chars: "list_all (\<lambda>i. base64_val (base64_char i) = Some i \<and> base64_char i \<noteq> CHR 0x0A \<and> base64_char i \<noteq> CHR 0x0D) [0..<64]"
  by code_simp

lemma base64_char_val [simp]: "i < 64 \<Longrightarrow> base64_val (base64_char i) = Some i"
  and base64_char_line [simp]: "i < 64 \<Longrightarrow> base64_char i \<noteq> CHR 0x0A" "i < 64 \<Longrightarrow> base64_char i \<noteq> CHR 0x0D"
  using base64_chars by (simp_all add: list_all_iff)

lemma base64_roundtrip:
  assumes "\<forall>b\<in>set bs. b < 256"
  shows "base64_quanta (length (base64_encode bs) mod 4 = 0) (base64_encode bs) = Some bs \<and>
    filter (\<lambda>c. c \<noteq> CHR 0x0A \<and> c \<noteq> CHR 0x0D) (base64_encode bs) = base64_encode bs"
  using assms
proof (induction bs rule: base64_encode.induct)
  case (2 a)
  then have "a div 4 < 64" "a mod 4 * 16 < 64" by auto
  then show ?case by simp
next
  case (3 a b)
  then have "a div 4 < 64" "a mod 4 * 16 + b div 16 < 64" "b mod 16 * 4 < 64" by auto
  moreover have "a div 4 * 4 + (a mod 4 * 16 + b div 16) div 16 = a" "(a mod 4 * 16 + b div 16) mod 16 * 16 + b mod 16 * 4 div 4 = b"
    using 3 by auto
  ultimately show ?case using 3 by simp
next
  case (4 a b c rest)
  then have "a div 4 < 64" "a mod 4 * 16 + b div 16 < 64" "b mod 16 * 4 + c div 64 < 64" "c mod 64 < 64" by auto
  moreover have "a div 4 * 4 + (a mod 4 * 16 + b div 16) div 16 = a" "(a mod 4 * 16 + b div 16) mod 16 * 16 + (b mod 16 * 4 + c div 64) div 4 = b"
    "(b mod 16 * 4 + c div 64) mod 4 * 64 + c mod 64 = c" using 4 by auto
  ultimately show ?case using 4 by simp
qed simp

lemma bin_header_roundtrip: "decodeBinHeader (encodeBinHeader v) = Ok v"
proof -
  have "\<forall>b\<in>set (map of_char v). b < (256 :: nat)" by auto
  from base64_roundtrip [OF this] show ?thesis
    by (simp add: decodeBinHeader_def encodeBinHeader_def base64_decode_def comp_def)
qed

lemma nat_digits_digit: "list_all is_digit (nat_digits n)"
  using set_nat_digits by (fastforce simp: list_all_iff is_digit_def)

lemma parse_itoa:
  assumes "0 \<le> n" "n < 2 ^ 63"
  shows "parse_int64 (itoa n) = Some n"
proof -
  obtain m where n: "n = int m" using assms(1) by (metis nonneg_int_cases)
  have "is_digit (hd (nat_digits m))" using nat_digits_digit [of m] by (simp add: list_all_iff)
  then have "hd (nat_digits m) \<noteq> CHR ''-''" "hd (nat_digits m) \<noteq> CHR ''+''" by (auto simp: is_digit_def)
  then show ?thesis using assms(2) nat_digits_digit [of m] digits_value_nat_digits [of m]
    by (simp add: parse_int64_def Let_def n)
qed

lemma length_nat_digits: "n < 10 ^ k \<Longrightarrow> 0 < k \<Longrightarrow> length (nat_digits n) \<le> k"
proof (induction n arbitrary: k rule: nat_digits.induct)
  case (1 n)
  show ?case
  proof (cases "n < 10")
    case False
    then obtain j where k: "k = Suc j" "0 < j" using 1(2,3) by (cases k; cases "k = 1") auto
    have "length (nat_digits (n div 10)) \<le> j" using 1(1) [OF False, of j] 1(2) k by simp
    then show ?thesis using False k by (subst nat_digits.simps) simp
  qed (use 1 in \<open>simp add: nat_digits.simps [of n]\<close>)
qed

lemma itoa_length: "0 \<le> v \<Longrightarrow> v \<le> 99999999 \<Longrightarrow> length (itoa v) \<le> 8"
  using length_nat_digits [of "nat v" 8] by (simp add: itoa_def)

lemma div_up_bounds:
  assumes "0 < r"
  shows "t \<le> r * div_up t r" "r * div_up t r < t + r" "div_up t r \<le> n \<longleftrightarrow> t \<le> n * r"
proof -
  define q m where "q = t div r" and "m = t mod r"
  have t: "t = r * q + m" "0 \<le> m" "m < r" "div_up t r = (if m > 0 then q + 1 else q)"
    using assms by (simp_all add: q_def m_def div_up_def)
  show low: "t \<le> r * div_up t r" and high: "r * div_up t r < t + r" using t by (auto simp: algebra_simps)
  show "div_up t r \<le> n \<longleftrightarrow> t \<le> n * r"
  proof
    assume "div_up t r \<le> n"
    then have "r * div_up t r \<le> r * n" using assms by (intro mult_left_mono) simp_all
    then show "t \<le> n * r" using low by (simp add: mult.commute)
  next
    assume "t \<le> n * r"
    then have "r * div_up t r < r * (n + 1)" using high by (simp add: algebra_simps)
    then show "div_up t r \<le> n" using assms by (simp add: mult_less_cancel_left)
  qed
qed

lemma decode_unit:
  assumes "0 < t" "timeoutUnitToDuration u = Some d" "0 < d" "d * div_up t d < 2 ^ 63" "div_up t d \<le> 99999999" "d = 1 \<or> 99999 * d \<le> t"
  shows "\<exists>t'. decodeTimeout (itoa (div_up t d) @ [u]) = Ok t' \<and> t \<le> t' \<and> 99999 * (t' - t) < t \<and> length (itoa (div_up t d) @ [u]) \<le> 9"
proof -
  note b = div_up_bounds(1,2) [OF assms(3), of t]
  have v: "0 \<le> div_up t d" using b(1) assms(1,3) by (smt (verit) mult_nonneg_nonpos)
  have "parse_int64 (itoa (div_up t d)) = Some (div_up t d)" by (rule parse_itoa) (use v assms(5) in simp_all)
  moreover have "int64 (d * div_up t d) = d * div_up t d" using b assms(1,4) by (intro int64_id) simp_all
  moreover have "itoa (div_up t d) \<noteq> []" using v by (simp add: itoa_def)
  moreover have "99999 * (d * div_up t d - t) < t" using b assms(1,6) by auto
  ultimately show ?thesis using b(1) itoa_length [OF v assms(5)] assms(2)
    by (auto simp: decodeTimeout_def Suc_le_eq)
qed

text \<open>Status messages survive percent encoding: for every message the decoder gives it back, what is sent
  is printable ASCII, and the quick paths of both functions return what the full loops would.\<close>

theorem grpc_message_roundtrip:
  "decodeGrpcMessage (encodeGrpcMessage msg) = msg \<and> list_all (\<lambda>c. 32 \<le> (of_char c :: nat) \<and> of_char c < (127 :: nat)) (encodeGrpcMessage msg) \<and>
   encodeGrpcMessage msg = encodeGrpcMessageUnchecked msg \<and> decodeGrpcMessage other = decodeGrpcMessageUnchecked other"
proof -
  have "of_char (hex_char d) \<ge> (32 :: nat) \<and> of_char (hex_char d) < (127 :: nat)" if "d < 16" for d
    using that by (auto simp: hex_char_def)
  then have "list_all (\<lambda>c. 32 \<le> (of_char c :: nat) \<and> of_char c < (127 :: nat)) (percent_byte c)" for c
  proof -
    have "of_char c div 16 < (16 :: nat)" using of_char_256 [of c] by linarith
    with \<open>\<And>d. d < 16 \<Longrightarrow> of_char (hex_char d) \<ge> (32 :: nat) \<and> of_char (hex_char d) < (127 :: nat)\<close>
    show ?thesis by (simp add: percent_byte_def)
  qed
  then have "list_all (\<lambda>c. 32 \<le> (of_char c :: nat) \<and> of_char c < (127 :: nat)) (encodeGrpcMessageUnchecked msg)"
    by (induction msg) (auto simp: encodeGrpcMessageUnchecked_def passes_def)
  then show ?thesis by (simp add: encode_unchecked decode_unchecked decode_encode_unchecked)
qed

text \<open>C30: a positive timeout of up to 2562047 hours survives the wire: it is sent in at most eight digits and a
  unit, and decoded to a duration that is never shorter and longer by less than one part in 99999.\<close>

theorem timeout_roundtrip:
  assumes "0 < t" "t \<le> 2562047 * hour"
  shows "\<exists>t'. decodeTimeout (encodeTimeout t) = Ok t' \<and> t \<le> t' \<and> 99999 * (t' - t) < t \<and> length (encodeTimeout t) \<le> 9"
proof -
  have le: "div_up t u \<le> maxTimeoutValue \<longleftrightarrow> t \<le> 99999999 * u" if "0 < u" for u
    using div_up_bounds(3) [OF that, of t 99999999] by (simp add: maxTimeoutValue_def)
  have units: "timeoutUnitToDuration CHR ''n'' = Some nanosecond" "timeoutUnitToDuration CHR ''u'' = Some microsecond"
    "timeoutUnitToDuration CHR ''m'' = Some millisecond" "timeoutUnitToDuration CHR ''S'' = Some second"
    "timeoutUnitToDuration CHR ''M'' = Some minute" "timeoutUnitToDuration CHR ''H'' = Some hour"
    by (simp_all add: timeoutUnitToDuration_def)
  define Q where "Q s \<longleftrightarrow> (\<exists>t'. decodeTimeout s = Ok t' \<and> t \<le> t' \<and> 99999 * (t' - t) < t \<and> length s \<le> 9)" for s
  have Q: "Q (itoa (div_up t d) @ [u])"
    if "timeoutUnitToDuration u = Some d" "0 < d" "d dvd hour" "t \<le> 99999999 * d" "d = 1 \<or> 99999 * d \<le> t" for u d
  proof -
    note dvd = that(3)
    obtain k where k: "hour = d * k" using dvd by blast
    then have "div_up t d \<le> 2562047 * k" using div_up_bounds(3) [OF that(2), of t "2562047 * k"] assms(2) by (simp add: mult.commute mult.left_commute)
    then have "d * div_up t d \<le> d * (2562047 * k)" using that(2) by (intro mult_left_mono) simp_all
    also have "\<dots> = 2562047 * hour" by (simp add: k)
    finally have "d * div_up t d < 2 ^ 63" by (simp add: hour_def)
    then show ?thesis unfolding Q_def using that assms div_up_bounds(3) [OF that(2), of t 99999999] by (intro decode_unit) simp_all
  qed
  have "Q (encodeTimeout t)"
    unfolding encodeTimeout_def using assms by (auto simp: le durations intro!: Q units [unfolded durations])
  then show ?thesis by (simp add: Q_def)
qed

text \<open>Beyond that, rounding up to whole hours leaves the range of a duration: the longest timeout, which stands
  for no timeout at all, is decoded to one that has already passed.\<close>

lemma longest_timeout_expires: "\<exists>t. decodeTimeout (encodeTimeout (2 ^ 63 - 1)) = Ok t \<and> t < 0"
proof -
  have n: "div_up (2 ^ 63 - 1) hour = 2562048" "\<not> div_up (2 ^ 63 - 1) minute \<le> maxTimeoutValue" "\<not> div_up (2 ^ 63 - 1) second \<le> maxTimeoutValue"
    "\<not> div_up (2 ^ 63 - 1) millisecond \<le> maxTimeoutValue" "\<not> div_up (2 ^ 63 - 1) microsecond \<le> maxTimeoutValue"
    "\<not> div_up (2 ^ 63 - 1) nanosecond \<le> maxTimeoutValue"
    by (simp_all add: div_up_def durations maxTimeoutValue_def)
  have "parse_int64 (itoa 2562048) = Some 2562048" by (rule parse_itoa) simp_all
  moreover have "itoa 2562048 \<noteq> []" by (simp add: itoa_def)
  moreover have "int64 (hour * 2562048) = hour * 2562048 - 2 ^ 64" using int64_cases [of "hour * 2562048"] by (simp add: hour_def)
  ultimately show ?thesis using n by (simp add: encodeTimeout_def decodeTimeout_def timeoutUnitToDuration_def hour_def Suc_le_eq)
qed

theorem timeout_roundtrip_witness:
  "\<exists>t'. decodeTimeout (encodeTimeout (90 * second + 1)) = Ok t' \<and> 90 * second + 1 \<le> t' \<and> 99999 * (t' - (90 * second + 1)) < 90 * second + 1"
  using timeout_roundtrip [of "90 * second + 1"] by (auto simp: second_def hour_def)

text \<open>Metadata survives the wire: whatever the key, the decoder gives back the value that was encoded, also
  when the key marks a binary value and the value is sent in base64.\<close>

theorem metadata_roundtrip: "decodeMetadataHeader k (encodeMetadataHeader k v) = Ok v"
  by (simp add: decodeMetadataHeader_def encodeMetadataHeader_def bin_header_roundtrip)

end
