(* ===== verification/Http2Frame.thy ===== *)
theory Http2Frame
  imports Prelude
begin

text \<open>
  HTTP/2 framing, \<open>golang.org/x/net/http2\<close>: \<open>frame.go\<close> (the \<open>Framer\<close> that the gRPC transport of the
  service reads and writes with), the error types of \<open>errors.go\<close> and the flow control window of
  \<open>flow.go\<close>.

  A \<open>Framer\<close> holds the bytes it has not read yet and the bytes its writer has accepted; what the
  writer answers is an argument kept in the record. The decoding of header blocks
  (\<open>ReadMetaHeaders\<close>) is not set here, and frames are not reused (\<open>SetReuseFrames\<close>), as when a
  framer is created.
\<close>

unbundle bit_operations_syntax

section \<open>Errors\<close>

type_synonym ErrCode = "32 word"

definition ErrCodeNo :: ErrCode where "ErrCodeNo = 0"
definition ErrCodeProtocol :: ErrCode where "ErrCodeProtocol = 1"
definition ErrCodeInternal :: ErrCode where "ErrCodeInternal = 2"
definition ErrCodeFlowControl :: ErrCode where "ErrCodeFlowControl = 3"
definition ErrCodeFrameSize :: ErrCode where "ErrCodeFrameSize = 6"
definition ErrCodeCompression :: ErrCode where "ErrCodeCompression = 9"

datatype http2_error =
    ConnectionError ErrCode
  | StreamError "32 word" ErrCode
  | connError ErrCode string
  | ErrFrameTooLarge
  | EOF
  | UnexpectedEOF
  | ErrShortWrite
  | errStreamID
  | errDepStreamID
  | errPadLength
  | errPadBytes
  | errIllegalIncrement
  | WriterError string

type_synonym 'a hres = "(http2_error, 'a) res"

section \<open>Frame headers\<close>

type_synonym FrameType = byte
type_synonym Flags = byte

definition frameHeaderLen :: nat where "frameHeaderLen = 9"

definition FrameData :: FrameType where "FrameData = 0"
definition FrameHeaders :: FrameType where "FrameHeaders = 1"
definition FramePriority :: FrameType where "FramePriority = 2"
definition FrameRSTStream :: FrameType where "FrameRSTStream = 3"
definition FrameSettings :: FrameType where "FrameSettings = 4"
definition FramePushPromise :: FrameType where "FramePushPromise = 5"
definition FramePing :: FrameType where "FramePing = 6"
definition FrameGoAway :: FrameType where "FrameGoAway = 7"
definition FrameWindowUpdate :: FrameType where "FrameWindowUpdate = 8"
definition FrameContinuation :: FrameType where "FrameContinuation = 9"

lemmas frame_types = FrameData_def FrameHeaders_def FramePriority_def FrameRSTStream_def
  FrameSettings_def FramePushPromise_def FramePing_def FrameGoAway_def FrameWindowUpdate_def
  FrameContinuation_def

definition Flags_Has :: "Flags \<Rightarrow> Flags \<Rightarrow> bool" where
  "Flags_Has f v \<longleftrightarrow> f AND v = v"

definition FlagDataEndStream :: Flags where "FlagDataEndStream = 1"
definition FlagDataPadded :: Flags where "FlagDataPadded = 8"
definition FlagHeadersEndStream :: Flags where "FlagHeadersEndStream = 1"
definition FlagHeadersEndHeaders :: Flags where "FlagHeadersEndHeaders = 4"
definition FlagHeadersPadded :: Flags where "FlagHeadersPadded = 8"
definition FlagHeadersPriority :: Flags where "FlagHeadersPriority = 32"
definition FlagSettingsAck :: Flags where "FlagSettingsAck = 1"
definition FlagPingAck :: Flags where "FlagPingAck = 1"
definition FlagContinuationEndHeaders :: Flags where "FlagContinuationEndHeaders = 4"
definition FlagPushPromiseEndHeaders :: Flags where "FlagPushPromiseEndHeaders = 4"
definition FlagPushPromisePadded :: Flags where "FlagPushPromisePadded = 8"

lemmas flag_defs = FlagDataEndStream_def FlagDataPadded_def FlagHeadersEndStream_def
  FlagHeadersEndHeaders_def FlagHeadersPadded_def FlagHeadersPriority_def FlagSettingsAck_def
  FlagPingAck_def FlagContinuationEndHeaders_def FlagPushPromiseEndHeaders_def
  FlagPushPromisePadded_def

record FrameHeader =
  fh_valid :: bool
  fh_Type :: FrameType
  fh_Flags :: Flags
  fh_Length :: "32 word"
  fh_StreamID :: "32 word"

definition checkValid :: "FrameHeader \<Rightarrow> unit hres" where
  "checkValid h = (if fh_valid h then Ok () else Panic)"

text \<open>\<open>binary.BigEndian\<close>: both panic on a slice that is too short.\<close>

fun be_Uint16 :: "bytes \<Rightarrow> 16 word hres" where
  "be_Uint16 (b0 # b1 # _) = Ok (push_bit 8 (ucast b0) OR ucast b1)"
| "be_Uint16 _ = Panic"

fun be_Uint32 :: "bytes \<Rightarrow> 32 word hres" where
  "be_Uint32 (b0 # b1 # b2 # b3 # _) =
     Ok (push_bit 24 (ucast b0) OR push_bit 16 (ucast b1) OR push_bit 8 (ucast b2) OR ucast b3)"
| "be_Uint32 _ = Panic"

text \<open>\<open>io.ReadFull\<close> of \<open>n\<close> bytes from the bytes still to be read.\<close>

definition io_ReadFull :: "nat \<Rightarrow> bytes \<Rightarrow> bytes hres \<times> bytes" where
  "io_ReadFull n inp =
     (if n \<le> length inp then (Ok (take n inp), drop n inp)
      else if inp = [] then (Err EOF, []) else (Err UnexpectedEOF, []))"

definition readFrameHeader :: "bytes \<Rightarrow> FrameHeader hres \<times> bytes" where
  "readFrameHeader inp =
     (case io_ReadFull frameHeaderLen inp of (r, rest) \<Rightarrow>
        (res_bind r (\<lambda>buf.
         res_bind (index buf 0) (\<lambda>b0. res_bind (index buf 1) (\<lambda>b1. res_bind (index buf 2) (\<lambda>b2.
         res_bind (index buf 3) (\<lambda>b3. res_bind (index buf 4) (\<lambda>b4.
         res_bind (gslice_from buf 5) (\<lambda>s. res_bind (be_Uint32 s) (\<lambda>sid.
           Ok \<lparr>fh_valid = True, fh_Type = b3, fh_Flags = b4,
             fh_Length = push_bit 16 (ucast b0) OR push_bit 8 (ucast b1) OR ucast b2,
             fh_StreamID = sid AND 0x7fffffff\<rparr>)))))))),
         rest))"

section \<open>Frames\<close>

record PriorityParam =
  StreamDep :: "32 word"
  Exclusive :: bool
  Weight :: byte

definition PriorityParam_zero :: PriorityParam where
  "PriorityParam_zero = \<lparr>StreamDep = 0, Exclusive = False, Weight = 0\<rparr>"

definition PriorityParam_IsZero :: "PriorityParam \<Rightarrow> bool" where
  "PriorityParam_IsZero p \<longleftrightarrow> p = PriorityParam_zero"

datatype Frame =
    DataFrame FrameHeader bytes
  | HeadersFrame FrameHeader PriorityParam bytes
  | PriorityFrame FrameHeader PriorityParam
  | RSTStreamFrame FrameHeader ErrCode
  | SettingsFrame FrameHeader bytes
  | PushPromiseFrame FrameHeader "32 word" bytes
  | PingFrame FrameHeader bytes
  | GoAwayFrame FrameHeader "32 word" ErrCode bytes
  | WindowUpdateFrame FrameHeader "32 word"
  | ContinuationFrame FrameHeader bytes
  | UnknownFrame FrameHeader bytes

fun Header :: "Frame \<Rightarrow> FrameHeader" where
  "Header (DataFrame h _) = h"
| "Header (HeadersFrame h _ _) = h"
| "Header (PriorityFrame h _) = h"
| "Header (RSTStreamFrame h _) = h"
| "Header (SettingsFrame h _) = h"
| "Header (PushPromiseFrame h _ _) = h"
| "Header (PingFrame h _) = h"
| "Header (GoAwayFrame h _ _ _) = h"
| "Header (WindowUpdateFrame h _) = h"
| "Header (ContinuationFrame h _) = h"
| "Header (UnknownFrame h _) = h"

fun invalidate :: "Frame \<Rightarrow> Frame" where
  "invalidate (DataFrame h d) = DataFrame (h\<lparr>fh_valid := False\<rparr>) d"
| "invalidate (HeadersFrame h p d) = HeadersFrame (h\<lparr>fh_valid := False\<rparr>) p d"
| "invalidate (PriorityFrame h p) = PriorityFrame (h\<lparr>fh_valid := False\<rparr>) p"
| "invalidate (RSTStreamFrame h c) = RSTStreamFrame (h\<lparr>fh_valid := False\<rparr>) c"
| "invalidate (SettingsFrame h d) = SettingsFrame (h\<lparr>fh_valid := False\<rparr>) d"
| "invalidate (PushPromiseFrame h i d) = PushPromiseFrame (h\<lparr>fh_valid := False\<rparr>) i d"
| "invalidate (PingFrame h d) = PingFrame (h\<lparr>fh_valid := False\<rparr>) d"
| "invalidate (GoAwayFrame h l c d) = GoAwayFrame (h\<lparr>fh_valid := False\<rparr>) l c d"
| "invalidate (WindowUpdateFrame h i) = WindowUpdateFrame (h\<lparr>fh_valid := False\<rparr>) i"
| "invalidate (ContinuationFrame h d) = ContinuationFrame (h\<lparr>fh_valid := False\<rparr>) d"
| "invalidate (UnknownFrame h d) = UnknownFrame (h\<lparr>fh_valid := False\<rparr>) d"

definition readByte :: "bytes \<Rightarrow> (bytes \<times> byte) hres" where
  "readByte p = (if length p = 0 then Err UnexpectedEOF
     else res_bind (gslice_from p 1) (\<lambda>r. res_bind (index p 0) (\<lambda>b. Ok (r, b))))"

definition readUint32 :: "bytes \<Rightarrow> (bytes \<times> 32 word) hres" where
  "readUint32 p = (if length p < 4 then Err UnexpectedEOF
     else res_bind (gslice_from p 4) (\<lambda>r. res_bind (gslice p 0 4) (\<lambda>q.
       res_bind (be_Uint32 q) (\<lambda>v. Ok (r, v)))))"

definition parseDataFrame :: "FrameHeader \<Rightarrow> bytes \<Rightarrow> Frame hres" where
  "parseDataFrame fh payload =
     (if fh_StreamID fh = 0 then Err (connError ErrCodeProtocol ''DATA frame with stream ID 0'')
      else res_bind (if Flags_Has (fh_Flags fh) FlagDataPadded then readByte payload else Ok (payload, 0))
        (\<lambda>(payload, padSize).
          if uint padSize > int (length payload)
          then Err (connError ErrCodeProtocol ''pad size larger than data payload'')
          else res_bind (gslice payload 0 (int (length payload) - uint padSize)) (\<lambda>d. Ok (DataFrame fh d))))"

text \<open>The settings of a SETTINGS frame: six bytes each.\<close>

definition SettingInitialWindowSize :: "16 word" where "SettingInitialWindowSize = 4"

function settings_Value :: "bytes \<Rightarrow> 16 word \<Rightarrow> 32 word option hres" where
  "settings_Value buf s =
     (if 0 < length buf then
        res_bind (gslice buf 0 2) (\<lambda>k. res_bind (be_Uint16 k) (\<lambda>settingID.
          if settingID = s
          then res_bind (gslice buf 2 6) (\<lambda>v. res_bind (be_Uint32 v) (\<lambda>v. Ok (Some v)))
          else if length buf < 6 then Panic else settings_Value (drop 6 buf) s))
      else Ok None)"
  by pat_completeness auto
termination by (relation "measure (\<lambda>(buf, s). length buf)") auto

declare settings_Value.simps [simp del]

definition SettingsFrame_Value :: "FrameHeader \<Rightarrow> bytes \<Rightarrow> 16 word \<Rightarrow> 32 word option hres" where
  "SettingsFrame_Value h p s = res_bind (checkValid h) (\<lambda>_. settings_Value p s)"

text \<open>\<open>ForeachSetting\<close> runs \<open>fn\<close>, which acts on a state of its own, until it returns an error.\<close>

function foreach_setting ::
    "(16 word \<times> 32 word \<Rightarrow> 's \<Rightarrow> 's \<times> http2_error option) \<Rightarrow> bytes \<Rightarrow> 's \<Rightarrow> 's \<times> unit hres" where
  "foreach_setting fn buf st =
     (if 0 < length buf then
        (case res_bind (gslice buf 0 2) (\<lambda>k. res_bind (be_Uint16 k) (\<lambda>settingID.
              res_bind (gslice buf 2 6) (\<lambda>v. res_bind (be_Uint32 v) (\<lambda>v. Ok (settingID, v))))) of
           Ok setting \<Rightarrow>
             (case fn setting st of
                (st, Some err) \<Rightarrow> (st, Err err)
              | (st, None) \<Rightarrow> foreach_setting fn (drop 6 buf) st)
         | Err err \<Rightarrow> (st, Err err) | Panic \<Rightarrow> (st, Panic) | Stuck \<Rightarrow> (st, Stuck))
      else (st, Ok ()))"
  by pat_completeness auto
termination by (relation "measure (\<lambda>(fn, buf, st). length buf)") auto

declare foreach_setting.simps [simp del]

definition ForeachSetting ::
    "(16 word \<times> 32 word \<Rightarrow> 's \<Rightarrow> 's \<times> http2_error option) \<Rightarrow> FrameHeader \<Rightarrow> bytes \<Rightarrow> 's \<Rightarrow> 's \<times> unit hres" where
  "ForeachSetting fn h p st = (if fh_valid h then foreach_setting fn p st else (st, Panic))"

definition parseSettingsFrame :: "FrameHeader \<Rightarrow> bytes \<Rightarrow> Frame hres" where
  "parseSettingsFrame fh p =
     (if Flags_Has (fh_Flags fh) FlagSettingsAck \<and> fh_Length fh > 0 then Err (ConnectionError ErrCodeFrameSize)
      else if fh_StreamID fh \<noteq> 0 then Err (ConnectionError ErrCodeProtocol)
      else if length p mod 6 \<noteq> 0 then Err (ConnectionError ErrCodeFrameSize)
      else res_bind (SettingsFrame_Value fh p SettingInitialWindowSize) (\<lambda>r.
        case r of
          Some v \<Rightarrow> if v > 0x7fffffff then Err (ConnectionError ErrCodeFlowControl) else Ok (SettingsFrame fh p)
        | None \<Rightarrow> Ok (SettingsFrame fh p)))"

definition parsePingFrame :: "FrameHeader \<Rightarrow> bytes \<Rightarrow> Frame hres" where
  "parsePingFrame fh payload =
     (if length payload \<noteq> 8 then Err (ConnectionError ErrCodeFrameSize)
      else if fh_StreamID fh \<noteq> 0 then Err (ConnectionError ErrCodeProtocol)
      else Ok (PingFrame fh payload))"

definition parseGoAwayFrame :: "FrameHeader \<Rightarrow> bytes \<Rightarrow> Frame hres" where
  "parseGoAwayFrame fh p =
     (if fh_StreamID fh \<noteq> 0 then Err (ConnectionError ErrCodeProtocol)
      else if length p < 8 then Err (ConnectionError ErrCodeFrameSize)
      else res_bind (gslice p 0 4) (\<lambda>l. res_bind (be_Uint32 l) (\<lambda>l.
        res_bind (gslice p 4 8) (\<lambda>c. res_bind (be_Uint32 c) (\<lambda>c.
        res_bind (gslice_from p 8) (\<lambda>d. Ok (GoAwayFrame fh (l AND 0x7fffffff) c d)))))))"

definition parseUnknownFrame :: "FrameHeader \<Rightarrow> bytes \<Rightarrow> Frame hres" where
  "parseUnknownFrame fh p = Ok (UnknownFrame fh p)"

definition parseWindowUpdateFrame :: "FrameHeader \<Rightarrow> bytes \<Rightarrow> Frame hres" where
  "parseWindowUpdateFrame fh p =
     (if length p \<noteq> 4 then Err (ConnectionError ErrCodeFrameSize)
      else res_bind (gslice p 0 4) (\<lambda>q. res_bind (be_Uint32 q) (\<lambda>v.
        let inc = v AND 0x7fffffff in
        if inc = 0 then
          (if fh_StreamID fh = 0 then Err (ConnectionError ErrCodeProtocol)
           else Err (StreamError (fh_StreamID fh) ErrCodeProtocol))
        else Ok (WindowUpdateFrame fh inc))))"

definition parseHeadersFrame :: "FrameHeader \<Rightarrow> bytes \<Rightarrow> Frame hres" where
  "parseHeadersFrame fh p =
     (if fh_StreamID fh = 0 then Err (connError ErrCodeProtocol ''HEADERS frame with stream ID 0'')
      else res_bind (if Flags_Has (fh_Flags fh) FlagHeadersPadded then readByte p else Ok (p, 0)) (\<lambda>(p, padLength).
        res_bind (if Flags_Has (fh_Flags fh) FlagHeadersPriority
          then res_bind (readUint32 p) (\<lambda>(p, v). res_bind (readByte p) (\<lambda>(p, weight).
            let dep = v AND 0x7fffffff in
            Ok (p, \<lparr>StreamDep = dep, Exclusive = (v \<noteq> dep), Weight = weight\<rparr>)))
          else Ok (p, PriorityParam_zero)) (\<lambda>(p, prio).
        if int (length p) - uint padLength \<le> 0 then Err (StreamError (fh_StreamID fh) ErrCodeProtocol)
        else res_bind (gslice p 0 (int (length p) - uint padLength)) (\<lambda>frag. Ok (HeadersFrame fh prio frag)))))"

definition parsePriorityFrame :: "FrameHeader \<Rightarrow> bytes \<Rightarrow> Frame hres" where
  "parsePriorityFrame fh payload =
     (if fh_StreamID fh = 0 then Err (connError ErrCodeProtocol ''PRIORITY frame with stream ID 0'')
      else if length payload \<noteq> 5 then Err (connError ErrCodeFrameSize
        (''PRIORITY frame payload size was '' @ itoa (int (length payload)) @ ''; want 5''))
      else res_bind (gslice payload 0 4) (\<lambda>q. res_bind (be_Uint32 q) (\<lambda>v.
        res_bind (index payload 4) (\<lambda>weight.
        let streamID = v AND 0x7fffffff in
        Ok (PriorityFrame fh \<lparr>StreamDep = streamID, Exclusive = (streamID \<noteq> v), Weight = weight\<rparr>)))))"

definition parseRSTStreamFrame :: "FrameHeader \<Rightarrow> bytes \<Rightarrow> Frame hres" where
  "parseRSTStreamFrame fh p =
     (if length p \<noteq> 4 then Err (ConnectionError ErrCodeFrameSize)
      else if fh_StreamID fh = 0 then Err (ConnectionError ErrCodeProtocol)
      else res_bind (gslice p 0 4) (\<lambda>q. res_bind (be_Uint32 q) (\<lambda>c. Ok (RSTStreamFrame fh c))))"

definition parseContinuationFrame :: "FrameHeader \<Rightarrow> bytes \<Rightarrow> Frame hres" where
  "parseContinuationFrame fh p =
     (if fh_StreamID fh = 0 then Err (connError ErrCodeProtocol ''CONTINUATION frame with stream ID 0'')
      else Ok (ContinuationFrame fh p))"

definition parsePushPromise :: "FrameHeader \<Rightarrow> bytes \<Rightarrow> Frame hres" where
  "parsePushPromise fh p =
     (if fh_StreamID fh = 0 then Err (ConnectionError ErrCodeProtocol)
      else res_bind (if Flags_Has (fh_Flags fh) FlagPushPromisePadded then readByte p else Ok (p, 0)) (\<lambda>(p, padLength).
        res_bind (readUint32 p) (\<lambda>(p, promiseID).
        if uint padLength > int (length p) then Err (ConnectionError ErrCodeProtocol)
        else res_bind (gslice p 0 (int (length p) - uint padLength)) (\<lambda>frag.
          Ok (PushPromiseFrame fh (promiseID AND 0x7fffffff) frag)))))"

definition typeFrameParser :: "FrameType \<Rightarrow> FrameHeader \<Rightarrow> bytes \<Rightarrow> Frame hres" where
  "typeFrameParser t =
     (if t = FrameData then parseDataFrame
      else if t = FrameHeaders then parseHeadersFrame
      else if t = FramePriority then parsePriorityFrame
      else if t = FrameRSTStream then parseRSTStreamFrame
      else if t = FrameSettings then parseSettingsFrame
      else if t = FramePushPromise then parsePushPromise
      else if t = FramePing then parsePingFrame
      else if t = FrameGoAway then parseGoAwayFrame
      else if t = FrameWindowUpdate then parseWindowUpdateFrame
      else if t = FrameContinuation then parseContinuationFrame
      else parseUnknownFrame)"

section \<open>The Framer\<close>

text \<open>
  \<open>fr_in\<close> are the bytes the reader still holds, \<open>fr_out\<close> the bytes the writer has accepted, and
  \<open>fr_Write\<close> what the writer answers to a \<open>Write\<close>: how many bytes it took and its error.
\<close>

record Framer =
  fr_in :: bytes
  lastFrame :: "Frame option"
  errDetail :: "string option"
  lastHeaderStream :: "32 word"
  maxReadSize :: "32 word"
  fr_out :: bytes
  fr_Write :: "bytes \<Rightarrow> nat \<times> http2_error option"
  wbuf :: bytes
  AllowIllegalWrites :: bool
  AllowIllegalReads :: bool
  MaxHeaderListSize :: "32 word"

definition maxHeaderListSize :: "Framer \<Rightarrow> 32 word" where
  "maxHeaderListSize fr = (if MaxHeaderListSize fr = 0 then push_bit 20 16 else MaxHeaderListSize fr)"

definition minMaxFrameSize :: "32 word" where "minMaxFrameSize = push_bit 14 1"

definition maxFrameSize :: "32 word" where "maxFrameSize = push_bit 24 1 - 1"

definition SetMaxReadFrameSize :: "32 word \<Rightarrow> Framer \<Rightarrow> Framer" where
  "SetMaxReadFrameSize v fr = fr\<lparr>maxReadSize := (if v > maxFrameSize then maxFrameSize else v)\<rparr>"

definition NewFramer :: "(bytes \<Rightarrow> nat \<times> http2_error option) \<Rightarrow> bytes \<Rightarrow> Framer" where
  "NewFramer w r = SetMaxReadFrameSize maxFrameSize
     \<lparr>fr_in = r, lastFrame = None, errDetail = None, lastHeaderStream = 0, maxReadSize = 0,
      fr_out = [], fr_Write = w, wbuf = [], AllowIllegalWrites = False, AllowIllegalReads = False,
      MaxHeaderListSize = 0\<rparr>"

definition ErrorDetail :: "Framer \<Rightarrow> string option" where
  "ErrorDetail fr = errDetail fr"

definition terminalReadFrameError :: "http2_error option \<Rightarrow> bool" where
  "terminalReadFrameError err =
     (case err of Some (StreamError _ _) \<Rightarrow> False | _ \<Rightarrow> err \<noteq> None)"

subsection \<open>Writing\<close>

definition startWrite :: "FrameType \<Rightarrow> Flags \<Rightarrow> 32 word \<Rightarrow> Framer \<Rightarrow> Framer" where
  "startWrite ftype flags streamID f = f\<lparr>wbuf :=
     [0, 0, 0, ftype, flags, ucast (drop_bit 24 streamID), ucast (drop_bit 16 streamID),
      ucast (drop_bit 8 streamID), ucast streamID]\<rparr>"

definition endWrite :: "Framer \<Rightarrow> Framer \<times> http2_error option" where
  "endWrite f =
     (let len = length (wbuf f) - frameHeaderLen in
      if len \<ge> 2 ^ 24 then (f, Some ErrFrameTooLarge)
      else
        let f = f\<lparr>wbuf := [word_of_nat (len div 2 ^ 16), word_of_nat (len div 2 ^ 8), word_of_nat len] @ drop 3 (wbuf f)\<rparr>
        in case fr_Write f (wbuf f) of (n, err) \<Rightarrow>
          (f\<lparr>fr_out := fr_out f @ take n (wbuf f)\<rparr>,
           if err = None \<and> n \<noteq> length (wbuf f) then Some ErrShortWrite else err))"

definition writeByte :: "byte \<Rightarrow> Framer \<Rightarrow> Framer" where
  "writeByte v f = f\<lparr>wbuf := wbuf f @ [v]\<rparr>"

definition writeBytes :: "bytes \<Rightarrow> Framer \<Rightarrow> Framer" where
  "writeBytes v f = f\<lparr>wbuf := wbuf f @ v\<rparr>"

definition writeUint16 :: "16 word \<Rightarrow> Framer \<Rightarrow> Framer" where
  "writeUint16 v f = f\<lparr>wbuf := wbuf f @ [ucast (drop_bit 8 v), ucast v]\<rparr>"

definition writeUint32 :: "32 word \<Rightarrow> Framer \<Rightarrow> Framer" where
  "writeUint32 v f = f\<lparr>wbuf := wbuf f @
     [ucast (drop_bit 24 v), ucast (drop_bit 16 v), ucast (drop_bit 8 v), ucast v]\<rparr>"

definition validStreamIDOrZero :: "32 word \<Rightarrow> bool" where
  "validStreamIDOrZero streamID \<longleftrightarrow> streamID AND 0x80000000 = 0"

definition validStreamID :: "32 word \<Rightarrow> bool" where
  "validStreamID streamID \<longleftrightarrow> streamID \<noteq> 0 \<and> streamID AND 0x80000000 = 0"

text \<open>\<open>WriteDataPadded\<close>: a nil padding and an empty one differ.\<close>

definition WriteDataPadded ::
    "32 word \<Rightarrow> bool \<Rightarrow> bytes \<Rightarrow> bytes option \<Rightarrow> Framer \<Rightarrow> Framer \<times> http2_error option" where
  "WriteDataPadded streamID endStream data pad f =
     (let padBytes = (case pad of None \<Rightarrow> [] | Some p \<Rightarrow> p) in
      if \<not> validStreamID streamID \<and> \<not> AllowIllegalWrites f then (f, Some errStreamID)
      else if length padBytes > 255 then (f, Some errPadLength)
      else if \<not> AllowIllegalWrites f \<and> list_ex (\<lambda>b. b \<noteq> 0) padBytes then (f, Some errPadBytes)
      else
        let flags = (if endStream then FlagDataEndStream else 0) OR (if pad \<noteq> None then FlagDataPadded else 0);
            f = startWrite FrameData flags streamID f;
            f = (if pad \<noteq> None then writeByte (word_of_nat (length padBytes)) f else f)
        in endWrite (writeBytes padBytes (writeBytes data f)))"

definition WriteData :: "32 word \<Rightarrow> bool \<Rightarrow> bytes \<Rightarrow> Framer \<Rightarrow> Framer \<times> http2_error option" where
  "WriteData streamID endStream data f = WriteDataPadded streamID endStream data None f"

fun write_settings :: "(16 word \<times> 32 word) list \<Rightarrow> Framer \<Rightarrow> Framer" where
  "write_settings [] f = f"
| "write_settings ((ID, Val) # ss) f = write_settings ss (writeUint32 Val (writeUint16 ID f))"

definition WriteSettings :: "(16 word \<times> 32 word) list \<Rightarrow> Framer \<Rightarrow> Framer \<times> http2_error option" where
  "WriteSettings settings f = endWrite (write_settings settings (startWrite FrameSettings 0 0 f))"

definition WriteSettingsAck :: "Framer \<Rightarrow> Framer \<times> http2_error option" where
  "WriteSettingsAck f = endWrite (startWrite FrameSettings FlagSettingsAck 0 f)"

definition WritePing :: "bool \<Rightarrow> bytes \<Rightarrow> Framer \<Rightarrow> Framer \<times> http2_error option" where
  "WritePing ack data f = endWrite (writeBytes data (startWrite FramePing (if ack then FlagPingAck else 0) 0 f))"

definition WriteGoAway :: "32 word \<Rightarrow> ErrCode \<Rightarrow> bytes \<Rightarrow> Framer \<Rightarrow> Framer \<times> http2_error option" where
  "WriteGoAway maxStreamID code debugData f =
     endWrite (writeBytes debugData (writeUint32 code (writeUint32 (maxStreamID AND 0x7fffffff)
       (startWrite FrameGoAway 0 0 f))))"

definition WriteWindowUpdate :: "32 word \<Rightarrow> 32 word \<Rightarrow> Framer \<Rightarrow> Framer \<times> http2_error option" where
  "WriteWindowUpdate streamID incr f =
     (if (incr < 1 \<or> incr > 2147483647) \<and> \<not> AllowIllegalWrites f then (f, Some errIllegalIncrement)
      else endWrite (writeUint32 incr (startWrite FrameWindowUpdate 0 streamID f)))"

record HeadersFrameParam =
  hp_StreamID :: "32 word"
  hp_BlockFragment :: bytes
  hp_EndStream :: bool
  hp_EndHeaders :: bool
  hp_PadLength :: byte
  hp_Priority :: PriorityParam

definition WriteHeaders :: "HeadersFrameParam \<Rightarrow> Framer \<Rightarrow> Framer \<times> http2_error option" where
  "WriteHeaders p f =
     (if \<not> validStreamID (hp_StreamID p) \<and> \<not> AllowIllegalWrites f then (f, Some errStreamID)
      else
        let prio = \<not> PriorityParam_IsZero (hp_Priority p);
            flags = (if hp_PadLength p \<noteq> 0 then FlagHeadersPadded else 0) OR
              (if hp_EndStream p then FlagHeadersEndStream else 0) OR
              (if hp_EndHeaders p then FlagHeadersEndHeaders else 0) OR
              (if prio then FlagHeadersPriority else 0);
            f = startWrite FrameHeaders flags (hp_StreamID p) f;
            f = (if hp_PadLength p \<noteq> 0 then writeByte (hp_PadLength p) f else f);
            v = StreamDep (hp_Priority p)
        in if prio \<and> \<not> validStreamIDOrZero v \<and> \<not> AllowIllegalWrites f then (f, Some errDepStreamID)
           else
             let f = (if prio then writeByte (Weight (hp_Priority p))
                   (writeUint32 (if Exclusive (hp_Priority p) then v OR 0x80000000 else v) f) else f)
             in endWrite (writeBytes (replicate (unat (hp_PadLength p)) 0) (writeBytes (hp_BlockFragment p) f)))"

definition WritePriority :: "32 word \<Rightarrow> PriorityParam \<Rightarrow> Framer \<Rightarrow> Framer \<times> http2_error option" where
  "WritePriority streamID p f =
     (if \<not> validStreamID streamID \<and> \<not> AllowIllegalWrites f then (f, Some errStreamID)
      else if \<not> validStreamIDOrZero (StreamDep p) then (f, Some errDepStreamID)
      else endWrite (writeByte (Weight p)
        (writeUint32 (if Exclusive p then StreamDep p OR 0x80000000 else StreamDep p)
          (startWrite FramePriority 0 streamID f))))"

definition WriteRSTStream :: "32 word \<Rightarrow> ErrCode \<Rightarrow> Framer \<Rightarrow> Framer \<times> http2_error option" where
  "WriteRSTStream streamID code f =
     (if \<not> validStreamID streamID \<and> \<not> AllowIllegalWrites f then (f, Some errStreamID)
      else endWrite (writeUint32 code (startWrite FrameRSTStream 0 streamID f)))"

definition WriteContinuation :: "32 word \<Rightarrow> bool \<Rightarrow> bytes \<Rightarrow> Framer \<Rightarrow> Framer \<times> http2_error option" where
  "WriteContinuation streamID endHeaders headerBlockFragment f =
     (if \<not> validStreamID streamID \<and> \<not> AllowIllegalWrites f then (f, Some errStreamID)
      else endWrite (writeBytes headerBlockFragment
        (startWrite FrameContinuation (if endHeaders then FlagContinuationEndHeaders else 0) streamID f)))"

record PushPromiseParam =
  pp_StreamID :: "32 word"
  pp_PromiseID :: "32 word"
  pp_BlockFragment :: bytes
  pp_EndHeaders :: bool
  pp_PadLength :: byte

definition WritePushPromise :: "PushPromiseParam \<Rightarrow> Framer \<Rightarrow> Framer \<times> http2_error option" where
  "WritePushPromise p f =
     (if \<not> validStreamID (pp_StreamID p) \<and> \<not> AllowIllegalWrites f then (f, Some errStreamID)
      else
        let flags = (if pp_PadLength p \<noteq> 0 then FlagPushPromisePadded else 0) OR
              (if pp_EndHeaders p then FlagPushPromiseEndHeaders else 0);
            f = startWrite FramePushPromise flags (pp_StreamID p) f;
            f = (if pp_PadLength p \<noteq> 0 then writeByte (pp_PadLength p) f else f)
        in if \<not> validStreamID (pp_PromiseID p) \<and> \<not> AllowIllegalWrites f then (f, Some errStreamID)
           else endWrite (writeBytes (replicate (unat (pp_PadLength p)) 0)
             (writeBytes (pp_BlockFragment p) (writeUint32 (pp_PromiseID p) f))))"

definition WriteRawFrame :: "FrameType \<Rightarrow> Flags \<Rightarrow> 32 word \<Rightarrow> bytes \<Rightarrow> Framer \<Rightarrow> Framer \<times> http2_error option" where
  "WriteRawFrame t flags streamID payload f = endWrite (writeBytes payload (startWrite t flags streamID f))"

subsection \<open>Reading\<close>

definition fr_connError :: "ErrCode \<Rightarrow> string \<Rightarrow> Framer \<Rightarrow> Framer \<times> http2_error" where
  "fr_connError code reason fr = (fr\<lparr>errDetail := Some reason\<rparr>, ConnectionError code)"

text \<open>\<open>checkFrameOrder\<close>; the reasons stored in \<open>errDetail\<close> are kept without their formatted numbers.\<close>

definition checkFrameOrder :: "Frame \<Rightarrow> Framer \<Rightarrow> Framer \<times> http2_error option" where
  "checkFrameOrder f fr =
     (let fr = fr\<lparr>lastFrame := Some f\<rparr>; fh = Header f in
      if AllowIllegalReads fr then (fr, None)
      else if lastHeaderStream fr \<noteq> 0 \<and> fh_Type fh \<noteq> FrameContinuation then
        (case fr_connError ErrCodeProtocol ''expected CONTINUATION'' fr of (fr, e) \<Rightarrow> (fr, Some e))
      else if lastHeaderStream fr \<noteq> 0 \<and> fh_StreamID fh \<noteq> lastHeaderStream fr then
        (case fr_connError ErrCodeProtocol ''got CONTINUATION for another stream'' fr of (fr, e) \<Rightarrow> (fr, Some e))
      else if lastHeaderStream fr = 0 \<and> fh_Type fh = FrameContinuation then
        (case fr_connError ErrCodeProtocol ''unexpected CONTINUATION'' fr of (fr, e) \<Rightarrow> (fr, Some e))
      else if fh_Type fh = FrameHeaders \<or> fh_Type fh = FrameContinuation then
        (fr\<lparr>lastHeaderStream := (if Flags_Has (fh_Flags fh) FlagHeadersEndHeaders then 0 else fh_StreamID fh)\<rparr>, None)
      else (fr, None))"

definition ReadFrame :: "Framer \<Rightarrow> Framer \<times> Frame hres" where
  "ReadFrame fr =
     (let fr = fr\<lparr>errDetail := None, lastFrame := map_option invalidate (lastFrame fr)\<rparr> in
      case readFrameHeader (fr_in fr) of (r, rest) \<Rightarrow>
      let fr = fr\<lparr>fr_in := rest\<rparr> in
      case r of
        Err e \<Rightarrow> (fr, Err e) | Panic \<Rightarrow> (fr, Panic) | Stuck \<Rightarrow> (fr, Stuck)
      | Ok fh \<Rightarrow>
        if fh_Length fh > maxReadSize fr then (fr, Err ErrFrameTooLarge)
        else (case io_ReadFull (unat (fh_Length fh)) (fr_in fr) of (r, rest) \<Rightarrow>
          let fr = fr\<lparr>fr_in := rest\<rparr> in
          case r of
            Err e \<Rightarrow> (fr, Err e) | Panic \<Rightarrow> (fr, Panic) | Stuck \<Rightarrow> (fr, Stuck)
          | Ok payload \<Rightarrow>
            (case typeFrameParser (fh_Type fh) fh payload of
               Err (connError code reason) \<Rightarrow>
                 (case fr_connError code reason fr of (fr, e) \<Rightarrow> (fr, Err e))
             | Err e \<Rightarrow> (fr, Err e) | Panic \<Rightarrow> (fr, Panic) | Stuck \<Rightarrow> (fr, Stuck)
             | Ok f \<Rightarrow>
               (case checkFrameOrder f fr of
                  (fr, Some e) \<Rightarrow> (fr, Err e)
                | (fr, None) \<Rightarrow> (fr, Ok f)))))"

text \<open>Reading up to \<open>n\<close> frames until an error.\<close>

fun read_frames :: "nat \<Rightarrow> Framer \<Rightarrow> Framer \<times> Frame list" where
  "read_frames 0 fr = (fr, [])"
| "read_frames (Suc n) fr =
     (case ReadFrame fr of
        (fr', Ok f) \<Rightarrow> (case read_frames n fr' of (fr'', fs) \<Rightarrow> (fr'', f # fs))
      | (fr', _) \<Rightarrow> (fr', []))"

section \<open>Flow control\<close>

text \<open>The window of a stream and, unless it is the connection's own, the shared window of its
  connection. \<open>take\<close> and \<open>add\<close> work on \<open>int32\<close>, which wraps around.\<close>

type_synonym int32 = "32 word"

record flow =
  flow_n :: int32
  flow_conn :: "int32 option"

definition flow_available :: "flow \<Rightarrow> int32" where
  "flow_available f =
     (case flow_conn f of
        Some c \<Rightarrow> if c <s flow_n f then c else flow_n f
      | None \<Rightarrow> flow_n f)"

definition flow_take :: "int32 \<Rightarrow> flow \<Rightarrow> flow hres" where
  "flow_take n f =
     (if flow_available f <s n then Panic
      else Ok (f\<lparr>flow_n := flow_n f - n, flow_conn := map_option (\<lambda>c. c - n) (flow_conn f)\<rparr>))"

definition flow_add :: "int32 \<Rightarrow> flow \<Rightarrow> flow \<times> bool" where
  "flow_add n f =
     (let remain = 0x7fffffff - flow_n f in
      if remain <s n then (f, False) else (f\<lparr>flow_n := flow_n f + n\<rparr>, True))"

section \<open>Bytes of a frame\<close>

definition put_Uint16 :: "16 word \<Rightarrow> bytes" where
  "put_Uint16 v = [ucast (drop_bit 8 v), ucast v]"

definition put_Uint32 :: "32 word \<Rightarrow> bytes" where
  "put_Uint32 v = [ucast (drop_bit 24 v), ucast (drop_bit 16 v), ucast (drop_bit 8 v), ucast v]"

lemma length_put [simp]: "length (put_Uint16 v) = 2" "length (put_Uint32 w) = 4"
  by (simp_all add: put_Uint16_def put_Uint32_def)

lemma be_Uint16_put [simp]: "be_Uint16 (put_Uint16 v @ rest) = Ok v"
proof -
  have "push_bit 8 (ucast (ucast (drop_bit 8 v) :: byte)) OR ucast (ucast v :: byte) = v"
    by (rule bit_word_eqI) (auto simp: bit_simps)
  then show ?thesis by (simp add: put_Uint16_def)
qed

lemma be_Uint32_put [simp]: "be_Uint32 (put_Uint32 v @ rest) = Ok v"
  using word32_bytes [of v] by (simp add: put_Uint32_def)

lemmas be_Uint16_put' [simp] = be_Uint16_put [where rest = "[]", simplified]
lemmas be_Uint32_put' [simp] = be_Uint32_put [where rest = "[]", simplified]

lemma be_Uint16_total: "2 \<le> length b \<Longrightarrow> \<exists>v. be_Uint16 b = Ok v"
  by (cases b rule: be_Uint16.cases) auto

lemma be_Uint32_total: "4 \<le> length b \<Longrightarrow> \<exists>v. be_Uint32 b = Ok v"
  by (cases b rule: be_Uint32.cases) auto

definition frame_bytes :: "FrameType \<Rightarrow> Flags \<Rightarrow> 32 word \<Rightarrow> bytes \<Rightarrow> bytes" where
  "frame_bytes t flags sid payload =
     [word_of_nat (length payload div 2 ^ 16), word_of_nat (length payload div 2 ^ 8), word_of_nat (length payload),
      t, flags] @ put_Uint32 sid @ payload"

definition frame_header :: "FrameType \<Rightarrow> Flags \<Rightarrow> 32 word \<Rightarrow> bytes \<Rightarrow> FrameHeader" where
  "frame_header t flags sid payload =
     \<lparr>fh_valid = True, fh_Type = t, fh_Flags = flags, fh_Length = word_of_nat (length payload), fh_StreamID = sid\<rparr>"

lemma length_bytes:
  fixes n :: nat
  assumes "n < 2 ^ 24"
  shows "push_bit 16 (ucast (word_of_nat (n div 2 ^ 16) :: byte)) OR
    push_bit 8 (ucast (word_of_nat (n div 2 ^ 8) :: byte)) OR ucast (word_of_nat n :: byte) = (word_of_nat n :: 32 word)" (is "?l = ?r")
proof (rule bit_word_eqI)
  fix i
  assume i: "i < LENGTH(32)"
  have high: "bit n i \<Longrightarrow> i < 24" for i
    using assms by (metis bit_take_bit_iff take_bit_nat_eq_self)
  consider "i < 8" | "8 \<le> i" "i < 16" | "16 \<le> i" "i < 24" | "24 \<le> i" by linarith
  then show "bit ?l i \<longleftrightarrow> bit ?r i"
    unfolding drop_bit_eq_div [symmetric] using i high [of i] by cases (auto simp: bit_simps)
qed

lemma valid_id_mask: "sid AND 0x80000000 = 0 \<Longrightarrow> sid AND 0x7fffffff = (sid :: 32 word)"
proof -
  assume high: "sid AND 0x80000000 = 0"
  have m: "(0x7fffffff :: 32 word) = mask 31" "(0x80000000 :: 32 word) = push_bit 31 1"
    by (simp_all add: mask_eq_exp_minus_1 push_bit_eq_mult)
  have "bit sid 31 \<longleftrightarrow> bit (sid AND 0x80000000) 31" unfolding m by (simp add: bit_simps)
  then have "\<not> bit sid 31" using high by simp
  then show ?thesis unfolding m
    by (intro bit_word_eqI) (auto simp: bit_simps less_Suc_eq numeral_eq_Suc)
qed

lemma readFrameHeader_nine:
  "readFrameHeader (b0 # b1 # b2 # t # flags # c0 # c1 # c2 # c3 # rest) =
     (res_bind (be_Uint32 [c0, c1, c2, c3]) (\<lambda>sid. Ok \<lparr>fh_valid = True, fh_Type = t, fh_Flags = flags,
        fh_Length = push_bit 16 (ucast b0) OR push_bit 8 (ucast b1) OR ucast b2, fh_StreamID = sid AND 0x7fffffff\<rparr>), rest)"
  by (simp add: readFrameHeader_def io_ReadFull_def frameHeaderLen_def index_def gslice_from_def gslice_def
      eval_nat_numeral del: be_Uint32.simps)

lemma readFrameHeader_bytes:
  assumes "length payload < 2 ^ 24" "sid AND 0x80000000 = 0"
  shows "readFrameHeader (frame_bytes t flags sid payload @ rest) = (Ok (frame_header t flags sid payload), payload @ rest)"
proof -
  have "length (put_Uint32 sid) = 4" by simp
  then obtain c0 c1 c2 c3 where c: "put_Uint32 sid = [c0, c1, c2, c3]" by (simp add: put_Uint32_def)
  have "be_Uint32 [c0, c1, c2, c3] = Ok sid" unfolding c [symmetric] by simp
  then show ?thesis
    unfolding frame_bytes_def c append.simps readFrameHeader_nine frame_header_def
    by (simp only: res_bind_simps length_bytes [OF assms(1)] valid_id_mask [OF assms(2)])
qed

lemma endWrite_frame:
  assumes "wbuf f = [0, 0, 0, t, flags] @ put_Uint32 sid @ payload" "length payload < 2 ^ 24"
    and "fr_Write f (frame_bytes t flags sid payload) = (length (frame_bytes t flags sid payload), None)"
  shows "\<exists>f'. endWrite f = (f', None) \<and> fr_out f' = fr_out f @ frame_bytes t flags sid payload"
  using assms by (simp add: endWrite_def frame_bytes_def frameHeaderLen_def Let_def)

section \<open>The kinds of frames\<close>

text \<open>A frame that may come next: CONTINUATION exactly when a header block of the stream is open.\<close>

definition in_order :: "Framer \<Rightarrow> FrameType \<Rightarrow> 32 word \<Rightarrow> bool" where
  "in_order g t sid \<longleftrightarrow> AllowIllegalReads g \<or>
     (if t = FrameContinuation then lastHeaderStream g = sid \<and> sid \<noteq> 0 else lastHeaderStream g = 0)"

lemma checkFrameOrder_Ok:
  "in_order g (fh_Type (Header f)) (fh_StreamID (Header f)) \<Longrightarrow>
     \<exists>g'. checkFrameOrder f g = (g', None) \<and> fr_in g' = fr_in g"
  by (auto simp: checkFrameOrder_def in_order_def Let_def split: if_splits)

lemma ReadFrame_bytes:
  assumes "fr_in g = frame_bytes t flags sid payload @ rest" "length payload < 2 ^ 24" "sid AND 0x80000000 = 0"
    and "length payload \<le> unat (maxReadSize g)"
    and "typeFrameParser t (frame_header t flags sid payload) payload = Ok f"
    and "Header f = frame_header t flags sid payload" "in_order g t sid"
  shows "\<exists>g'. ReadFrame g = (g', Ok f) \<and> fr_in g' = rest"
proof -
  let ?h = "frame_header t flags sid payload"
  let ?g1 = "g\<lparr>errDetail := None, lastFrame := map_option invalidate (lastFrame g), fr_in := payload @ rest\<rparr>"
  let ?g2 = "?g1\<lparr>fr_in := rest\<rparr>"
  have len: "unat (word_of_nat (length payload) :: 32 word) = length payload"
    using assms(2) by (simp add: unsigned_of_nat take_bit_nat_eq_self)
  then have size: "\<not> fh_Length ?h > maxReadSize g" "unat (fh_Length ?h) = length payload"
    using assms(4) by (simp_all add: frame_header_def word_less_nat_alt)
  have "in_order ?g2 (fh_Type (Header f)) (fh_StreamID (Header f))"
    using assms(6,7) by (auto simp: in_order_def frame_header_def split: if_splits)
  from checkFrameOrder_Ok [OF this] obtain g' where "checkFrameOrder f ?g2 = (g', None)" "fr_in g' = rest" by auto
  moreover have "io_ReadFull (length payload) (payload @ rest) = (Ok payload, rest)"
    by (simp add: io_ReadFull_def)
  moreover have "fh_Type ?h = t" by (simp add: frame_header_def)
  ultimately show ?thesis
    using readFrameHeader_bytes [OF assms(2,3)] assms(1,5) size by (simp add: ReadFrame_def Let_def)
qed

text \<open>
  A write operation carries a frame: with a writer that takes all bytes it succeeds, and whoever
  reads these bytes, with a size limit of at least \<open>len\<close> and in a state in which such a frame may
  come, gets the frame and is left with what follows it.
\<close>

definition carries :: "(Framer \<Rightarrow> Framer \<times> http2_error option) \<Rightarrow> FrameType \<Rightarrow> 32 word \<Rightarrow> nat \<Rightarrow> Frame \<Rightarrow> bool" where
  "carries wr t s len frame \<longleftrightarrow> (\<forall>f. (\<forall>bs. fr_Write f bs = (length bs, None)) \<longrightarrow>
     (\<exists>f' bs. wr f = (f', None) \<and> fr_out f' = fr_out f @ bs \<and>
       (\<forall>g rest. fr_in g = bs @ rest \<longrightarrow> len \<le> unat (maxReadSize g) \<longrightarrow> in_order g t s \<longrightarrow>
         (\<exists>g'. ReadFrame g = (g', Ok frame) \<and> fr_in g' = rest))))"

text \<open>
  What a \<open>Write\<close> method and a parser of the same type of frame owe each other: for legal arguments
  the method writes one frame with the given flags, stream and payload, and the parser makes of
  these the frame that carries the arguments.
\<close>

locale frame_kind =
  fixes ftype :: FrameType
    and flags :: "'a \<Rightarrow> Flags" and sid :: "'a \<Rightarrow> 32 word" and payload :: "'a \<Rightarrow> bytes"
    and legal :: "'a \<Rightarrow> bool"
    and frame :: "'a \<Rightarrow> FrameHeader \<Rightarrow> Frame"
    and wr :: "'a \<Rightarrow> Framer \<Rightarrow> Framer \<times> http2_error option"
  assumes write_payload: "legal a \<Longrightarrow>
      wr a f = endWrite (f\<lparr>wbuf := [0, 0, 0, ftype, flags a] @ put_Uint32 (sid a) @ payload a\<rparr>)"
    and legal_sid: "legal a \<Longrightarrow> sid a AND 0x80000000 = 0"
    and parse_payload: "legal a \<Longrightarrow> length (payload a) < 2 ^ 24 \<Longrightarrow>
      typeFrameParser ftype (frame_header ftype (flags a) (sid a) (payload a)) (payload a) =
        Ok (frame a (frame_header ftype (flags a) (sid a) (payload a)))"
    and frame_Header: "Header (frame a h) = h"
begin

lemma carried:
  assumes "legal a" "length (payload a) < 2 ^ 24"
  shows "carries (wr a) ftype (sid a) (length (payload a)) (frame a (frame_header ftype (flags a) (sid a) (payload a)))"
  unfolding carries_def
proof (intro allI impI)
  fix f :: Framer
  assume accepts: "\<forall>bs. fr_Write f bs = (length bs, None)"
  let ?f = "f\<lparr>wbuf := [0, 0, 0, ftype, flags a] @ put_Uint32 (sid a) @ payload a\<rparr>"
  let ?bs = "frame_bytes ftype (flags a) (sid a) (payload a)"
  let ?fr = "frame a (frame_header ftype (flags a) (sid a) (payload a))"
  obtain f' where "endWrite ?f = (f', None)" "fr_out f' = fr_out ?f @ ?bs"
    using endWrite_frame [of ?f ftype "flags a" "sid a" "payload a"] assms(2) accepts by auto
  moreover have "\<exists>g'. ReadFrame g = (g', Ok ?fr) \<and> fr_in g' = rest"
    if "fr_in g = ?bs @ rest" "length (payload a) \<le> unat (maxReadSize g)" "in_order g ftype (sid a)" for g rest
    by (rule ReadFrame_bytes [OF that(1) assms(2) legal_sid [OF assms(1)] that(2) parse_payload [OF assms(1,2)]
          frame_Header that(3)])
  ultimately show "\<exists>f' bs. wr a f = (f', None) \<and> fr_out f' = fr_out f @ bs \<and>
      (\<forall>g rest. fr_in g = bs @ rest \<longrightarrow> length (payload a) \<le> unat (maxReadSize g) \<longrightarrow> in_order g ftype (sid a) \<longrightarrow>
        (\<exists>g'. ReadFrame g = (g', Ok ?fr) \<and> fr_in g' = rest))"
    using write_payload [OF assms(1)] by auto
qed

lemma carried_header:
  assumes "legal a" "length (payload a) < 2 ^ 24"
  shows "\<exists>h. carries (wr a) ftype (sid a) (length (payload a)) (frame a h) \<and>
    fh_valid h \<and> fh_StreamID h = sid a \<and> fh_Flags h = flags a"
  by (rule exI, rule conjI, rule carried [OF assms]) (simp add: frame_header_def)

end

lemma write_puts:
  "startWrite t fl sid f = f\<lparr>wbuf := [0, 0, 0, t, fl] @ put_Uint32 sid\<rparr>"
  "writeUint16 v f = f\<lparr>wbuf := wbuf f @ put_Uint16 v\<rparr>"
  "writeUint32 w f = f\<lparr>wbuf := wbuf f @ put_Uint32 w\<rparr>"
  by (simp_all add: startWrite_def writeUint16_def writeUint32_def put_Uint16_def put_Uint32_def)

lemmas write_simps = write_puts writeByte_def writeBytes_def
lemmas parser_select = typeFrameParser_def frame_types

lemma readByte_Cons [simp]: "readByte (b # p) = Ok (p, b)"
  by (simp add: readByte_def gslice_from_def gslice_def index_def)

lemma readUint32_put [simp]: "readUint32 (put_Uint32 v @ p) = Ok (p, v)"
proof -
  have "gslice_from (put_Uint32 v @ p) 4 = (Ok p :: bytes hres)" "gslice (put_Uint32 v @ p) 0 4 = (Ok (put_Uint32 v) :: bytes hres)"
    by (simp_all add: gslice_from_def gslice_def)
  then show ?thesis by (simp add: readUint32_def)
qed

lemma gslice_put [simp]:
  "gslice (put_Uint32 v @ r) 0 4 = Ok (put_Uint32 v)" "gslice (put_Uint32 v) 0 4 = Ok (put_Uint32 v)"
  "gslice (put_Uint32 u @ put_Uint32 v @ r) 4 8 = Ok (put_Uint32 v)"
  "gslice_from (put_Uint32 u @ put_Uint32 v @ r) 8 = Ok r"
  by (simp_all add: gslice_def gslice_from_def)

lemma increment_mask: "inc \<le> 0x7fffffff \<Longrightarrow> inc AND 0x7fffffff = (inc :: 32 word)"
proof -
  assume le: "inc \<le> 0x7fffffff"
  have m: "(0x7fffffff :: 32 word) = mask 31" by (simp add: mask_eq_exp_minus_1)
  have "take_bit 31 inc = inc"
    unfolding take_bit_eq_mod
    by (rule mod_word_less) (use le in \<open>simp add: word_le_nat_alt word_less_nat_alt\<close>)
  then show ?thesis unfolding m take_bit_eq_mask .
qed

lemma gslice_prefix: "j = int (length d) \<Longrightarrow> gslice (d @ r) 0 j = Ok d"
  by (simp add: gslice_def)

lemma gslice_all [simp]: "gslice d 0 (int (length d)) = Ok d"
  by (simp add: gslice_def)

lemma pad_byte: "n \<le> 255 \<Longrightarrow> uint (word_of_nat n :: byte) = int n"
  by (simp add: unsigned_of_nat uint_nat take_bit_nat_eq_self)

interpretation data_kind: frame_kind FrameData
  "\<lambda>(s, es, d, pad). (if es then FlagDataEndStream else 0) OR (if pad \<noteq> None then FlagDataPadded else 0)"
  "\<lambda>(s, es, d, pad). s"
  "\<lambda>(s, es, d, pad). (case pad of None \<Rightarrow> [] | Some p \<Rightarrow> [word_of_nat (length p)]) @ d @ (case pad of None \<Rightarrow> [] | Some p \<Rightarrow> p)"
  "\<lambda>(s, es, d, pad). validStreamID s \<and> (case pad of None \<Rightarrow> True | Some p \<Rightarrow> \<exists>n\<le>255. p = replicate n 0)"
  "\<lambda>(s, es, d, pad) h. DataFrame h d"
  "\<lambda>(s, es, d, pad). WriteDataPadded s es d pad"
proof (unfold_locales, goal_cases)
  case (1 a f)
  then show ?case
    by (auto simp: WriteDataPadded_def write_simps Let_def list_ex_iff split: prod.splits option.splits)
next
  case (2 a)
  then show ?case by (auto simp: validStreamID_def)
next
  case (3 a)
  obtain s es d pad where a: "a = (s, es, d, pad)" by (metis prod_cases4)
  show ?case
  proof (cases pad)
    case None
    with 3 a show ?thesis
      by (simp add: parser_select parseDataFrame_def frame_header_def validStreamID_def Flags_Has_def flag_defs gslice_def)
  next
    case (Some p)
    with 3 a obtain n where "n \<le> 255" "p = replicate n 0" by auto
    with 3 a Some show ?thesis
      by (simp add: parser_select parseDataFrame_def frame_header_def validStreamID_def Flags_Has_def flag_defs
          pad_byte gslice_prefix)
  qed
next
  case (4 a h)
  then show ?case by (simp split: prod.split)
qed

interpretation ping_kind: frame_kind FramePing
  "\<lambda>(ack, d). if ack then FlagPingAck else 0" "\<lambda>_. 0" "\<lambda>(ack, d). d" "\<lambda>(ack, d). length d = 8"
  "\<lambda>(ack, d) h. PingFrame h d" "\<lambda>(ack, d). WritePing ack d"
  by unfold_locales
    (auto simp: WritePing_def write_simps parser_select parsePingFrame_def frame_header_def)

interpretation goaway_kind: frame_kind FrameGoAway "\<lambda>_. 0" "\<lambda>_. 0"
  "\<lambda>(l, c, d). put_Uint32 (l AND 0x7fffffff) @ put_Uint32 c @ d" "\<lambda>_. True"
  "\<lambda>(l, c, d) h. GoAwayFrame h (l AND 0x7fffffff) c d" "\<lambda>(l, c, d). WriteGoAway l c d"
  by unfold_locales
    (auto simp: WriteGoAway_def write_simps parser_select parseGoAwayFrame_def frame_header_def validStreamID_def
      validStreamIDOrZero_def increment_mask Let_def
      simp del: res_bind_eq_Ok)

interpretation window_update_kind: frame_kind FrameWindowUpdate "\<lambda>_. 0" fst "\<lambda>(s, inc). put_Uint32 inc"
  "\<lambda>(s, inc). validStreamIDOrZero s \<and> 0 < inc \<and> inc \<le> 0x7fffffff"
  "\<lambda>(s, inc) h. WindowUpdateFrame h inc" "\<lambda>(s, inc). WriteWindowUpdate s inc"
  by unfold_locales
    (auto simp: WriteWindowUpdate_def write_simps parser_select parseWindowUpdateFrame_def frame_header_def validStreamID_def
      validStreamIDOrZero_def increment_mask Let_def
      simp del: res_bind_eq_Ok)

interpretation rst_kind: frame_kind FrameRSTStream "\<lambda>_. 0" fst "\<lambda>(s, c). put_Uint32 c" "\<lambda>(s, c). validStreamID s"
  "\<lambda>(s, c) h. RSTStreamFrame h c" "\<lambda>(s, c). WriteRSTStream s c"
  by unfold_locales
    (auto simp: WriteRSTStream_def write_simps parser_select parseRSTStreamFrame_def frame_header_def validStreamID_def
      validStreamIDOrZero_def increment_mask Let_def
      simp del: res_bind_eq_Ok)

interpretation continuation_kind: frame_kind FrameContinuation
  "\<lambda>(s, eh, d). if eh then FlagContinuationEndHeaders else 0" fst "\<lambda>(s, eh, d). d" "\<lambda>(s, eh, d). validStreamID s"
  "\<lambda>(s, eh, d) h. ContinuationFrame h d" "\<lambda>(s, eh, d). WriteContinuation s eh d"
  by unfold_locales
    (auto simp: WriteContinuation_def write_simps parser_select parseContinuationFrame_def frame_header_def
      validStreamID_def)

lemma priority_word:
  assumes "dep AND 0x80000000 = (0 :: 32 word)"
  shows "(dep OR 0x80000000) AND 0x7fffffff = dep" and "dep OR 0x80000000 \<noteq> dep"
    and "dep AND 0x7fffffff = dep"
proof -
  show keep: "dep AND 0x7fffffff = dep" by (rule valid_id_mask [OF assms])
  have "(dep OR 0x80000000) AND 0x7fffffff = (dep AND 0x7fffffff) OR (0x80000000 AND 0x7fffffff)"
    by (rule bit.conj_disj_distrib2)
  with keep show "(dep OR 0x80000000) AND 0x7fffffff = dep" by simp
  show "dep OR 0x80000000 \<noteq> dep"
  proof
    assume "dep OR 0x80000000 = dep"
    then have "(dep OR 0x80000000) AND 0x80000000 = 0" using assms by simp
    then show False by (simp add: bit.conj_disj_distrib2 assms)
  qed
qed

definition priority_bytes :: "PriorityParam \<Rightarrow> bytes" where
  "priority_bytes p =
     put_Uint32 (if Exclusive p then StreamDep p OR 0x80000000 else StreamDep p) @ [Weight p]"

interpretation priority_kind: frame_kind FramePriority "\<lambda>_. 0" fst "\<lambda>(s, p). priority_bytes p"
  "\<lambda>(s, p). validStreamID s \<and> validStreamIDOrZero (StreamDep p)"
  "\<lambda>(s, p) h. PriorityFrame h p" "\<lambda>(s, p). WritePriority s p"
proof (unfold_locales, goal_cases)
  case (1 a f)
  then show ?case by (auto simp: WritePriority_def write_simps priority_bytes_def)
next
  case (3 a)
  then obtain s p where a: "a = (s, p)" "s \<noteq> 0" "StreamDep p AND 0x80000000 = 0"
    by (auto simp: validStreamID_def validStreamIDOrZero_def)
  have "index (put_Uint32 v @ [w]) 4 = (Ok w :: byte hres)" for v w
    by (simp add: index_def nth_append)
  then show ?case
    using a priority_word [OF a(3)]
    by (simp add: parser_select parsePriorityFrame_def priority_bytes_def frame_header_def Let_def
        del: res_bind_eq_Ok)
qed (auto simp: validStreamID_def)

definition headers_flags :: "HeadersFrameParam \<Rightarrow> Flags" where
  "headers_flags p = (if hp_PadLength p \<noteq> 0 then FlagHeadersPadded else 0) OR
     (if hp_EndStream p then FlagHeadersEndStream else 0) OR
     (if hp_EndHeaders p then FlagHeadersEndHeaders else 0) OR
     (if \<not> PriorityParam_IsZero (hp_Priority p) then FlagHeadersPriority else 0)"

definition headers_payload :: "HeadersFrameParam \<Rightarrow> bytes" where
  "headers_payload p = (if hp_PadLength p \<noteq> 0 then [hp_PadLength p] else []) @
     (if \<not> PriorityParam_IsZero (hp_Priority p) then priority_bytes (hp_Priority p) else []) @
     hp_BlockFragment p @ replicate (unat (hp_PadLength p)) 0"

lemma headers_flags_Has:
  "Flags_Has (headers_flags p) FlagHeadersPadded = (hp_PadLength p \<noteq> 0)"
  "Flags_Has (headers_flags p) FlagHeadersPriority = (\<not> PriorityParam_IsZero (hp_Priority p))"
  "Flags_Has (headers_flags p) FlagHeadersEndHeaders = hp_EndHeaders p"
  "Flags_Has (headers_flags p) FlagHeadersEndStream = hp_EndStream p"
  by (simp_all add: headers_flags_def flag_defs Flags_Has_def)

lemma parse_headers_payload:
  assumes "fh_StreamID h \<noteq> 0" "fh_Flags h = headers_flags p" "validStreamIDOrZero (StreamDep (hp_Priority p))"
    and "hp_BlockFragment p \<noteq> []"
  shows "parseHeadersFrame h (headers_payload p) = Ok (HeadersFrame h (hp_Priority p) (hp_BlockFragment p))"
proof -
  let ?body = "hp_BlockFragment p @ replicate (unat (hp_PadLength p)) 0"
  let ?prio = "if \<not> PriorityParam_IsZero (hp_Priority p) then priority_bytes (hp_Priority p) else []"
  have pad: "(if Flags_Has (fh_Flags h) FlagHeadersPadded then readByte (headers_payload p) else Ok (headers_payload p, 0)) =
      Ok (?prio @ ?body, hp_PadLength p)"
    by (simp add: assms(2) headers_flags_Has headers_payload_def)
  have prio: "(if Flags_Has (fh_Flags h) FlagHeadersPriority
      then res_bind (readUint32 (?prio @ ?body)) (\<lambda>(p, v). res_bind (readByte p) (\<lambda>(p, weight).
        let dep = v AND 0x7fffffff in Ok (p, \<lparr>StreamDep = dep, Exclusive = (v \<noteq> dep), Weight = weight\<rparr>)))
      else Ok (?prio @ ?body, PriorityParam_zero)) = Ok (?body, hp_Priority p)"
    using priority_word [of "StreamDep (hp_Priority p)"] assms(3)
    by (auto simp: assms(2) headers_flags_Has priority_bytes_def validStreamIDOrZero_def PriorityParam_IsZero_def
        Let_def simp del: res_bind_eq_Ok)
  have "gslice ?body 0 (int (length ?body) - uint (hp_PadLength p)) = (Ok (hp_BlockFragment p) :: bytes hres)"
    by (rule gslice_prefix) simp
  moreover have "\<not> int (length ?body) - uint (hp_PadLength p) \<le> 0" using assms(4) by simp
  ultimately show ?thesis
    unfolding parseHeadersFrame_def pad
    by (simp only: res_bind_simps prod.case prio) (simp add: assms(1))
qed

interpretation headers_kind: frame_kind FrameHeaders headers_flags hp_StreamID headers_payload
  "\<lambda>p. validStreamID (hp_StreamID p) \<and> validStreamIDOrZero (StreamDep (hp_Priority p)) \<and> hp_BlockFragment p \<noteq> []"
  "\<lambda>p h. HeadersFrame h (hp_Priority p) (hp_BlockFragment p)" WriteHeaders
proof (unfold_locales, goal_cases)
  case (1 a f)
  then show ?case
    by (simp add: WriteHeaders_def write_simps headers_payload_def headers_flags_def priority_bytes_def Let_def)
next
  case (3 a)
  then show ?case
    by (simp add: parser_select) (rule parse_headers_payload, simp_all add: frame_header_def validStreamID_def)
qed (auto simp: validStreamID_def)

definition push_flags :: "PushPromiseParam \<Rightarrow> Flags" where
  "push_flags p = (if pp_PadLength p \<noteq> 0 then FlagPushPromisePadded else 0) OR
     (if pp_EndHeaders p then FlagPushPromiseEndHeaders else 0)"

definition push_payload :: "PushPromiseParam \<Rightarrow> bytes" where
  "push_payload p = (if pp_PadLength p \<noteq> 0 then [pp_PadLength p] else []) @ put_Uint32 (pp_PromiseID p) @
     pp_BlockFragment p @ replicate (unat (pp_PadLength p)) 0"

interpretation push_kind: frame_kind FramePushPromise push_flags pp_StreamID push_payload
  "\<lambda>p. validStreamID (pp_StreamID p) \<and> validStreamID (pp_PromiseID p)"
  "\<lambda>p h. PushPromiseFrame h (pp_PromiseID p) (pp_BlockFragment p)" WritePushPromise
proof (unfold_locales, goal_cases)
  case (1 a f)
  then show ?case by (simp add: WritePushPromise_def write_simps push_payload_def push_flags_def Let_def)
next
  case (3 p)
  let ?body = "pp_BlockFragment p @ replicate (unat (pp_PadLength p)) 0"
  have "gslice ?body 0 (int (length ?body) - uint (pp_PadLength p)) = (Ok (pp_BlockFragment p) :: bytes hres)"
    by (rule gslice_prefix) simp
  moreover have "\<not> uint (pp_PadLength p) > int (length ?body)" by simp
  moreover have "Flags_Has (push_flags p) FlagPushPromisePadded = (pp_PadLength p \<noteq> 0)"
    by (simp add: push_flags_def flag_defs Flags_Has_def)
  ultimately show ?case
    using 3 valid_id_mask [of "pp_PromiseID p"]
    by (simp add: parser_select parsePushPromise_def push_payload_def frame_header_def validStreamID_def
        del: res_bind_eq_Ok)
qed (auto simp: validStreamID_def)

text \<open>Extension frames: any type without a parser of its own.\<close>

interpretation raw_kind: frame_kind t fst "fst \<circ> snd" "snd \<circ> snd"
  "\<lambda>(fl, s, d). 9 < t \<and> validStreamIDOrZero s" "\<lambda>(fl, s, d) h. UnknownFrame h d"
  "\<lambda>(fl, s, d). WriteRawFrame t fl s d"
  by unfold_locales
    (auto simp: WriteRawFrame_def write_simps parser_select parseUnknownFrame_def validStreamIDOrZero_def)

section \<open>SETTINGS\<close>

definition settings_bytes :: "(16 word \<times> 32 word) list \<Rightarrow> bytes" where
  "settings_bytes ss = concat (map (\<lambda>(k, v). put_Uint16 k @ put_Uint32 v) ss)"

lemma settings_bytes_simps [simp]:
  "settings_bytes [] = []"
  "settings_bytes ((k, v) # ss) = put_Uint16 k @ put_Uint32 v @ settings_bytes ss"
  by (simp_all add: settings_bytes_def)

lemma length_settings_bytes [simp]: "length (settings_bytes ss) = 6 * length ss"
  by (induction ss) auto

lemma setting_slices [simp]:
  "gslice (put_Uint16 k @ put_Uint32 v @ r) 0 2 = Ok (put_Uint16 k)"
  "gslice (put_Uint16 k @ put_Uint32 v @ r) 2 6 = Ok (put_Uint32 v)"
  "drop 6 (put_Uint16 k @ put_Uint32 v @ r) = r"
  by (simp_all add: gslice_def)

lemma settings_Value_bytes: "settings_Value (settings_bytes ss) s = Ok (map_of ss s)"
proof (induction ss)
  case Nil
  then show ?case by (subst settings_Value.simps) simp
next
  case (Cons kv ss)
  obtain k v where kv: "kv = (k, v)" by (metis surj_pair)
  with Cons show ?case
    by (subst settings_Value.simps) (simp del: res_bind_eq_Ok)
qed

lemma foreach_setting_bytes:
  "foreach_setting (\<lambda>x xs. (xs @ [x], None)) (settings_bytes ss) acc = (acc @ ss, Ok ())"
proof (induction ss arbitrary: acc)
  case Nil
  then show ?case by (subst foreach_setting.simps) simp
next
  case (Cons kv ss)
  obtain k v where kv: "kv = (k, v)" by (metis surj_pair)
  with Cons show ?case
    by (subst foreach_setting.simps) (simp del: res_bind_eq_Ok)
qed

lemma write_settings_bytes: "write_settings ss f = f\<lparr>wbuf := wbuf f @ settings_bytes ss\<rparr>"
  by (induction ss f rule: write_settings.induct) (simp_all add: write_simps)

definition settings_legal :: "(16 word \<times> 32 word) list \<Rightarrow> bool" where
  "settings_legal ss \<longleftrightarrow> (case map_of ss SettingInitialWindowSize of Some v \<Rightarrow> v \<le> 0x7fffffff | None \<Rightarrow> True)"

interpretation settings_kind: frame_kind FrameSettings "\<lambda>_. 0" "\<lambda>_. 0" settings_bytes settings_legal
  "\<lambda>ss h. SettingsFrame h (settings_bytes ss)" WriteSettings
proof (unfold_locales, goal_cases)
  case (1 a f)
  then show ?case by (simp add: WriteSettings_def write_settings_bytes write_puts)
next
  case (3 a)
  then show ?case
    by (auto simp: parser_select parseSettingsFrame_def SettingsFrame_Value_def checkValid_def frame_header_def
        settings_Value_bytes Flags_Has_def flag_defs settings_legal_def simp del: res_bind_eq_Ok split: option.splits)
qed simp_all

interpretation settings_ack_kind: frame_kind FrameSettings "\<lambda>_. FlagSettingsAck" "\<lambda>_. 0" "\<lambda>_. []" "\<lambda>_. True"
  "\<lambda>_ h. SettingsFrame h []" "\<lambda>_ :: unit. WriteSettingsAck"
proof (unfold_locales, goal_cases)
  case (3 a)
  have "settings_Value [] s = Ok None" for s by (subst settings_Value.simps) simp
  then show ?case
    by (simp add: parser_select parseSettingsFrame_def SettingsFrame_Value_def checkValid_def frame_header_def
        del: res_bind_eq_Ok)
qed (simp_all add: WriteSettingsAck_def write_puts)

section \<open>Reading never panics\<close>

lemma settings_Value_total: "length buf mod 6 = 0 \<Longrightarrow> \<exists>r. settings_Value buf s = Ok r"
proof (induction buf s rule: settings_Value.induct)
  case (1 buf s)
  show ?case
  proof (cases "buf = []")
    case True
    then show ?thesis by (subst settings_Value.simps) simp
  next
    case False
    with "1.prems" have "6 \<le> length buf" by (cases "length buf < 6") simp_all
    with "1.prems" have len: "6 \<le> length buf" "length (drop 6 buf) mod 6 = 0"
      using le_mod_geq [of 6 "length buf"] by simp_all
    obtain k v where kv: "be_Uint16 (take 2 buf) = Ok k" "be_Uint32 (take 4 (drop 2 buf)) = Ok v"
      using be_Uint16_total [of "take 2 buf"] be_Uint32_total [of "take 4 (drop 2 buf)"] len(1) by auto
    have s: "gslice buf 0 2 = (Ok (take 2 buf) :: bytes hres)" "gslice buf 2 6 = (Ok (take 4 (drop 2 buf)) :: bytes hres)"
      using len(1) by (simp_all add: gslice_def)
    have "\<exists>r. settings_Value (drop 6 buf) s = Ok r" if "k \<noteq> s"
      using "1.IH" [OF _ that] False len by simp
    then show ?thesis
      using False len(1) kv s by (subst settings_Value.simps) (auto simp del:)
  qed
qed

named_theorems safe_intros \<open>results without a panic\<close>

definition safe :: "'a hres \<Rightarrow> bool" where
  "safe r \<longleftrightarrow> r \<noteq> Panic \<and> r \<noteq> Stuck"

lemma safe_simps [simp]: "safe (Ok x)" "safe (Err e)" "\<not> safe Panic" "\<not> safe Stuck"
  by (simp_all add: safe_def)

lemma safe_bind: "safe r \<Longrightarrow> (\<And>x. r = Ok x \<Longrightarrow> safe (f x)) \<Longrightarrow> safe (res_bind r f)"
  by (cases r) simp_all

lemma safe_be: "4 \<le> length b \<Longrightarrow> safe (be_Uint32 b)"
  using be_Uint32_total [of b] by auto

lemma safe_slices:
  "0 \<le> i \<Longrightarrow> i \<le> j \<Longrightarrow> j \<le> int (length p) \<Longrightarrow> safe (gslice p i j)"
  "0 \<le> i \<Longrightarrow> i \<le> int (length p) \<Longrightarrow> safe (gslice_from p i)"
  "0 \<le> i \<Longrightarrow> i < int (length q) \<Longrightarrow> safe (index q i)"
  by (simp_all add: gslice_def gslice_from_def index_def)

lemma length_slices:
  "gslice p i j = (Ok q :: bytes hres) \<Longrightarrow> length q = nat (j - i)"
  by (auto simp: gslice_def split: if_splits)

lemma safe_readByte: "safe (readByte p)"
  by (cases p) (simp_all, simp add: readByte_def)

lemma safe_readUint32: "safe (readUint32 p)"
  unfolding readUint32_def
  by (auto intro!: safe_bind safe_slices safe_be dest: length_slices)

text \<open>No parser panics, whatever its payload.\<close>

lemma safe_parsers:
  "safe (parseDataFrame fh p)" "safe (parsePingFrame fh p)" "safe (parseGoAwayFrame fh p)"
  "safe (parseUnknownFrame fh p)" "safe (parseWindowUpdateFrame fh p)" "safe (parsePriorityFrame fh p)"
  "safe (parseRSTStreamFrame fh p)" "safe (parseContinuationFrame fh p)"
  unfolding parseDataFrame_def parsePingFrame_def parseGoAwayFrame_def parseUnknownFrame_def
    parseWindowUpdateFrame_def parsePriorityFrame_def parseRSTStreamFrame_def parseContinuationFrame_def
  by (auto intro!: safe_bind safe_slices safe_be safe_readByte dest: length_slices simp: Let_def split: if_splits)

lemma safe_parseHeadersFrame: "safe (parseHeadersFrame fh p)"
  unfolding parseHeadersFrame_def
  by (auto intro!: safe_bind safe_slices safe_readByte safe_readUint32 simp: Let_def split: if_splits)

lemma safe_parsePushPromise: "safe (parsePushPromise fh p)"
  unfolding parsePushPromise_def
  by (auto intro!: safe_bind safe_slices safe_readByte safe_readUint32 split: if_splits)

lemma safe_parseSettingsFrame: "fh_valid fh \<Longrightarrow> safe (parseSettingsFrame fh p)"
  using settings_Value_total [of p SettingInitialWindowSize]
  by (auto simp: parseSettingsFrame_def SettingsFrame_Value_def checkValid_def intro!: safe_bind split: option.split)

lemma safe_typeFrameParser: "fh_valid fh \<Longrightarrow> safe (typeFrameParser t fh p)"
  by (simp add: typeFrameParser_def safe_parsers safe_parseHeadersFrame safe_parsePushPromise safe_parseSettingsFrame)

lemma io_ReadFull_Ok: "io_ReadFull n inp = (Ok buf, rest) \<Longrightarrow> inp = buf @ rest \<and> length buf = n"
  by (auto simp: io_ReadFull_def split: if_splits)

lemma readFrameHeader_Ok_cases:
  assumes "readFrameHeader inp = (r, rest)"
  shows "(\<exists>h. r = Ok h \<and> fh_valid h \<and> length inp = 9 + length rest) \<or> r = Err EOF \<or> r = Err UnexpectedEOF"
proof (cases "9 \<le> length inp")
  case True
  then obtain b0 b1 b2 t fl c0 c1 c2 c3 rest' where
    inp: "inp = b0 # b1 # b2 # t # fl # c0 # c1 # c2 # c3 # rest'"
    by (auto simp: numeral_eq_Suc Suc_le_length_iff)
  have "\<exists>sid. be_Uint32 [c0, c1, c2, c3] = Ok sid" by (rule be_Uint32_total) simp
  with assms inp show ?thesis by (auto simp: readFrameHeader_nine)
next
  case False
  with assms show ?thesis
    by (auto simp: readFrameHeader_def io_ReadFull_def frameHeaderLen_def split: if_splits)
qed

lemma checkFrameOrder_safe: "checkFrameOrder f fr = (fr', r) \<Longrightarrow> fr_in fr' = fr_in fr"
  by (auto simp: checkFrameOrder_def fr_connError_def Let_def split: if_splits)

text \<open>One call of \<open>ReadFrame\<close>: it never panics, and a frame it returns has exactly its header and its
  payload read from the input, within the size limit.\<close>

lemma ReadFrame_cases:
  assumes "ReadFrame fr = (fr', r)"
  shows "safe r \<and> (\<forall>f. r = Ok f \<longrightarrow> (\<exists>h. length (fr_in fr) = 9 + unat (fh_Length h) + length (fr_in fr') \<and>
    fh_Length h \<le> maxReadSize fr \<and> (\<exists>p. typeFrameParser (fh_Type h) h p = Ok f \<and> length p = unat (fh_Length h))))"
proof -
  let ?fr = "fr\<lparr>errDetail := None, lastFrame := map_option invalidate (lastFrame fr)\<rparr>"
  obtain hr rest where hdr: "readFrameHeader (fr_in fr) = (hr, rest)" by (metis surj_pair)
  show ?thesis
  proof (cases "\<exists>h. hr = Ok h \<and> fh_valid h \<and> length (fr_in fr) = 9 + length rest")
    case False
    with readFrameHeader_Ok_cases [OF hdr] assms hdr show ?thesis by (auto simp: ReadFrame_def Let_def)
  next
    case True
    then obtain h where h: "hr = Ok h" "fh_valid h" "length (fr_in fr) = 9 + length rest" by blast
    obtain pr rest2 where body: "io_ReadFull (unat (fh_Length h)) rest = (pr, rest2)" by (metis surj_pair)
    show ?thesis
    proof (cases "fh_Length h > maxReadSize fr \<or> (\<forall>p. pr \<noteq> Ok p)")
      case True
      with assms hdr h body show ?thesis
        by (auto simp: ReadFrame_def Let_def io_ReadFull_def split: if_splits)
    next
      case False
      then obtain p where p: "pr = Ok p" "fh_Length h \<le> maxReadSize fr" by auto
      note rest = io_ReadFull_Ok [OF body [unfolded p(1)]]
      have safe: "safe (typeFrameParser (fh_Type h) h p)" by (rule safe_typeFrameParser [OF h(2)])
      have read: "ReadFrame fr = (case typeFrameParser (fh_Type h) h p of
          Err (connError code reason) \<Rightarrow> (case fr_connError code reason (?fr\<lparr>fr_in := rest2\<rparr>) of (fr, e) \<Rightarrow> (fr, Err e))
        | Err e \<Rightarrow> (?fr\<lparr>fr_in := rest2\<rparr>, Err e) | Panic \<Rightarrow> (?fr\<lparr>fr_in := rest2\<rparr>, Panic) | Stuck \<Rightarrow> (?fr\<lparr>fr_in := rest2\<rparr>, Stuck)
        | Ok f \<Rightarrow> (case checkFrameOrder f (?fr\<lparr>fr_in := rest2\<rparr>) of (fr, Some e) \<Rightarrow> (fr, Err e) | (fr, None) \<Rightarrow> (fr, Ok f)))"
        using False hdr h(1) body p(1) by (simp add: ReadFrame_def Let_def)
      show ?thesis
      proof (cases "typeFrameParser (fh_Type h) h p")
        case (Ok f)
        obtain fr2 r2 where order: "checkFrameOrder f (?fr\<lparr>fr_in := rest2\<rparr>) = (fr2, r2)" by (metis surj_pair)
        have "fr_in fr2 = rest2" using checkFrameOrder_safe [OF order] by simp
        with rest h(3) have "length (fr_in fr) = 9 + unat (fh_Length h) + length (fr_in fr2)" by simp
        then have f: "\<exists>h. length (fr_in fr) = 9 + unat (fh_Length h) + length (fr_in fr2) \<and>
            fh_Length h \<le> maxReadSize fr \<and> (\<exists>p. typeFrameParser (fh_Type h) h p = Ok f \<and> length p = unat (fh_Length h))"
          using Ok rest p(2) by blast
        from Ok order read have "ReadFrame fr = (fr2, case r2 of Some e \<Rightarrow> Err e | None \<Rightarrow> Ok f)"
          by (simp split: option.split)
        with assms f show ?thesis by (cases r2) auto
      next
        case (Err e)
        with read assms show ?thesis by (cases e) (auto simp: fr_connError_def)
      qed (use safe in auto)
    qed
  qed
qed

section \<open>Header blocks are contiguous\<close>

definition continues :: "32 word \<Rightarrow> Frame \<Rightarrow> bool" where
  "continues s f \<longleftrightarrow> fh_Type (Header f) = FrameContinuation \<and> fh_StreamID (Header f) = s"

definition ends_headers :: "Frame \<Rightarrow> bool" where
  "ends_headers f \<longleftrightarrow> Flags_Has (fh_Flags (Header f)) FlagHeadersEndHeaders"

text \<open>The order RFC 7540 asks for: an unfinished HEADERS frame is followed by CONTINUATION frames of its
  stream only, up to one that ends the block, and there are no other CONTINUATION frames. The
  sequence may stop inside a block.\<close>

function well_ordered :: "Frame list \<Rightarrow> bool" where
  "well_ordered [] = True"
| "well_ordered (f # fs) =
     (if fh_Type (Header f) = FrameHeaders \<and> \<not> ends_headers f
      then let s = fh_StreamID (Header f) in
        (case dropWhile (\<lambda>c. continues s c \<and> \<not> ends_headers c) fs of
           [] \<Rightarrow> True
         | c # rest \<Rightarrow> continues s c \<and> ends_headers c \<and> well_ordered rest)
      else fh_Type (Header f) \<noteq> FrameContinuation \<and> well_ordered fs)"
  by pat_completeness auto
termination
proof (relation "measure length", goal_cases)
  case (2 f fs s c rest)
  then have "length (c # rest) \<le> length fs" by (metis length_dropWhile_le)
  then show ?case by simp
qed auto

definition block_rest :: "32 word \<Rightarrow> Frame list \<Rightarrow> bool" where
  "block_rest s fs \<longleftrightarrow>
     (case dropWhile (\<lambda>c. continues s c \<and> \<not> ends_headers c) fs of
        [] \<Rightarrow> True
      | c # rest \<Rightarrow> continues s c \<and> ends_headers c \<and> well_ordered rest)"

lemma well_ordered_Cons: "well_ordered (f # fs) \<longleftrightarrow>
    (if fh_Type (Header f) = FrameHeaders \<and> \<not> ends_headers f then block_rest (fh_StreamID (Header f)) fs
     else fh_Type (Header f) \<noteq> FrameContinuation \<and> well_ordered fs)"
  by (simp add: block_rest_def Let_def)

lemma block_rest_Cons: "block_rest s (f # fs) \<longleftrightarrow>
    continues s f \<and> (if ends_headers f then well_ordered fs else block_rest s fs)"
  by (simp add: block_rest_def)

lemma parser_header:
  assumes "typeFrameParser t h p = Ok f"
  shows "Header f = h" and "t = FrameHeaders \<or> t = FrameContinuation \<Longrightarrow> fh_StreamID h \<noteq> 0"
proof -
  show "Header f = h"
    using assms unfolding typeFrameParser_def parseDataFrame_def parseHeadersFrame_def parsePriorityFrame_def
      parseRSTStreamFrame_def parseSettingsFrame_def parsePushPromise_def parsePingFrame_def parseGoAwayFrame_def
      parseWindowUpdateFrame_def parseContinuationFrame_def parseUnknownFrame_def
    by (auto simp: Let_def split: if_splits option.splits prod.splits)
  show "fh_StreamID h \<noteq> 0" if "t = FrameHeaders \<or> t = FrameContinuation"
    using assms that
    by (auto simp: parser_select parseHeadersFrame_def parseContinuationFrame_def split: if_splits)
qed

lemma ReadFrame_Ok:
  assumes "ReadFrame fr = (fr', Ok f)"
  obtains g h p where "checkFrameOrder f g = (fr', None)" "lastHeaderStream g = lastHeaderStream fr"
    "AllowIllegalReads g = AllowIllegalReads fr" "typeFrameParser (fh_Type h) h p = Ok f"
  using assms
  by (auto simp: ReadFrame_def Let_def fr_connError_def split: prod.splits res.splits if_splits option.splits
      http2_error.splits)

lemma ReadFrame_order:
  assumes "ReadFrame fr = (fr', Ok f)" "\<not> AllowIllegalReads fr"
  shows "if lastHeaderStream fr = 0 then fh_Type (Header f) \<noteq> FrameContinuation else continues (lastHeaderStream fr) f"
    and "lastHeaderStream fr' = (if fh_Type (Header f) = FrameHeaders \<or> fh_Type (Header f) = FrameContinuation
      then if ends_headers f then 0 else fh_StreamID (Header f) else 0)"
    and "fh_Type (Header f) = FrameHeaders \<or> fh_Type (Header f) = FrameContinuation \<Longrightarrow> fh_StreamID (Header f) \<noteq> 0"
    and "\<not> AllowIllegalReads fr'"
proof -
  obtain g h p where g: "checkFrameOrder f g = (fr', None)" "lastHeaderStream g = lastHeaderStream fr"
    "\<not> AllowIllegalReads g" and f: "typeFrameParser (fh_Type h) h p = Ok f"
    using ReadFrame_Ok [OF assms(1)] assms(2) by metis
  show "fh_Type (Header f) = FrameHeaders \<or> fh_Type (Header f) = FrameContinuation \<Longrightarrow> fh_StreamID (Header f) \<noteq> 0"
    using parser_header [OF f] by simp
  show "if lastHeaderStream fr = 0 then fh_Type (Header f) \<noteq> FrameContinuation else continues (lastHeaderStream fr) f"
    "lastHeaderStream fr' = (if fh_Type (Header f) = FrameHeaders \<or> fh_Type (Header f) = FrameContinuation
      then if ends_headers f then 0 else fh_StreamID (Header f) else 0)"
    "\<not> AllowIllegalReads fr'"
    using g by (auto simp: checkFrameOrder_def fr_connError_def ends_headers_def continues_def Let_def split: if_splits)
qed

lemma read_frames_order:
  "read_frames n fr = (fr', fs) \<Longrightarrow> \<not> AllowIllegalReads fr \<Longrightarrow>
     if lastHeaderStream fr = 0 then well_ordered fs else block_rest (lastHeaderStream fr) fs"
proof (induction n arbitrary: fr fr' fs)
  case 0
  then show ?case by (simp add: block_rest_def)
next
  case (Suc n)
  obtain fr1 r where one: "ReadFrame fr = (fr1, r)" by (metis surj_pair)
  show ?case
  proof (cases r)
    case (Ok f)
    obtain fs' where fs: "fs = f # fs'" "read_frames n fr1 = (fr', fs')"
      using Suc.prems(1) one Ok by (auto split: prod.splits)
    note order = ReadFrame_order [OF one [unfolded Ok] Suc.prems(2)]
    have IH: "if lastHeaderStream fr1 = 0 then well_ordered fs' else block_rest (lastHeaderStream fr1) fs'"
      using Suc.IH [OF fs(2) order(4)] .
    show ?thesis
      unfolding fs(1) well_ordered_Cons block_rest_Cons
      using order IH by (auto simp: continues_def frame_types split: if_splits)
  qed (use Suc.prems(1) one in \<open>auto simp: block_rest_def\<close>)
qed

section \<open>Flow control windows\<close>

lemma sint_range32: "- (2 ^ 31) \<le> sint (x :: 32 word)" "sint (x :: 32 word) < 2 ^ 31"
  using sint_ge [of x] sint_lt [of x] by simp_all

lemma flow_remain:
  assumes "0 \<le> sint (n :: int32)"
  shows "sint (0x7fffffff - n) = 2 ^ 31 - 1 - sint n"
  using assms sint_range32(2) [of n] by (simp add: sint_word_ariths signed_take_bit_int_eq_self)

lemma flow_remain_negative:
  assumes "sint (n :: int32) < 0"
  shows "sint (0x7fffffff - n) < 0"
proof -
  let ?k = "2 ^ 31 - 1 - sint n"
  have wrap: "signed_take_bit 31 (k + 2 ^ 32) = signed_take_bit 31 k" for k :: int
    unfolding signed_take_bit_eq_iff_take_bit_eq by (simp add: take_bit_eq_mod)
  have "sint (0x7fffffff - n) = signed_take_bit 31 ((?k - 2 ^ 32) + 2 ^ 32)" by (simp add: sint_word_ariths)
  also have "\<dots> = signed_take_bit 31 (?k - 2 ^ 32)" by (rule wrap)
  also have "\<dots> = ?k - 2 ^ 32"
    using assms sint_range32(1) [of n] by (intro signed_take_bit_int_eq_self) simp_all
  finally show ?thesis using sint_range32(1) [of n] by simp
qed

lemma sint_diff_within:
  "0 \<le> sint n \<Longrightarrow> sint n \<le> sint c \<Longrightarrow> sint (c - n) = sint c - sint (n :: int32)"
  using sint_range32(2) [of c] by (simp add: sint_word_ariths signed_take_bit_int_eq_self)

section \<open>Properties of the framing\<close>

text \<open>C31: a DATA frame, padded or not, carries its data and its end-of-stream flag unchanged.\<close>

theorem data_frame_roundtrip:
  assumes "validStreamID s" "pad = None \<or> (\<exists>n\<le>255. pad = Some (replicate n 0))" "length d + 256 < 2 ^ 24"
  shows "\<exists>h len. carries (WriteDataPadded s es d pad) FrameData s len (DataFrame h d) \<and> len \<le> length d + 256 \<and>
    fh_StreamID h = s \<and> Flags_Has (fh_Flags h) FlagDataEndStream = es"
proof -
  let ?len = "length ((case pad of None \<Rightarrow> [] | Some p \<Rightarrow> [word_of_nat (length p) :: byte]) @ d @ (case pad of None \<Rightarrow> [] | Some p \<Rightarrow> p))"
  have "?len \<le> length d + 256" using assms(2) by auto
  moreover obtain h where "carries (WriteDataPadded s es d pad) FrameData s ?len (DataFrame h d)" "fh_StreamID h = s"
    "fh_Flags h = (if es then FlagDataEndStream else 0) OR (if pad \<noteq> None then FlagDataPadded else 0)"
    using data_kind.carried_header [of "(s, es, d, pad)"] assms by auto
  ultimately show ?thesis
    by (intro exI [of _ h] exI [of _ ?len]) (simp add: Flags_Has_def flag_defs)
qed

theorem data_frame_roundtrip_witness:
  "\<exists>h len. carries (WriteDataPadded 1 True [1, 2, 3] (Some [0, 0])) FrameData 1 len (DataFrame h [1, 2, 3]) \<and>
    Flags_Has (fh_Flags h) FlagDataEndStream"
proof -
  have "[0, 0] = replicate 2 (0 :: byte)" by (simp add: numeral_2_eq_2)
  then have "\<exists>n\<le>255. Some [0, 0] = Some (replicate n (0 :: byte))" by (intro exI [of _ 2]) simp
  with data_frame_roundtrip [of 1 "Some [0, 0]" "[1, 2, 3]" True] show ?thesis
    by (auto simp: validStreamID_def)
qed

text \<open>A HEADERS frame with a non-empty fragment carries its fragment, its priority, and its flags.\<close>

theorem headers_frame_roundtrip:
  assumes "validStreamID (hp_StreamID p)" "validStreamIDOrZero (StreamDep (hp_Priority p))"
    and "hp_BlockFragment p \<noteq> []" "length (hp_BlockFragment p) + 300 < 2 ^ 24"
  shows "\<exists>h len. carries (WriteHeaders p) FrameHeaders (hp_StreamID p) len
      (HeadersFrame h (hp_Priority p) (hp_BlockFragment p)) \<and>
    len \<le> length (hp_BlockFragment p) + 300 \<and> fh_StreamID h = hp_StreamID p \<and>
    Flags_Has (fh_Flags h) FlagHeadersEndHeaders = hp_EndHeaders p \<and>
    Flags_Has (fh_Flags h) FlagHeadersEndStream = hp_EndStream p"
proof -
  have "unat (hp_PadLength p) < 2 ^ LENGTH(8)" by (rule unsigned_less)
  then have "length (headers_payload p) \<le> length (hp_BlockFragment p) + 300"
    by (simp add: headers_payload_def priority_bytes_def)
  with headers_kind.carried_header [of p] assms obtain h where
    "carries (WriteHeaders p) FrameHeaders (hp_StreamID p) (length (headers_payload p))
       (HeadersFrame h (hp_Priority p) (hp_BlockFragment p))"
    "fh_StreamID h = hp_StreamID p" "fh_Flags h = headers_flags p"
    by auto
  with \<open>length (headers_payload p) \<le> _\<close> show ?thesis
    by (intro exI [of _ h] exI [of _ "length (headers_payload p)"]) (simp add: headers_flags_Has)
qed

theorem headers_frame_roundtrip_witness:
  "\<exists>h len. carries (WriteHeaders \<lparr>hp_StreamID = 3, hp_BlockFragment = [130, 134], hp_EndStream = False,
      hp_EndHeaders = True, hp_PadLength = 4, hp_Priority = \<lparr>StreamDep = 1, Exclusive = True, Weight = 15\<rparr>\<rparr>)
    FrameHeaders 3 len (HeadersFrame h \<lparr>StreamDep = 1, Exclusive = True, Weight = 15\<rparr> [130, 134])"
  using headers_frame_roundtrip [of "\<lparr>hp_StreamID = 3, hp_BlockFragment = [130, 134], hp_EndStream = False,
      hp_EndHeaders = True, hp_PadLength = 4, hp_Priority = \<lparr>StreamDep = 1, Exclusive = True, Weight = 15\<rparr>\<rparr>"]
  by (auto simp: validStreamID_def validStreamIDOrZero_def)

text \<open>A SETTINGS frame carries its settings, which \<open>ForeachSetting\<close> visits in order and \<open>Value\<close> looks
  up by the first occurrence, as long as the initial window size is within the limit.\<close>

theorem settings_roundtrip:
  assumes "settings_legal ss" "6 * length ss < 2 ^ 24"
  shows "\<exists>h p. carries (WriteSettings ss) FrameSettings 0 (6 * length ss) (SettingsFrame h p) \<and>
    ForeachSetting (\<lambda>x xs. (xs @ [x], None)) h p [] = (ss, Ok ()) \<and>
    (\<forall>k. SettingsFrame_Value h p k = Ok (map_of ss k))"
proof -
  obtain h where "carries (WriteSettings ss) FrameSettings 0 (6 * length ss) (SettingsFrame h (settings_bytes ss))" "fh_valid h"
    using settings_kind.carried_header [of ss] assms by auto
  then show ?thesis
    by (intro exI [of _ h] exI [of _ "settings_bytes ss"])
      (simp add: ForeachSetting_def foreach_setting_bytes SettingsFrame_Value_def checkValid_def settings_Value_bytes)
qed

theorem settings_roundtrip_witness:
  "\<exists>h p. carries (WriteSettings [(3, 100), (4, 65535)]) FrameSettings 0 12 (SettingsFrame h p)"
  using settings_roundtrip [of "[(3, 100), (4, 65535)]"]
  by (auto simp: settings_legal_def SettingInitialWindowSize_def)

text \<open>The control frames PING, GOAWAY, WINDOW_UPDATE, RST_STREAM and PRIORITY carry their arguments
  unchanged (of the last stream of a GOAWAY, its 31 bits).\<close>

theorem control_frames_roundtrip:
  assumes "validStreamID s" "0 < inc" "inc \<le> 0x7fffffff" "length d = 8" "length dbg + 8 < 2 ^ 24"
    and "validStreamIDOrZero (StreamDep p)"
  shows "(\<exists>h. carries (WritePing ack d) FramePing 0 8 (PingFrame h d) \<and> Flags_Has (fh_Flags h) FlagPingAck = ack) \<and>
    (\<exists>h. carries (WriteGoAway l c dbg) FrameGoAway 0 (8 + length dbg) (GoAwayFrame h (l AND 0x7fffffff) c dbg)) \<and>
    (\<exists>h. carries (WriteWindowUpdate s inc) FrameWindowUpdate s 4 (WindowUpdateFrame h inc)) \<and>
    (\<exists>h. carries (WriteRSTStream s c) FrameRSTStream s 4 (RSTStreamFrame h c)) \<and>
    (\<exists>h. carries (WritePriority s p) FramePriority s 5 (PriorityFrame h p))"
proof (intro conjI)
  show "\<exists>h. carries (WritePing ack d) FramePing 0 8 (PingFrame h d) \<and> Flags_Has (fh_Flags h) FlagPingAck = ack"
    using ping_kind.carried_header [of "(ack, d)"] assms(4) by (auto simp: Flags_Has_def flag_defs split: if_splits)
  show "\<exists>h. carries (WriteGoAway l c dbg) FrameGoAway 0 (8 + length dbg) (GoAwayFrame h (l AND 0x7fffffff) c dbg)"
    using goaway_kind.carried_header [of "(l, c, dbg)"] assms(5) by auto
  show "\<exists>h. carries (WriteWindowUpdate s inc) FrameWindowUpdate s 4 (WindowUpdateFrame h inc)"
    using window_update_kind.carried_header [of "(s, inc)"] assms(1-3)
    by (auto simp: validStreamID_def validStreamIDOrZero_def)
  show "\<exists>h. carries (WriteRSTStream s c) FrameRSTStream s 4 (RSTStreamFrame h c)"
    using rst_kind.carried_header [of "(s, c)"] assms(1) by auto
  show "\<exists>h. carries (WritePriority s p) FramePriority s 5 (PriorityFrame h p)"
    using priority_kind.carried_header [of "(s, p)"] assms(1,6) by (auto simp: priority_bytes_def)
qed

theorem control_frames_roundtrip_witness:
  "\<exists>h. carries (WriteWindowUpdate 1 65535) FrameWindowUpdate 1 4 (WindowUpdateFrame h 65535)"
  using control_frames_roundtrip [of 1 65535 "replicate 8 0" "[]" PriorityParam_zero]
  by (auto simp: validStreamID_def validStreamIDOrZero_def PriorityParam_zero_def)

text \<open>C32: reading a frame never panics, whatever the bytes; a frame that is read took exactly its nine
  header bytes and its announced length, which is within the configured limit.\<close>

theorem read_frame_safe:
  assumes "ReadFrame fr = (fr', r)"
  shows "r \<noteq> Panic \<and> r \<noteq> Stuck \<and> (\<forall>f. r = Ok f \<longrightarrow>
    length (fr_in fr) = 9 + unat (fh_Length (Header f)) + length (fr_in fr') \<and>
    fh_Length (Header f) \<le> maxReadSize fr)"
  using ReadFrame_cases [OF assms] parser_header(1) by (fastforce simp: safe_def)

theorem read_frame_safe_witness:
  "\<exists>fr' r. ReadFrame (NewFramer (\<lambda>bs. (length bs, None)) [0, 0, 0, 0, 8, 0, 0, 0, 1]) = (fr', r) \<and> r \<noteq> Panic"
  using read_frame_safe [of "NewFramer (\<lambda>bs. (length bs, None)) [0, 0, 0, 0, 8, 0, 0, 0, 1]"]
  by (metis surj_pair)

text \<open>C33: whatever a peer sends, the frames a new framer returns keep header blocks contiguous: an
  unfinished HEADERS frame is followed by CONTINUATION frames of its stream up to one that ends the
  block, and no other CONTINUATION frame is returned.\<close>

theorem header_blocks_contiguous:
  assumes "lastHeaderStream fr = 0" "\<not> AllowIllegalReads fr"
  shows "well_ordered (snd (read_frames n fr))"
proof -
  obtain fr' fs where "read_frames n fr = (fr', fs)" by (metis surj_pair)
  with read_frames_order [OF this assms(2)] assms(1) show ?thesis by simp
qed

theorem header_blocks_contiguous_witness:
  "well_ordered (snd (read_frames 3 (NewFramer (\<lambda>bs. (length bs, None))
     [0, 0, 1, 1, 0, 0, 0, 0, 1, 130, 0, 0, 0, 9, 4, 0, 0, 0, 1])))"
  by (rule header_blocks_contiguous) (simp_all add: NewFramer_def SetMaxReadFrameSize_def)

text \<open>On a window that is not negative, \<open>add\<close> changes the window exactly and refuses exactly the
  increments that would take it beyond the maximum.\<close>

theorem flow_add_exact:
  assumes "0 \<le> sint (flow_n f)"
  shows "flow_add n f = (if sint (flow_n f) + sint n \<le> 2 ^ 31 - 1 then (f\<lparr>flow_n := flow_n f + n\<rparr>, True) else (f, False)) \<and>
    (sint (flow_n f) + sint n \<le> 2 ^ 31 - 1 \<longrightarrow> sint (flow_n f + n) = sint (flow_n f) + sint n)"
  using flow_remain [OF assms] assms sint_range32 [of n] sint_range32 [of "flow_n f"]
  by (auto simp: flow_add_def Let_def word_sless_alt sint_word_ariths signed_take_bit_int_eq_self)

theorem flow_add_exact_witness:
  "flow_add 10 \<lparr>flow_n = 5, flow_conn = None\<rparr> = (\<lparr>flow_n = 15, flow_conn = None\<rparr>, True)"
  using flow_add_exact [of "\<lparr>flow_n = 5, flow_conn = None\<rparr>" 10] by simp

text \<open>On a negative window, which a change of the peer's settings can cause, \<open>add\<close> refuses every
  increment, although the sum stays far below the maximum.\<close>

theorem flow_add_negative_window:
  assumes "sint (flow_n f) < 0" "0 \<le> sint n"
  shows "flow_add n f = (f, False) \<and> sint (flow_n f) + sint n < 2 ^ 31 - 1"
  using flow_remain_negative [OF assms(1)] assms sint_range32 [of n]
  by (auto simp: flow_add_def Let_def word_sless_alt)

theorem flow_add_negative_window_witness:
  "flow_add 1 \<lparr>flow_n = -1, flow_conn = None\<rparr> = (\<lparr>flow_n = -1, flow_conn = None\<rparr>, False)"
  using flow_add_negative_window [of "\<lparr>flow_n = -1, flow_conn = None\<rparr>" 1] by simp

text \<open>Taking what is available lowers the window of the stream and the shared window of the connection
  by exactly that amount, and neither becomes negative; taking more panics.\<close>

theorem flow_take_exact:
  assumes "0 \<le> sint n"
  shows "if sint n \<le> sint (flow_available f)
    then \<exists>f'. flow_take n f = Ok f' \<and> sint (flow_n f') = sint (flow_n f) - sint n \<and> 0 \<le> sint (flow_n f') \<and>
      (case flow_conn f of None \<Rightarrow> flow_conn f' = None
       | Some c \<Rightarrow> \<exists>c'. flow_conn f' = Some c' \<and> sint c' = sint c - sint n \<and> 0 \<le> sint c')
    else flow_take n f = Panic"
proof (cases "sint n \<le> sint (flow_available f)")
  case True
  then have "sint n \<le> sint (flow_n f)" and conn: "\<And>c. flow_conn f = Some c \<Longrightarrow> sint n \<le> sint c"
    by (auto simp: flow_available_def word_sless_alt split: option.splits if_splits)
  with True assms sint_diff_within [OF assms] show ?thesis
    by (auto simp: flow_take_def word_sless_alt split: option.splits)
next
  case False
  then show ?thesis by (simp add: flow_take_def word_sless_alt)
qed

theorem flow_take_exact_witness:
  "\<exists>f'. flow_take 3 \<lparr>flow_n = 5, flow_conn = Some 4\<rparr> = Ok f' \<and> sint (flow_n f') = 2"
  using flow_take_exact [of 3 "\<lparr>flow_n = 5, flow_conn = Some 4\<rparr>"] by (auto simp: flow_available_def word_sless_alt)

end
