(* ===== verification/HpackHuffman.thy ===== *)
theory HpackHuffman
  imports HpackStatic
begin

text \<open>
  The Huffman code of HPACK, \<open>huffman.go\<close> of \<open>golang.org/x/net/http2/hpack\<close>: the decoding tree that is built
  from the code tables, the decoder that walks it a byte at a time, and the encoder.
\<close>

unbundle bit_operations_syntax

section \<open>The Huffman code\<close>

text \<open>A node of the decoding tree: an internal node has 256 children, a leaf the number of bits of the
  last byte that belong to the code, and the symbol.\<close>

datatype hnode = Internal "hnode option list" | Leaf "8 word" byte

definition newInternalNode :: hnode where
  "newInternalNode = Internal (replicate 256 None)"

text \<open>\<open>cur.children[i] = leaf\<close> for \<open>count\<close> indices from \<open>start\<close>.\<close>

fun set_children :: "nat \<Rightarrow> nat \<Rightarrow> hnode \<Rightarrow> hnode option list \<Rightarrow> hnode option list kres" where
  "set_children 0 i leaf cs = Ok cs"
| "set_children (Suc count) i leaf cs =
     (if i < length cs then set_children count (Suc i) leaf (cs[i := Some leaf]) else Panic)"

function addDecoderNode :: "byte \<Rightarrow> 32 word \<Rightarrow> nat \<Rightarrow> hnode \<Rightarrow> hnode kres" where
  "addDecoderNode sy code codeLen cur =
     (case cur of
        Leaf _ _ \<Rightarrow> Panic
      | Internal cs \<Rightarrow>
          if codeLen > 8 then
            let i = unat (ucast (drop_bit (codeLen - 8) code) :: byte) in
            if i < length cs then
              res_bind (addDecoderNode sy code (codeLen - 8) (case cs ! i of None \<Rightarrow> newInternalNode | Some c \<Rightarrow> c))
                (\<lambda>c. Ok (Internal (cs[i := Some c])))
            else Panic
          else
            res_bind (set_children (2 ^ (8 - codeLen)) (unat (ucast (push_bit (8 - codeLen) code) :: byte))
                (Leaf (word_of_nat codeLen) sy) cs)
              (\<lambda>cs. Ok (Internal cs)))"
  by pat_completeness auto
termination by (relation "measure (\<lambda>(sy, code, codeLen, cur). codeLen)") auto

declare addDecoderNode.simps [simp del]

fun add_codes :: "nat \<Rightarrow> (32 word \<times> 8 word) list \<Rightarrow> hnode \<Rightarrow> hnode kres" where
  "add_codes i [] root = Ok root"
| "add_codes i ((code, len) # cs) root =
     res_bind (addDecoderNode (word_of_nat i) code (unat len) root) (add_codes (Suc i) cs)"

definition rootHuffmanNode :: "hnode kres" where
  "rootHuffmanNode =
     (if length huffmanCodes \<noteq> 256 then Panic
      else add_codes 0 (zip huffmanCodes huffmanCodeLen) newInternalNode)"

text \<open>
  The state of \<open>huffmanDecode\<close>: the node reached, the bits not yet consumed, how many of them are valid,
  the number of bits of the unfinished symbol, the output. The inner loop consumes whole bytes of
  these bits.
\<close>

record huff =
  hu_n :: hnode
  hu_cur :: uint64
  hu_cbits :: nat
  hu_sbits :: nat
  hu_out :: bytes

definition child :: "hnode \<Rightarrow> byte \<Rightarrow> hnode option kres" where
  "child n idx = (case n of Internal cs \<Rightarrow> index cs (uint idx) | Leaf _ _ \<Rightarrow> Panic)"

definition huff_emit :: "hnode \<Rightarrow> int \<Rightarrow> 8 word \<Rightarrow> byte \<Rightarrow> huff \<Rightarrow> huff kres" where
  "huff_emit root maxLen codeLen sy h =
     (if maxLen \<noteq> 0 \<and> int (length (hu_out h)) = maxLen then Err ErrStringLength
      else let cbits = hu_cbits h - unat codeLen in
        Ok (h\<lparr>hu_out := hu_out h @ [sy], hu_cbits := cbits, hu_n := root, hu_sbits := cbits\<rparr>))"

fun huff_inner :: "nat \<Rightarrow> hnode \<Rightarrow> int \<Rightarrow> huff \<Rightarrow> huff kres" where
  "huff_inner 0 root maxLen h = Stuck"
| "huff_inner (Suc fuel) root maxLen h =
     (if hu_cbits h \<ge> 8 then
        res_bind (child (hu_n h) (ucast (drop_bit (hu_cbits h - 8) (hu_cur h)))) (\<lambda>n.
          case n of
            None \<Rightarrow> Err ErrInvalidHuffman
          | Some (Leaf codeLen sy) \<Rightarrow>
              res_bind (huff_emit root maxLen codeLen sy h) (huff_inner fuel root maxLen)
          | Some (Internal cs) \<Rightarrow>
              huff_inner fuel root maxLen (h\<lparr>hu_n := Internal cs, hu_cbits := hu_cbits h - 8\<rparr>))
      else Ok h)"

fun huff_bytes :: "hnode \<Rightarrow> int \<Rightarrow> bytes \<Rightarrow> huff \<Rightarrow> huff kres" where
  "huff_bytes root maxLen [] h = Ok h"
| "huff_bytes root maxLen (b # v) h =
     (let h = h\<lparr>hu_cur := push_bit 8 (hu_cur h) OR ucast b, hu_cbits := hu_cbits h + 8, hu_sbits := hu_sbits h + 8\<rparr>
      in res_bind (huff_inner (Suc (hu_cbits h)) root maxLen h) (huff_bytes root maxLen v))"

fun huff_tail :: "nat \<Rightarrow> hnode \<Rightarrow> int \<Rightarrow> huff \<Rightarrow> huff kres" where
  "huff_tail 0 root maxLen h = Stuck"
| "huff_tail (Suc fuel) root maxLen h =
     (if hu_cbits h > 0 then
        res_bind (child (hu_n h) (ucast (push_bit (8 - hu_cbits h) (hu_cur h)))) (\<lambda>n.
          case n of
            None \<Rightarrow> Err ErrInvalidHuffman
          | Some (Internal cs) \<Rightarrow> Ok (h\<lparr>hu_n := Internal cs\<rparr>)
          | Some (Leaf codeLen sy) \<Rightarrow>
              if unat codeLen > hu_cbits h then Ok (h\<lparr>hu_n := Leaf codeLen sy\<rparr>)
              else res_bind (huff_emit root maxLen codeLen sy h) (huff_tail fuel root maxLen))
      else Ok h)"

definition huffmanDecode :: "int \<Rightarrow> bytes \<Rightarrow> bytes kres" where
  "huffmanDecode maxLen v =
     res_bind rootHuffmanNode (\<lambda>root.
     res_bind (huff_bytes root maxLen v \<lparr>hu_n = root, hu_cur = 0, hu_cbits = 0, hu_sbits = 0, hu_out = []\<rparr>) (\<lambda>h.
     res_bind (huff_tail (Suc (hu_cbits h)) root maxLen h) (\<lambda>h.
       if hu_sbits h > 7 then Err ErrInvalidHuffman
       else let m = push_bit (hu_cbits h) 1 - 1 in
         if hu_cur h AND m \<noteq> m then Err ErrInvalidHuffman else Ok (hu_out h))))"

definition HuffmanDecodeToString :: "bytes \<Rightarrow> string kres" where
  "HuffmanDecodeToString v = res_bind (huffmanDecode 0 v) (\<lambda>out. Ok (string_of_bytes out))"

text \<open>\<open>HuffmanDecode\<close> with the answer of the writer, the number of bytes it took and its error.\<close>

definition HuffmanDecode :: "(bytes \<Rightarrow> int \<times> hpack_error option) \<Rightarrow> bytes \<Rightarrow> (int \<times> hpack_error option) kres" where
  "HuffmanDecode w v =
     (case huffmanDecode 0 v of
        Ok out \<Rightarrow> Ok (w out) | Err e \<Rightarrow> Ok (0, Some e) | Panic \<Rightarrow> Panic | Stuck \<Rightarrow> Stuck)"

text \<open>\<open>appendByteToHuffmanCode\<close>: the last byte has \<open>rembits\<close> free bits.\<close>

definition or_last :: "bytes \<Rightarrow> byte \<Rightarrow> bytes" where
  "or_last dst t = butlast dst @ [last dst OR t]"

fun append_code :: "nat \<Rightarrow> bytes \<Rightarrow> nat \<Rightarrow> 32 word \<Rightarrow> nat \<Rightarrow> (bytes \<times> nat) kres" where
  "append_code 0 dst rembits code nbits = Stuck"
| "append_code (Suc fuel) dst rembits code nbits =
     (if dst = [] then Panic
      else if rembits > nbits
      then Ok (or_last dst (ucast (push_bit (rembits - nbits) code)), rembits - nbits)
      else
        let dst = or_last dst (ucast (drop_bit (nbits - rembits) code)); nbits = nbits - rembits
        in if nbits = 0 then Ok (dst, 8) else append_code fuel (dst @ [0]) 8 code nbits)"

definition appendByteToHuffmanCode :: "bytes \<Rightarrow> nat \<Rightarrow> byte \<Rightarrow> (bytes \<times> nat) kres" where
  "appendByteToHuffmanCode dst rembits c =
     append_code (Suc (unat (huffmanCodeLen ! unat c))) dst rembits (huffmanCodes ! unat c)
       (unat (huffmanCodeLen ! unat c))"

fun append_huffman :: "bytes \<Rightarrow> nat \<Rightarrow> bytes \<Rightarrow> (bytes \<times> nat) kres" where
  "append_huffman dst rembits [] = Ok (dst, rembits)"
| "append_huffman dst rembits (c # s) =
     res_bind (appendByteToHuffmanCode (if rembits = 8 then dst @ [0] else dst) rembits c)
       (\<lambda>(dst, rembits). append_huffman dst rembits s)"

definition AppendHuffmanString :: "bytes \<Rightarrow> bytes \<Rightarrow> bytes kres" where
  "AppendHuffmanString dst s =
     res_bind (append_huffman dst 8 s) (\<lambda>(dst, rembits).
       Ok (if rembits < 8 then or_last dst (ucast (drop_bit (30 - rembits) (0x3fffffff :: 32 word))) else dst))"

definition HuffmanEncodeLength :: "bytes \<Rightarrow> uint64" where
  "HuffmanEncodeLength s = (foldl (\<lambda>n c. n + ucast (huffmanCodeLen ! unat c)) 0 s + 7) div 8"


end
