(* ===== verification/HuffmanTree.thy ===== *)
theory HuffmanTree
  imports HpackHuffman "HOL-Library.Sublist"
begin

text \<open>
  The Huffman code of HPACK is a prefix code and the decoding tree implements it: for every symbol the
  bytes that begin with its code lead to its leaf. Words are read as bit lists, the most significant bit
  first.
\<close>

unbundle bit_operations_syntax

section \<open>Words as bit lists\<close>

definition wbits :: "nat \<Rightarrow> 'a :: len word \<Rightarrow> bool list" where
  "wbits n w = map (bit w) (rev [0..<n])"

definition path_bits :: "bytes \<Rightarrow> bool list" where
  "path_bits p = concat (map (wbits 8) p)"

lemma length_wbits [simp]: "length (wbits n w) = n"
  by (simp add: wbits_def)

lemma wbits_0 [simp]: "wbits 0 w = []"
  by (simp add: wbits_def)

lemma wbits_eq_iff: "wbits n a = wbits n b \<longleftrightarrow> (\<forall>k<n. bit a k = bit b k)"
  by (auto simp: wbits_def)

lemma wbits_add: "wbits (m + n) w = wbits m (drop_bit n w) @ wbits n w"
proof -
  have "[0..<m + n] = [0..<n] @ map (\<lambda>k. k + n) [0..<m]"
    using upt_add_eq_append [of 0 n m] map_add_upt [of n m] by (simp add: add.commute)
  then show ?thesis by (simp add: wbits_def rev_map bit_drop_bit_eq o_def add.commute)
qed

lemma wbits_split: "m \<le> n \<Longrightarrow> wbits n w = wbits m (drop_bit (n - m) w) @ wbits (n - m) w"
  using wbits_add [of m "n - m" w] by simp

lemma wbits_ucast [simp]:
  "n \<le> LENGTH('b) \<Longrightarrow> n \<le> LENGTH('a) \<Longrightarrow> wbits n (ucast (w :: 'a :: len word) :: 'b :: len word) = wbits n w"
  by (simp add: wbits_eq_iff bit_unsigned_iff)

lemma wbits_unat: "wbits n (a :: 'a :: len word) = wbits n (b :: 'b :: len word) \<longleftrightarrow> unat a mod 2 ^ n = unat b mod 2 ^ n"
  by (auto simp: wbits_eq_iff take_bit_eq_mod [symmetric] bit_eq_iff [of "take_bit n (unat a)"] bit_take_bit_iff bit_unsigned_iff
      dest: bit_imp_le_length)

lemma wbits8_inject [simp]: "wbits 8 (a :: byte) = wbits 8 b \<longleftrightarrow> a = b"
  by (auto simp: wbits_eq_iff intro: bit_word_eqI)

lemma path_bits_simps [simp]:
  "path_bits [] = []" "path_bits (b # p) = wbits 8 b @ path_bits p" "path_bits (p @ q) = path_bits p @ path_bits q"
  by (simp_all add: path_bits_def)

lemma length_path_bits [simp]: "length (path_bits p) = 8 * length p"
  by (induction p) simp_all

lemma path_prefix_Cons: "prefix (path_bits (j # p)) (wbits 8 i @ bs) \<longleftrightarrow> j = i \<and> prefix (path_bits p) bs"
  by (auto simp: prefix_def append_eq_append_conv)

lemma prefix_path_Cons: "prefix (wbits 8 i @ bs) (path_bits (j # p)) \<longleftrightarrow> j = i \<and> prefix bs (path_bits p)"
  by (auto simp: prefix_def append_eq_append_conv)

section \<open>Looking up a path in the tree\<close>

text \<open>\<open>None\<close>: no node; \<open>Some None\<close>: an internal node; otherwise a leaf.\<close>

fun look :: "hnode \<Rightarrow> bytes \<Rightarrow> (8 word \<times> byte) option option" where
  "look (Leaf r s) [] = Some (Some (r, s))"
| "look (Internal cs) [] = Some None"
| "look (Leaf r s) (b # p) = None"
| "look (Internal cs) (b # p) = (case cs ! unat b of None \<Rightarrow> None | Some c \<Rightarrow> look c p)"

fun full :: "hnode \<Rightarrow> bool" where
  "full (Leaf _ _) = True"
| "full (Internal cs) = (length cs = 256 \<and> (\<forall>c. Some c \<in> set cs \<longrightarrow> full c))"

lemma byte_less [simp]: "unat (b :: byte) < 256"
  using unsigned_less [of b, where 'a = nat] by simp

lemma full_child: "full (Internal cs) \<Longrightarrow> cs ! unat (b :: byte) = Some c \<Longrightarrow> full c"
  by (metis byte_less full.simps(2) nth_mem)

lemma full_nth: "full (Internal cs) \<longleftrightarrow> length cs = 256 \<and> (\<forall>i<256. \<forall>c. cs ! i = Some c \<longrightarrow> full c)"
  by (simp add: in_set_conv_nth) metis

lemma full_update: "full (Internal cs) \<Longrightarrow> full c \<Longrightarrow> full (Internal (cs[i := Some c]))"
  by (auto dest: set_update_subset_insert [THEN subsetD])

lemma full_newInternalNode [simp]: "full newInternalNode"
  by (auto simp: newInternalNode_def)

lemma look_newInternalNode: "look newInternalNode p = (if p = [] then Some None else None)"
  by (cases p) (simp_all add: newInternalNode_def)

lemma look_not_leaf: "(\<And>x. look t [] \<noteq> Some (Some x)) \<Longrightarrow> \<exists>cs. t = Internal cs"
  by (cases t) auto

section \<open>Inserting a code\<close>

definition on_way :: "bool list \<Rightarrow> bytes \<Rightarrow> bool" where
  "on_way bs p \<longleftrightarrow> length (path_bits p) < length bs \<and> prefix (path_bits p) bs"

definition hits :: "bool list \<Rightarrow> bytes \<Rightarrow> bool" where
  "hits bs p \<longleftrightarrow> prefix bs (path_bits p) \<and> length (path_bits p) < length bs + 8"

definition inserted :: "bool list \<Rightarrow> byte \<Rightarrow> hnode \<Rightarrow> hnode \<Rightarrow> bool" where
  "inserted bs sy t t' \<longleftrightarrow> (\<forall>p. look t' p =
     (if on_way bs p then Some None
      else if hits bs p then Some (Some (word_of_nat (length bs + 8 - length (path_bits p)), sy))
      else if prefix bs (path_bits p) then None
      else look t p))"

lemma on_way_Cons: "on_way (wbits 8 i @ bs) (j # p) \<longleftrightarrow> j = i \<and> on_way bs p"
  unfolding on_way_def path_prefix_Cons by auto

lemma hits_Cons: "hits (wbits 8 i @ bs) (j # p) \<longleftrightarrow> j = i \<and> hits bs p"
  unfolding hits_def prefix_path_Cons by auto

lemma set_children_eq: "i + n \<le> length cs \<Longrightarrow>
    set_children n i leaf cs = Ok (take i cs @ replicate n (Some leaf) @ drop (i + n) cs)"
proof (induction n arbitrary: i cs)
  case (Suc n)
  then have "set_children n (Suc i) leaf (cs[i := Some leaf]) =
      Ok (take (Suc i) (cs[i := Some leaf]) @ replicate n (Some leaf) @ drop (Suc i + n) (cs[i := Some leaf]))"
    by simp
  with Suc.prems show ?case by (simp add: take_Suc_conv_app_nth take_update_swap list_update_append min_def)
qed simp

lemma set_children_nth:
  assumes "length cs = 256" "s + n \<le> 256"
  shows "\<exists>cs'. set_children n s leaf cs = Ok cs' \<and> length cs' = 256 \<and>
    (\<forall>k<256. cs' ! k = (if s \<le> k \<and> k < s + n then Some leaf else cs ! k))"
  using assms by (auto simp: set_children_eq nth_append min_def)

lemma block_start:
  assumes "L \<le> 8"
  shows "unat (ucast (push_bit (8 - L) (code :: 32 word)) :: byte) = unat code mod 2 ^ L * 2 ^ (8 - L)"
proof -
  let ?q = "2 ^ (8 - L) :: nat"
  have pow: "2 ^ L * ?q = (256 :: nat)" using assms by (simp flip: power_add)
  have "unat (ucast (push_bit (8 - L) code) :: byte) = unat (push_bit (8 - L) code) mod 256"
    by (simp add: unsigned_ucast_eq take_bit_eq_mod)
  also have "unat (push_bit (8 - L) code) = unat code * ?q mod 2 ^ 32"
    by (subst unsigned_push_bit_eq) (simp add: take_bit_eq_mod push_bit_eq_mult)
  also have "unat code * ?q mod 2 ^ 32 mod 256 = unat code * ?q mod (2 ^ L * ?q)"
    unfolding pow by (rule mod_mod_cancel) simp
  finally show ?thesis by simp
qed

lemma block_end: "L \<le> 8 \<Longrightarrow> unat (ucast (push_bit (8 - L) (code :: 32 word)) :: byte) + 2 ^ (8 - L) \<le> 256"
proof -
  assume L: "L \<le> 8"
  have "Suc (unat code mod 2 ^ L) * 2 ^ (8 - L) \<le> 2 ^ L * (2 ^ (8 - L) :: nat)"
    by (rule mult_right_mono) (simp_all add: Suc_leI)
  also have "\<dots> = 256" using L by (simp flip: power_add)
  finally show ?thesis by (simp add: block_start [OF L])
qed

lemma byte_in_block:
  assumes "L \<le> 8"
  shows "prefix (wbits L (code :: 32 word)) (wbits 8 (j :: byte)) \<longleftrightarrow>
    unat (ucast (push_bit (8 - L) code) :: byte) \<le> unat j \<and> unat j < unat (ucast (push_bit (8 - L) code) :: byte) + 2 ^ (8 - L)"
    (is "?P \<longleftrightarrow> _")
proof -
  let ?q = "2 ^ (8 - L) :: nat"
  have pow: "2 ^ L * ?q = (256 :: nat)" using assms by (simp flip: power_add)
  have "wbits 8 j = wbits L (drop_bit (8 - L) j) @ wbits (8 - L) j" by (rule wbits_split) (rule assms)
  then have "?P \<longleftrightarrow> wbits L code = wbits L (drop_bit (8 - L) j)" by (auto simp: prefix_def append_eq_append_conv)
  also have "\<dots> \<longleftrightarrow> unat code mod 2 ^ L = unat j div ?q mod 2 ^ L" by (simp add: wbits_unat unat_drop_bit_div)
  also have "unat j div ?q mod 2 ^ L = unat j div ?q"
    using byte_less [of j] by (simp add: less_mult_imp_div_less pow)
  finally show ?thesis
    unfolding block_start [OF assms] by (metis add.commute div_nat_eqI dividend_less_times_div mult.commute mult_Suc
        div_times_less_eq_dividend zero_less_numeral zero_less_power)
qed

lemma prefix_short: "length bs \<le> length xs \<Longrightarrow> prefix bs (xs @ ys) \<longleftrightarrow> prefix bs xs"
  by (metis prefix_def prefix_length_prefix prefix_order.trans)

lemma addDecoderNode_short:
  assumes "full (Internal cs)" "0 < L" "L \<le> 8"
  shows "\<exists>t'. addDecoderNode sy code L (Internal cs) = Ok t' \<and> full t' \<and> inserted (wbits L code) sy (Internal cs) t'"
proof -
  let ?s = "unat (ucast (push_bit (8 - L) code) :: byte)" and ?leaf = "Leaf (word_of_nat L) sy"
  from assms(1) have len: "length cs = 256" by simp
  obtain cs' where cs': "set_children (2 ^ (8 - L)) ?s ?leaf cs = Ok cs'" "length cs' = 256"
    "\<forall>k<256. cs' ! k = (if ?s \<le> k \<and> k < ?s + 2 ^ (8 - L) then Some ?leaf else cs ! k)"
    using set_children_nth [OF len block_end [OF assms(3)]] by blast
  then have child: "cs' ! unat (j :: byte) = (if prefix (wbits L code) (wbits 8 j) then Some ?leaf else cs ! unat j)" for j
    using byte_in_block [OF assms(3)] by simp
  have "full c" if "i < 256" "cs' ! i = Some c" for i c
    using that cs'(3) [rule_format, OF that(1)] assms(1) [unfolded full_nth] by (auto split: if_splits)
  then have "full (Internal cs')" using cs'(2) unfolding full_nth by blast
  moreover have "look (Internal cs') (j # p) =
     (if on_way (wbits L code) (j # p) then Some None
      else if hits (wbits L code) (j # p)
      then Some (Some (word_of_nat (length (wbits L code) + 8 - length (path_bits (j # p))), sy))
      else if prefix (wbits L code) (path_bits (j # p)) then None else look (Internal cs) (j # p))" for j p
    using assms(2,3) by (cases p) (auto simp: child on_way_def hits_def prefix_short)
  then have "inserted (wbits L code) sy (Internal cs) (Internal cs')"
    unfolding inserted_def using assms(2) by (intro allI) (rename_tac p, case_tac p, simp_all add: on_way_def)
  moreover have "addDecoderNode sy code L (Internal cs) = Ok (Internal cs')"
    using assms(3) cs'(1) by (simp add: addDecoderNode.simps)
  ultimately show ?thesis by blast
qed

lemma inserted_step:
  assumes "inserted bs sy c c'" "length cs = 256" "bs \<noteq> []"
    and "c = (case cs ! unat i of None \<Rightarrow> newInternalNode | Some c \<Rightarrow> c)"
  shows "inserted (wbits 8 (i :: byte) @ bs) sy (Internal cs) (Internal (cs[unat i := Some c']))"
  unfolding inserted_def
proof
  fix p
  let ?t' = "Internal (cs[unat i := Some c'])"
  show "look ?t' p = (if on_way (wbits 8 i @ bs) p then Some None
      else if hits (wbits 8 i @ bs) p
      then Some (Some (word_of_nat (length (wbits 8 i @ bs) + 8 - length (path_bits p)), sy))
      else if prefix (wbits 8 i @ bs) (path_bits p) then None else look (Internal cs) p)"
  proof (cases p)
    case Nil
    then show ?thesis by (simp add: on_way_def)
  next
    case (Cons j q)
    have same: "look ?t' (j # q) = (if j = i then look c' q else look (Internal cs) (j # q))"
      using assms(2) by (simp add: nth_list_update word_unat_eq_iff)
    have old: "look c q = look (Internal cs) (i # q)" if "\<not> on_way bs q"
      using that assms(3) unfolding assms(4)
      by (cases q) (auto simp: on_way_def newInternalNode_def split: option.split)
    show ?thesis
      unfolding Cons same on_way_Cons hits_Cons prefix_path_Cons
      using assms(1) old unfolding inserted_def by (simp add: algebra_simps)
  qed
qed

text \<open>Inserting a code whose way down the tree meets no leaf.\<close>

lemma addDecoderNode_inserted:
  assumes "full t" "0 < L" "L \<le> 32" "\<And>p x. on_way (wbits L code) p \<Longrightarrow> look t p \<noteq> Some (Some x)"
  shows "\<exists>t'. addDecoderNode sy code L t = Ok t' \<and> full t' \<and> inserted (wbits L code) sy t t'"
  using assms
proof (induction sy code L t rule: addDecoderNode.induct)
  case (1 sy code L t)
  have "look t [] \<noteq> Some (Some x)" for x using 1(5) [of "[]"] 1(3) by (simp add: on_way_def)
  then obtain cs where t: "t = Internal cs" using look_not_leaf by blast
  show ?case
  proof (cases "L \<le> 8")
    case True
    then show ?thesis using addDecoderNode_short [of cs L] 1(2,3) t by simp
  next
    case False
    let ?i = "ucast (drop_bit (L - 8) code) :: byte" and ?bs = "wbits (L - 8) code"
    let ?c = "case cs ! unat ?i of None \<Rightarrow> newInternalNode | Some c \<Rightarrow> c"
    have bits: "wbits L code = wbits 8 ?i @ ?bs" using wbits_split [of 8 L code] False by simp
    have len: "length cs = 256" using 1(2) t by simp
    have "full ?c" using 1(2) t by (auto split: option.split intro: full_child)
    moreover have "look ?c p \<noteq> Some (Some x)" if "on_way ?bs p" for p x
      using 1(5) [of "?i # p" x] that unfolding bits t on_way_Cons
      by (auto simp: look_newInternalNode split: option.splits)
    ultimately have "\<exists>c'. addDecoderNode sy code (L - 8) ?c = Ok c' \<and> full c' \<and> inserted ?bs sy ?c c'"
      using t False len 1(4) by (intro 1(1)) simp_all
    then obtain c' where c': "addDecoderNode sy code (L - 8) ?c = Ok c'" "full c'" "inserted ?bs sy ?c c'"
      by blast
    have "addDecoderNode sy code L t = Ok (Internal (cs[unat ?i := Some c']))"
      using False len c'(1) by (subst addDecoderNode.simps) (simp add: t Let_def)
    moreover have "full (Internal (cs[unat ?i := Some c']))" using 1(2) c'(2) t by (intro full_update) simp_all
    moreover have "inserted (wbits L code) sy t (Internal (cs[unat ?i := Some c']))"
      unfolding bits t using c'(3) len False by (intro inserted_step) (auto simp: wbits_def)
    ultimately show ?thesis by blast
  qed
qed

section \<open>The tree of a prefix code\<close>

definition incomparable :: "bool list \<times> byte \<Rightarrow> bool list \<times> byte \<Rightarrow> bool" where
  "incomparable c d \<longleftrightarrow> \<not> prefix (fst c) (fst d) \<and> \<not> prefix (fst d) (fst c)"

definition decodes :: "hnode \<Rightarrow> bool list \<times> byte \<Rightarrow> bool" where
  "decodes t c \<longleftrightarrow> (\<forall>p. (on_way (fst c) p \<longrightarrow> look t p = Some None) \<and>
     (hits (fst c) p \<longrightarrow> look t p = Some (Some (word_of_nat (length (fst c) + 8 - length (path_bits p)), snd c))))"

definition tree_ok :: "hnode \<Rightarrow> (bool list \<times> byte) set \<Rightarrow> bool" where
  "tree_ok t C \<longleftrightarrow> full t \<and> (\<forall>c\<in>C. decodes t c) \<and>
     (\<forall>p x. look t p = Some (Some x) \<longrightarrow> (\<exists>c\<in>C. prefix (fst c) (path_bits p)))"

fun code_list :: "nat \<Rightarrow> (32 word \<times> 8 word) list \<Rightarrow> (bool list \<times> byte) list" where
  "code_list i [] = []"
| "code_list i ((code, len) # cs) = (wbits (unat len) code, word_of_nat i) # code_list (Suc i) cs"

lemma length_code_list [simp]: "length (code_list i cs) = length cs"
  by (induction i cs rule: code_list.induct) simp_all

lemma code_list_nth: "k < length cs \<Longrightarrow>
    code_list i cs ! k = (wbits (unat (snd (cs ! k))) (fst (cs ! k)), word_of_nat (i + k))"
proof (induction i cs arbitrary: k rule: code_list.induct)
  case (2 i code len cs)
  then show ?case by (cases k) simp_all
qed simp

lemma tree_ok_new: "tree_ok newInternalNode {}"
  by (simp add: tree_ok_def look_newInternalNode)

lemma tree_ok_inserted:
  assumes "tree_ok t C" "full t'" "inserted bs sy t t'" "\<And>c. c \<in> C \<Longrightarrow> incomparable c (bs, sy)"
  shows "tree_ok t' (insert (bs, sy) C)"
proof -
  note look = assms(3) [unfolded inserted_def, rule_format]
  have apart: "\<not> hits bs p" if "on_way bs p" for p
    using that by (auto simp: hits_def on_way_def dest: prefix_length_le)
  have "decodes t' c" if c: "c \<in> C" for c
    unfolding decodes_def
  proof (intro allI conjI impI)
    fix p
    note ic = assms(4) [OF c, unfolded incomparable_def, simplified]
    have dec: "decodes t c" using assms(1) c by (simp add: tree_ok_def)
    show "look t' p = Some None" if "on_way (fst c) p"
      using that ic dec prefix_order.trans [of bs "path_bits p" "fst c"]
      by (auto simp: look decodes_def on_way_def hits_def)
    show "look t' p = Some (Some (word_of_nat (length (fst c) + 8 - length (path_bits p)), snd c))" if "hits (fst c) p"
      using that ic dec prefix_order.trans [of "fst c" "path_bits p" bs] prefix_same_cases [of bs "path_bits p" "fst c"]
      by (auto simp: look decodes_def on_way_def hits_def)
  qed
  moreover have "decodes t' (bs, sy)" using apart by (auto simp: decodes_def look)
  moreover have "\<exists>c\<in>insert (bs, sy) C. prefix (fst c) (path_bits p)" if "look t' p = Some (Some x)" for p x
    using that assms(1) by (auto simp: look hits_def tree_ok_def split: if_splits)
  ultimately show ?thesis using assms(2) by (auto simp: tree_ok_def)
qed

lemma add_codes_ok:
  assumes "tree_ok t C" "\<And>c l. (c, l) \<in> set cs \<Longrightarrow> 0 < l \<and> l \<le> 32"
    and "sorted_wrt incomparable (code_list i cs)" "\<And>c d. c \<in> C \<Longrightarrow> d \<in> set (code_list i cs) \<Longrightarrow> incomparable c d"
  shows "\<exists>t'. add_codes i cs t = Ok t' \<and> tree_ok t' (C \<union> set (code_list i cs))"
  using assms
proof (induction i cs arbitrary: t C rule: code_list.induct)
  case (2 i code len cs)
  let ?bs = "wbits (unat len) code"
  have len: "0 < unat len" "unat len \<le> 32" using 2(3) [of code len] by (simp_all add: word_less_nat_alt word_le_nat_alt)
  have free: "look t p \<noteq> Some (Some x)" if "on_way ?bs p" for p x
  proof
    assume "look t p = Some (Some x)"
    with 2(2) obtain c where "c \<in> C" "prefix (fst c) (path_bits p)" unfolding tree_ok_def by blast
    with that 2(5) [of c "(?bs, word_of_nat i)"] show False
      by (auto simp: incomparable_def on_way_def dest: prefix_order.trans)
  qed
  have "full t" using 2(2) by (simp add: tree_ok_def)
  then obtain t1 where t1: "addDecoderNode (word_of_nat i) code (unat len) t = Ok t1" "full t1"
    "inserted ?bs (word_of_nat i) t t1"
    using addDecoderNode_inserted [OF _ len free] by blast
  have "tree_ok t1 (insert (?bs, word_of_nat i) C)"
    using 2(2,5) t1 by (intro tree_ok_inserted) auto
  moreover have "incomparable c d" if "c \<in> insert (?bs, word_of_nat i) C" "d \<in> set (code_list (Suc i) cs)" for c d
    using that 2(4) 2(5) [of c d] by auto
  ultimately have "\<exists>t'. add_codes (Suc i) cs t1 = Ok t' \<and>
      tree_ok t' (insert (?bs, word_of_nat i) C \<union> set (code_list (Suc i) cs))"
    using 2(3) [of _ _] 2(4) by (intro 2(1)) (simp_all, blast+)
  with t1(1) show ?case by simp
qed simp

section \<open>The code of HPACK is a prefix code\<close>

text \<open>
  Each code stands for the interval of the 30-bit words that begin with it. The code is canonical: the
  intervals of the codes of length \<open>l\<close> lie between \<open>code_start ! l\<close> and \<open>code_start ! Suc l\<close>, and codes
  of the same length grow with the symbol.
\<close>

definition code_start :: "nat list" where
  "code_start =
     [0, 0, 0, 0, 0, 0, 335544320, 771751936, 
      1040187392, 1065353216, 1065353216, 1070596096, 1072168960, 1072693248, 1073479680, 1073610752, 
      1073709056, 1073709056, 1073709056, 1073709056, 1073715200, 1073723392, 1073730048, 1073736704, 
      1073740416, 1073741184, 1073741312, 1073741552, 1073741704, 1073741820, 1073741820, 1073741824]"

definition code_table :: "(32 word \<times> 8 word) list" where
  "code_table = zip huffmanCodes huffmanCodeLen"

definition code_nats :: "(nat \<times> nat) list" where
  "code_nats =
     [(8184, 13), (8388568, 23), (268435426, 28), (268435427, 28), (268435428, 28), (268435429, 28), (268435430, 28), (268435431, 28),
      (268435432, 28), (16777194, 24), (1073741820, 30), (268435433, 28), (268435434, 28), (1073741821, 30), (268435435, 28), (268435436, 28),
      (268435437, 28), (268435438, 28), (268435439, 28), (268435440, 28), (268435441, 28), (268435442, 28), (1073741822, 30), (268435443, 28),
      (268435444, 28), (268435445, 28), (268435446, 28), (268435447, 28), (268435448, 28), (268435449, 28), (268435450, 28), (268435451, 28),
      (20, 6), (1016, 10), (1017, 10), (4090, 12), (8185, 13), (21, 6), (248, 8), (2042, 11),
      (1018, 10), (1019, 10), (249, 8), (2043, 11), (250, 8), (22, 6), (23, 6), (24, 6),
      (0, 5), (1, 5), (2, 5), (25, 6), (26, 6), (27, 6), (28, 6), (29, 6),
      (30, 6), (31, 6), (92, 7), (251, 8), (32764, 15), (32, 6), (4091, 12), (1020, 10),
      (8186, 13), (33, 6), (93, 7), (94, 7), (95, 7), (96, 7), (97, 7), (98, 7),
      (99, 7), (100, 7), (101, 7), (102, 7), (103, 7), (104, 7), (105, 7), (106, 7),
      (107, 7), (108, 7), (109, 7), (110, 7), (111, 7), (112, 7), (113, 7), (114, 7),
      (252, 8), (115, 7), (253, 8), (8187, 13), (524272, 19), (8188, 13), (16380, 14), (34, 6),
      (32765, 15), (3, 5), (35, 6), (4, 5), (36, 6), (5, 5), (37, 6), (38, 6),
      (39, 6), (6, 5), (116, 7), (117, 7), (40, 6), (41, 6), (42, 6), (7, 5),
      (43, 6), (118, 7), (44, 6), (8, 5), (9, 5), (45, 6), (119, 7), (120, 7),
      (121, 7), (122, 7), (123, 7), (32766, 15), (2044, 11), (16381, 14), (8189, 13), (268435452, 28),
      (1048550, 20), (4194258, 22), (1048551, 20), (1048552, 20), (4194259, 22), (4194260, 22), (4194261, 22), (8388569, 23),
      (4194262, 22), (8388570, 23), (8388571, 23), (8388572, 23), (8388573, 23), (8388574, 23), (16777195, 24), (8388575, 23),
      (16777196, 24), (16777197, 24), (4194263, 22), (8388576, 23), (16777198, 24), (8388577, 23), (8388578, 23), (8388579, 23),
      (8388580, 23), (2097116, 21), (4194264, 22), (8388581, 23), (4194265, 22), (8388582, 23), (8388583, 23), (16777199, 24),
      (4194266, 22), (2097117, 21), (1048553, 20), (4194267, 22), (4194268, 22), (8388584, 23), (8388585, 23), (2097118, 21),
      (8388586, 23), (4194269, 22), (4194270, 22), (16777200, 24), (2097119, 21), (4194271, 22), (8388587, 23), (8388588, 23),
      (2097120, 21), (2097121, 21), (4194272, 22), (2097122, 21), (8388589, 23), (4194273, 22), (8388590, 23), (8388591, 23),
      (1048554, 20), (4194274, 22), (4194275, 22), (4194276, 22), (8388592, 23), (4194277, 22), (4194278, 22), (8388593, 23),
      (67108832, 26), (67108833, 26), (1048555, 20), (524273, 19), (4194279, 22), (8388594, 23), (4194280, 22), (33554412, 25),
      (67108834, 26), (67108835, 26), (67108836, 26), (134217694, 27), (134217695, 27), (67108837, 26), (16777201, 24), (33554413, 25),
      (524274, 19), (2097123, 21), (67108838, 26), (134217696, 27), (134217697, 27), (67108839, 26), (134217698, 27), (16777202, 24),
      (2097124, 21), (2097125, 21), (67108840, 26), (67108841, 26), (268435453, 28), (134217699, 27), (134217700, 27), (134217701, 27),
      (1048556, 20), (16777203, 24), (1048557, 20), (2097126, 21), (4194281, 22), (2097127, 21), (2097128, 21), (8388595, 23),
      (4194282, 22), (4194283, 22), (33554414, 25), (33554415, 25), (16777204, 24), (16777205, 24), (67108842, 26), (8388596, 23),
      (67108843, 26), (134217702, 27), (67108844, 26), (67108845, 26), (134217703, 27), (134217704, 27), (134217705, 27), (134217706, 27),
      (134217707, 27), (268435454, 28), (134217708, 27), (134217709, 27), (134217710, 27), (134217711, 27), (134217712, 27), (67108846, 26)]"

definition code_in_block :: "nat \<times> nat \<Rightarrow> bool" where
  "code_in_block cl \<longleftrightarrow> 5 \<le> snd cl \<and> snd cl \<le> 30 \<and> fst cl < 2 ^ snd cl \<and>
     code_start ! snd cl \<le> fst cl * 2 ^ (30 - snd cl) \<and> (fst cl + 1) * 2 ^ (30 - snd cl) \<le> code_start ! (snd cl + 1)"

fun growing :: "nat \<Rightarrow> nat \<Rightarrow> (nat \<times> nat) list \<Rightarrow> bool" where
  "growing l m [] = True"
| "growing l m ((c, l') # xs) = (if l' = l then m \<le> c \<and> growing l (c + 1) xs else growing l m xs)"

lemma growing_other: "l' \<noteq> l \<Longrightarrow> growing l m ((c, l') # xs) = growing l m xs"
  and growing_same: "growing l m ((c, l) # xs) = (m \<le> c \<and> growing l (c + 1) xs)"
  by simp_all

lemmas growing_eval = growing.simps(1) growing_other growing_same list.pred_inject num.distinct num.inject
  numeral_eq_iff not_True_eq_False not_False_eq_True numeral_plus_one add_num_simps numeral_le_iff le_num_simps simp_thms
  zero_le

lemma length_code_table [simp]: "length code_table = 256"
  by (simp add: code_table_def)

lemma code_start_sorted: "sorted code_start" "length code_start = 32"
  by (simp_all add: code_start_def)

lemma code_table_nats: "map (\<lambda>(c, l). (unat c, unat l)) code_table = code_nats"
  unfolding code_table_def huffmanCodes_def huffmanCodeLen_def code_nats_def by simp

lemma code_nats_blocks: "list_all code_in_block code_nats"
  unfolding code_nats_def by (simp add: code_in_block_def code_start_def)

definition code_lens :: "nat list" where
  "code_lens = [5, 6, 7, 8, 10, 11, 12, 13, 14, 15, 19, 20, 21, 22, 23, 24, 25, 26, 27, 28, 30]"

lemma code_nats_lens: "list_all (\<lambda>cl. snd cl \<in> set code_lens) code_nats"
  unfolding code_nats_def code_lens_def by simp

lemma code_nats_growing: "list_all (\<lambda>l. growing l 0 code_nats) code_lens"
  unfolding code_nats_def code_lens_def by (simp only: growing_eval) simp

lemma growing_ge: "growing l m xs \<Longrightarrow> k < length xs \<Longrightarrow> snd (xs ! k) = l \<Longrightarrow> m \<le> fst (xs ! k)"
proof (induction l m xs arbitrary: k rule: growing.induct)
  case (2 l m c l' xs)
  show ?case
  proof (cases k)
    case (Suc n)
    with 2(4,5) have n: "n < length xs" "snd (xs ! n) = l" by simp_all
    show ?thesis
    proof (cases "l' = l")
      case True
      with 2(3) have "m \<le> c" "growing l (c + 1) xs" by simp_all
      with 2(1) [OF True this(2) n] Suc show ?thesis by simp
    next
      case False
      with 2(2) [OF False _ n] 2(3) Suc show ?thesis by simp
    qed
  qed (use 2 in simp)
qed simp

lemma growing_less:
  assumes "growing l m xs" "i < length xs" "snd (xs ! i) = l"
  shows "m \<le> fst (xs ! i) \<and> (\<forall>j. i < j \<longrightarrow> j < length xs \<longrightarrow> snd (xs ! j) = l \<longrightarrow> fst (xs ! i) < fst (xs ! j))"
  using assms
proof (induction l m xs arbitrary: i rule: growing.induct)
  case (2 l m c l' xs)
  note later = growing_ge [of l]
  show ?case
  proof (cases i)
    case 0
    with 2(3,5) have "m \<le> c" "growing l (c + 1) xs" by (auto split: if_splits)
    then show ?thesis using 0 later [of "c + 1"] by (auto simp: nth_Cons Suc_le_eq split: nat.split)
  next
    case (Suc k)
    have *: "growing l (if l' = l then c + 1 else m) xs" "l' = l \<Longrightarrow> m \<le> c" "k < length xs" "snd (xs ! k) = l"
      using 2(3-5) Suc by (auto split: if_splits)
    then have IH: "\<forall>j. k < j \<longrightarrow> j < length xs \<longrightarrow> snd (xs ! j) = l \<longrightarrow> fst (xs ! k) < fst (xs ! j)"
      using 2(1) [of k] 2(2) [of k] by (cases "l' = l") auto
    have "m \<le> fst (xs ! k)" using * later [OF *(1,3,4)] by (auto split: if_splits)
    with IH Suc show ?thesis by (auto simp: nth_Cons split: nat.split)
  qed
qed simp

lemma code_nats_nth: "k < 256 \<Longrightarrow> code_nats ! k = (unat (huffmanCodes ! k), unat (huffmanCodeLen ! k))"
  by (simp add: code_table_nats [symmetric] code_table_def)

lemma length_code_nats [simp]: "length code_nats = 256"
  by (simp add: code_table_nats [symmetric])

lemma code_block:
  assumes "k < 256"
  shows "code_in_block (unat (huffmanCodes ! k), unat (huffmanCodeLen ! k))"
  using code_nats_blocks assms by (simp add: list_all_length code_nats_nth)

lemma same_length_less:
  assumes "i < j" "j < 256" "unat (huffmanCodeLen ! i) = unat (huffmanCodeLen ! j)"
  shows "unat (huffmanCodes ! i) < unat (huffmanCodes ! j)"
proof -
  have "unat (huffmanCodeLen ! i) \<in> set code_lens"
    using code_nats_lens assms by (simp add: list_all_length code_nats_nth)
  with code_nats_growing have "growing (unat (huffmanCodeLen ! i)) 0 code_nats" by (simp add: list_all_iff)
  from growing_less [OF this, of i] assms show ?thesis by (simp add: code_nats_nth)
qed

lemma code_not_prefix:
  assumes "i < 256" "j < 256" "i \<noteq> j"
  shows "\<not> prefix (wbits (unat (huffmanCodeLen ! i)) (huffmanCodes ! i)) (wbits (unat (huffmanCodeLen ! j)) (huffmanCodes ! j))"
    (is "\<not> prefix (wbits ?l ?c) (wbits ?m ?d)")
proof
  assume pre: "prefix (wbits ?l ?c) (wbits ?m ?d)"
  note i = code_block [OF assms(1), unfolded code_in_block_def, simplified]
    and j = code_block [OF assms(2), unfolded code_in_block_def, simplified]
  from pre have lm: "?l \<le> ?m" using prefix_length_le by fastforce
  have "wbits ?m ?d = wbits ?l (drop_bit (?m - ?l) ?d) @ wbits (?m - ?l) ?d" by (rule wbits_split [OF lm])
  with pre have "wbits ?l ?c = wbits ?l (drop_bit (?m - ?l) ?d)" by (auto simp: prefix_def append_eq_append_conv)
  then have "unat ?c mod 2 ^ ?l = unat ?d div 2 ^ (?m - ?l) mod 2 ^ ?l" by (simp add: wbits_unat unat_drop_bit_div)
  moreover have "unat ?d div 2 ^ (?m - ?l) < 2 ^ ?l"
    using j lm by (intro less_mult_imp_div_less) (simp flip: power_add)
  ultimately have c: "unat ?c = unat ?d div 2 ^ (?m - ?l)" using i by simp
  show False
  proof (cases "?l = ?m")
    case True
    with c have "unat ?c = unat ?d" by simp
    with True assms same_length_less [of i j] same_length_less [of j i] show False by (cases "i < j") simp_all
  next
    case False
    have pow: "2 ^ (?m - ?l) * 2 ^ (30 - ?m) = (2 :: nat) ^ (30 - ?l)" using lm j by (simp flip: power_add)
    have "unat ?d < (unat ?c + 1) * 2 ^ (?m - ?l)" unfolding c by (simp add: dividend_less_div_times)
    then have "unat ?d * 2 ^ (30 - ?m) < (unat ?c + 1) * 2 ^ (?m - ?l) * 2 ^ (30 - ?m)" by simp
    also have "\<dots> = (unat ?c + 1) * 2 ^ (30 - ?l)" by (simp only: mult.assoc pow)
    also have "\<dots> \<le> code_start ! (?l + 1)" using i by simp
    also have "\<dots> \<le> code_start ! ?m"
      using False lm j code_start_sorted by (intro sorted_nth_mono) simp_all
    also have "\<dots> \<le> unat ?d * 2 ^ (30 - ?m)" using j by simp
    finally show False by simp
  qed
qed

definition code_bits :: "byte \<Rightarrow> bool list" where
  "code_bits c = wbits (unat (huffmanCodeLen ! unat c)) (huffmanCodes ! unat c)"

lemma code_bits_length: "5 \<le> length (code_bits c)" "length (code_bits c) \<le> 30"
  using code_block [of "unat c"] by (simp_all add: code_bits_def code_in_block_def)

text \<open>The tree built by \<open>init\<close> decodes every symbol.\<close>

lemma rootHuffmanNode_decodes:
  obtains root where "rootHuffmanNode = Ok root" "full root" "\<And>c. decodes root (code_bits c, c)"
proof -
  have "sorted_wrt incomparable (code_list 0 code_table)"
    by (auto simp: sorted_wrt_iff_nth_less code_list_nth incomparable_def code_not_prefix code_table_def)
  moreover have "0 < l \<and> l \<le> 32" if "(c, l) \<in> set code_table" for c l
  proof -
    from that obtain k where "k < 256" "l = huffmanCodeLen ! k"
      by (auto simp: in_set_conv_nth code_table_def)
    with code_block [of k] show ?thesis by (simp add: code_in_block_def word_less_nat_alt word_le_nat_alt)
  qed
  ultimately obtain root where root: "add_codes 0 code_table newInternalNode = Ok root"
    "tree_ok root (set (code_list 0 code_table))"
    using add_codes_ok [OF tree_ok_new, of code_table 0] by auto
  have "(code_bits c, c) \<in> set (code_list 0 code_table)" for c
  proof -
    have "code_list 0 code_table ! unat c = (code_bits c, c)"
      by (simp add: code_list_nth code_bits_def code_table_def)
    then show ?thesis by (metis byte_less length_code_list length_code_table nth_mem)
  qed
  with root show thesis
    by (intro that [of root]) (auto simp: rootHuffmanNode_def code_table_def tree_ok_def)
qed

end
