(* ===== verification/HuffmanCodec.thy ===== *)
theory HuffmanCodec
  imports HuffmanTree
begin

text \<open>
  Encoding a string with the Huffman code and decoding it gives the string back, and the encoder writes as
  many bytes as \<open>HuffmanEncodeLength\<close> says.
\<close>

unbundle bit_operations_syntax

section \<open>The encoder writes the codes of the symbols\<close>

lemma path_bits_inject [simp]: "path_bits p = path_bits q \<longleftrightarrow> p = q"
proof (induction p arbitrary: q)
  case Nil
  then show ?case by (cases q) (simp_all add: wbits_def)
next
  case (Cons b p)
  then show ?case by (cases q) (simp_all add: append_eq_append_conv, simp add: wbits_def)
qed

lemma path_bits_extends:
  assumes "path_bits r = path_bits p @ bs"
  obtains e where "r = p @ e" "path_bits e = bs"
proof -
  have len: "length p \<le> length r" using arg_cong [OF assms, of length] by simp
  have "path_bits (take (length p) r) @ path_bits (drop (length p) r) = path_bits r" by (simp flip: path_bits_simps(3))
  with assms len have "path_bits (take (length p) r) = path_bits p" "path_bits (drop (length p) r) = bs"
    by (simp_all add: append_eq_append_conv)
  then show thesis using that [of "drop (length p) r"] by (metis append_take_drop_id path_bits_inject)
qed

lemma wbits_nth [simp]: "i < n \<Longrightarrow> wbits n w ! i = bit w (n - Suc i)"
  by (simp add: wbits_def rev_nth)

lemma wbits_OR: "wbits n (a OR b) = map2 (\<or>) (wbits n a) (wbits n b)"
  by (rule nth_equalityI) (simp_all add: bit_or_iff)

lemma wbits_zeros: "wbits n (w :: 'a :: len word) = replicate n False \<longleftrightarrow> (\<forall>k<n. \<not> bit w k)"
proof -
  have "wbits n (0 :: 'a word) = replicate n False" by (rule nth_equalityI) simp_all
  with wbits_eq_iff [of n w "0 :: 'a word"] show ?thesis by simp
qed

lemma map2_or_False: "length u = n \<Longrightarrow> map2 (\<or>) u (replicate n False) = u"
  "length v = n \<Longrightarrow> map2 (\<or>) (replicate n False) v = v"
  by (simp_all add: list_eq_iff_nth_eq)

lemma or_byte:
  assumes "wbits 8 x = u @ replicate r False" "wbits 8 t = replicate (length u) False @ v" "length v = r"
  shows "wbits 8 (x OR t :: byte) = u @ v"
  using assms by (simp add: wbits_OR map2_or_False)

lemma or_last_bits:
  assumes "path_bits dst = bs @ replicate r False" "0 < r" "r \<le> 8"
    and "wbits 8 t = replicate (8 - r) False @ v" "length v = r"
  shows "dst \<noteq> [] \<and> path_bits (or_last dst t) = bs @ v"
proof -
  have "dst \<noteq> []" using assms(1,2) by (cases dst) auto
  then obtain d x where dst: "dst = d @ [x]" by (cases dst rule: rev_cases) auto
  have len: "8 * length d + 8 = length bs + r" using arg_cong [OF assms(1), of length] dst by simp
  have "path_bits d @ wbits 8 x = take (8 * length d) bs @ drop (8 * length d) bs @ replicate r False"
    using assms(1) dst by (simp flip: append_assoc)
  moreover have "length (take (8 * length d) bs) = length (path_bits d)" using len assms(3) by simp
  ultimately have *: "path_bits d = take (8 * length d) bs" "wbits 8 x = drop (8 * length d) bs @ replicate r False"
    by (metis append_eq_append_conv)+
  have "wbits 8 (x OR t) = drop (8 * length d) bs @ v"
    using assms(4,5) len by (intro or_byte [OF *(2)]) simp_all
  then have "path_bits (or_last dst t) = bs @ v"
    by (simp add: dst or_last_def *(1) del: append_take_drop_id) (simp flip: append_assoc)
  with \<open>dst \<noteq> []\<close> show ?thesis by simp
qed

lemma not_bit_above: "unat (code :: 32 word) < 2 ^ n \<Longrightarrow> n \<le> k \<Longrightarrow> \<not> bit code k"
  using take_bit_nat_eq_self [of "unat code" n] bit_take_bit_iff [of n "unat code" k]
  by (auto simp: bit_unsigned_iff dest: bit_imp_le_length)

lemma shifted_code_bits:
  assumes "n < r" "r \<le> 8" "r = 8 \<or> unat (code :: 32 word) < 2 ^ n"
  shows "wbits 8 (ucast (push_bit (r - n) code) :: byte) = replicate (8 - r) False @ wbits n code @ replicate (r - n) False"
proof -
  let ?w = "ucast (push_bit (r - n) code) :: byte"
  have bit: "bit ?w k \<longleftrightarrow> k < 8 \<and> r - n \<le> k \<and> bit code (k - (r - n))" for k
    by (auto simp: bit_unsigned_iff bit_push_bit_iff dest: bit_imp_le_length)
  have "wbits 8 ?w = wbits (8 - r) (drop_bit r ?w) @ wbits r ?w" using wbits_split [of "8 - r" 8 ?w] assms(2) by simp
  also have "wbits r ?w = wbits n (drop_bit (r - n) ?w) @ wbits (r - n) ?w" using wbits_split [of n r ?w] assms(1) by simp
  also have "wbits (8 - r) (drop_bit r ?w) = replicate (8 - r) False"
    unfolding wbits_zeros using assms not_bit_above [of code n] by (auto simp: bit bit_drop_bit_eq)
  also have "wbits n (drop_bit (r - n) ?w) = wbits n code"
    using assms(1,2) by (auto simp: wbits_eq_iff bit bit_drop_bit_eq)
  also have "wbits (r - n) ?w = replicate (r - n) False" unfolding wbits_zeros by (simp add: bit)
  finally show ?thesis .
qed

lemma high_code_bits:
  assumes "r \<le> n" "r \<le> 8" "r = 8 \<or> unat (code :: 32 word) < 2 ^ n"
  shows "wbits 8 (ucast (drop_bit (n - r) code) :: byte) = replicate (8 - r) False @ wbits r (drop_bit (n - r) code)"
proof -
  let ?w = "ucast (drop_bit (n - r) code) :: byte"
  have "wbits 8 ?w = wbits (8 - r) (drop_bit r ?w) @ wbits r ?w" using wbits_split [of "8 - r" 8 ?w] assms(2) by simp
  also have "wbits (8 - r) (drop_bit r ?w) = replicate (8 - r) False"
    unfolding wbits_zeros using assms not_bit_above [of code n] by (auto simp: bit_unsigned_iff bit_drop_bit_eq)
  also have "wbits r ?w = wbits r (drop_bit (n - r) code)" using assms(2) by simp
  finally show ?thesis .
qed

definition spare :: "nat \<Rightarrow> bool list" where
  "spare r = (if r = 8 then [] else replicate r False)"

lemma append_code_bits:
  assumes "path_bits dst = bs @ replicate r False" "0 < r" "r \<le> 8" "0 < n" "n \<le> 32" "r = 8 \<or> unat code < 2 ^ n" "n < fuel"
  shows "\<exists>dst' r'. append_code fuel dst r code n = Ok (dst', r') \<and> 0 < r' \<and> r' \<le> 8 \<and>
    path_bits dst' = bs @ wbits n code @ spare r'"
  using assms
proof (induction fuel arbitrary: dst bs r n)
  case (Suc fuel)
  show ?case
  proof (cases "n < r")
    case True
    with Suc.prems or_last_bits [OF Suc.prems(1-3) shifted_code_bits [OF True Suc.prems(3,6)]]
    have "dst \<noteq> []" "path_bits (or_last dst (ucast (push_bit (r - n) code))) = bs @ wbits n code @ replicate (r - n) False"
      by (simp_all del: wbits_ucast)
    with True Suc.prems show ?thesis by (auto simp: spare_def)
  next
    case False
    let ?dst = "or_last dst (ucast (drop_bit (n - r) code))"
    have n: "wbits n code = wbits r (drop_bit (n - r) code) @ wbits (n - r) code" using wbits_split [of r n code] False by simp
    have *: "dst \<noteq> []" "path_bits ?dst = bs @ wbits r (drop_bit (n - r) code)"
      using False or_last_bits [OF Suc.prems(1-3) high_code_bits [OF _ Suc.prems(3,6)]] by simp_all
    show ?thesis
    proof (cases "n = r")
      case True
      with * n Suc.prems show ?thesis by (simp add: spare_def)
    next
      case diff: False
      have "path_bits (?dst @ [0]) = (bs @ wbits r (drop_bit (n - r) code)) @ replicate 8 False"
        using * by (simp add: wbits_zeros)
      from Suc.IH [OF this, of "n - r"] False diff Suc.prems * n show ?thesis by (simp add: Let_def)
    qed
  qed
qed simp

lemma appendByte_bits:
  assumes "path_bits dst = bs @ replicate r False" "0 < r" "r \<le> 8"
  shows "\<exists>dst' r'. appendByteToHuffmanCode dst r c = Ok (dst', r') \<and> 0 < r' \<and> r' \<le> 8 \<and>
    path_bits dst' = bs @ code_bits c @ spare r'"
  using append_code_bits [OF assms, where n = "unat (huffmanCodeLen ! unat c)" and code = "huffmanCodes ! unat c"
      and fuel = "Suc (unat (huffmanCodeLen ! unat c))"] code_block [of "unat c"]
  by (simp add: appendByteToHuffmanCode_def code_bits_def code_in_block_def)

definition symbols_bits :: "bytes \<Rightarrow> bool list" where
  "symbols_bits s = concat (map code_bits s)"

lemma symbols_bits_simps [simp]:
  "symbols_bits [] = []" "symbols_bits (c # s) = code_bits c @ symbols_bits s"
  by (simp_all add: symbols_bits_def)

lemma append_huffman_bits:
  assumes "path_bits dst = bs @ spare r" "0 < r" "r \<le> 8"
  shows "\<exists>dst' r'. append_huffman dst r s = Ok (dst', r') \<and> 0 < r' \<and> r' \<le> 8 \<and>
    path_bits dst' = bs @ symbols_bits s @ spare r'"
  using assms
proof (induction s arbitrary: dst r bs)
  case (Cons c s)
  let ?dst = "if r = 8 then dst @ [0] else dst"
  have "wbits 8 (0 :: byte) = replicate 8 False" by (simp add: wbits_zeros)
  then have "path_bits ?dst = bs @ replicate r False" using Cons.prems by (simp add: spare_def)
  from appendByte_bits [OF this Cons.prems(2,3), of c] obtain dst1 r1 where
    1: "appendByteToHuffmanCode ?dst r c = Ok (dst1, r1)" "0 < r1" "r1 \<le> 8" "path_bits dst1 = (bs @ code_bits c) @ spare r1"
    by auto
  from Cons.IH [OF 1(4,2,3)] 1(1) show ?case by auto
qed simp

text \<open>The padding is the beginning of the code of EOS, all ones.\<close>

lemma padding_bits:
  assumes "0 < r" "r < 8"
  shows "wbits 8 (ucast (drop_bit (30 - r) (0x3fffffff :: 32 word)) :: byte) = replicate (8 - r) False @ replicate r True"
proof -
  have "r \<in> {1, 2, 3, 4, 5, 6, 7}" using assms by auto
  then show ?thesis by (elim insertE emptyE) (simp only:, code_simp)+
qed

lemma AppendHuffmanString_bits:
  obtains e k where "AppendHuffmanString dst s = Ok (dst @ e)" "path_bits e = symbols_bits s @ replicate k True" "k < 8"
proof -
  obtain d r where 1: "append_huffman dst 8 s = Ok (d, r)" "0 < r" "r \<le> 8" "path_bits d = path_bits dst @ symbols_bits s @ spare r"
    using append_huffman_bits [of dst "path_bits dst" 8 s] by (auto simp: spare_def)
  define k where "k = (if r = 8 then 0 else r)"
  define d' where "d' = (if r < 8 then or_last d (ucast (drop_bit (30 - r) (0x3fffffff :: 32 word))) else d)"
  have "path_bits d' = path_bits dst @ symbols_bits s @ replicate k True"
  proof (cases "r = 8")
    case False
    then have "path_bits d = (path_bits dst @ symbols_bits s) @ replicate r False" using 1 by (simp add: spare_def)
    from or_last_bits [OF this 1(2,3) padding_bits] False 1 show ?thesis by (simp add: d'_def k_def)
  qed (use 1 in \<open>simp add: d'_def k_def spare_def\<close>)
  then obtain e where "d' = dst @ e" "path_bits e = symbols_bits s @ replicate k True" by (rule path_bits_extends)
  moreover have "AppendHuffmanString dst s = Ok d'" using 1 by (simp add: AppendHuffmanString_def d'_def)
  moreover have "k < 8" using 1 by (simp add: k_def)
  ultimately show thesis using that by simp
qed

lemma HuffmanEncodeLength_sum:
  "foldl (\<lambda>n c. n + ucast (huffmanCodeLen ! unat c)) n s = n + (word_of_nat (length (symbols_bits s)) :: uint64)"
proof (induction s arbitrary: n)
  case (Cons c s)
  have "ucast (huffmanCodeLen ! unat c) = (word_of_nat (length (code_bits c)) :: uint64)"
    by (simp add: code_bits_def unsigned_ucast_eq)
  with Cons show ?case by simp
qed simp

lemma length_symbols_bits: "length (symbols_bits s) \<le> 30 * length s"
  using code_bits_length(2) by (induction s) (simp_all add: add_mono)

lemma HuffmanEncodeLength_exact:
  assumes "path_bits e = symbols_bits s @ replicate k True" "k < 8" "30 * length s + 7 < 2 ^ 64"
  shows "unat (HuffmanEncodeLength s) = length e"
proof -
  let ?n = "length (symbols_bits s)"
  have n: "?n + 7 < 2 ^ 64" using length_symbols_bits [of s] assms(3) by simp
  have "HuffmanEncodeLength s = word_of_nat (?n + 7) div 8" by (simp add: HuffmanEncodeLength_def HuffmanEncodeLength_sum)
  then have "unat (HuffmanEncodeLength s) = (?n + 7) div 8"
    using unat_of_nat64 [OF n] by (simp add: unat_div_distrib del: of_nat_add of_nat_numeral)
  moreover have "8 * length e = ?n + k" using arg_cong [OF assms(1), of length] by simp
  ultimately show ?thesis using assms(2) by linarith
qed

section \<open>The decoder follows the tree\<close>

fun walk :: "hnode \<Rightarrow> bytes \<Rightarrow> hnode option" where
  "walk t [] = Some t"
| "walk (Leaf r s) (b # p) = None"
| "walk (Internal cs) (b # p) = (case cs ! unat b of None \<Rightarrow> None | Some c \<Rightarrow> walk c p)"

fun leaf_of :: "hnode \<Rightarrow> (8 word \<times> byte) option" where
  "leaf_of (Leaf r s) = Some (r, s)"
| "leaf_of (Internal cs) = None"

lemma leaf_of_iff: "leaf_of n = Some (r, s) \<longleftrightarrow> n = Leaf r s" "leaf_of n = None \<longleftrightarrow> (\<exists>cs. n = Internal cs)"
  by (cases n; auto)+

lemma look_walk: "look t p = map_option leaf_of (walk t p)"
  by (induction t p rule: look.induct) (simp_all split: option.split)

lemma walk_snoc: "walk t (p @ [b]) = (case walk t p of None \<Rightarrow> None | Some n \<Rightarrow> walk n [b])"
  by (induction t p rule: walk.induct) (simp_all split: option.split)

lemma full_walk: "full t \<Longrightarrow> walk t p = Some n \<Longrightarrow> full n"
  by (induction t p rule: walk.induct) (auto split: option.splits intro: full_child simp del: full.simps)

lemma child_walk:
  assumes "full root" "walk root p = Some n" "leaf_of n = None"
  shows "child n b = Ok (walk root (p @ [b]))"
proof -
  from assms(3) obtain cs where n: "n = Internal cs" by (cases n) simp_all
  with full_walk [OF assms(1,2)] have "length cs = 256" by simp
  moreover have "uint b < 256" using unsigned_less [of b, where 'a = int] by simp
  ultimately show ?thesis using assms(2)
    by (simp add: child_def n walk_snoc index_def nat_uint_eq split: option.split)
qed

text \<open>The bits of the register that are not consumed yet; a step of the decoder in the middle of the code of
  a symbol, of which the bytes \<open>p\<close> are consumed.\<close>

definition pend :: "huff \<Rightarrow> bool list" where
  "pend h = wbits (hu_cbits h) (hu_cur h)"

definition mid :: "hnode \<Rightarrow> bytes \<Rightarrow> bytes \<Rightarrow> bytes \<Rightarrow> nat \<Rightarrow> huff \<Rightarrow> bool" where
  "mid root s p rest k h \<longleftrightarrow> walk root p = Some (hu_n h) \<and> leaf_of (hu_n h) = None \<and> k < 8 \<and>
     path_bits p @ pend h @ path_bits rest = symbols_bits s @ replicate k True \<and>
     (s \<noteq> [] \<longrightarrow> length (path_bits p) < length (code_bits (hd s))) \<and>
     hu_sbits h = 8 * length p + hu_cbits h \<and> hu_cbits h \<le> 15"

definition roomy :: "int \<Rightarrow> huff \<Rightarrow> bytes \<Rightarrow> bool" where
  "roomy maxLen h s \<longleftrightarrow> maxLen = 0 \<or> int (length (hu_out h) + length s) \<le> maxLen"

lemma symbol_step:
  assumes "decodes root (code_bits c, c)" "prefix (code_bits c) bs \<or> prefix bs (code_bits c)"
    and "bs = path_bits (p @ [b])" "length (path_bits p) < length (code_bits c)"
  shows "look root (p @ [b]) =
    Some (if length (code_bits c) \<le> length bs then Some (word_of_nat (length (code_bits c) - length (path_bits p)), c) else None)"
proof (cases "length (code_bits c) \<le> length bs")
  case True
  with assms(2) have "prefix (code_bits c) bs" by (metis prefix_length_prefix prefix_order.refl)
  then have "hits (code_bits c) (p @ [b])" using assms(3,4) by (simp add: hits_def)
  with assms(1) True show ?thesis by (simp add: decodes_def)
next
  case False
  with assms(2) have "prefix bs (code_bits c)" by (auto dest: prefix_length_le)
  then have "on_way (code_bits c) (p @ [b])" using assms(3) False by (simp add: on_way_def)
  with assms(1) False show ?thesis by (simp add: decodes_def)
qed

lemma pend_split:
  assumes "m \<le> hu_cbits h"
  shows "pend h = wbits m (drop_bit (hu_cbits h - m) (hu_cur h)) @ pend (h\<lparr>hu_cbits := hu_cbits h - m\<rparr>)"
  using wbits_split [OF assms] by (simp add: pend_def)

text \<open>A leaf is reached with the last bits of the code of the next symbol, an internal node before that.\<close>

lemma mid_step:
  assumes "mid root (c # s) p rest k h" "full root" "\<And>c. decodes root (code_bits c, c)"
    and "prefix (wbits 8 b) (pend h @ path_bits rest @ replicate 8 False)"
  shows "child (hu_n h) b = Ok (walk root (p @ [b]))"
    and "look root (p @ [b]) = Some (if length (code_bits c) \<le> 8 * length p + 8
      then Some (word_of_nat (length (code_bits c) - 8 * length p), c) else None)"
proof -
  show "child (hu_n h) b = Ok (walk root (p @ [b]))"
    using assms(1,2) by (intro child_walk) (simp_all add: mid_def)
  let ?X = "path_bits p @ (pend h @ path_bits rest) @ replicate 8 False"
  have eq: "path_bits p @ pend h @ path_bits rest = code_bits c @ symbols_bits s @ replicate k True"
    using assms(1) by (simp add: mid_def)
  have "prefix (code_bits c) ?X"
    by (metis append_assoc eq prefix_def)
  moreover have "prefix (path_bits (p @ [b])) ?X" using assms(4) by simp
  ultimately have "prefix (code_bits c) (path_bits (p @ [b])) \<or> prefix (path_bits (p @ [b])) (code_bits c)"
    by (rule prefix_same_cases)
  from symbol_step [OF assms(3) this refl] assms(1) show "look root (p @ [b]) = Some (if length (code_bits c) \<le> 8 * length p + 8
      then Some (word_of_nat (length (code_bits c) - 8 * length p), c) else None)"
    by (simp add: mid_def)
qed

text \<open>After the last bits of a symbol the decoder is at the root again.\<close>

lemma mid_emit:
  assumes "mid root (c # s) p rest k h" "leaf_of root = None" "length (code_bits c) - 8 * length p \<le> hu_cbits h"
  shows "mid root s [] rest k (h\<lparr>hu_out := out, hu_cbits := hu_cbits h - (length (code_bits c) - 8 * length p),
    hu_n := root, hu_sbits := hu_cbits h - (length (code_bits c) - 8 * length p)\<rparr>)"
proof -
  let ?r = "length (code_bits c) - 8 * length p"
  let ?w = "wbits ?r (drop_bit (hu_cbits h - ?r) (hu_cur h))"
  have m: "8 * length p < length (code_bits c)" "path_bits p @ pend h @ path_bits rest = code_bits c @ symbols_bits s @ replicate k True"
    using assms(1) by (simp_all add: mid_def)
  then have "(path_bits p @ ?w) @ pend (h\<lparr>hu_cbits := hu_cbits h - ?r\<rparr>) @ path_bits rest = code_bits c @ symbols_bits s @ replicate k True"
    using pend_split [OF assms(3)] by simp
  moreover have "length (path_bits p @ ?w) = length (code_bits c)" using m(1) by simp
  ultimately have "pend (h\<lparr>hu_cbits := hu_cbits h - ?r\<rparr>) @ path_bits rest = symbols_bits s @ replicate k True"
    by (metis append_eq_append_conv)
  with assms(1,2) code_bits_length(1) [of "hd s"] show ?thesis by (auto simp: mid_def pend_def)
qed

lemma mid_down:
  assumes "mid root (c # s) p rest k h" "8 \<le> hu_cbits h" "length (code_bits c) > 8 * length p + 8"
    and "walk root (p @ [ucast (drop_bit (hu_cbits h - 8) (hu_cur h))]) = Some n" "leaf_of n = None"
  shows "mid root (c # s) (p @ [ucast (drop_bit (hu_cbits h - 8) (hu_cur h))]) rest k (h\<lparr>hu_n := n, hu_cbits := hu_cbits h - 8\<rparr>)"
  using assms pend_split [of 8 h] by (auto simp: mid_def pend_def)

lemma mid_nonempty: "mid root s p rest k h \<Longrightarrow> 8 \<le> hu_cbits h \<Longrightarrow> \<exists>c s'. s = c # s'"
proof (rule ccontr)
  assume m: "mid root s p rest k h" "8 \<le> hu_cbits h" and "\<nexists>c s'. s = c # s'"
  then have "s = []" by (cases s) auto
  with m(1) have "path_bits p @ pend h @ path_bits rest = replicate k True" "k < 8" by (simp_all add: mid_def)
  then have "length (pend h) < 8" by (metis le_add2 length_append length_replicate le_add1 le_trans not_le order_le_less_trans)
  with m(2) show False by (simp add: pend_def)
qed

text \<open>The inner loop decodes the symbols whose codes end within the register.\<close>

definition decoded :: "hnode \<Rightarrow> bytes \<Rightarrow> bytes \<Rightarrow> nat \<Rightarrow> huff \<Rightarrow> huff kres \<Rightarrow> bool" where
  "decoded root s rest k h r \<longleftrightarrow> (\<exists>h' s1 s2 p. r = Ok h' \<and> s = s1 @ s2 \<and> hu_out h' = hu_out h @ s1 \<and>
     mid root s2 p rest k h' \<and> hu_cbits h' < 8)"

lemma decodedI: "mid root s p rest k h \<Longrightarrow> hu_cbits h < 8 \<Longrightarrow> decoded root s rest k h (Ok h)"
  unfolding decoded_def by (metis append_Nil append_Nil2)

lemma decoded_Cons:
  "decoded root s rest k h' r \<Longrightarrow> hu_out h' = hu_out h @ [c] \<Longrightarrow> decoded root (c # s) rest k h r"
  unfolding decoded_def by (metis append.assoc append_Cons append_Nil)

lemma decoded_append:
  "decoded root s rest k h' r \<Longrightarrow> hu_out h' = hu_out h @ s1 \<Longrightarrow> decoded root (s1 @ s) rest k h r"
  unfolding decoded_def by (metis append.assoc)

lemma decoded_same: "decoded root s rest k h' r \<Longrightarrow> hu_out h' = hu_out h \<Longrightarrow> decoded root s rest k h r"
  by (simp add: decoded_def)

lemma huff_emit_roomy:
  "roomy maxLen h (c # s) \<Longrightarrow> r \<le> 8 \<Longrightarrow> huff_emit root maxLen (word_of_nat r) c h =
    Ok (h\<lparr>hu_out := hu_out h @ [c], hu_cbits := hu_cbits h - r, hu_n := root, hu_sbits := hu_cbits h - r\<rparr>)"
  by (auto simp: huff_emit_def roomy_def Let_def unat_of_nat)

lemma huff_inner_decodes:
  assumes "mid root s p rest k h" "full root" "leaf_of root = None" "\<And>c. decodes root (code_bits c, c)"
    and "roomy maxLen h s" "hu_cbits h < fuel"
  shows "decoded root s rest k h (huff_inner fuel root maxLen h)"
  using assms(1,5,6)
proof (induction fuel arbitrary: s p h)
  case (Suc fuel)
  show ?case
  proof (cases "8 \<le> hu_cbits h")
    case True
    then obtain c s' where s: "s = c # s'" using mid_nonempty [OF Suc.prems(1)] by blast
    let ?b = "ucast (drop_bit (hu_cbits h - 8) (hu_cur h)) :: byte" and ?r = "length (code_bits c) - 8 * length p"
    have "prefix (wbits 8 ?b) (pend h @ path_bits rest @ replicate 8 False)"
      unfolding pend_split [OF True] by simp
    note step = mid_step [OF Suc.prems(1) [unfolded s] assms(2,4) this]
    have m: "8 * length p < length (code_bits c)" using Suc.prems(1) by (simp add: mid_def s)
    show ?thesis
    proof (cases "length (code_bits c) \<le> 8 * length p + 8")
      case leaf: True
      then have w: "walk root (p @ [?b]) = Some (Leaf (word_of_nat ?r) c)"
        using step(2) by (auto simp: look_walk leaf_of_iff)
      let ?h = "h\<lparr>hu_out := hu_out h @ [c], hu_cbits := hu_cbits h - ?r, hu_n := root, hu_sbits := hu_cbits h - ?r\<rparr>"
      have "mid root s' [] rest k ?h"
        using mid_emit [OF Suc.prems(1) [unfolded s] assms(3)] leaf True by simp
      then have "decoded root s' rest k ?h (huff_inner fuel root maxLen ?h)"
        using Suc.prems m True by (intro Suc.IH) (auto simp: roomy_def s)
      then have "decoded root s rest k h (huff_inner fuel root maxLen ?h)"
        unfolding s by (rule decoded_Cons) simp
      with True step(1) w huff_emit_roomy [of maxLen h c s' ?r root] Suc.prems leaf show ?thesis by (simp add: s)
    next
      case False
      then obtain cs where w: "walk root (p @ [?b]) = Some (Internal cs)"
        using step(2) by (auto simp: look_walk leaf_of_iff)
      let ?h = "h\<lparr>hu_n := Internal cs, hu_cbits := hu_cbits h - 8\<rparr>"
      have "mid root s (p @ [?b]) rest k ?h"
        unfolding s using mid_down [OF Suc.prems(1) [unfolded s] True _ w] False by simp
      then have "decoded root s rest k ?h (huff_inner fuel root maxLen ?h)"
        using Suc.prems True by (intro Suc.IH) (auto simp: roomy_def)
      then have "decoded root s rest k h (huff_inner fuel root maxLen ?h)" by (rule decoded_same) simp
      with True step(1) w show ?thesis by simp
    qed
  qed (use Suc.prems in \<open>simp add: decodedI\<close>)
qed simp

lemma pend_push:
  assumes "hu_cbits h \<le> 15"
  shows "wbits (hu_cbits h + 8) (push_bit 8 (hu_cur h) OR ucast (b :: byte)) = pend h @ wbits 8 b"
proof -
  have "wbits 8 (push_bit 8 (hu_cur h) OR ucast b) = wbits 8 b"
    by (auto simp: wbits_eq_iff bit_or_iff bit_push_bit_iff bit_unsigned_iff)
  moreover have "wbits (hu_cbits h) (drop_bit 8 (push_bit 8 (hu_cur h) OR ucast b)) = pend h"
    using assms by (auto simp: pend_def wbits_eq_iff bit_or_iff bit_drop_bit_eq bit_push_bit_iff bit_unsigned_iff
        dest: bit_imp_le_length)
  ultimately show ?thesis by (simp add: wbits_add)
qed

lemma huff_bytes_decodes:
  assumes "mid root s p v k h" "hu_cbits h < 8" "full root" "leaf_of root = None" "\<And>c. decodes root (code_bits c, c)"
    and "roomy maxLen h s"
  shows "decoded root s [] k h (huff_bytes root maxLen v h)"
  using assms(1,2,6)
proof (induction v arbitrary: s p h)
  case Nil
  then show ?case by (auto intro: decodedI)
next
  case (Cons b v)
  let ?h = "h\<lparr>hu_cur := push_bit 8 (hu_cur h) OR ucast b, hu_cbits := hu_cbits h + 8, hu_sbits := hu_sbits h + 8\<rparr>"
  have "mid root s p v k ?h" using Cons.prems pend_push [of h b] by (simp add: mid_def pend_def)
  then have "decoded root s v k ?h (huff_inner (Suc (hu_cbits ?h)) root maxLen ?h)"
    using Cons.prems assms(3-5) by (intro huff_inner_decodes) (simp_all add: roomy_def)
  then obtain h' s1 s2 p' where h': "huff_inner (Suc (hu_cbits ?h)) root maxLen ?h = Ok h'" "s = s1 @ s2"
    "hu_out h' = hu_out h @ s1" "mid root s2 p' v k h'" "hu_cbits h' < 8"
    by (auto simp: decoded_def)
  have "decoded root s2 [] k h' (huff_bytes root maxLen v h')"
    using h' Cons.prems(3) by (intro Cons.IH) (auto simp: roomy_def)
  from decoded_append [OF this h'(3)] show ?case using h'(1,2) by (simp add: Let_def del: huff_inner.simps)
qed

text \<open>Padding leads to a node that needs more bits.\<close>

lemma code_bits_eval:
  "code_bits 61 = [True, False, False, False, False, False]"
  "code_bits 69 = [True, True, False, False, False, False, False]"
  "code_bits 85 = [True, True, True, False, False, False, False]"
  "code_bits 119 = [True, True, True, True, False, False, False]"
  "code_bits 38 = [True, True, True, True, True, False, False, False]"
  "code_bits 88 = [True, True, True, True, True, True, False, False]"
  "code_bits 33 = [True, True, True, True, True, True, True, False, False, False]"
  unfolding code_bits_def huffmanCodes_def huffmanCodeLen_def wbits_def by code_simp+

lemma padding_code:
  assumes "0 < k" "k < 8"
  obtains c where "k < length (code_bits c)" "prefix (code_bits c) (replicate k True @ replicate (8 - k) False) \<or>
    prefix (replicate k True @ replicate (8 - k) False) (code_bits c)"
proof -
  have "k = 1 \<or> k = 2 \<or> k = 3 \<or> k = 4 \<or> k = 5 \<or> k = 6 \<or> k = 7" using assms by auto
  then show thesis
    using that [of 61] that [of 69] that [of 85] that [of 119] that [of 38] that [of 88] that [of 33]
    by (elim disjE) (simp_all add: code_bits_eval numeral_eq_Suc)
qed

lemma tail_byte:
  assumes "hu_cbits h < 8"
  shows "wbits 8 (ucast (push_bit (8 - hu_cbits h) (hu_cur h)) :: byte) = pend h @ replicate (8 - hu_cbits h) False"
proof -
  let ?n = "hu_cbits h" and ?w = "ucast (push_bit (8 - hu_cbits h) (hu_cur h)) :: byte"
  have bit: "bit ?w k \<longleftrightarrow> k < 8 \<and> 8 - ?n \<le> k \<and> bit (hu_cur h) (k - (8 - ?n))" for k
    by (auto simp: bit_unsigned_iff bit_push_bit_iff dest: bit_imp_le_length)
  have "wbits 8 ?w = wbits ?n (drop_bit (8 - ?n) ?w) @ wbits (8 - ?n) ?w" using assms by (intro wbits_split) simp
  also have "wbits ?n (drop_bit (8 - ?n) ?w) = pend h"
    using assms by (auto simp: pend_def wbits_eq_iff bit bit_drop_bit_eq)
  also have "wbits (8 - ?n) ?w = replicate (8 - ?n) False" unfolding wbits_zeros by (simp add: bit)
  finally show ?thesis .
qed

definition finished :: "bytes \<Rightarrow> huff kres \<Rightarrow> bool" where
  "finished out r \<longleftrightarrow> (\<exists>h'. r = Ok h' \<and> hu_out h' = out \<and> hu_cbits h' < 8 \<and> hu_sbits h' = hu_cbits h' \<and>
     pend h' = replicate (hu_cbits h') True)"

lemma huff_tail_padding:
  assumes "mid root [] p [] k h" "hu_cbits h < 8" "full root" "\<And>c. decodes root (code_bits c, c)"
  shows "finished (hu_out h) (huff_tail (Suc fuel) root maxLen h)"
proof -
  have eq: "path_bits p @ pend h = replicate k True" "hu_sbits h = 8 * length p + hu_cbits h" "k < 8"
    using assms(1) by (simp_all add: mid_def)
  have len: "8 * length p + hu_cbits h = k" using arg_cong [OF eq(1), of length] by (simp add: pend_def)
  with eq(3) have "p = []" by (cases p) simp_all
  with eq len have p: "p = []" "pend h = replicate k True" "hu_sbits h = hu_cbits h" "k = hu_cbits h"
    by (simp_all add: pend_def)
  then have stop: "finished (hu_out h) (Ok (h\<lparr>hu_n := n\<rparr>))" for n
    using assms(2) by (simp add: finished_def pend_def)
  show ?thesis
  proof (cases "hu_cbits h = 0")
    case True
    then show ?thesis using stop [of "hu_n h"] by simp
  next
    case False
    let ?b = "ucast (push_bit (8 - hu_cbits h) (hu_cur h)) :: byte"
    obtain c where c: "k < length (code_bits c)" "prefix (code_bits c) (path_bits [?b]) \<or> prefix (path_bits [?b]) (code_bits c)"
      using padding_code [of k] False assms(2) p tail_byte [OF assms(2)] by (auto simp del: wbits_ucast)
    have "look root ([] @ [?b]) = Some (if length (code_bits c) \<le> 8 then Some (word_of_nat (length (code_bits c)), c) else None)"
      using symbol_step [OF assms(4) c(2), of "[]" ?b] c(1) by (cases "code_bits c") simp_all
    moreover have "child (hu_n h) ?b = Ok (walk root ([] @ [?b]))"
      using assms(1,3) p by (intro child_walk) (simp_all add: mid_def)
    ultimately show ?thesis
      using False c(1) p stop by (auto simp: look_walk leaf_of_iff unat_of_nat split: if_splits)
  qed
qed

lemma huff_tail_decodes:
  assumes "mid root s p [] k h" "hu_cbits h < 8" "full root" "leaf_of root = None" "\<And>c. decodes root (code_bits c, c)"
    and "roomy maxLen h s" "hu_cbits h < fuel"
  shows "finished (hu_out h @ s) (huff_tail fuel root maxLen h)"
  using assms(1,2,6,7)
proof (induction fuel arbitrary: s p h)
  case (Suc fuel)
  show ?case
  proof (cases s)
    case Nil
    then show ?thesis using huff_tail_padding Suc.prems assms(3,5) by simp
  next
    case (Cons c s')
    let ?b = "ucast (push_bit (8 - hu_cbits h) (hu_cur h)) :: byte" and ?r = "length (code_bits c) - 8 * length p"
    have "prefix (wbits 8 ?b) (pend h @ path_bits [] @ replicate 8 False)"
      unfolding tail_byte [OF Suc.prems(2)] by (simp add: prefix_def) (metis Suc.prems(2) le_add_diff_inverse2 less_imp_le replicate_add)
    note step = mid_step [OF Suc.prems(1) [unfolded Cons] assms(3,5) this]
    have m: "8 * length p < length (code_bits c)" "path_bits p @ pend h = code_bits c @ symbols_bits s' @ replicate k True"
      using Suc.prems(1) by (simp_all add: mid_def Cons)
    have fits: "length (code_bits c) \<le> 8 * length p + hu_cbits h"
      using arg_cong [OF m(2), of length] by (simp add: pend_def)
    then have w: "walk root (p @ [?b]) = Some (Leaf (word_of_nat ?r) c)"
      using step(2) Suc.prems(2) by (auto simp: look_walk leaf_of_iff)
    let ?h = "h\<lparr>hu_out := hu_out h @ [c], hu_cbits := hu_cbits h - ?r, hu_n := root, hu_sbits := hu_cbits h - ?r\<rparr>"
    have "mid root s' [] [] k ?h"
      using mid_emit [OF Suc.prems(1) [unfolded Cons] assms(4)] fits by simp
    then have "finished (hu_out ?h @ s') (huff_tail fuel root maxLen ?h)"
      using Suc.prems m(1) fits by (intro Suc.IH) (auto simp: roomy_def Cons)
    moreover have "unat (word_of_nat ?r :: 8 word) = ?r" using fits Suc.prems(2) by (simp add: unat_of_nat)
    moreover have "0 < hu_cbits h" using fits m(1) by linarith
    moreover have "?r \<le> 8" using fits Suc.prems(2) by linarith
    note huff_emit_roomy [OF Suc.prems(3) [unfolded Cons] this, of root]
    moreover have "\<not> hu_cbits h < ?r" using fits by linarith
    ultimately show ?thesis using step(1) w by (simp add: Cons)
  qed
qed simp

text \<open>The mask test accepts exactly a register whose remaining bits are ones.\<close>

lemma ones_mask:
  assumes "pend h = replicate (hu_cbits h) True" "hu_cbits h < 8"
  shows "hu_cur h AND (push_bit (hu_cbits h) 1 - 1) = push_bit (hu_cbits h) 1 - (1 :: uint64)"
proof -
  have "bit (hu_cur h) k" if "k < hu_cbits h" for k
  proof -
    have "pend h ! (hu_cbits h - Suc k)" using that unfolding assms(1) by simp
    then show ?thesis using that by (simp add: pend_def)
  qed
  moreover have "push_bit (hu_cbits h) 1 - (1 :: uint64) = mask (hu_cbits h)" by (simp add: mask_eq_exp_minus_1)
  ultimately show ?thesis by (auto intro!: bit_word_eqI simp: bit_and_iff bit_mask_iff)
qed

lemma huffmanDecode_symbols:
  assumes "path_bits e = symbols_bits s @ replicate k True" "k < 8" "maxLen = 0 \<or> int (length s) \<le> maxLen"
  shows "huffmanDecode maxLen e = Ok s"
proof -
  obtain root where root: "rootHuffmanNode = Ok root" "full root" "\<And>c. decodes root (code_bits c, c)"
    using rootHuffmanNode_decodes by blast
  have "on_way (code_bits 0) []" using code_bits_length(1) [of 0] by (auto simp: on_way_def)
  with root(3) [of 0] have r: "leaf_of root = None" by (fastforce simp: decodes_def look_walk)
  let ?h = "\<lparr>hu_n = root, hu_cur = 0, hu_cbits = 0, hu_sbits = 0, hu_out = []\<rparr>"
  have "mid root s [] e k ?h" using assms r code_bits_length(1) [of "hd s"] by (auto simp: mid_def pend_def)
  then have "decoded root s [] k ?h (huff_bytes root maxLen e ?h)"
    using root r assms(3) by (intro huff_bytes_decodes) (simp_all add: roomy_def)
  then obtain h s1 s2 p where h: "huff_bytes root maxLen e ?h = Ok h" "s = s1 @ s2" "hu_out h = s1" "mid root s2 p [] k h" "hu_cbits h < 8"
    by (auto simp: decoded_def)
  have "finished (hu_out h @ s2) (huff_tail (Suc (hu_cbits h)) root maxLen h)"
    using h root r assms(3) by (intro huff_tail_decodes) (auto simp: roomy_def)
  then obtain h' where h': "huff_tail (Suc (hu_cbits h)) root maxLen h = Ok h'" "hu_out h' = s" "hu_cbits h' < 8"
    "hu_sbits h' = hu_cbits h'" "pend h' = replicate (hu_cbits h') True"
    using h(2,3) by (auto simp: finished_def)
  show ?thesis
    unfolding huffmanDecode_def root(1) res_bind_simps h(1) h'(1) Let_def
    using h'(2-4) ones_mask [OF h'(5,3)] by (simp del: push_bit_of_1)
qed

text \<open>C35: a string encoded with the Huffman code is decoded to itself, by the decoder without a length limit
  and by one whose limit the string keeps; the encoder appends exactly the number of bytes that
  \<open>HuffmanEncodeLength\<close> announces.\<close>

theorem huffman_roundtrip:
  assumes "maxLen = 0 \<or> int (length s) \<le> maxLen" "30 * length s + 7 < 2 ^ 64"
  shows "\<exists>e. AppendHuffmanString dst s = Ok (dst @ e) \<and> huffmanDecode maxLen e = Ok s \<and>
    length e = unat (HuffmanEncodeLength s)"
proof -
  obtain e k where e: "AppendHuffmanString dst s = Ok (dst @ e)" "path_bits e = symbols_bits s @ replicate k True" "k < 8"
    by (rule AppendHuffmanString_bits)
  with huffmanDecode_symbols [OF e(2,3) assms(1)] HuffmanEncodeLength_exact [OF e(2,3) assms(2)] show ?thesis by auto
qed

theorem huffman_roundtrip_witness:
  "\<exists>e. AppendHuffmanString [3] [119, 119, 119] = Ok ([3] @ e) \<and> huffmanDecode 3 e = Ok [119, 119, 119] \<and>
    length e = unat (HuffmanEncodeLength [119, 119, 119])"
  by (rule huffman_roundtrip) simp_all

end
