(* ===== verification/Hpack.thy ===== *)
theory Hpack
  imports HuffmanCodec
begin

text \<open>
  The encoder and the decoder of HPACK, \<open>hpack.go\<close> and \<open>encode.go\<close> of
  \<open>golang.org/x/net/http2/hpack\<close>: integers with a bit prefix, string literals, the representations of header fields and the two state machines that keep their dynamic tables in step.
\<close>

unbundle bit_operations_syntax

section \<open>Integers\<close>

text \<open>\<open>appendVarInt\<close> with an \<open>n\<close>-bit prefix, and its loop over the remaining bits.\<close>

function append_rest :: "uint64 \<Rightarrow> bytes" where
  "append_rest i =
     (if i \<ge> 128 then ucast (0x80 OR (i AND 0x7f)) # append_rest (drop_bit 7 i) else [ucast i])"
  by pat_completeness auto
termination
proof (relation "measure unat", goal_cases)
  case (2 i)
  then have "0 < unat i" by (simp add: word_le_nat_alt)
  then show ?case by (simp add: unat_drop_bit_div)
qed simp

declare append_rest.simps [simp del]

definition varint_prefix :: "nat \<Rightarrow> uint64" where
  "varint_prefix n = push_bit n 1 - 1"

definition appendVarInt :: "bytes \<Rightarrow> nat \<Rightarrow> uint64 \<Rightarrow> bytes" where
  "appendVarInt dst n i =
     (let k = varint_prefix n in
      if i < k then dst @ [ucast i] else dst @ [ucast k] @ append_rest (i - k))"

text \<open>\<open>readVarInt\<close>: the first byte, then seven bits at a time until a byte without the high bit.\<close>

fun read_rest :: "uint64 \<Rightarrow> nat \<Rightarrow> bytes \<Rightarrow> (uint64 \<times> bytes) kres" where
  "read_rest i m [] = Err errNeedMore"
| "read_rest i m (b # p) =
     (let i = i + push_bit m (ucast (b AND 127)) in
      if b AND 128 = 0 then Ok (i, p)
      else if m + 7 \<ge> 63 then Err errVarintOverflow
      else read_rest i (m + 7) p)"

definition readVarInt :: "nat \<Rightarrow> bytes \<Rightarrow> (uint64 \<times> bytes) kres" where
  "readVarInt n p =
     (if n < 1 \<or> n > 8 then Panic
      else case p of
        [] \<Rightarrow> Err errNeedMore
      | b # p' \<Rightarrow>
          let i = (if n < 8 then ucast b AND varint_prefix n else ucast b) in
          if i < varint_prefix n then Ok (i, p') else read_rest i 0 p')"

section \<open>The encoder\<close>

text \<open>\<open>dst[first] |= b\<close> on the byte appended at \<open>first\<close>.\<close>

definition or_at :: "nat \<Rightarrow> byte \<Rightarrow> bytes \<Rightarrow> bytes" where
  "or_at i b dst = dst[i := dst ! i OR b]"

definition appendHpackString :: "bytes \<Rightarrow> string \<Rightarrow> bytes kres" where
  "appendHpackString dst s =
     (let bs = bytes_of_string s; huffmanLength = HuffmanEncodeLength bs in
      if huffmanLength < word_of_nat (length bs)
      then res_bind (AppendHuffmanString (appendVarInt dst 7 huffmanLength) bs)
             (\<lambda>d. Ok (or_at (length dst) 0x80 d))
      else Ok (appendVarInt dst 7 (word_of_nat (length bs)) @ bs))"

definition encodeTypeByte :: "bool \<Rightarrow> bool \<Rightarrow> byte" where
  "encodeTypeByte indexing sensitive = (if sensitive then 0x10 else if indexing then 0x40 else 0)"

definition appendIndexed :: "bytes \<Rightarrow> uint64 \<Rightarrow> bytes" where
  "appendIndexed dst i = or_at (length dst) 0x80 (appendVarInt dst 7 i)"

definition appendNewName :: "bytes \<Rightarrow> HeaderField \<Rightarrow> bool \<Rightarrow> bytes kres" where
  "appendNewName dst f indexing =
     res_bind (appendHpackString (dst @ [encodeTypeByte indexing (hf_Sensitive f)]) (hf_Name f)) (\<lambda>dst.
       appendHpackString dst (hf_Value f))"

definition appendIndexedName :: "bytes \<Rightarrow> HeaderField \<Rightarrow> uint64 \<Rightarrow> bool \<Rightarrow> bytes kres" where
  "appendIndexedName dst f i indexing =
     (let n = (if indexing then 6 else 4) in
      appendHpackString (or_at (length dst) (encodeTypeByte indexing (hf_Sensitive f)) (appendVarInt dst n i))
        (hf_Value f))"

definition appendTableSize :: "bytes \<Rightarrow> 32 word \<Rightarrow> bytes" where
  "appendTableSize dst v = or_at (length dst) 0x20 (appendVarInt dst 5 (ucast v))"

record Encoder =
  enc_dynTab :: dynamicTable
  enc_minSize :: "32 word"
  enc_maxSizeLimit :: "32 word"
  enc_tableSizeUpdate :: bool
  enc_out :: bytes
  enc_Write :: "bytes \<Rightarrow> nat \<times> hpack_error option"

definition uint32Max :: "32 word" where "uint32Max = NOT 0"

definition initialHeaderTableSize :: "32 word" where "initialHeaderTableSize = 4096"

definition new_dynamicTable :: "32 word \<Rightarrow> dynamicTable" where
  "new_dynamicTable allowed = \<lparr>dt_table = table_init, dt_size = 0, dt_maxSize = 0, dt_allowedMaxSize = allowed\<rparr>"

definition NewEncoder :: "(bytes \<Rightarrow> nat \<times> hpack_error option) \<Rightarrow> Encoder kres" where
  "NewEncoder w =
     res_bind (dt_setMaxSize initialHeaderTableSize (new_dynamicTable 0)) (\<lambda>dt.
       Ok \<lparr>enc_dynTab = dt, enc_minSize = uint32Max, enc_maxSizeLimit = initialHeaderTableSize,
         enc_tableSizeUpdate = False, enc_out = [], enc_Write = w\<rparr>)"

definition searchTable :: "HeaderField \<Rightarrow> Encoder \<Rightarrow> (uint64 \<times> bool) kres" where
  "searchTable f e =
     res_bind (table_search True f staticTable) (\<lambda>(i, nameValueMatch).
       if nameValueMatch then Ok (i, True)
       else res_bind (table_search False f (dt_table (enc_dynTab e))) (\<lambda>(j, nameValueMatch).
         if nameValueMatch \<or> (i = 0 \<and> j \<noteq> 0)
         then Ok (j + word_of_nat (table_len staticTable), nameValueMatch)
         else Ok (i, False)))"

definition shouldIndex :: "HeaderField \<Rightarrow> Encoder \<Rightarrow> bool" where
  "shouldIndex f e \<longleftrightarrow> \<not> hf_Sensitive f \<and> HeaderField_Size f \<le> dt_maxSize (enc_dynTab e)"

definition enc_SetMaxDynamicTableSize :: "32 word \<Rightarrow> Encoder \<Rightarrow> Encoder kres" where
  "enc_SetMaxDynamicTableSize v e =
     (let v = (if v > enc_maxSizeLimit e then enc_maxSizeLimit e else v);
          e = (if v < enc_minSize e then e\<lparr>enc_minSize := v\<rparr> else e);
          e = e\<lparr>enc_tableSizeUpdate := True\<rparr>
      in res_bind (dt_setMaxSize v (enc_dynTab e)) (\<lambda>dt. Ok (e\<lparr>enc_dynTab := dt\<rparr>)))"

definition SetMaxDynamicTableSizeLimit :: "32 word \<Rightarrow> Encoder \<Rightarrow> Encoder kres" where
  "SetMaxDynamicTableSizeLimit v e =
     (let e = e\<lparr>enc_maxSizeLimit := v\<rparr> in
      if dt_maxSize (enc_dynTab e) > v
      then res_bind (dt_setMaxSize v (enc_dynTab e)) (\<lambda>dt. Ok (e\<lparr>enc_tableSizeUpdate := True, enc_dynTab := dt\<rparr>))
      else Ok e)"

text \<open>\<open>WriteField\<close>: first the size updates that are due, then the field.\<close>

definition table_size_updates :: "Encoder \<Rightarrow> bytes" where
  "table_size_updates e =
     appendTableSize (if enc_minSize e < dt_maxSize (enc_dynTab e) then appendTableSize [] (enc_minSize e) else [])
       (dt_maxSize (enc_dynTab e))"

definition WriteField :: "HeaderField \<Rightarrow> Encoder \<Rightarrow> (Encoder \<times> hpack_error option) kres" where
  "WriteField f e =
     (let buf = (if enc_tableSizeUpdate e then table_size_updates e else []);
          e = (if enc_tableSizeUpdate e then e\<lparr>enc_tableSizeUpdate := False, enc_minSize := uint32Max\<rparr> else e)
      in res_bind (searchTable f e) (\<lambda>(idx, nameValueMatch).
         res_bind
           (if nameValueMatch then Ok (e, appendIndexed buf idx)
            else
              let indexing = shouldIndex f e in
              res_bind (if indexing then res_bind (dt_add f (enc_dynTab e)) (\<lambda>dt. Ok (e\<lparr>enc_dynTab := dt\<rparr>)) else Ok e) (\<lambda>e.
              res_bind (if idx = 0 then appendNewName buf f indexing else appendIndexedName buf f idx indexing) (\<lambda>buf.
                Ok (e, buf))))
           (\<lambda>(e, buf).
             case enc_Write e buf of (n, err) \<Rightarrow>
               Ok (e\<lparr>enc_out := enc_out e @ take n buf\<rparr>,
                 if err = None \<and> n \<noteq> length buf then Some ErrShortWriteHpack else err))))"

section \<open>The decoder\<close>

text \<open>
  The decoder with its callback \<open>emit\<close>: a function on the variables the callback captures, \<open>dec_env\<close>,
  and on \<open>emitEnabled\<close>, which a callback may clear. \<open>dec_buf\<close> is the part of the block not yet parsed.
\<close>

record 's Decoder =
  dec_dynTab :: dynamicTable
  dec_emit :: "HeaderField \<Rightarrow> bool \<times> 's \<Rightarrow> bool \<times> 's"
  dec_env :: 's
  dec_emitEnabled :: bool
  dec_maxStrLen :: int
  dec_buf :: bytes
  dec_saveBuf :: bytes

definition NewDecoder :: "32 word \<Rightarrow> (HeaderField \<Rightarrow> bool \<times> 's \<Rightarrow> bool \<times> 's) \<Rightarrow> 's \<Rightarrow> 's Decoder kres" where
  "NewDecoder maxDynamicTableSize emitFunc env =
     res_bind (dt_setMaxSize maxDynamicTableSize (new_dynamicTable maxDynamicTableSize)) (\<lambda>dt.
       Ok \<lparr>dec_dynTab = dt, dec_emit = emitFunc, dec_env = env, dec_emitEnabled = True, dec_maxStrLen = 0,
         dec_buf = [], dec_saveBuf = []\<rparr>)"

definition SetMaxStringLength :: "int \<Rightarrow> 's Decoder \<Rightarrow> 's Decoder" where
  "SetMaxStringLength n d = d\<lparr>dec_maxStrLen := n\<rparr>"

text \<open>The new callback captures variables of its own.\<close>

definition SetEmitFunc :: "(HeaderField \<Rightarrow> bool \<times> 't \<Rightarrow> bool \<times> 't) \<Rightarrow> 't \<Rightarrow> 's Decoder \<Rightarrow> 't Decoder" where
  "SetEmitFunc emitFunc env d =
     \<lparr>dec_dynTab = dec_dynTab d, dec_emit = emitFunc, dec_env = env, dec_emitEnabled = dec_emitEnabled d,
      dec_maxStrLen = dec_maxStrLen d, dec_buf = dec_buf d, dec_saveBuf = dec_saveBuf d\<rparr>"

definition SetEmitEnabled :: "bool \<Rightarrow> 's Decoder \<Rightarrow> 's Decoder" where
  "SetEmitEnabled v d = d\<lparr>dec_emitEnabled := v\<rparr>"

definition EmitEnabled :: "'s Decoder \<Rightarrow> bool" where
  "EmitEnabled d = dec_emitEnabled d"

definition dec_SetMaxDynamicTableSize :: "32 word \<Rightarrow> 's Decoder \<Rightarrow> 's Decoder kres" where
  "dec_SetMaxDynamicTableSize v d =
     res_bind (dt_setMaxSize v (dec_dynTab d)) (\<lambda>dt. Ok (d\<lparr>dec_dynTab := dt\<rparr>))"

definition SetAllowedMaxDynamicTableSize :: "32 word \<Rightarrow> 's Decoder \<Rightarrow> 's Decoder" where
  "SetAllowedMaxDynamicTableSize v d = d\<lparr>dec_dynTab := (dec_dynTab d)\<lparr>dt_allowedMaxSize := v\<rparr>\<rparr>"

definition maxTableIndex :: "'s Decoder \<Rightarrow> nat" where
  "maxTableIndex d = table_len (dt_table (dec_dynTab d)) + table_len staticTable"

definition dec_at :: "uint64 \<Rightarrow> 's Decoder \<Rightarrow> HeaderField option kres" where
  "dec_at i d =
     (if i = 0 then Ok None
      else if i \<le> word_of_nat (table_len staticTable)
      then res_bind (index (ents staticTable) (uint (i - 1))) (\<lambda>f. Ok (Some f))
      else if i > word_of_nat (maxTableIndex d) then Ok None
      else
        let dt = dt_table (dec_dynTab d) in
        res_bind (index (ents dt) (int (table_len dt) - (sint i - int (table_len staticTable)))) (\<lambda>f. Ok (Some f)))"

text \<open>The length of a slice is below \<open>2\<^sup>6\<^sup>3\<close>, so its conversion to \<open>uint64\<close> keeps it.\<close>

definition readString :: "'s Decoder \<Rightarrow> bytes \<Rightarrow> bool \<Rightarrow> (string \<times> bytes) kres" where
  "readString d p wantStr =
     (case p of
        [] \<Rightarrow> Err errNeedMore
      | b # _ \<Rightarrow>
        let isHuff = b AND 128 \<noteq> 0 in
        res_bind (readVarInt 7 p) (\<lambda>(strLen, p).
          if dec_maxStrLen d \<noteq> 0 \<and> strLen > word_of_int (dec_maxStrLen d) then Err ErrStringLength
          else if length p < unat strLen then Err errNeedMore
          else
            let s = take (unat strLen) p; rest = drop (unat strLen) p in
            if \<not> isHuff then Ok (if wantStr then string_of_bytes s else [], rest)
            else if wantStr then res_bind (huffmanDecode (dec_maxStrLen d) s) (\<lambda>t. Ok (string_of_bytes t, rest))
            else Ok ([], rest)))"

definition callEmit :: "HeaderField \<Rightarrow> 's Decoder \<Rightarrow> 's Decoder \<times> unit kres" where
  "callEmit hf d =
     (if dec_maxStrLen d \<noteq> 0 \<and>
        (int (length (hf_Name hf)) > dec_maxStrLen d \<or> int (length (hf_Value hf)) > dec_maxStrLen d)
      then (d, Err ErrStringLength)
      else if dec_emitEnabled d
      then (case dec_emit d hf (True, dec_env d) of (en, env) \<Rightarrow>
        (d\<lparr>dec_emitEnabled := en, dec_env := env\<rparr>, Ok ()))
      else (d, Ok ()))"

text \<open>A parser that fails before it changes the decoder.\<close>

definition on_ok :: "'s Decoder \<Rightarrow> 'a kres \<Rightarrow> ('a \<Rightarrow> 's Decoder \<times> unit kres) \<Rightarrow> 's Decoder \<times> unit kres" where
  "on_ok d r f = (case r of Ok x \<Rightarrow> f x | Err e \<Rightarrow> (d, Err e) | Panic \<Rightarrow> (d, Panic) | Stuck \<Rightarrow> (d, Stuck))"

definition parseFieldIndexed :: "'s Decoder \<Rightarrow> 's Decoder \<times> unit kres" where
  "parseFieldIndexed d =
     on_ok d (readVarInt 7 (dec_buf d)) (\<lambda>(idx, buf).
     on_ok d (dec_at idx d) (\<lambda>hf.
       case hf of
         None \<Rightarrow> (d, Err (InvalidIndexError (sint idx)))
       | Some hf \<Rightarrow> callEmit \<lparr>hf_Name = hf_Name hf, hf_Value = hf_Value hf, hf_Sensitive = False\<rparr> (d\<lparr>dec_buf := buf\<rparr>)))"

datatype indexType = indexedTrue | indexedFalse | indexedNever

definition it_indexed :: "indexType \<Rightarrow> bool" where
  "it_indexed v \<longleftrightarrow> v = indexedTrue"

definition it_sensitive :: "indexType \<Rightarrow> bool" where
  "it_sensitive v \<longleftrightarrow> v = indexedNever"

definition parseFieldLiteral :: "nat \<Rightarrow> indexType \<Rightarrow> 's Decoder \<Rightarrow> 's Decoder \<times> unit kres" where
  "parseFieldLiteral n it d =
     (let wantStr = (dec_emitEnabled d \<or> it_indexed it) in
      on_ok d (readVarInt n (dec_buf d)) (\<lambda>(nameIdx, buf).
      on_ok d
        (if nameIdx > 0
         then res_bind (dec_at nameIdx d) (\<lambda>r.
           case r of None \<Rightarrow> Err (InvalidIndexError (sint nameIdx)) | Some f \<Rightarrow> Ok (hf_Name f, buf))
         else readString d buf wantStr) (\<lambda>(name, buf).
      on_ok d (readString d buf wantStr) (\<lambda>(val, buf).
        let d = d\<lparr>dec_buf := buf\<rparr>; hf = \<lparr>hf_Name = name, hf_Value = val, hf_Sensitive = False\<rparr> in
        on_ok d (if it_indexed it then res_bind (dt_add hf (dec_dynTab d)) (\<lambda>dt. Ok (d\<lparr>dec_dynTab := dt\<rparr>)) else Ok d) (\<lambda>d.
          callEmit (hf\<lparr>hf_Sensitive := it_sensitive it\<rparr>) d)))))"

definition parseDynamicTableSizeUpdate :: "'s Decoder \<Rightarrow> 's Decoder \<times> unit kres" where
  "parseDynamicTableSizeUpdate d =
     on_ok d (readVarInt 5 (dec_buf d)) (\<lambda>(sz, buf).
       if sz > ucast (dt_allowedMaxSize (dec_dynTab d))
       then (d, Err (DecodingError ''dynamic table size update too large''))
       else on_ok d (dt_setMaxSize (ucast sz) (dec_dynTab d)) (\<lambda>dt. (d\<lparr>dec_dynTab := dt, dec_buf := buf\<rparr>, Ok ())))"

definition parseHeaderFieldRepr :: "'s Decoder \<Rightarrow> 's Decoder \<times> unit kres" where
  "parseHeaderFieldRepr d =
     on_ok d (index (dec_buf d) 0) (\<lambda>b.
       if b AND 128 \<noteq> 0 then parseFieldIndexed d
       else if b AND 192 = 64 then parseFieldLiteral 6 indexedTrue d
       else if b AND 240 = 0 then parseFieldLiteral 4 indexedFalse d
       else if b AND 240 = 16 then parseFieldLiteral 4 indexedNever d
       else if b AND 224 = 32 then parseDynamicTableSizeUpdate d
       else (d, Err (DecodingError ''invalid encoding'')))"

text \<open>\<open>Write\<close> of a block of length \<open>len\<close>: the loop over the representations in the buffer, with fuel for
  one more than its length. Beside the error the code returns the number of bytes taken.\<close>

fun dec_loop :: "nat \<Rightarrow> nat \<Rightarrow> 's Decoder \<Rightarrow> 's Decoder \<times> nat \<times> unit kres" where
  "dec_loop 0 len d = (d, 0, Stuck)"
| "dec_loop (Suc fuel) len d =
     (if length (dec_buf d) > 0 then
        (case parseHeaderFieldRepr d of
           (d, Ok _) \<Rightarrow> dec_loop fuel len d
         | (d, Err errNeedMore) \<Rightarrow>
             if dec_maxStrLen d \<noteq> 0 \<and> int (length (dec_buf d)) > int64 (2 * int64 (dec_maxStrLen d + 8))
             then (d, 0, Err ErrStringLength)
             else (d\<lparr>dec_saveBuf := dec_saveBuf d @ dec_buf d\<rparr>, len, Ok ())
         | (d, r) \<Rightarrow> (d, len, r))
      else (d, len, Ok ()))"

definition dec_Write :: "bytes \<Rightarrow> 's Decoder \<Rightarrow> 's Decoder \<times> nat \<times> unit kres" where
  "dec_Write p d =
     (if length p = 0 then (d, 0, Ok ())
      else
        let d = (if length (dec_saveBuf d) = 0 then d\<lparr>dec_buf := p\<rparr>
                 else d\<lparr>dec_buf := dec_saveBuf d @ p, dec_saveBuf := []\<rparr>)
        in dec_loop (Suc (length (dec_buf d))) (length p) d)"

definition dec_Close :: "'s Decoder \<Rightarrow> 's Decoder \<times> unit kres" where
  "dec_Close d =
     (if length (dec_saveBuf d) > 0 then (d\<lparr>dec_saveBuf := []\<rparr>, Err (DecodingError ''truncated headers''))
      else (d, Ok ()))"

text \<open>\<open>DecodeFull\<close>, with the callback that collects the fields; the deferred function puts the former one
  back.\<close>

definition collect_fields :: "HeaderField \<Rightarrow> bool \<times> HeaderField list \<Rightarrow> bool \<times> HeaderField list" where
  "collect_fields f s = (fst s, snd s @ [f])"

definition DecodeFull :: "bytes \<Rightarrow> 's Decoder \<Rightarrow> 's Decoder \<times> HeaderField list kres" where
  "DecodeFull p d =
     (case dec_Write p (SetEmitFunc collect_fields [] d) of
        (c, n, r) \<Rightarrow>
          (case r of
             Ok _ \<Rightarrow>
               (case dec_Close c of (c', r') \<Rightarrow>
                 (SetEmitFunc (dec_emit d) (dec_env d) c', res_bind r' (\<lambda>_. Ok (dec_env c'))))
           | _ \<Rightarrow> (SetEmitFunc (dec_emit d) (dec_env d) c, res_bind r (\<lambda>_. Ok (dec_env c)))))"

end
