(* ===== verification/GrpcServer.thy ===== *)
theory GrpcServer
  imports GrpcHeaders Http2Frame Hpack
begin

text \<open>
  The server side of the gRPC transport, \<open>transport/http2_server.go\<close> of \<open>google.golang.org/grpc\<close>: the streams of a
  connection, the handlers of the frames a peer sends, the controller that sends control frames, and the writing
  of messages under flow control. Streams are objects that the transport and the handlers of the calls share: they
  live in a store under their identifier, which is never used twice; \<open>activeStreams\<close> is the list of the
  identifiers in the map, \<open>None\<close> once it is nil. What \<open>time.Now\<close> returns is the field \<open>t_now\<close>, and
  \<open>t_panicked\<close> records that a goroutine panicked.
\<close>

section \<open>State\<close>

datatype streamState = streamActive | streamWriteDone | streamReadDone | streamDone

datatype transportState = reachable | unreachable | closing | draining

datatype control_item =
    windowUpdate "32 word" "32 word"
  | settings bool "(16 word \<times> 32 word) list"
  | resetStream "32 word" ErrCode
  | goAway ErrCode bytes
  | flushIO
  | ping bool bytes

text \<open>What the framer is given to send.\<close>

datatype sent =
    Sent control_item
  | SentGoAway "32 word" ErrCode bytes
  | SentData "32 word" bytes
  | SentHeaders "32 word" bytes bool bool
  | SentContinuation "32 word" bytes bool

definition defaultWindowSize :: "32 word" where "defaultWindowSize = 65535"
definition initialWindowSize :: "32 word" where "initialWindowSize = defaultWindowSize"
definition initialConnWindowSize :: "32 word" where "initialConnWindowSize = defaultWindowSize * 16"
definition http2MaxFrameLen :: nat where "http2MaxFrameLen = 16384"

definition SettingMaxConcurrentStreams :: "16 word" where "SettingMaxConcurrentStreams = 3"

definition ErrCodeRefusedStream :: ErrCode where "ErrCodeRefusedStream = 7"
definition ErrCodeCancel :: ErrCode where "ErrCodeCancel = 8"
definition ErrCodeEnhanceYourCalm :: ErrCode where "ErrCodeEnhanceYourCalm = 11"
definition ErrCodeInadequateSecurity :: ErrCode where "ErrCodeInadequateSecurity = 12"

text \<open>\<open>statusCodeConvTab\<close>: a code that is not in the table gives the zero value.\<close>

definition statusCodeConvTab :: "code \<Rightarrow> ErrCode" where
  "statusCodeConvTab c = (case c of code.Internal \<Rightarrow> ErrCodeInternal | Canceled \<Rightarrow> ErrCodeCancel | Unavailable \<Rightarrow> ErrCodeRefusedStream
     | ResourceExhausted \<Rightarrow> ErrCodeEnhanceYourCalm | PermissionDenied \<Rightarrow> ErrCodeInadequateSecurity | _ \<Rightarrow> ErrCodeNo)"

text \<open>\<open>metadata.MD\<close>, in the order in which \<open>range\<close> visits the keys.\<close>

type_synonym MD = "(string \<times> string list) list"

record Stream =
  s_state :: streamState
  s_fc :: inFlow
  s_buf :: "recvMsg recvBuffer"
  s_sendQuotaPool :: quotaPool
  s_canceled :: bool
  s_recvCompress :: string
  s_method :: string
  s_timeout :: "int option"
  s_headerOk :: bool
  s_header :: MD
  s_trailer :: MD
  s_sendCompress :: string

record http2Server =
  maxStreamID :: "32 word"
  maxStreams :: "32 word"
  controlBuf :: "control_item recvBuffer"
  t_fc :: inFlow
  t_sendQuotaPool :: quotaPool
  t_state :: transportState
  activeStreams :: "32 word list option"
  store_streams :: "32 word \<rightharpoonup> Stream"
  streamSendQuota :: "32 word"
  lastPingAt :: int
  pingStrikes :: "8 word"
  resetPingStrikes :: bool
  t_shutdown :: bool
  t_out :: "sent list"
  t_hEnc :: Encoder
  t_activity :: bool
  t_idle :: "int option"
  t_now :: int
  t_panicked :: bool

text \<open>
  \<open>newHTTP2Server\<close> at time \<open>now\<close>, with the encoder \<open>hpack.NewEncoder\<close> returns; \<open>w1\<close> and \<open>w2\<close> say whether its
  two frames can be written. A limit of zero streams means no limit. \<open>initialWindowSize\<close> is the default, so that it is not
  announced.
\<close>

definition newHTTP2Server :: "32 word \<Rightarrow> int \<Rightarrow> Encoder \<Rightarrow> bool \<Rightarrow> bool \<Rightarrow> http2Server option" where
  "newHTTP2Server cfgMaxStreams now enc w1 w2 =
     (let mx = (if cfgMaxStreams = 0 then - 1 else cfgMaxStreams);
          ss = (if cfgMaxStreams = 0 then [] else [(SettingMaxConcurrentStreams, mx)]);
          ss = (if initialWindowSize \<noteq> defaultWindowSize then ss @ [(SettingInitialWindowSize, initialWindowSize)] else ss);
          delta = initialConnWindowSize - defaultWindowSize in
      if \<not> w1 then None
      else if delta > 0 \<and> \<not> w2 then None
      else
        Some \<lparr>maxStreamID = 0, maxStreams = mx, controlBuf = newRecvBuffer, t_fc = newInFlow initialConnWindowSize,
          t_sendQuotaPool = newQuotaPool (uint defaultWindowSize), t_state = reachable, activeStreams = Some [], store_streams = Map.empty,
          streamSendQuota = defaultWindowSize, lastPingAt = 0, pingStrikes = 0, resetPingStrikes = False, t_shutdown = False,
          t_out = Sent (settings False ss) # (if delta > 0 then [Sent (windowUpdate 0 delta)] else []), t_hEnc = enc,
          t_activity = False, t_idle = Some now, t_now = now, t_panicked = False\<rparr>)"

definition ctl_put :: "control_item \<Rightarrow> http2Server \<Rightarrow> http2Server" where
  "ctl_put i t = t\<lparr>controlBuf := rb_put i (controlBuf t)\<rparr>"

definition upd_stream :: "32 word \<Rightarrow> Stream \<Rightarrow> http2Server \<Rightarrow> http2Server" where
  "upd_stream sid s t = t\<lparr>store_streams := (store_streams t)(sid \<mapsto> s)\<rparr>"

section \<open>Closing and quota\<close>

definition getStream :: "32 word \<Rightarrow> http2Server \<Rightarrow> Stream option" where
  "getStream sid t = (case activeStreams t of None \<Rightarrow> None | Some ids \<Rightarrow> if sid \<in> set ids then store_streams t sid else None)"

text \<open>\<open>Close\<close>: the streams of the map are cancelled. Closing \<open>shutdownChan\<close> a second time panics.\<close>

definition srv_Close :: "http2Server \<Rightarrow> http2Server \<times> bool" where
  "srv_Close t =
     (if t_state t = closing then (t, False)
      else
        (let ids = (case activeStreams t of None \<Rightarrow> [] | Some ids \<Rightarrow> ids);
             t = t\<lparr>t_state := closing, activeStreams := None\<rparr> in
         if t_shutdown t then (t\<lparr>t_panicked := True\<rparr>, False)
         else
           (t\<lparr>t_shutdown := True,
              store_streams := (\<lambda>i. if i \<in> set ids then map_option (\<lambda>s. s\<lparr>s_canceled := True\<rparr>) (store_streams t i) else store_streams t i)\<rparr>,
            True)))"

text \<open>The release of connection quota that several handlers share.\<close>

definition conn_onRead :: "32 word \<Rightarrow> http2Server \<Rightarrow> http2Server" where
  "conn_onRead n t =
     (case onRead n (t_fc t) of (f, w) \<Rightarrow>
        (let t = t\<lparr>t_fc := f\<rparr> in if w > 0 then ctl_put (windowUpdate 0 w) t else t))"

definition stream_onRead :: "32 word \<Rightarrow> 32 word \<Rightarrow> Stream \<Rightarrow> http2Server \<Rightarrow> http2Server" where
  "stream_onRead sid n s t =
     (case onRead n (s_fc s) of (f, w) \<Rightarrow>
        (let t = upd_stream sid (s\<lparr>s_fc := f\<rparr>) t in if w > 0 then ctl_put (windowUpdate sid w) t else t))"

definition updateWindow :: "32 word \<Rightarrow> 32 word \<Rightarrow> http2Server \<Rightarrow> http2Server" where
  "updateWindow sid n t =
     (case store_streams t sid of
        None \<Rightarrow> t
      | Some s \<Rightarrow> if s_state s = streamDone then t else stream_onRead sid n s (conn_onRead n t))"

text \<open>The second part of \<open>closeStream\<close>: the stream is cancelled, its quota released and its state set.\<close>

definition forget_stream :: "32 word \<Rightarrow> http2Server \<Rightarrow> http2Server" where
  "forget_stream sid t =
     (case store_streams t sid of
        None \<Rightarrow> t
      | Some s \<Rightarrow>
        (case resetPendingData (s_fc s) of (f, q) \<Rightarrow>
           (let t = upd_stream sid (s\<lparr>s_canceled := True, s_fc := f\<rparr>) t;
                t = (if q > 0 then conn_onRead q t else t) in
            upd_stream sid (s\<lparr>s_canceled := True, s_fc := f, s_state := streamDone\<rparr>) t)))"

definition closeStream :: "32 word \<Rightarrow> http2Server \<Rightarrow> http2Server" where
  "closeStream sid t =
     (let t = t\<lparr>activeStreams := map_option (removeAll sid) (activeStreams t)\<rparr>;
          none_left = (activeStreams t = None \<or> activeStreams t = Some []);
          t = t\<lparr>t_idle := (if none_left then Some (t_now t) else t_idle t)\<rparr>;
          drained = (t_state t = draining \<and> none_left);
          t = forget_stream sid t in
      if drained then fst (srv_Close t) else t)"

section \<open>The handlers of frames\<close>

definition stream_write :: "recvMsg \<Rightarrow> Stream \<Rightarrow> Stream" where
  "stream_write m s = s\<lparr>s_buf := rb_put m (s_buf s)\<rparr>"

text \<open>The part of \<open>handleData\<close> that follows the dispatch: \<open>s\<close> is the stream, \<open>size\<close> the length of the payload with its
  padding.\<close>

definition data_quota :: "FrameHeader \<Rightarrow> bytes \<Rightarrow> Stream \<Rightarrow> http2Server \<Rightarrow> http2Server \<times> bool" where
  "data_quota fh data s t =
     (let size = fh_Length fh; sid = fh_StreamID fh; padded = Flags_Has (fh_Flags fh) FlagDataPadded;
          pad = size - of_nat (length data);
          t = (if padded then conn_onRead pad t else t) in
      if s_state s = streamDone then (conn_onRead size t, False)
      else
        (case onData size (s_fc s) of
           (f, Some _) \<Rightarrow> (ctl_put (resetStream sid ErrCodeFlowControl) (closeStream sid (upd_stream sid (s\<lparr>s_fc := f\<rparr>) t)), False)
         | (f, None) \<Rightarrow>
           (let s = s\<lparr>s_fc := f\<rparr>;
                t = (if padded then stream_onRead sid pad s t else upd_stream sid s t) in
            (if length data > 0 then upd_stream sid (stream_write \<lparr>m_data = data, m_err = None\<rparr> (the (store_streams t sid))) t else t, True))))"

definition data_end :: "32 word \<Rightarrow> http2Server \<Rightarrow> http2Server" where
  "data_end sid t =
     (case store_streams t sid of
        None \<Rightarrow> t
      | Some s \<Rightarrow>
          (let s = (if s_state s \<noteq> streamDone then s\<lparr>s_state := streamReadDone\<rparr> else s) in
           upd_stream sid (stream_write \<lparr>m_data = [], m_err = Some RecvEOF\<rparr> s) t))"

definition handleData :: "FrameHeader \<Rightarrow> bytes \<Rightarrow> http2Server \<Rightarrow> http2Server" where
  "handleData fh data t =
     (let size = fh_Length fh; sid = fh_StreamID fh in
      case onData size (t_fc t) of
        (f, Some _) \<Rightarrow> fst (srv_Close (t\<lparr>t_fc := f\<rparr>))
      | (f, None) \<Rightarrow>
        (let t = t\<lparr>t_fc := f\<rparr> in
         case getStream sid t of
           None \<Rightarrow> conn_onRead size t
         | Some s \<Rightarrow>
           (case (if size > 0 then data_quota fh data s t else (t, True)) of
              (t, False) \<Rightarrow> t
            | (t, True) \<Rightarrow> if Flags_Has (fh_Flags fh) FlagDataEndStream then data_end sid t else t)))"

definition handleRSTStream :: "FrameHeader \<Rightarrow> http2Server \<Rightarrow> http2Server" where
  "handleRSTStream fh t = (case getStream (fh_StreamID fh) t of None \<Rightarrow> t | Some _ \<Rightarrow> closeStream (fh_StreamID fh) t)"

text \<open>\<open>handleSettings\<close> collects the settings with \<open>ForeachSetting\<close>.\<close>

definition collect_settings :: "16 word \<times> 32 word \<Rightarrow> (16 word \<times> 32 word) list \<Rightarrow> (16 word \<times> 32 word) list \<times> http2_error option" where
  "collect_settings s ss = (ss @ [s], None)"

definition handleSettings :: "FrameHeader \<Rightarrow> bytes \<Rightarrow> http2Server \<Rightarrow> http2Server" where
  "handleSettings fh p t =
     (if Flags_Has (fh_Flags fh) FlagSettingsAck then t
      else ctl_put (settings True (fst (ForeachSetting collect_settings fh p []))) t)"

definition maxPingStrikes :: "8 word" where "maxPingStrikes = 2"
definition defaultPingTimeout :: int where "defaultPingTimeout = 2 * hour"

text \<open>\<open>handlePing\<close> with the enforcement policy \<open>kep\<close>.\<close>

record EnforcementPolicy =
  kep_MinTime :: int
  kep_PermitWithoutStream :: bool

definition handlePing :: "EnforcementPolicy \<Rightarrow> FrameHeader \<Rightarrow> bytes \<Rightarrow> http2Server \<Rightarrow> http2Server" where
  "handlePing kep fh data t =
     (if Flags_Has (fh_Flags fh) FlagPingAck then t
      else
        (let t = ctl_put (ping True data) t; now = t_now t in
         if resetPingStrikes t then t\<lparr>resetPingStrikes := False, pingStrikes := 0, lastPingAt := now\<rparr>
         else
           (let ns = (case activeStreams t of None \<Rightarrow> 0 | Some ids \<Rightarrow> length ids);
                wait_for = (if ns < 1 \<and> \<not> kep_PermitWithoutStream kep then defaultPingTimeout else kep_MinTime kep);
                t = (if lastPingAt t + wait_for > now then t\<lparr>pingStrikes := pingStrikes t + 1\<rparr> else t);
                t = (if pingStrikes t > maxPingStrikes
                     then ctl_put (goAway ErrCodeEnhanceYourCalm (bytes_of_string ''too_many_pings'')) t else t) in
            t\<lparr>lastPingAt := now\<rparr>)))"

definition handleWindowUpdate :: "FrameHeader \<Rightarrow> 32 word \<Rightarrow> http2Server \<Rightarrow> http2Server" where
  "handleWindowUpdate fh incr t =
     (if fh_StreamID fh = 0 then t\<lparr>t_sendQuotaPool := quota_add (uint incr) (t_sendQuotaPool t)\<rparr>
      else
        (case getStream (fh_StreamID fh) t of
           None \<Rightarrow> t
         | Some s \<Rightarrow> upd_stream (fh_StreamID fh) (s\<lparr>s_sendQuotaPool := quota_add (uint incr) (s_sendQuotaPool s)\<rparr>) t))"

text \<open>\<open>operateHeaders\<close>, up to the call of the handler; the result says whether the connection is to be closed. The
  tap handle, if there is one, may refuse the stream.\<close>

fun process_fields :: "(string \<Rightarrow> 'st option) \<Rightarrow> HeaderField list \<Rightarrow> 'st decodeState \<Rightarrow> 'st decodeState \<times> code option" where
  "process_fields us [] d = (d, None)"
| "process_fields us (f # fs) d =
     (case processHeaderField us f d of (d, Some c) \<Rightarrow> (d, Some c) | (d, None) \<Rightarrow> process_fields us fs d)"

definition operateHeaders :: "(string \<Rightarrow> 'st option) \<Rightarrow> (string \<Rightarrow> bool) option \<Rightarrow> 32 word \<Rightarrow> HeaderField list \<Rightarrow> bool \<Rightarrow>
    http2Server \<Rightarrow> http2Server \<times> bool" where
  "operateHeaders unmarshal_status inTapHandle sid flds streamEnded t =
     (case process_fields unmarshal_status flds decodeState0 of
        (_, Some c) \<Rightarrow> (ctl_put (resetStream sid (statusCodeConvTab c)) t, False)
      | (state, None) \<Rightarrow>
        (if (case inTapHandle of None \<Rightarrow> False | Some tap \<Rightarrow> \<not> tap (ds_method state))
         then (ctl_put (resetStream sid ErrCodeRefusedStream) t, False)
         else if t_state t \<noteq> reachable then (t, False)
         else
           (let ids = (case activeStreams t of None \<Rightarrow> [] | Some ids \<Rightarrow> ids) in
            if of_nat (length ids) \<ge> maxStreams t then (ctl_put (resetStream sid ErrCodeRefusedStream) t, False)
            else if sid mod 2 \<noteq> 1 \<or> sid \<le> maxStreamID t then (t, True)
            else
              (let s = \<lparr>s_state = (if streamEnded then streamReadDone else streamActive), s_fc = newInFlow initialWindowSize,
                        s_buf = newRecvBuffer, s_sendQuotaPool = newQuotaPool (uint (streamSendQuota t)), s_canceled = False,
                        s_recvCompress = ds_encoding state, s_method = ds_method state,
                        s_timeout = (if timeoutSet state then Some (ds_timeout state) else None),
                        s_headerOk = False, s_header = [], s_trailer = [], s_sendCompress = []\<rparr>;
                   t = t\<lparr>maxStreamID := sid, activeStreams := Some (ids @ [sid])\<rparr>;
                   t = t\<lparr>t_idle := (if ids = [] then None else t_idle t)\<rparr> in
               (upd_stream sid s t, False)))))"

section \<open>The controller\<close>

text \<open>
  \<open>applySettings\<close> takes the mutex for every \<open>SETTINGS_INITIAL_WINDOW_SIZE\<close> it meets and releases it when it
  returns: the second such setting waits for a mutex its own goroutine holds, and the result is \<open>None\<close>. The
  difference of the window sizes is taken in \<open>uint32\<close>.
\<close>

fun apply_settings :: "bool \<Rightarrow> (16 word \<times> 32 word) list \<Rightarrow> http2Server \<Rightarrow> http2Server option" where
  "apply_settings locked [] t = Some t"
| "apply_settings locked ((k, v) # ss) t =
     (if k = SettingInitialWindowSize then
        (if locked then None
         else
           (let delta = uint (v - streamSendQuota t);
                ids = (case activeStreams t of None \<Rightarrow> [] | Some ids \<Rightarrow> ids) in
            apply_settings True ss
              (t\<lparr>store_streams := (\<lambda>i. if i \<in> set ids
                     then map_option (\<lambda>s. s\<lparr>s_sendQuotaPool := quota_add delta (s_sendQuotaPool s)\<rparr>) (store_streams t i)
                     else store_streams t i),
                 streamSendQuota := v\<rparr>)))
      else apply_settings locked ss t)"

definition applySettings :: "(16 word \<times> 32 word) list \<Rightarrow> http2Server \<Rightarrow> http2Server option" where
  "applySettings ss t = apply_settings False ss t"

text \<open>One item of the controller, with the write lock held: what is written is appended to \<open>t_out\<close>. The result
  \<open>None\<close> says that the goroutine does not go on.\<close>

definition controller :: "control_item \<Rightarrow> http2Server \<Rightarrow> http2Server option" where
  "controller i t =
     (case i of
        settings True ss \<Rightarrow> applySettings ss (t\<lparr>t_out := t_out t @ [Sent (settings True [])]\<rparr>)
      | goAway c debug \<Rightarrow>
          (if t_state t = closing then None
           else
             (let t = t\<lparr>t_state := draining, t_out := t_out t @ [SentGoAway (maxStreamID t) c debug]\<rparr> in
              Some (if c = ErrCodeEnhanceYourCalm then fst (srv_Close t) else t)))
      | _ \<Rightarrow> Some (t\<lparr>t_out := t_out t @ [Sent i]\<rparr>))"

definition srv_Drain :: "http2Server \<Rightarrow> http2Server" where
  "srv_Drain t = ctl_put (goAway ErrCodeNo []) t"

section \<open>Receiving\<close>

text \<open>What \<open>readFrame\<close> returns: a header block, another frame, a stream error or any other error.\<close>

datatype read_item = ReadMeta "32 word" "HeaderField list" bool | ReadOther Frame | ReadStreamErr "32 word" ErrCode | ReadError

definition clientPreface :: bytes where
  "clientPreface = bytes_of_string (''PRI * HTTP/2.0'' @ [CHR 0x0D, CHR 0x0A, CHR 0x0D, CHR 0x0A] @ ''SM'' @ [CHR 0x0D, CHR 0x0A, CHR 0x0D, CHR 0x0A])"

text \<open>The start of \<open>HandleStreams\<close>: the preface, \<open>None\<close> when it cannot be read, and a first frame that must be SETTINGS.\<close>

definition HandleStreams_start :: "bytes option \<Rightarrow> read_item \<Rightarrow> http2Server \<Rightarrow> http2Server \<times> bool" where
  "HandleStreams_start preface first t =
     (if preface \<noteq> Some clientPreface then (fst (srv_Close t), False)
      else
        (case first of
           ReadOther (SettingsFrame fh p) \<Rightarrow> (handleSettings fh p (t\<lparr>t_activity := True\<rparr>), True)
         | ReadMeta _ _ _ \<Rightarrow> (fst (srv_Close (t\<lparr>t_activity := True\<rparr>)), False)
         | ReadOther _ \<Rightarrow> (fst (srv_Close (t\<lparr>t_activity := True\<rparr>)), False)
         | _ \<Rightarrow> (fst (srv_Close t), False)))"

text \<open>One turn of the loop of \<open>HandleStreams\<close>; \<open>False\<close> says that it returns. The \<open>break\<close> after an illegal stream
  identifier leaves only the \<open>switch\<close>.\<close>

definition HandleStreams_turn :: "EnforcementPolicy \<Rightarrow> (string \<Rightarrow> 'st option) \<Rightarrow> (string \<Rightarrow> bool) option \<Rightarrow> read_item \<Rightarrow>
    http2Server \<Rightarrow> http2Server \<times> bool" where
  "HandleStreams_turn kep us tap r t0 =
     (let t = t0\<lparr>t_activity := True\<rparr> in
      case r of
        ReadStreamErr sid c \<Rightarrow>
          (ctl_put (resetStream sid c) (if getStream sid t \<noteq> None then closeStream sid t else t), True)
      | ReadError \<Rightarrow> (fst (srv_Close t), False)
      | ReadMeta sid flds ended \<Rightarrow>
          (case operateHeaders us tap sid flds ended t of (t, close) \<Rightarrow> (if close then fst (srv_Close t) else t, True))
      | ReadOther (DataFrame fh data) \<Rightarrow> (handleData fh data t, True)
      | ReadOther (RSTStreamFrame fh c) \<Rightarrow> (handleRSTStream fh t, True)
      | ReadOther (SettingsFrame fh p) \<Rightarrow> (handleSettings fh p t, True)
      | ReadOther (PingFrame fh data) \<Rightarrow> (handlePing kep fh data t, True)
      | ReadOther (WindowUpdateFrame fh incr) \<Rightarrow> (handleWindowUpdate fh incr t, True)
      | ReadOther _ \<Rightarrow> (t, True))"

section \<open>Keepalive\<close>

record ServerParameters =
  kp_MaxConnectionIdle :: int
  kp_MaxConnectionAge :: int
  kp_MaxConnectionAgeGrace :: int
  kp_Time :: int
  kp_Timeout :: int

definition infinity :: int where "infinity = 2 ^ 63 - 1"
definition defaultServerKeepaliveTime :: int where "defaultServerKeepaliveTime = 2 * hour"
definition defaultServerKeepaliveTimeout :: int where "defaultServerKeepaliveTimeout = 20 * second"

text \<open>The values \<open>newHTTP2Server\<close> puts for parameters that are zero. The jitter of an infinite age is zero.\<close>

definition kp_defaults :: "int \<Rightarrow> ServerParameters \<Rightarrow> ServerParameters" where
  "kp_defaults jitter kp =
     (let age = (if kp_MaxConnectionAge kp = 0 then infinity else kp_MaxConnectionAge kp) in
      \<lparr>kp_MaxConnectionIdle = (if kp_MaxConnectionIdle kp = 0 then infinity else kp_MaxConnectionIdle kp),
       kp_MaxConnectionAge = age + (if age = infinity then 0 else jitter),
       kp_MaxConnectionAgeGrace = (if kp_MaxConnectionAgeGrace kp = 0 then infinity else kp_MaxConnectionAgeGrace kp),
       kp_Time = (if kp_Time kp = 0 then defaultServerKeepaliveTime else kp_Time kp),
       kp_Timeout = (if kp_Timeout kp = 0 then defaultServerKeepaliveTimeout else kp_Timeout kp)\<rparr>)"

text \<open>The goroutine \<open>keepalive\<close>: when its three timers fire, the ping it sent, and where it is: in its loop, in the
  \<open>select\<close> for the grace period, or at its end.\<close>

datatype ka_place = KaLoop | KaGrace | KaEnd

record ka_state =
  ka_maxIdle :: int
  ka_maxAge :: int
  ka_keepalive :: int
  ka_pingSent :: bool
  ka_place :: ka_place

datatype ka_case = CaseMaxIdle | CaseMaxAge | CaseKeepalive | CaseShutdown

definition keepalive_start :: "ServerParameters \<Rightarrow> http2Server \<Rightarrow> ka_state" where
  "keepalive_start kp t =
     \<lparr>ka_maxIdle = t_now t + kp_MaxConnectionIdle kp, ka_maxAge = t_now t + kp_MaxConnectionAge kp, ka_keepalive = t_now t + kp_Time kp,
      ka_pingSent = False, ka_place = KaLoop\<rparr>"

definition ka_ready :: "ka_case \<Rightarrow> ka_state \<Rightarrow> http2Server \<Rightarrow> bool" where
  "ka_ready c k t =
     (case c of
        CaseMaxIdle \<Rightarrow> ka_place k = KaLoop \<and> ka_maxIdle k \<le> t_now t
      | CaseMaxAge \<Rightarrow> ka_place k \<noteq> KaEnd \<and> ka_maxAge k \<le> t_now t
      | CaseKeepalive \<Rightarrow> ka_place k = KaLoop \<and> ka_keepalive k \<le> t_now t
      | CaseShutdown \<Rightarrow> ka_place k \<noteq> KaEnd \<and> t_shutdown t)"

text \<open>One \<open>select\<close> that takes the case \<open>c\<close>.\<close>

definition keepalive_turn :: "ServerParameters \<Rightarrow> ka_case \<Rightarrow> ka_state \<times> http2Server \<Rightarrow> ka_state \<times> http2Server" where
  "keepalive_turn kp c =
     (\<lambda>(k, t). case c of
        CaseMaxIdle \<Rightarrow>
          (case t_idle t of
             None \<Rightarrow> (k\<lparr>ka_maxIdle := t_now t + kp_MaxConnectionIdle kp\<rparr>, t)
           | Some since \<Rightarrow>
             (let val = kp_MaxConnectionIdle kp - (t_now t - since) in
              if val \<le> 0 then (k\<lparr>ka_place := KaEnd\<rparr>, srv_Drain (t\<lparr>t_state := draining\<rparr>))
              else (k\<lparr>ka_maxIdle := t_now t + val\<rparr>, t)))
      | CaseMaxAge \<Rightarrow>
          (if ka_place k = KaGrace then (k\<lparr>ka_place := KaEnd\<rparr>, fst (srv_Close t))
           else (k\<lparr>ka_place := KaGrace, ka_maxAge := t_now t + kp_MaxConnectionAgeGrace kp\<rparr>, srv_Drain (t\<lparr>t_state := draining\<rparr>)))
      | CaseKeepalive \<Rightarrow>
          (if t_activity t
           then (k\<lparr>ka_pingSent := False, ka_keepalive := t_now t + kp_Time kp\<rparr>, t\<lparr>t_activity := False\<rparr>)
           else if ka_pingSent k then (k\<lparr>ka_place := KaEnd\<rparr>, fst (srv_Close t))
           else (k\<lparr>ka_pingSent := True, ka_keepalive := t_now t + kp_Timeout kp\<rparr>, ctl_put (ping False (replicate 8 0)) t))
      | CaseShutdown \<Rightarrow> (k\<lparr>ka_place := KaEnd\<rparr>, t))"

section \<open>Writing headers\<close>

text \<open>\<open>metadata.Join\<close> of two maps.\<close>

fun md_append :: "string \<times> string list \<Rightarrow> MD \<Rightarrow> MD" where
  "md_append (k, v) [] = [(k, v)]"
| "md_append (k, v) ((k', v') # out) = (if k' = k then (k', v' @ v) # out else (k', v') # md_append (k, v) out)"

definition md_Join :: "MD \<Rightarrow> MD \<Rightarrow> MD" where
  "md_Join a b = fold md_append b (fold md_append a [])"

datatype write_err = ErrIllegalHeaderWrite | ErrWait | ErrConn

definition SetHeader :: "MD \<Rightarrow> Stream \<Rightarrow> Stream \<times> write_err option" where
  "SetHeader md s =
     (if s_headerOk s \<or> s_state s = streamDone then (s, Some ErrIllegalHeaderWrite)
      else if md = [] then (s, None)
      else (s\<lparr>s_header := md_Join (s_header s) md\<rparr>, None))"

definition SetTrailer :: "MD \<Rightarrow> Stream \<Rightarrow> Stream" where
  "SetTrailer md s = (if md = [] then s else s\<lparr>s_trailer := md_Join (s_trailer s) md\<rparr>)"

text \<open>The loop of \<open>writeHeaders\<close>: the frames of a header block. \<open>fail\<close> is the number of the first write that fails.\<close>

function header_frames :: "32 word \<Rightarrow> bool \<Rightarrow> bool \<Rightarrow> bytes \<Rightarrow> sent list" where
  "header_frames sid endStream first b =
     (let endHeaders = (\<not> length b > http2MaxFrameLen);
          frag = take http2MaxFrameLen b in
      (if first then SentHeaders sid frag endStream endHeaders else SentContinuation sid frag endHeaders) #
      (if endHeaders then [] else header_frames sid endStream False (drop http2MaxFrameLen b)))"
  by pat_completeness auto
termination by (relation "measure (\<lambda>(_, _, _, b). length b)") (simp_all add: http2MaxFrameLen_def)

declare header_frames.simps [simp del]

definition writeHeaders :: "nat option \<Rightarrow> 32 word \<Rightarrow> bool \<Rightarrow> bytes \<Rightarrow> http2Server \<Rightarrow> http2Server \<times> bool" where
  "writeHeaders fail sid endStream b t =
     (let frames = header_frames sid endStream True b in
      case fail of
        Some k \<Rightarrow>
          (if k < length frames then (fst (srv_Close (t\<lparr>t_out := t_out t @ take k frames\<rparr>)), False)
           else (t\<lparr>t_out := t_out t @ frames, resetPingStrikes := True\<rparr>, True))
      | None \<Rightarrow> (t\<lparr>t_out := t_out t @ frames, resetPingStrikes := True\<rparr>, True))"

definition plain_field :: "string \<Rightarrow> string \<Rightarrow> HeaderField" where
  "plain_field name v = \<lparr>hf_Name = name, hf_Value = v, hf_Sensitive = False\<rparr>"

definition md_fields :: "MD \<Rightarrow> HeaderField list" where
  "md_fields md =
     concat (map (\<lambda>(k, vv). if isReservedHeader k then [] else map (\<lambda>v. plain_field k (encodeMetadataHeader k v)) vv) md)"

text \<open>The calls of \<open>WriteField\<close>, whose errors are ignored.\<close>

primrec write_fields :: "HeaderField list \<Rightarrow> Encoder \<Rightarrow> Encoder kres" where
  "write_fields [] e = Ok e"
| "write_fields (f # fs) e = res_bind (WriteField f e) (\<lambda>(e, _). write_fields fs e)"

text \<open>What a call that writes headers meets: whether it gets the right to write, and the first write that fails.\<close>

record header_wait =
  hw_writable :: bool
  hw_fail :: "nat option"

definition initial_fields :: "Stream \<Rightarrow> HeaderField list" where
  "initial_fields s =
     [plain_field '':status'' ''200'', plain_field ''content-type'' ''application/grpc''] @
     (if s_sendCompress s \<noteq> [] then [plain_field ''grpc-encoding'' (s_sendCompress s)] else []) @ md_fields (s_header s)"

definition WriteHeader :: "header_wait \<Rightarrow> 32 word \<Rightarrow> MD \<Rightarrow> http2Server \<Rightarrow> (http2Server \<times> write_err option) kres" where
  "WriteHeader w sid md t =
     (case store_streams t sid of
        None \<Rightarrow> Ok (t, Some ErrIllegalHeaderWrite)
      | Some s \<Rightarrow>
        (if s_headerOk s \<or> s_state s = streamDone then Ok (t, Some ErrIllegalHeaderWrite)
         else
           (let s = s\<lparr>s_headerOk := True\<rparr>;
                s = (if md \<noteq> [] then s\<lparr>s_header := (if s_header s \<noteq> [] then md_Join (s_header s) md else md)\<rparr> else s);
                t = upd_stream sid s t in
            if \<not> hw_writable w then Ok (t, Some ErrWait)
            else
              res_bind (write_fields (initial_fields s) ((t_hEnc t)\<lparr>enc_out := []\<rparr>)) (\<lambda>e.
                case writeHeaders (hw_fail w) sid False (enc_out e) (t\<lparr>t_hEnc := e\<rparr>) of
                  (t, sent) \<Rightarrow> Ok (t, if sent then None else Some ErrConn)))))"

text \<open>A status: its code, its message and its encoded details, if there are any.\<close>

record Status =
  st_Code :: code
  st_Message :: string
  st_Details :: "string option"

definition code_num :: "code \<Rightarrow> int" where
  "code_num c = (case c of OK \<Rightarrow> 0 | Canceled \<Rightarrow> 1 | Unknown \<Rightarrow> 2 | InvalidArgument \<Rightarrow> 3 | DeadlineExceeded \<Rightarrow> 4 | NotFound \<Rightarrow> 5
     | AlreadyExists \<Rightarrow> 6 | PermissionDenied \<Rightarrow> 7 | ResourceExhausted \<Rightarrow> 8 | FailedPrecondition \<Rightarrow> 9 | Aborted \<Rightarrow> 10 | OutOfRange \<Rightarrow> 11
     | Unimplemented \<Rightarrow> 12 | code.Internal \<Rightarrow> 13 | Unavailable \<Rightarrow> 14 | DataLoss \<Rightarrow> 15 | Unauthenticated \<Rightarrow> 16)"

definition status_fields :: "bool \<Rightarrow> Status \<Rightarrow> Stream \<Rightarrow> HeaderField list" where
  "status_fields headersSent st s =
     (if headersSent then [] else [plain_field '':status'' ''200'', plain_field ''content-type'' ''application/grpc'']) @
     [plain_field ''grpc-status'' (itoa (code_num (st_Code st))), plain_field ''grpc-message'' (encodeGrpcMessage (st_Message st))] @
     (case st_Details st of None \<Rightarrow> [] | Some d \<Rightarrow> [plain_field ''grpc-status-details-bin'' (encodeBinHeader d)]) @
     md_fields (s_trailer s)"

text \<open>\<open>WriteStatus\<close>: \<open>w0\<close> is for the call of \<open>WriteHeader\<close>, whose error is ignored.\<close>

definition write_trailers :: "header_wait \<Rightarrow> 32 word \<Rightarrow> bool \<Rightarrow> Status \<Rightarrow> http2Server \<Rightarrow> (http2Server \<times> write_err option) kres" where
  "write_trailers w sid headersSent st t =
     (if \<not> hw_writable w then Ok (t, Some ErrWait)
      else
        res_bind (write_fields (status_fields headersSent st (the (store_streams t sid))) ((t_hEnc t)\<lparr>enc_out := []\<rparr>)) (\<lambda>e.
          case writeHeaders (hw_fail w) sid True (enc_out e) (t\<lparr>t_hEnc := e\<rparr>) of
            (t, sent) \<Rightarrow> if sent then Ok (closeStream sid t, None) else Ok (fst (srv_Close t), Some ErrConn)))"

definition WriteStatus :: "header_wait \<Rightarrow> header_wait \<Rightarrow> 32 word \<Rightarrow> Status \<Rightarrow> http2Server \<Rightarrow> (http2Server \<times> write_err option) kres" where
  "WriteStatus w0 w sid st t =
     (case store_streams t sid of
        None \<Rightarrow> Ok (t, None)
      | Some s \<Rightarrow>
        (if s_state s = streamDone then Ok (t, None)
         else if \<not> s_headerOk s \<and> s_header s \<noteq> [] then
           res_bind (WriteHeader w0 sid [] t) (\<lambda>(t, _). write_trailers w sid True st t)
         else write_trailers w sid (s_headerOk s) st t))"

section \<open>Writing data\<close>

text \<open>
  The loop of \<open>Write\<close>. While a turn waits, others may add quota to the stream and to the connection; any of its
  waits may instead end with an error, because the context of the stream is done or the transport shuts down.
  A writer that gives up as the last one of its batch asks for a flush.
\<close>

datatype wait_err = WaitCtx code | WaitClosing

datatype write_fail = NoFail | FailStreamQuota wait_err | FailConnQuota wait_err | FailWritable wait_err bool | FailCtx code bool | FailWrite

record turn_input =
  wt_stream_add :: int
  wt_conn_add :: int
  wt_fail :: write_fail

text \<open>How \<open>Write\<close> ends: without an error, not at all, with a \<open>StreamError\<close> of some code or with a \<open>ConnectionError\<close>.\<close>

datatype write_result = WriteDone | WriteBlocked | WriteStreamErr code | WriteConnErr

fun wait_result :: "wait_err \<Rightarrow> write_result" where
  "wait_result (WaitCtx c) = WriteStreamErr c"
| "wait_result WaitClosing = WriteConnErr"

text \<open>A turn with data left: the bytes still to write, or the result with which \<open>Write\<close> ends.\<close>

definition give_up :: "bool \<Rightarrow> http2Server \<Rightarrow> http2Server" where
  "give_up lastWriter t = (if lastWriter then ctl_put flushIO t else t)"

definition write_frame :: "32 word \<Rightarrow> write_fail \<Rightarrow> int \<Rightarrow> int \<Rightarrow> bytes \<Rightarrow> http2Server \<Rightarrow> http2Server \<times> (write_result + bytes)" where
  "write_frame sid fail sq tq data t =
     (let size = min (int http2MaxFrameLen) (min sq tq);
          p = take (nat size) data;
          ps = int (length p);
          s = the (store_streams t sid);
          s = (if ps < sq then s\<lparr>s_sendQuotaPool := quota_add (sq - ps) (s_sendQuotaPool s)\<rparr> else s);
          t = upd_stream sid s t;
          t = (if ps < tq then t\<lparr>t_sendQuotaPool := quota_add (tq - ps) (t_sendQuotaPool t)\<rparr> else t) in
      case fail of
        FailWritable err lastWriter \<Rightarrow>
          (give_up lastWriter (if err \<noteq> WaitClosing then t\<lparr>t_sendQuotaPool := quota_add ps (t_sendQuotaPool t)\<rparr> else t), Inl (wait_result err))
      | FailCtx c lastWriter \<Rightarrow> (give_up lastWriter (t\<lparr>t_sendQuotaPool := quota_add ps (t_sendQuotaPool t)\<rparr>), Inl (WriteStreamErr c))
      | FailWrite \<Rightarrow> (fst (srv_Close t), Inl WriteConnErr)
      | _ \<Rightarrow> (t\<lparr>t_out := t_out t @ [SentData sid p]\<rparr>, Inr (drop (length p) data)))"

definition write_turn :: "32 word \<Rightarrow> turn_input \<Rightarrow> bytes \<Rightarrow> http2Server \<Rightarrow> http2Server \<times> (write_result + bytes)" where
  "write_turn sid e data t =
     (let s = the (store_streams t sid);
          s = s\<lparr>s_sendQuotaPool := quota_add (wt_stream_add e) (s_sendQuotaPool s)\<rparr>;
          t = upd_stream sid s (t\<lparr>t_sendQuotaPool := quota_add (wt_conn_add e) (t_sendQuotaPool t)\<rparr>) in
      case wt_fail e of
        FailStreamQuota err \<Rightarrow> (t, Inl (wait_result err))
      | _ \<Rightarrow>
        (case quota_acquire (s_sendQuotaPool s) of
           None \<Rightarrow> (t, Inl WriteBlocked)
         | Some (sq, sp) \<Rightarrow>
           (let t = upd_stream sid (s\<lparr>s_sendQuotaPool := sp\<rparr>) t in
            case wt_fail e of
              FailConnQuota err \<Rightarrow> (t, Inl (wait_result err))
            | _ \<Rightarrow>
              (case quota_acquire (t_sendQuotaPool t) of
                 None \<Rightarrow> (t, Inl WriteBlocked)
               | Some (tq, tp) \<Rightarrow> write_frame sid (wt_fail e) sq tq data (t\<lparr>t_sendQuotaPool := tp\<rparr>)))))"

primrec srv_write_loop :: "32 word \<Rightarrow> turn_input list \<Rightarrow> bytes \<Rightarrow> http2Server \<Rightarrow> http2Server \<times> write_result" where
  "srv_write_loop sid [] data t = (t, if data = [] then WriteDone else WriteBlocked)"
| "srv_write_loop sid (e # turns) data t =
     (if data = [] then (t, WriteDone)
      else
        (case write_turn sid e data t of
           (t, Inl r) \<Rightarrow> (t, r)
         | (t, Inr rest) \<Rightarrow> srv_write_loop sid turns rest t))"

definition srv_Write :: "header_wait \<Rightarrow> 32 word \<Rightarrow> turn_input list \<Rightarrow> bytes \<Rightarrow> http2Server \<Rightarrow> (http2Server \<times> write_result) kres" where
  "srv_Write w sid turns data t =
     (case store_streams t sid of
        None \<Rightarrow> Ok (t, WriteStreamErr Unknown)
      | Some s \<Rightarrow>
        (if s_state s = streamDone then Ok (t, WriteStreamErr Unknown)
         else
           res_bind (if \<not> s_headerOk s then res_bind (WriteHeader w sid [] t) (\<lambda>(t, _). Ok t) else Ok t) (\<lambda>t.
             case srv_write_loop sid turns data t of
               (t, WriteDone) \<Rightarrow> Ok (t\<lparr>resetPingStrikes := True\<rparr>, WriteDone)
             | r \<Rightarrow> Ok r)))"

end
