(* ===== verification/GrpcServerInv.thy ===== *)
theory GrpcServerInv
  imports GrpcServer
begin

text \<open>
  The accounting of the inbound flow control of a server transport: the quota the connection holds is the sum of
  what its streams hold, whatever frames arrive and whatever the application reads, so that every byte is given
  back to the peer once.
\<close>

section \<open>The sum over the streams\<close>

definition pend :: "Stream \<Rightarrow> int" where
  "pend s = uint (pendingData (s_fc s))"

definition total_pending :: "http2Server \<Rightarrow> int" where
  "total_pending t = (\<Sum>i\<in>dom (store_streams t). pend (the (store_streams t i)))"

lemma pend_nonneg [simp]: "0 \<le> pend s"
  by (simp add: pend_def)

lemma pend_le_total:
  assumes "finite (dom (store_streams t))" "store_streams t sid = Some s"
  shows "pend s \<le> total_pending t"
proof -
  have "pend (the (store_streams t sid)) \<le> total_pending t"
    unfolding total_pending_def using assms by (intro member_le_sum) auto
  then show ?thesis using assms(2) by simp
qed

lemma total_upd:
  assumes "finite (dom (store_streams t))" "store_streams t sid = Some s"
  shows "total_pending (upd_stream sid s' t) = total_pending t - pend s + pend s'"
proof -
  have d: "sid \<in> dom (store_streams t)" using assms(2) by auto
  have "total_pending (upd_stream sid s' t) = pend s' + (\<Sum>i\<in>dom (store_streams t) - {sid}. pend (the (store_streams t i)))"
    using assms d by (simp add: total_pending_def upd_stream_def insert_absorb sum.remove)
  moreover have "total_pending t = pend s + (\<Sum>i\<in>dom (store_streams t) - {sid}. pend (the (store_streams t i)))"
    using assms d by (simp add: total_pending_def sum.remove)
  ultimately show ?thesis by simp
qed

lemma total_new:
  assumes "finite (dom (store_streams t))" "store_streams t sid = None"
  shows "total_pending (upd_stream sid s' t) = total_pending t + pend s'"
proof -
  have d: "sid \<notin> dom (store_streams t)" using assms(2) by auto
  have "(\<Sum>i\<in>dom (store_streams t). pend (the (if i = sid then Some s' else store_streams t i))) = total_pending t"
    unfolding total_pending_def by (rule sum.cong) (use d in auto)
  then show ?thesis using assms d by (simp add: total_pending_def upd_stream_def)
qed

section \<open>The invariant\<close>

text \<open>\<open>flow_core d t\<close>: the connection holds the quota of its streams and \<open>d\<close> bytes more.\<close>

definition stream_flow :: "Stream \<Rightarrow> bool" where
  "stream_flow s \<longleftrightarrow> flow_ok (s_fc s) \<and> (s_state s = streamDone \<longrightarrow> pendingData (s_fc s) = 0)"

definition flow_core :: "int \<Rightarrow> http2Server \<Rightarrow> bool" where
  "flow_core d t \<longleftrightarrow> finite (dom (store_streams t)) \<and> flow_ok (t_fc t) \<and> (\<forall>i s. store_streams t i = Some s \<longrightarrow> stream_flow s) \<and>
     uint (pendingData (t_fc t)) = total_pending t + d"

text \<open>The map of active streams, while it is not nil.\<close>

definition active_core :: "http2Server \<Rightarrow> bool" where
  "active_core t \<longleftrightarrow> (case activeStreams t of None \<Rightarrow> False
     | Some ids \<Rightarrow> distinct ids \<and> length ids \<le> unat (maxStreams t) \<and>
         (\<forall>i\<in>set ids. \<exists>s. store_streams t i = Some s \<and> s_state s \<noteq> streamDone)) \<and>
     (\<forall>i\<in>dom (store_streams t). i \<le> maxStreamID t \<and> i mod 2 = 1)"

definition server_inv :: "http2Server \<Rightarrow> bool" where
  "server_inv t \<longleftrightarrow> t_state t = closing \<or> flow_core 0 t \<and> active_core t"

lemma newInFlow_ok: "uint limit < 2147483648 \<Longrightarrow> flow_ok (newInFlow limit)"
  by (simp add: flow_ok_def newInFlow_def)

lemma window_sizes: "uint initialConnWindowSize < 2147483648" "uint initialWindowSize < 2147483648"
  by (simp_all add: initialConnWindowSize_def initialWindowSize_def defaultWindowSize_def)

lemma new_server_inv:
  assumes "newHTTP2Server n now enc w1 w2 = Some t"
  shows "server_inv t"
proof -
  have "t_fc t = newInFlow initialConnWindowSize" "activeStreams t = Some []" "store_streams t = Map.empty"
    using assms by (auto simp: newHTTP2Server_def Let_def split: if_splits)
  then show ?thesis
    by (simp add: server_inv_def flow_core_def active_core_def total_pending_def newInFlow_ok window_sizes) (simp add: newInFlow_def)
qed

lemma core_frame [simp]:
  "flow_core d (ctl_put i t) = flow_core d t" "active_core (ctl_put i t) = active_core t"
  "t_state (ctl_put i t) = t_state t" "activeStreams (ctl_put i t) = activeStreams t" "store_streams (ctl_put i t) = store_streams t"
  by (simp_all add: flow_core_def active_core_def ctl_put_def total_pending_def split: option.split)

lemma conn_onRead_frame [simp]:
  "activeStreams (conn_onRead n t) = activeStreams t" "store_streams (conn_onRead n t) = store_streams t" "t_state (conn_onRead n t) = t_state t"
  "active_core (conn_onRead n t) = active_core t"
  by (simp_all add: conn_onRead_def Let_def active_core_def ctl_put_def split: prod.split option.split)

lemma upd_stream_frame [simp]:
  "activeStreams (upd_stream sid s t) = activeStreams t" "t_state (upd_stream sid s t) = t_state t" "t_fc (upd_stream sid s t) = t_fc t"
  "store_streams (upd_stream sid s t) = (store_streams t)(sid \<mapsto> s)"
  by (simp_all add: upd_stream_def)

lemma total_nonneg: "0 \<le> total_pending t"
  unfolding total_pending_def by (rule sum_nonneg) simp

lemma conn_onRead_held:
  assumes "flow_core d t" "uint n \<le> total_pending t + d"
  shows "flow_core (d - uint n) (conn_onRead n t)"
proof -
  obtain f u where r: "onRead n (t_fc t) = (f, u)" by (cases "onRead n (t_fc t)")
  have "n \<le> pendingData (t_fc t)" using assms by (simp add: word_le_def flow_core_def)
  from onRead_ok [OF _ this r] assms(1) show ?thesis
    by (simp add: flow_core_def conn_onRead_def r Let_def ctl_put_def total_pending_def)
qed

lemma conn_onRead_core: "flow_core d t \<Longrightarrow> uint n \<le> d \<Longrightarrow> flow_core (d - uint n) (conn_onRead n t)"
  using conn_onRead_held [of d t n] total_nonneg [of t] by simp

lemma upd_stream_core:
  assumes "flow_core d t" "store_streams t sid = Some s" "stream_flow s'"
  shows "flow_core (d + pend s - pend s') (upd_stream sid s' t)"
  using assms total_upd [of t sid s s'] by (auto simp: flow_core_def)

lemma upd_stream_active:
  assumes "active_core t" "store_streams t sid = Some s" "s_state s' \<noteq> streamDone \<or> s_state s = s_state s'"
  shows "active_core (upd_stream sid s' t)"
  using assms by (force simp: active_core_def upd_stream_def split: option.splits)

lemma stream_onRead_core:
  assumes "flow_core d t" "store_streams t sid = Some s0" "stream_flow s" "n \<le> pendingData (s_fc s)"
  shows "flow_core (d + pend s0 - pend s + uint n) (stream_onRead sid n s t)"
proof -
  obtain f u where r: "onRead n (s_fc s) = (f, u)" by (cases "onRead n (s_fc s)")
  have ok: "flow_ok (s_fc s)" using assms(3) by (simp add: stream_flow_def)
  note o = onRead_ok [OF ok assms(4) r]
  have z: "s_state s = streamDone \<Longrightarrow> pendingData f = 0"
  proof -
    assume "s_state s = streamDone"
    then have "pendingData (s_fc s) = 0" "n = 0" using assms(3,4) by (auto simp: stream_flow_def)
    then have "uint (pendingData f) = 0" using o(1) by simp
    then show "pendingData f = 0" by (simp add: word_uint_eq_iff)
  qed
  have "flow_core (d + pend s0 - pend (s\<lparr>s_fc := f\<rparr>)) (upd_stream sid (s\<lparr>s_fc := f\<rparr>) t)"
    by (rule upd_stream_core [OF assms(1,2)]) (use o z in \<open>simp add: stream_flow_def\<close>)
  moreover have "d + pend s0 - pend (s\<lparr>s_fc := f\<rparr>) = d + pend s0 - pend s + uint n" using o(1) by (simp add: pend_def)
  ultimately show ?thesis by (simp add: stream_onRead_def r Let_def)
qed

text \<open>
  A DATA frame as \<open>parseDataFrame\<close> returns it: without the flag for padding the payload is the data.
\<close>

definition data_frame_parsed :: "FrameHeader \<Rightarrow> bytes \<Rightarrow> bool" where
  "data_frame_parsed fh data \<longleftrightarrow> unat (fh_Length fh) < 2 ^ 24 \<and> length data \<le> unat (fh_Length fh) \<and>
     (\<not> Flags_Has (fh_Flags fh) FlagDataPadded \<longrightarrow> length data = unat (fh_Length fh))"

text \<open>A padded frame that stays within the window of its stream.\<close>

definition padding_within :: "FrameHeader \<Rightarrow> http2Server \<Rightarrow> bool" where
  "padding_within fh t \<longleftrightarrow> (Flags_Has (fh_Flags fh) FlagDataPadded \<longrightarrow>
     (\<forall>s. getStream (fh_StreamID fh) t = Some s \<longrightarrow> snd (onData (fh_Length fh) (s_fc s)) = None))"

abbreviation data_frame_ok :: "FrameHeader \<Rightarrow> bytes \<Rightarrow> http2Server \<Rightarrow> bool" where
  "data_frame_ok fh data t \<equiv> data_frame_parsed fh data \<and> padding_within fh t"

lemmas data_frame_ok_def = data_frame_parsed_def padding_within_def

text \<open>\<open>closeStream\<close> moves what the stream still holds back to the connection and gives it to the peer.\<close>

lemma flow_core_active [simp]: "flow_core d (t\<lparr>activeStreams := a\<rparr>) = flow_core d t" "flow_core d (t\<lparr>t_idle := i\<rparr>) = flow_core d t"
  by (simp_all add: flow_core_def total_pending_def)

lemma srv_Close_closing [simp]: "t_state (fst (srv_Close t)) = closing"
  by (simp add: srv_Close_def Let_def)

lemma flow_ok_reset:
  assumes "flow_ok f"
  shows "flow_ok (f\<lparr>pendingData := 0\<rparr>)"
proof -
  have "uint (pendingUpdate f) \<le> uint (pendingData f) + uint (pendingUpdate f)" by simp
  also have "\<dots> \<le> uint (fl_limit f)" using assms by (simp add: flow_ok_def)
  finally show ?thesis using assms by (simp add: flow_ok_def)
qed

lemma upd_upd [simp]: "upd_stream sid a (upd_stream sid b t) = upd_stream sid a t"
  by (simp add: upd_stream_def)

lemma forget_updated_flow:
  assumes "flow_core d t" "store_streams t sid = Some s0" "flow_ok ((s_fc s)\<lparr>pendingData := 0\<rparr>)" "0 \<le> d + pend s0 - pend s"
  shows "flow_core (d + pend s0 - pend s) (forget_stream sid (upd_stream sid s t))"
proof -
  let ?f = "(s_fc s)\<lparr>pendingData := 0\<rparr>" and ?q = "pendingData (s_fc s)"
  let ?s1 = "s\<lparr>s_canceled := True, s_fc := ?f\<rparr>" and ?s2 = "s\<lparr>s_canceled := True, s_fc := ?f, s_state := streamDone\<rparr>"
  have sf: "stream_flow ?s1" "stream_flow ?s2" using assms(3) by (simp_all add: stream_flow_def)
  have p: "pend ?s1 = 0" "pend ?s2 = 0" "uint ?q = pend s" by (simp_all add: pend_def)
  have t1: "flow_core (d + pend s0) (upd_stream sid ?s1 t)" using upd_stream_core [OF assms(1,2) sf(1)] p by simp
  have q: "uint ?q \<le> d + pend s0" "?q = 0 \<Longrightarrow> pend s = 0" using assms(4) p(3) by simp_all
  have t2: "flow_core (d + pend s0 - pend s) (if ?q > 0 then conn_onRead ?q (upd_stream sid ?s1 t) else upd_stream sid ?s1 t)"
    using conn_onRead_core [OF t1 q(1)] t1 q(2) unfolding p(3) by (auto simp: word_gt_0)
  have "flow_core (d + pend s0 - pend s + pend ?s1 - pend ?s2)
      (upd_stream sid ?s2 (if ?q > 0 then conn_onRead ?q (upd_stream sid ?s1 t) else upd_stream sid ?s1 t))"
    by (rule upd_stream_core [OF t2 _ sf(2)]) simp
  then show ?thesis by (simp add: forget_stream_def resetPendingData_def Let_def p)
qed

lemma forget_stream_flow:
  assumes "flow_core d t" "0 \<le> d"
  shows "flow_core d (forget_stream sid t)"
proof (cases "store_streams t sid")
  case (Some s)
  then have "upd_stream sid s t = t" by (simp add: upd_stream_def map_upd_triv)
  moreover have "flow_ok ((s_fc s)\<lparr>pendingData := 0\<rparr>)" using assms(1) Some by (auto simp: flow_core_def stream_flow_def flow_ok_reset)
  ultimately show ?thesis using forget_updated_flow [OF assms(1) Some, of s] assms(2) by simp
qed (use assms in \<open>simp add: forget_stream_def\<close>)

lemma forget_stream_frame [simp]: "activeStreams (forget_stream sid t) = activeStreams t" "t_state (forget_stream sid t) = t_state t"
  "dom (store_streams (forget_stream sid t)) = dom (store_streams t)" "i \<noteq> sid \<Longrightarrow> store_streams (forget_stream sid t) i = store_streams t i"
  by (auto simp: forget_stream_def resetPendingData_def Let_def split: option.split)

lemma maxima_frame [simp]:
  "maxStreams (ctl_put i t) = maxStreams t" "maxStreamID (ctl_put i t) = maxStreamID t"
  "maxStreams (conn_onRead n t) = maxStreams t" "maxStreamID (conn_onRead n t) = maxStreamID t"
  "maxStreams (upd_stream sid s t) = maxStreams t" "maxStreamID (upd_stream sid s t) = maxStreamID t"
  "maxStreams (forget_stream sid t) = maxStreams t" "maxStreamID (forget_stream sid t) = maxStreamID t"
  by (auto simp: conn_onRead_def upd_stream_def ctl_put_def forget_stream_def resetPendingData_def Let_def split: prod.split option.split)

lemma closeStream_active:
  assumes "active_core t"
  shows "active_core (forget_stream sid (t\<lparr>activeStreams := map_option (removeAll sid) (activeStreams t), t_idle := i\<rparr>))"
proof -
  let ?t = "t\<lparr>activeStreams := map_option (removeAll sid) (activeStreams t), t_idle := i\<rparr>"
  obtain ids where ids: "activeStreams t = Some ids" "distinct ids" "length ids \<le> unat (maxStreams t)"
    "\<forall>i\<in>set ids. \<exists>s. store_streams t i = Some s \<and> s_state s \<noteq> streamDone" "\<forall>i\<in>dom (store_streams t). i \<le> maxStreamID t \<and> i mod 2 = 1"
    using assms by (auto simp: active_core_def split: option.splits)
  have "length (removeAll sid ids) \<le> unat (maxStreams t)" using ids(3) length_removeAll_less_eq [of sid ids] by linarith
  moreover have "\<exists>s. store_streams (forget_stream sid ?t) j = Some s \<and> s_state s \<noteq> streamDone" if "j \<in> set (removeAll sid ids)" for j
    using that ids(4) by auto
  ultimately show ?thesis using ids by (simp add: active_core_def distinct_removeAll)
qed

lemma closeStream_inv: "server_inv t \<Longrightarrow> server_inv (closeStream sid t)"
  using forget_stream_flow [of 0 "t\<lparr>activeStreams := map_option (removeAll sid) (activeStreams t), t_idle := i\<rparr>" sid for i] closeStream_active [of t sid]
    forget_stream_flow [of 0 "t\<lparr>activeStreams := map_option (removeAll sid) (activeStreams t)\<rparr>" sid] closeStream_active [of t sid "t_idle t"]
  by (auto simp: closeStream_def server_inv_def Let_def)

lemma conn_onData_core:
  assumes "flow_core d t" "unat n < 2 ^ 24" "onData n (t_fc t) = (f, None)"
  shows "flow_core (d + uint n) (t\<lparr>t_fc := f\<rparr>)"
  using onData_ok [OF _ assms(2,3)] assms(1) by (auto simp: flow_core_def total_pending_def)

lemma getStream_fc [simp]: "getStream sid (t\<lparr>t_fc := f\<rparr>) = getStream sid t" "getStream sid (t\<lparr>t_activity := b\<rparr>) = getStream sid t"
  by (simp_all add: getStream_def split: option.split)

lemma active_core_fc [simp]: "active_core (t\<lparr>t_fc := f\<rparr>) = active_core t"
  by (simp add: active_core_def split: option.split)

lemma stream_onRead_frame [simp]: "t_state (stream_onRead sid n s t) = t_state t"
  "store_streams (stream_onRead sid n s t) = (store_streams t)(sid \<mapsto> s\<lparr>s_fc := fst (onRead n (s_fc s))\<rparr>)"
  by (simp_all add: stream_onRead_def Let_def split: prod.split)

lemma stream_onRead_active:
  assumes "active_core t" "store_streams t sid = Some s0" "s_state s = s_state s0"
  shows "active_core (stream_onRead sid n s t)"
  using upd_stream_active [OF assms(1,2), of "s\<lparr>s_fc := fst (onRead n (s_fc s))\<rparr>"] assms(3)
  by (cases "onRead n (s_fc s)") (simp add: stream_onRead_def Let_def)

text \<open>An update that touches neither the quota nor the end of a stream.\<close>

lemma upd_stream_same:
  assumes "flow_core d t" "active_core t" "store_streams t sid = Some s" "s_fc s' = s_fc s" "s_state s' = s_state s \<or> s_state s' \<noteq> streamDone"
  shows "flow_core d (upd_stream sid s' t) \<and> active_core (upd_stream sid s' t)"
proof -
  have "stream_flow s" using assms(1,3) by (simp add: flow_core_def)
  then have "stream_flow s'" using assms(4,5) by (auto simp: stream_flow_def)
  from upd_stream_core [OF assms(1,3) this] upd_stream_active [OF assms(2,3), of s'] assms(4,5) show ?thesis by (auto simp: pend_def)
qed

lemma data_end_core:
  assumes "flow_core 0 t" "active_core t"
  shows "flow_core 0 (data_end sid t) \<and> active_core (data_end sid t) \<and> t_state (data_end sid t) = t_state t"
  using assms upd_stream_same [OF assms, of sid]
  by (auto simp: data_end_def Let_def stream_write_def split: option.split)

lemma data_quota_core:
  assumes "flow_core (uint (fh_Length fh)) t" "active_core t" "store_streams t (fh_StreamID fh) = Some s" "s_state s \<noteq> streamDone"
    and "unat (fh_Length fh) < 2 ^ 24" "length data \<le> unat (fh_Length fh)"
    and "if Flags_Has (fh_Flags fh) FlagDataPadded then snd (onData (fh_Length fh) (s_fc s)) = None else length data = unat (fh_Length fh)"
    and "data_quota fh data s t = (t', b)"
  shows "t_state t' = closing \<or> flow_core 0 t' \<and> active_core t'"
proof -
  let ?n = "fh_Length fh" and ?sid = "fh_StreamID fh" and ?pad = "fh_Length fh - of_nat (length data)"
  let ?padded = "Flags_Has (fh_Flags fh) FlagDataPadded"
  have sf: "flow_ok (s_fc s)" using assms(1,3) by (auto simp: flow_core_def stream_flow_def)
  obtain f e where d: "onData ?n (s_fc s) = (f, e)" by (cases "onData ?n (s_fc s)")
  note o = onData_ok [OF sf assms(5) d]
  let ?s = "s\<lparr>s_fc := f\<rparr>"
  have p: "pend ?s = pend s + uint ?n" using o(1) by (simp add: pend_def)
  have wr: "flow_core 0 (if length data > 0 then upd_stream ?sid (stream_write \<lparr>m_data = data, m_err = None\<rparr> (the (store_streams t2 ?sid))) t2 else t2) \<and>
      active_core (if length data > 0 then upd_stream ?sid (stream_write \<lparr>m_data = data, m_err = None\<rparr> (the (store_streams t2 ?sid))) t2 else t2)"
    if "flow_core 0 t2" "active_core t2" "store_streams t2 ?sid = Some s2" for t2 s2
    using upd_stream_same [OF that] that by (auto simp: stream_write_def)
  show ?thesis
  proof (cases ?padded)
    case True
    then have e: "e = None" using assms(7) d by simp
    have "unat (of_nat (length data) :: 32 word) = length data" using assms(5,6) by (simp add: unat_of_nat)
    then have "(of_nat (length data) :: 32 word) \<le> ?n" using assms(6) by (simp add: word_le_nat_alt)
    then have pad: "uint ?pad \<le> uint ?n" by (simp add: uint_sub_if_size word_le_def)
    have t1: "flow_core (uint ?n - uint ?pad) (conn_onRead ?pad t)" using conn_onRead_core [OF assms(1) pad(1)] .
    have "?pad \<le> pendingData f" unfolding word_le_def o(1) using pad(1) uint_ge_0 [of "pendingData (s_fc s)"] by linarith
    then have t2: "flow_core 0 (stream_onRead ?sid ?pad ?s (conn_onRead ?pad t))"
      using stream_onRead_core [OF t1, of ?sid s ?s ?pad] assms(3,4) e o(4) p by (simp add: stream_flow_def)
    have a2: "active_core (stream_onRead ?sid ?pad ?s (conn_onRead ?pad t))"
      by (rule stream_onRead_active [where ?s0.0 = s]) (use assms(2,3) in simp_all)
    show ?thesis using assms(4,8) True d e wr [OF t2 a2] by (auto simp: data_quota_def Let_def)
  next
    case False
    show ?thesis
    proof (cases e)
      case None
      then have "flow_core 0 (upd_stream ?sid ?s t)" "active_core (upd_stream ?sid ?s t)"
        using upd_stream_core [OF assms(1,3), of ?s] upd_stream_active [OF assms(2,3), of ?s] o(4) p assms(4) by (simp_all add: stream_flow_def)
      then show ?thesis using assms(4,8) False d None wr [of "upd_stream ?sid ?s t" ?s] by (auto simp: data_quota_def Let_def)
    next
      case (Some a)
      have "flow_ok (f\<lparr>pendingData := 0\<rparr>)" using flow_ok_reset [OF sf] o(2,3) by (simp add: flow_ok_def)
      then have "flow_core 0 (forget_stream ?sid (upd_stream ?sid ?s (t\<lparr>activeStreams := a', t_idle := i\<rparr>)))" for a' i
        using forget_updated_flow [of "uint ?n" "t\<lparr>activeStreams := a', t_idle := i\<rparr>" ?sid s ?s] assms(1,3) p by simp
      moreover have "active_core (forget_stream ?sid ((upd_stream ?sid ?s t)\<lparr>activeStreams := map_option (removeAll ?sid) (activeStreams (upd_stream ?sid ?s t)), t_idle := i\<rparr>))" for i
        by (rule closeStream_active) (use upd_stream_active [OF assms(2,3), of ?s] in simp)
      moreover have "(upd_stream ?sid ?s t)\<lparr>activeStreams := a', t_idle := i\<rparr> = upd_stream ?sid ?s (t\<lparr>activeStreams := a', t_idle := i\<rparr>)" for a' i
        by (simp add: upd_stream_def)
      ultimately show ?thesis using assms(4,8) False d Some by (auto simp: data_quota_def Let_def closeStream_def)
    qed
  qed
qed

lemma closeStream_closing: "t_state t = closing \<Longrightarrow> t_state (closeStream sid t) = closing"
  by (simp add: closeStream_def Let_def)

lemma handleData_closing:
  assumes "t_state t = closing"
  shows "t_state (handleData fh data t) = closing"
proof -
  have q: "t_state x = closing" if "data_quota fh data s t' = (x, b)" "t_state t' = closing" for s t' x b
    using that by (auto simp: data_quota_def Let_def closeStream_closing split: prod.splits option.splits if_splits)
  have e: "t_state (data_end sid t') = t_state t'" for sid t' by (simp add: data_end_def Let_def split: option.split)
  show ?thesis
    using assms by (cases "onData (fh_Length fh) (t_fc t)")
      (auto simp: handleData_def Let_def e dest: q split: option.split prod.split bool.split if_splits)
qed

lemma handleData_inv:
  assumes "server_inv t" "data_frame_ok fh data t"
  shows "server_inv (handleData fh data t)"
proof (cases "t_state t = closing")
  case False
  then have core: "flow_core 0 t" "active_core t" using assms(1) by (simp_all add: server_inv_def)
  let ?n = "fh_Length fh" and ?sid = "fh_StreamID fh"
  have n: "unat ?n < 2 ^ 24" using assms(2) by (simp add: data_frame_ok_def)
  obtain f e where d: "onData ?n (t_fc t) = (f, e)" by (cases "onData ?n (t_fc t)")
  show ?thesis
  proof (cases e)
    case None
    let ?t = "t\<lparr>t_fc := f\<rparr>"
    have c1: "flow_core (uint ?n) ?t" "active_core ?t" using conn_onData_core [OF core(1) n] core(2) d None by simp_all
    show ?thesis
    proof (cases "getStream ?sid ?t")
      case None
      then show ?thesis using c1 conn_onRead_core [OF c1(1), of ?n] d \<open>e = None\<close> by (simp add: handleData_def Let_def server_inv_def)
    next
      case (Some s)
      then obtain ids where "activeStreams t = Some ids" "?sid \<in> set ids" "store_streams t ?sid = Some s"
        by (auto simp: getStream_def split: option.splits if_splits)
      then have s: "store_streams ?t ?sid = Some s" "s_state s \<noteq> streamDone" using core(2) by (auto simp: active_core_def)
      obtain t' b where q: "(if ?n > 0 then data_quota fh data s ?t else (?t, True)) = (t', b)" by fastforce
      have "t_state t' = closing \<or> flow_core 0 t' \<and> active_core t'"
      proof (cases "?n > 0")
        case True
        show ?thesis using Some data_quota_core [OF c1 s n, of data t' b] assms(2) q True
          by (cases "Flags_Has (fh_Flags fh) FlagDataPadded") (simp_all add: data_frame_ok_def)
      next
        case zero: False
        then have "?n = 0" by (simp add: word_gt_0)
        then show ?thesis using c1 q zero by auto
      qed
      then show ?thesis using Some d \<open>e = None\<close> q data_end_core [of t' ?sid]
        by (auto simp: handleData_def Let_def server_inv_def data_end_def split: bool.splits option.splits)
    qed
  qed (simp add: handleData_def d server_inv_def)
next
  case True
  then show ?thesis by (simp add: server_inv_def handleData_closing)
qed

section \<open>Every step keeps the invariant\<close>

text \<open>What the invariant depends on.\<close>

definition life :: "http2Server \<Rightarrow> transportState \<times> bool \<times> bool" where
  "life t = (t_state t, t_shutdown t, t_panicked t)"

definition core :: "http2Server \<Rightarrow> (transportState \<times> bool \<times> bool) \<times> inFlow \<times> 32 word list option \<times> 32 word \<times> 32 word \<times>
    (32 word \<rightharpoonup> inFlow \<times> streamState)" where
  "core t = (life t, t_fc t, activeStreams t, maxStreams t, maxStreamID t, \<lambda>i. map_option (\<lambda>s. (s_fc s, s_state s)) (store_streams t i))"

text \<open>The transport shuts down when it is closed, and not twice.\<close>

definition calm :: "http2Server \<Rightarrow> bool" where
  "calm t \<longleftrightarrow> \<not> t_panicked t \<and> (t_shutdown t \<longleftrightarrow> t_state t = closing)"

lemma core_inv:
  assumes "core t' = core t"
  shows "server_inv t' = server_inv t"
proof -
  have st: "map_option (\<lambda>s. (s_fc s, s_state s)) (store_streams t' i) = map_option (\<lambda>s. (s_fc s, s_state s)) (store_streams t i)" for i
    using assms by (simp add: core_def fun_eq_iff)
  have "store_streams t' i = None \<longleftrightarrow> store_streams t i = None" for i using st [of i] by (cases "store_streams t' i"; cases "store_streams t i") simp_all
  then have dom: "dom (store_streams t') = dom (store_streams t)" by (simp add: dom_def)
  have "total_pending t' = total_pending t"
    unfolding total_pending_def dom
  proof (rule sum.cong [OF refl])
    fix i
    assume "i \<in> dom (store_streams t)"
    then show "pend (the (store_streams t' i)) = pend (the (store_streams t i))" using st [of i] by (auto simp: pend_def)
  qed
  moreover have "(\<forall>s. store_streams t' i = Some s \<longrightarrow> stream_flow s) = (\<forall>s. store_streams t i = Some s \<longrightarrow> stream_flow s)" for i
    using st [of i] by (cases "store_streams t i"; cases "store_streams t' i") (auto simp: stream_flow_def)
  moreover have "(\<exists>s. store_streams t' i = Some s \<and> s_state s \<noteq> streamDone) = (\<exists>s. store_streams t i = Some s \<and> s_state s \<noteq> streamDone)" for i
    using st [of i] by (cases "store_streams t i"; cases "store_streams t' i") auto
  moreover have "t_state t' = t_state t" "t_fc t' = t_fc t" "activeStreams t' = activeStreams t" "maxStreams t' = maxStreams t" "maxStreamID t' = maxStreamID t"
    using assms by (simp_all add: core_def life_def)
  ultimately show ?thesis
    unfolding server_inv_def flow_core_def active_core_def dom by (cases "activeStreams t") simp_all
qed

lemma core_keeps: "server_inv t \<Longrightarrow> core t' = core t \<Longrightarrow> server_inv t'"
  by (blast dest: core_inv)

text \<open>The invariant of a transport: the accounts balance and it is calm.\<close>

definition server_ok :: "http2Server \<Rightarrow> bool" where
  "server_ok t \<longleftrightarrow> server_inv t \<and> calm t"

lemma calm_core: "calm t \<Longrightarrow> core t' = core t \<Longrightarrow> calm t'"
  by (auto simp: calm_def core_def life_def)

lemma ok_core: "server_ok t \<Longrightarrow> core t' = core t \<Longrightarrow> server_ok t'"
  by (auto simp: server_ok_def intro: core_keeps calm_core)

text \<open>The contract of a handler that touches nothing the invariant depends on.\<close>

locale quiet_handler =
  fixes handler :: "http2Server \<Rightarrow> http2Server"
  assumes quiet: "core (handler t) = core t"
begin

lemma keeps_inv: "server_inv t \<Longrightarrow> server_inv (handler t)"
  by (rule core_keeps [OF _ quiet])

lemma keeps_calm: "calm t \<Longrightarrow> calm (handler t)"
  by (rule calm_core [OF _ quiet])

lemma keeps_ok: "server_ok t \<Longrightarrow> server_ok (handler t)"
  by (rule ok_core [OF _ quiet])

end

text \<open>The fields on which the invariant does not depend.\<close>

lemma core_fields [simp]:
  "core (t\<lparr>controlBuf := a\<rparr>) = core t" "core (t\<lparr>t_sendQuotaPool := b\<rparr>) = core t" "core (t\<lparr>streamSendQuota := c\<rparr>) = core t"
  "core (t\<lparr>lastPingAt := d\<rparr>) = core t" "core (t\<lparr>pingStrikes := e\<rparr>) = core t" "core (t\<lparr>resetPingStrikes := f\<rparr>) = core t"
  "core (t\<lparr>t_out := g\<rparr>) = core t" "core (t\<lparr>t_hEnc := h\<rparr>) = core t" "core (t\<lparr>t_activity := i\<rparr>) = core t" "core (t\<lparr>t_idle := j\<rparr>) = core t"
  "core (t\<lparr>t_now := k\<rparr>) = core t"
  by (simp_all add: core_def life_def)

lemma core_ctl_put [simp]: "core (ctl_put i t) = core t"
  by (simp add: ctl_put_def)

lemma core_upd_stream: "store_streams t sid = Some s \<Longrightarrow> s_fc s' = s_fc s \<Longrightarrow> s_state s' = s_state s \<Longrightarrow> core (upd_stream sid s' t) = core t"
  by (auto simp: core_def life_def upd_stream_def)

lemma server_inv_ctl_put [simp]: "server_inv (ctl_put i t) = server_inv t"
  by (rule core_inv) simp

lemma Close_inv [simp]: "server_inv (fst (srv_Close t))"
  by (simp add: server_inv_def)

lemma updateWindow_inv:
  assumes "server_inv t" "store_streams t sid = Some s" "n \<le> pendingData (s_fc s)"
  shows "server_inv (updateWindow sid n t)"
proof (cases "t_state t = closing \<or> s_state s = streamDone")
  case False
  then have core: "flow_core 0 t" "active_core t" using assms(1) by (simp_all add: server_inv_def)
  then have s: "stream_flow s" "pend s \<le> total_pending t" "uint n \<le> pend s"
    using assms(2,3) pend_le_total [of t sid s] by (auto simp: flow_core_def pend_def word_le_def)
  have "flow_core (0 - uint n) (conn_onRead n t)" by (rule conn_onRead_held [OF core(1)]) (use s in simp)
  then have "flow_core 0 (stream_onRead sid n s (conn_onRead n t))"
    using stream_onRead_core [of "0 - uint n" "conn_onRead n t" sid s s n] assms(2,3) s(1) by simp
  moreover have "active_core (stream_onRead sid n s (conn_onRead n t))"
    by (rule stream_onRead_active [where ?s0.0 = s]) (use core(2) assms(2) in simp_all)
  ultimately show ?thesis using False assms(2) by (simp add: updateWindow_def server_inv_def)
qed (use assms in \<open>auto simp: updateWindow_def server_inv_def\<close>)

lemma open_stream_inv:
  assumes "server_inv t" "t_state t = reachable" "activeStreams t = Some ids" "of_nat (length ids) < maxStreams t" "sid mod 2 = 1" "maxStreamID t < sid"
    "s_fc s = newInFlow initialWindowSize" "s_state s \<noteq> streamDone"
  shows "server_inv (upd_stream sid s (t\<lparr>maxStreamID := sid, activeStreams := Some (ids @ [sid])\<rparr>))"
proof -
  let ?t = "t\<lparr>maxStreamID := sid, activeStreams := Some (ids @ [sid])\<rparr>"
  have core: "flow_core 0 t" "active_core t" using assms(1,2) by (auto simp: server_inv_def)
  have new: "store_streams t sid = None" using core(2) assms(6) by (auto simp: active_core_def not_less dom_def)
  have "length ids \<le> unat (maxStreams t)" using core(2) assms(3) by (simp add: active_core_def)
  then have "unat (of_nat (length ids) :: 32 word) = length ids" by (rule le_unat_uoi)
  then have len: "length ids < unat (maxStreams t)" using assms(4) by (simp add: word_less_nat_alt)
  have "total_pending (upd_stream sid s ?t) = total_pending t"
    using total_new [of ?t sid s] new core(1) assms(7) by (simp add: flow_core_def total_pending_def pend_def newInFlow_def)
  then have "flow_core 0 (upd_stream sid s ?t)"
    using core(1) assms(7,8) by (auto simp: flow_core_def stream_flow_def newInFlow_ok window_sizes)
  moreover have "active_core (upd_stream sid s ?t)"
    using core(2) assms(3,5,6,8) len new by (auto simp: active_core_def dom_def intro: order_trans less_imp_le)
  ultimately show ?thesis by (simp add: server_inv_def)
qed

lemma operateHeaders_inv:
  assumes "server_inv t" "operateHeaders us tap sid flds ended t = (t', c)"
  shows "server_inv t'"
proof (cases "process_fields us flds decodeState0")
  case (Pair st e)
  define s where "s = \<lparr>s_state = (if ended then streamReadDone else streamActive), s_fc = newInFlow initialWindowSize,
      s_buf = newRecvBuffer, s_sendQuotaPool = newQuotaPool (uint (streamSendQuota t)), s_canceled = False,
      s_recvCompress = ds_encoding st, s_method = ds_method st, s_timeout = (if timeoutSet st then Some (ds_timeout st) else None),
      s_headerOk = False, s_header = [], s_trailer = [], s_sendCompress = []\<rparr>"
  have s: "s_fc s = newInFlow initialWindowSize" "s_state s \<noteq> streamDone" by (simp_all add: s_def)
  note d = assms(2) [unfolded operateHeaders_def Pair Let_def s_def [symmetric] prod.case]
  show ?thesis
  proof (cases "e = None \<and> \<not> (case tap of None \<Rightarrow> False | Some h \<Rightarrow> \<not> h (ds_method st)) \<and> t_state t = reachable \<and>
      \<not> of_nat (length (case activeStreams t of None \<Rightarrow> [] | Some ids \<Rightarrow> ids)) \<ge> maxStreams t \<and> \<not> (sid mod 2 \<noteq> 1 \<or> sid \<le> maxStreamID t)")
    case True
    then have "activeStreams t \<noteq> None" using assms(1) by (auto simp: server_inv_def active_core_def)
    then obtain ids where ids: "activeStreams t = Some ids" by blast
    have n: "t_state t = reachable" "of_nat (length ids) < maxStreams t" "sid mod 2 = 1" "maxStreamID t < sid"
      using True ids by (simp_all only: option.case not_le not_less de_Morgan_disj not_not)
    have "t' = upd_stream sid s (t\<lparr>maxStreamID := sid, activeStreams := Some (ids @ [sid]),
        t_idle := (if ids = [] then None else t_idle (t\<lparr>maxStreamID := sid, activeStreams := Some (ids @ [sid])\<rparr>))\<rparr>)"
      using True d ids by (simp only: option.case if_False simp_thms prod.inject)
    then have "core t' = core (upd_stream sid s (t\<lparr>maxStreamID := sid, activeStreams := Some (ids @ [sid])\<rparr>))"
      by (simp add: core_def life_def upd_stream_def)
    then show ?thesis by (rule core_keeps [OF open_stream_inv [OF assms(1) n(1) ids n(2-4) s]])
  next
    case False
    then have "t' = t \<or> (\<exists>x. t' = ctl_put x t)" using d by (cases e) (auto split: if_splits)
    then show ?thesis using assms(1) by auto
  qed
qed

interpretation window_update: quiet_handler "handleWindowUpdate fh incr" for fh incr
  by unfold_locales (auto simp: handleWindowUpdate_def getStream_def core_upd_stream split: option.splits if_splits)

interpretation ping: quiet_handler "handlePing kep fh data" for kep fh data
  by unfold_locales (simp add: handlePing_def Let_def)

interpretation settings: quiet_handler "handleSettings fh p" for fh p
  by unfold_locales (simp add: handleSettings_def)

interpretation control: quiet_handler "ctl_put i" for i
  by unfold_locales simp

lemmas handler_keeps = window_update.keeps_inv ping.keeps_inv settings.keeps_inv closeStream_inv

lemma turn_inv:
  assumes "server_inv t" "HandleStreams_turn kep us tap r t = (t', b)"
    and "case r of ReadOther (DataFrame fh data) \<Rightarrow> data_frame_ok fh data t | _ \<Rightarrow> True"
  shows "server_inv t'"
proof -
  let ?t = "t\<lparr>t_activity := True\<rparr>"
  have inv: "server_inv ?t" by (rule core_keeps [OF assms(1)]) simp
  have data: "data_frame_ok fh data ?t = data_frame_ok fh data t" for fh data by (simp add: data_frame_ok_def)
  note d = assms(2) [unfolded HandleStreams_turn_def Let_def]
  show ?thesis
  proof (cases r)
    case (ReadMeta sid flds ended)
    then show ?thesis using d operateHeaders_inv [OF inv] by (auto split: prod.splits)
  next
    case (ReadOther f)
    then show ?thesis using d inv assms(3) handleData_inv [OF inv]
      by (cases f) (auto simp: data handleRSTStream_def intro: handler_keeps split: option.split)
  qed (use d inv in \<open>auto simp: closeStream_inv split: if_splits\<close>)
qed

lemma apply_settings_core: "apply_settings l ss t = Some t' \<Longrightarrow> core t' = core t"
proof (induction l ss t rule: apply_settings.induct)
  case (2 locked k v ss t)
  then show ?case by (auto simp: Let_def core_def life_def fun_eq_iff option.map_comp comp_def split: if_splits option.splits)
qed simp

lemma controller_inv:
  assumes "server_inv t" "controller i t = Some t'"
  shows "server_inv t'"
proof (cases i)
  case (settings a ss)
  then have "core t' = core t"
    using assms(2) by (cases a) (auto simp: controller_def applySettings_def dest: apply_settings_core)
  then show ?thesis by (rule core_keeps [OF assms(1)])
next
  case (goAway c debug)
  let ?t = "t\<lparr>t_state := draining, t_out := t_out t @ [SentGoAway (maxStreamID t) c debug]\<rparr>"
  have "server_inv ?t" if "t_state t \<noteq> closing"
    using assms(1) that by (simp add: server_inv_def flow_core_def active_core_def total_pending_def split: option.splits)
  then show ?thesis using goAway assms(2) by (auto simp: controller_def Let_def split: if_splits)
qed (use assms in \<open>auto simp: controller_def elim: core_keeps\<close>)

lemma core_dom:
  assumes "core t' = core t"
  shows "(store_streams t' sid = None) = (store_streams t sid = None)"
proof -
  have "map_option (\<lambda>s. (s_fc s, s_state s)) (store_streams t' sid) = map_option (\<lambda>s. (s_fc s, s_state s)) (store_streams t sid)"
    using assms by (simp add: core_def fun_eq_iff)
  then show ?thesis by (cases "store_streams t' sid"; cases "store_streams t sid") simp_all
qed

lemma srv_Close_dom: "(store_streams (fst (srv_Close t)) sid = None) = (store_streams t sid = None)"
  by (simp add: srv_Close_def Let_def)

text \<open>Writing leaves the inbound side alone, or closes the transport.\<close>

definition write_keeps :: "http2Server \<Rightarrow> http2Server \<Rightarrow> bool" where
  "write_keeps t t' \<longleftrightarrow> core t' = core t \<or> (\<exists>u. core u = core t \<and> t' = fst (srv_Close u))"

lemma write_keeps_inv: "write_keeps t t' \<Longrightarrow> server_inv t \<Longrightarrow> server_inv t'"
  by (auto simp: write_keeps_def intro: core_keeps)

lemma write_keeps_dom: "write_keeps t t' \<Longrightarrow> (store_streams t' sid = None) = (store_streams t sid = None)"
  by (auto simp: write_keeps_def srv_Close_dom dest: core_dom [where sid = sid])

lemma write_keeps_fields:
  assumes "core u = core t"
  shows "write_keeps t u" "write_keeps t (u\<lparr>t_sendQuotaPool := q\<rparr>)" "write_keeps t (u\<lparr>t_out := out\<rparr>)" "write_keeps t (fst (srv_Close u))"
    "write_keeps t (give_up b u)" "write_keeps t (give_up b (u\<lparr>t_sendQuotaPool := q\<rparr>))"
  using assms by (auto simp: write_keeps_def give_up_def)

lemma write_frame_keeps:
  assumes "store_streams u sid \<noteq> None" "write_frame sid fail sq tq data u = (u', r)"
  shows "write_keeps u u'"
proof -
  obtain s where s: "store_streams u sid = Some s" using assms(1) by blast
  define p where "p = take (nat (min (int http2MaxFrameLen) (min sq tq))) data"
  define v where "v = upd_stream sid (if int (length p) < sq then s\<lparr>s_sendQuotaPool := quota_add (sq - int (length p)) (s_sendQuotaPool s)\<rparr> else s) u"
  define w where "w = (if int (length p) < tq then v\<lparr>t_sendQuotaPool := quota_add (tq - int (length p)) (t_sendQuotaPool v)\<rparr> else v)"
  have "core v = core u" unfolding v_def by (rule core_upd_stream [OF s]) simp_all
  then have "core w = core u" by (simp add: w_def)
  note keeps = write_keeps_fields [OF this]
  show ?thesis
    using assms(2) unfolding write_frame_def Let_def s option.sel p_def [symmetric] v_def [symmetric] w_def [symmetric]
    using keeps by (auto split: write_fail.splits if_splits)
qed

lemma write_turn_keeps:
  assumes "store_streams t sid \<noteq> None" "write_turn sid e data t = (t', r)"
  shows "write_keeps t t'"
proof -
  obtain s where s: "store_streams t sid = Some s" using assms(1) by blast
  define p where "p = quota_add (wt_stream_add e) (s_sendQuotaPool s)"
  define u where "u = upd_stream sid (s\<lparr>s_sendQuotaPool := p\<rparr>) (t\<lparr>t_sendQuotaPool := quota_add (wt_conn_add e) (t_sendQuotaPool t)\<rparr>)"
  have u: "core u = core t" "store_streams u sid = Some (s\<lparr>s_sendQuotaPool := p\<rparr>)"
    using core_upd_stream [of "t\<lparr>t_sendQuotaPool := quota_add (wt_conn_add e) (t_sendQuotaPool t)\<rparr>" sid s "s\<lparr>s_sendQuotaPool := p\<rparr>"] s
    by (simp_all add: u_def)
  have v: "core (upd_stream sid (s\<lparr>s_sendQuotaPool := q\<rparr>) u) = core t" for q
    using core_upd_stream [OF u(2), of "s\<lparr>s_sendQuotaPool := q\<rparr>"] u(1) by simp
  have w: "write_keeps t t'" if "write_frame sid fail sq tq data ((upd_stream sid (s\<lparr>s_sendQuotaPool := q\<rparr>) u)\<lparr>t_sendQuotaPool := tp\<rparr>) = (t', r)"
    for fail sq tq q tp
    using write_frame_keeps [OF _ that] v [of q] s by (simp add: write_keeps_def)
  note same = write_keeps_fields(1) [OF u(1)] write_keeps_fields(1) [OF v]
  show ?thesis
    using assms(2) unfolding write_turn_def Let_def s option.sel p_def [symmetric] u_def [symmetric]
    using same by (auto split: write_fail.splits option.splits prod.splits intro: w)
qed

lemma calm_frame [simp]:
  "calm (ctl_put i t) = calm t" "calm (upd_stream sid s t) = calm t" "calm (conn_onRead n t) = calm t" "calm (stream_onRead sid n s t) = calm t"
  "calm (forget_stream sid t) = calm t" "calm (t\<lparr>t_fc := f\<rparr>) = calm t" "calm (t\<lparr>activeStreams := a, t_idle := j\<rparr>) = calm t"
  "calm (t\<lparr>activeStreams := a\<rparr>) = calm t"
  by (auto simp: calm_def ctl_put_def upd_stream_def conn_onRead_def stream_onRead_def forget_stream_def Let_def split: option.split prod.split)

lemma calm_Close: "calm t \<Longrightarrow> calm (fst (srv_Close t))"
  by (auto simp: calm_def srv_Close_def Let_def)

lemma calm_closeStream: "calm t \<Longrightarrow> calm (closeStream sid t)"
  by (auto simp: closeStream_def Let_def calm_Close)

lemma calm_handleData:
  assumes "calm t"
  shows "calm (handleData fh data t)"
proof -
  have q: "calm x" if "data_quota fh data s t' = (x, b)" "calm t'" for s t' x b
    using that by (auto simp: data_quota_def Let_def calm_closeStream split: prod.splits option.splits if_splits)
  have e: "calm (data_end sid t') = calm t'" for sid t' by (simp add: data_end_def Let_def split: option.split)
  show ?thesis
    using assms by (cases "onData (fh_Length fh) (t_fc t)")
      (auto simp: handleData_def Let_def e calm_Close dest: q split: option.split prod.split bool.split if_splits)
qed

lemma ok_Close: "server_ok t \<Longrightarrow> server_ok (fst (srv_Close t))"
  by (simp add: server_ok_def calm_Close)

lemma ok_closeStream: "server_ok t \<Longrightarrow> server_ok (closeStream sid t)"
  by (simp add: server_ok_def calm_closeStream closeStream_inv)

lemma ok_write_keeps: "write_keeps t t' \<Longrightarrow> server_ok t \<Longrightarrow> server_ok t'"
  by (auto simp: write_keeps_def intro: ok_core ok_Close)

lemma ok_new: "newHTTP2Server n now enc w1 w2 = Some t \<Longrightarrow> server_ok t"
  using new_server_inv by (auto simp: server_ok_def calm_def newHTTP2Server_def Let_def split: if_splits)

lemma operateHeaders_life: "operateHeaders us tap sid flds ended t = (t', c) \<Longrightarrow> life t' = life t"
  by (auto simp: operateHeaders_def Let_def life_def ctl_put_def upd_stream_def split: prod.splits option.splits if_splits)

lemma calm_life: "calm t \<Longrightarrow> life t' = life t \<Longrightarrow> calm t'"
  by (auto simp: calm_def life_def)

lemma calm_turn:
  assumes "calm t" "HandleStreams_turn kep us tap r t = (t', b)"
  shows "calm t'"
proof -
  have c: "calm (t\<lparr>t_activity := True\<rparr>)" by (rule calm_core [OF assms(1)]) simp
  note d = assms(2) [unfolded HandleStreams_turn_def Let_def]
  show ?thesis
  proof (cases r)
    case (ReadMeta sid flds ended)
    obtain u close where o: "operateHeaders us tap sid flds ended (t\<lparr>t_activity := True\<rparr>) = (u, close)" by fastforce
    have "calm u" by (rule calm_life [OF c operateHeaders_life [OF o]])
    then show ?thesis using d o ReadMeta by (auto simp: calm_Close split: if_splits)
  next
    case (ReadOther f)
    then show ?thesis using d c
      by (cases f) (auto simp: handleRSTStream_def intro: calm_handleData calm_closeStream window_update.keeps_calm ping.keeps_calm settings.keeps_calm split: option.split)
  qed (use d c in \<open>auto simp: calm_closeStream calm_Close split: if_splits\<close>)
qed

lemma calm_controller:
  assumes "calm t" "controller i t = Some t'"
  shows "calm t'"
proof (cases i)
  case (settings a ss)
  then have "core t' = core t"
    using assms(2) by (cases a) (auto simp: controller_def applySettings_def dest: apply_settings_core)
  then show ?thesis by (rule calm_core [OF assms(1)])
next
  case (goAway c debug)
  let ?t = "t\<lparr>t_state := draining, t_out := t_out t @ [SentGoAway (maxStreamID t) c debug]\<rparr>"
  have "calm ?t" if "t_state t \<noteq> closing" using assms(1) that by (auto simp: calm_def)
  then show ?thesis using goAway assms(2) calm_Close [of ?t] by (auto simp: controller_def Let_def split: if_splits)
qed (use assms in \<open>auto simp: controller_def elim: calm_core\<close>)

section \<open>Writing and keepalive\<close>

lemma write_turn_ok:
  assumes "server_ok t" "store_streams t sid \<noteq> None" "write_turn sid e data t = (t', r)"
  shows "server_ok t' \<and> store_streams t' sid \<noteq> None"
  using write_turn_keeps [OF assms(2,3)] assms(1,2) ok_write_keeps [of t t'] write_keeps_dom [of t t' sid] by simp

lemma write_loop_ok:
  "server_ok t \<Longrightarrow> store_streams t sid \<noteq> None \<Longrightarrow> srv_write_loop sid turns data t = (t', r) \<Longrightarrow> server_ok t'"
proof (induction turns arbitrary: t data)
  case (Cons e turns)
  then show ?case using write_turn_ok [of t sid e data] by (auto split: if_splits prod.splits sum.splits)
qed auto

lemma writeHeaders_keeps: "writeHeaders fail sid es b t = (t', k) \<Longrightarrow> write_keeps t t'"
  unfolding writeHeaders_def Let_def write_keeps_def by (auto split: option.splits if_splits intro: exI [of _ "t\<lparr>t_out := x\<rparr>" for x])

lemma headers_written:
  assumes "res_bind (write_fields fs e0) (\<lambda>e. case writeHeaders fl sid es (enc_out e) (t\<lparr>t_hEnc := e\<rparr>) of (u, sent) \<Rightarrow> F u sent) = Ok x"
  obtains e u sent where "write_fields fs e0 = Ok e" "writeHeaders fl sid es (enc_out e) (t\<lparr>t_hEnc := e\<rparr>) = (u, sent)" "F u sent = Ok x"
proof -
  obtain e where e: "write_fields fs e0 = Ok e" "(case writeHeaders fl sid es (enc_out e) (t\<lparr>t_hEnc := e\<rparr>) of (u, sent) \<Rightarrow> F u sent) = Ok x"
    using assms by auto
  then show thesis using that by (cases "writeHeaders fl sid es (enc_out e) (t\<lparr>t_hEnc := e\<rparr>)") auto
qed

text \<open>The stream once \<open>WriteHeader\<close> has taken its metadata, and the ways in which the call ends.\<close>

definition with_header :: "MD \<Rightarrow> Stream \<Rightarrow> Stream" where
  "with_header md s = (if md \<noteq> [] then s\<lparr>s_headerOk := True, s_header := (if s_header s \<noteq> [] then md_Join (s_header s) md else md)\<rparr> else s\<lparr>s_headerOk := True\<rparr>)"

lemma with_header_simps [simp]: "s_fc (with_header md s) = s_fc s" "s_state (with_header md s) = s_state s" "s_sendQuotaPool (with_header md s) = s_sendQuotaPool s"
  by (simp_all add: with_header_def)

lemma WriteHeader_cases:
  assumes "WriteHeader w sid md t = Ok (t', r)" "store_streams t sid = Some s"
  obtains "t' = t" | "t' = upd_stream sid (with_header md s) t"
    | e k where "write_fields (initial_fields (with_header md s)) ((t_hEnc t)\<lparr>enc_out := []\<rparr>) = Ok e"
        "writeHeaders (hw_fail w) sid False (enc_out e) ((upd_stream sid (with_header md s) t)\<lparr>t_hEnc := e\<rparr>) = (t', k)"
proof (cases "\<not> (s_headerOk s \<or> s_state s = streamDone) \<and> hw_writable w")
  case True
  let ?t = "upd_stream sid (with_header md s) t"
  have "res_bind (write_fields (initial_fields (with_header md s)) ((t_hEnc ?t)\<lparr>enc_out := []\<rparr>)) (\<lambda>e.
      case writeHeaders (hw_fail w) sid False (enc_out e) (?t\<lparr>t_hEnc := e\<rparr>) of (u, sent) \<Rightarrow> Ok (u, if sent then None else Some ErrConn)) = Ok (t', r)"
    using True assms by (simp add: WriteHeader_def with_header_def Let_def cong: if_cong del: res_bind_eq_Ok)
  then obtain e u k where "write_fields (initial_fields (with_header md s)) ((t_hEnc ?t)\<lparr>enc_out := []\<rparr>) = Ok e"
    "writeHeaders (hw_fail w) sid False (enc_out e) (?t\<lparr>t_hEnc := e\<rparr>) = (u, k)"
    "(Ok (u, if k then None else Some ErrConn) :: (http2Server \<times> write_err option) kres) = Ok (t', r)"
    by (elim headers_written)
  then show thesis using that(3) by (simp add: upd_stream_def)
next
  case False
  then have "t' = t \<or> t' = upd_stream sid (with_header md s) t"
    using assms unfolding WriteHeader_def with_header_def Let_def by (auto split: if_splits)
  then show thesis using that(1,2) by blast
qed

lemma WriteHeader_ok:
  assumes "server_ok t" "WriteHeader w sid md t = Ok (t', r)"
  shows "server_ok t' \<and> (store_streams t' i = None) = (store_streams t i = None)"
proof (cases "store_streams t sid")
  case (Some s)
  have c: "core (upd_stream sid (with_header md s) t) = core t" by (rule core_upd_stream [OF Some]) simp_all
  from assms(2) Some have "core t' = core t \<or> (\<exists>u. core u = core t \<and> write_keeps u t')"
  proof (cases rule: WriteHeader_cases)
    case (3 e k)
    then show ?thesis using writeHeaders_keeps c by fastforce
  qed (simp_all add: c)
  then show ?thesis
    using assms(1) ok_core core_dom ok_write_keeps write_keeps_dom by (elim disjE exE conjE) (metis)+
qed (use assms in \<open>simp add: WriteHeader_def\<close>)

lemma write_trailers_ok:
  assumes "server_ok t" "write_trailers w sid hs st t = Ok (t', r)"
  shows "server_ok t'"
proof (cases "hw_writable w")
  case True
  have nw: "\<not> \<not> hw_writable w" using True by simp
  obtain e u k where w: "writeHeaders (hw_fail w) sid True (enc_out e) (t\<lparr>t_hEnc := e\<rparr>) = (u, k)"
      and u: "(if k then Ok (closeStream sid u, None) else Ok (fst (srv_Close u), Some ErrConn)) = (Ok (t', r) :: (http2Server \<times> write_err option) kres)"
    by (rule headers_written [OF assms(2) [unfolded write_trailers_def if_not_P [OF nw]]]) (rule that)
  then have t': "t' = (if k then closeStream sid u else fst (srv_Close u))" by (simp split: if_splits)
  have "server_ok (t\<lparr>t_hEnc := e\<rparr>)" by (rule ok_core [OF assms(1)]) simp
  then have "server_ok u" by (rule ok_write_keeps [OF writeHeaders_keeps [OF w]])
  then show ?thesis by (simp add: t' ok_closeStream ok_Close)
qed (use assms in \<open>simp add: write_trailers_def\<close>)

lemma WriteStatus_ok:
  assumes "server_ok t" "WriteStatus w0 w sid st t = Ok (t', r)"
  shows "server_ok t'"
proof (cases "store_streams t sid")
  case (Some s)
  show ?thesis
  proof (cases "s_state s = streamDone \<or> \<not> (\<not> s_headerOk s \<and> s_header s \<noteq> [])")
    case False
    then obtain u e where "WriteHeader w0 sid [] t = Ok (u, e)" "write_trailers w sid True st u = Ok (t', r)"
      using assms(2) Some by (auto simp: WriteStatus_def)
    then show ?thesis using WriteHeader_ok [OF assms(1)] write_trailers_ok by blast
  qed (use assms Some write_trailers_ok in \<open>auto simp: WriteStatus_def split: if_splits\<close>)
qed (use assms in \<open>simp add: WriteStatus_def\<close>)

lemma srv_Write_ok:
  assumes "server_ok t" "srv_Write w sid turns data t = Ok (t', r)"
  shows "server_ok t'"
proof (cases "store_streams t sid = None \<or> s_state (the (store_streams t sid)) = streamDone")
  case False
  then obtain s where s: "store_streams t sid = Some s" "s_state s \<noteq> streamDone" by auto
  obtain u where u: "(if \<not> s_headerOk s then res_bind (WriteHeader w sid [] t) (\<lambda>(t, _). Ok t) else Ok t) = Ok u"
      "(case srv_write_loop sid turns data u of (t, WriteDone) \<Rightarrow> Ok (t\<lparr>resetPingStrikes := True\<rparr>, WriteDone) | r \<Rightarrow> Ok r) = (Ok (t', r) :: (http2Server \<times> write_result) kres)"
    by (rule exE [OF assms(2) [unfolded srv_Write_def s(1) option.case if_not_P [OF s(2)], THEN res_bind_eq_Ok [THEN iffD1]]]) (erule conjE, rule that)
  have "server_ok u \<and> store_streams u sid \<noteq> None"
    using u(1) assms(1) s(1) WriteHeader_ok [OF assms(1), where i = sid] by (fastforce split: if_splits)
  moreover obtain v q where l: "srv_write_loop sid turns data u = (v, q)" by fastforce
  ultimately have "server_ok v" using write_loop_ok by blast
  moreover have "core t' = core v" using u(2) l by (auto split: write_result.splits)
  ultimately show ?thesis by (rule ok_core)
qed (use assms in \<open>auto simp: srv_Write_def split: option.splits\<close>)

lemma drain_ok:
  assumes "server_ok t" "t_state t \<noteq> closing"
  shows "server_ok (srv_Drain (t\<lparr>t_state := draining\<rparr>))"
  using assms
  by (simp add: srv_Drain_def server_ok_def calm_def server_inv_def flow_core_def active_core_def total_pending_def split: option.splits)
    (simp add: ctl_put_def)

lemma keepalive_ok:
  assumes "server_ok t" "\<not> t_shutdown t" "keepalive_turn kp c (k, t) = (k', t')"
  shows "server_ok t'"
proof -
  have d: "server_ok (srv_Drain (t\<lparr>t_state := draining\<rparr>))"
    by (rule drain_ok) (use assms(1,2) in \<open>auto simp: server_ok_def calm_def\<close>)
  have "server_ok (t\<lparr>t_activity := False\<rparr>)" "server_ok (ctl_put i t)" for i by (rule ok_core [OF assms(1)], simp) (rule control.keeps_ok [OF assms(1)])
  then show ?thesis using assms(3) d ok_Close [OF assms(1)] assms(1)
    by (cases c) (auto simp: keepalive_turn_def Let_def split: if_splits option.splits)
qed

text \<open>
  A run of the transport: the start and the turns of the receiving loop, reads by the application of data it was given,
  items of the controller, headers, data and statuses that calls write, and the turns of the keepalive goroutine, in
  any order, each of them as one step. In a \<open>lawful\<close> run two things do not happen that the code does not exclude: the
  peer sends no padded DATA frame that overruns the window of its stream, and \<open>keepalive\<close>, whose \<open>select\<close> may choose
  any case that is ready, does not take a timer once the transport is shut down. What the first does is shown by
  \<open>padding_returned_twice\<close>, what the second does by \<open>late_age_timer_panics\<close>.
\<close>

inductive server_runs :: "bool \<Rightarrow> 32 word \<Rightarrow> http2Server \<Rightarrow> bool" for lawful n where
  run_new: "newHTTP2Server n now enc w1 w2 = Some t \<Longrightarrow> server_runs lawful n t"
| run_start: "server_runs lawful n t \<Longrightarrow> HandleStreams_start pre r t = (t', b) \<Longrightarrow> server_runs lawful n t'"
| run_turn: "server_runs lawful n t \<Longrightarrow> case r of ReadOther (DataFrame fh data) \<Rightarrow> data_frame_parsed fh data \<and> (lawful \<longrightarrow> padding_within fh t) | _ \<Rightarrow> True \<Longrightarrow>
    HandleStreams_turn kep (us :: string \<Rightarrow> bytes option) tap r t = (t', b) \<Longrightarrow> server_runs lawful n t'"
| run_read: "server_runs lawful n t \<Longrightarrow> store_streams t sid = Some s \<Longrightarrow> k \<le> pendingData (s_fc s) \<Longrightarrow> server_runs lawful n (updateWindow sid k t)"
| run_control: "server_runs lawful n t \<Longrightarrow> controller i t = Some t' \<Longrightarrow> server_runs lawful n t'"
| run_header: "server_runs lawful n t \<Longrightarrow> WriteHeader w sid md t = Ok (t', e) \<Longrightarrow> server_runs lawful n t'"
| run_write: "server_runs lawful n t \<Longrightarrow> srv_Write w sid turns data t = Ok (t', q) \<Longrightarrow> server_runs lawful n t'"
| run_status: "server_runs lawful n t \<Longrightarrow> WriteStatus w0 w sid st t = Ok (t', e) \<Longrightarrow> server_runs lawful n t'"
| run_set_header: "server_runs lawful n t \<Longrightarrow> store_streams t sid = Some s \<Longrightarrow> server_runs lawful n (upd_stream sid (fst (SetHeader md s)) t)"
| run_set_trailer: "server_runs lawful n t \<Longrightarrow> store_streams t sid = Some s \<Longrightarrow> server_runs lawful n (upd_stream sid (SetTrailer md s) t)"
| run_keepalive: "server_runs lawful n t \<Longrightarrow> ka_ready c k t \<Longrightarrow> (lawful \<longrightarrow> \<not> t_shutdown t) \<Longrightarrow> keepalive_turn kp c (k, t) = (k', t') \<Longrightarrow> server_runs lawful n t'"
| run_clock: "server_runs lawful n t \<Longrightarrow> t_now t \<le> now \<Longrightarrow> server_runs lawful n (t\<lparr>t_now := now\<rparr>)"
| run_close: "server_runs lawful n t \<Longrightarrow> server_runs lawful n (fst (srv_Close t))"

lemma start_ok:
  assumes "server_ok t" "HandleStreams_start pre r t = (t', b)"
  shows "server_ok t'"
proof -
  have a: "server_ok (t\<lparr>t_activity := True\<rparr>)" by (rule ok_core [OF assms(1)]) simp
  show ?thesis using assms ok_Close [OF a] ok_Close [OF assms(1)] settings.keeps_ok [OF a]
    by (auto simp: HandleStreams_start_def split: if_splits read_item.splits Frame.splits)
qed

lemma runs_ok: "server_runs True n t \<Longrightarrow> server_ok t"
proof (induction rule: server_runs.induct)
  case (run_turn t r kep us tap t' b)
  then have "case r of ReadOther (DataFrame fh data) \<Rightarrow> data_frame_ok fh data t | _ \<Rightarrow> True"
    by (simp split: read_item.splits Frame.splits)
  with run_turn show ?case using turn_inv calm_turn unfolding server_ok_def by blast
next
  case (run_read t sid s k)
  then show ?case using updateWindow_inv by (auto simp: server_ok_def updateWindow_def)
next
  case (run_control t i t')
  then show ?case using controller_inv calm_controller unfolding server_ok_def by blast
next
  case (run_header t w sid md t' e)
  then show ?case using WriteHeader_ok by blast
next
  case (run_set_header t sid s md)
  then show ?case by (auto intro!: ok_core [where t = t] core_upd_stream simp: SetHeader_def)
next
  case (run_set_trailer t sid s md)
  then show ?case by (auto intro!: ok_core [where t = t] core_upd_stream simp: SetTrailer_def)
next
  case (run_clock t now)
  then show ?case by (auto intro: ok_core)
qed (blast intro: ok_new start_ok srv_Write_ok WriteStatus_ok keepalive_ok ok_Close)+

section \<open>Properties\<close>

text \<open>C24: the inbound accounts of a server transport balance in every state that a lawful run reaches before the transport
  closes, that is one in which the peer sends no padded DATA frame that overruns the window of its stream and \<open>keepalive\<close> takes no timer
  once the transport is shut down (the code excludes neither, and either breaks the claim): the
  connection holds exactly what its streams hold, no window is overrun, and the map of active streams holds at most
  \<open>maxStreams\<close> distinct streams that are not done, with odd identifiers up to the highest one seen. At no time in such a run has a goroutine
  panicked, and the transport is shut down exactly when it is closing.\<close>

theorem server_quota_balanced:
  assumes "server_runs True n t"
  shows "\<not> t_panicked t \<and> (t_shutdown t \<longleftrightarrow> t_state t = closing) \<and>
    (t_state t \<noteq> closing \<longrightarrow>
      uint (pendingData (t_fc t)) = total_pending t \<and> flow_ok (t_fc t) \<and> (\<forall>s\<in>ran (store_streams t). flow_ok (s_fc s)) \<and>
      (\<exists>ids. activeStreams t = Some ids \<and> distinct ids \<and> length ids \<le> unat (maxStreams t) \<and>
        (\<forall>i\<in>set ids. i mod 2 = 1 \<and> i \<le> maxStreamID t \<and> (\<exists>s. store_streams t i = Some s \<and> s_state s \<noteq> streamDone))))"
proof -
  have ok: "server_inv t" "calm t" using runs_ok [OF assms] by (simp_all add: server_ok_def)
  have "uint (pendingData (t_fc t)) = total_pending t \<and> flow_ok (t_fc t) \<and> (\<forall>s\<in>ran (store_streams t). flow_ok (s_fc s))" if "t_state t \<noteq> closing"
    using ok(1) that by (auto simp: server_inv_def flow_core_def stream_flow_def ran_def)
  moreover have "\<exists>ids. activeStreams t = Some ids \<and> distinct ids \<and> length ids \<le> unat (maxStreams t) \<and>
      (\<forall>i\<in>set ids. i mod 2 = 1 \<and> i \<le> maxStreamID t \<and> (\<exists>s. store_streams t i = Some s \<and> s_state s \<noteq> streamDone))" if "t_state t \<noteq> closing"
    using ok(1) that by (fastforce simp: server_inv_def active_core_def split: option.splits)
  ultimately show ?thesis using ok(2) by (simp add: calm_def)
qed

text \<open>A connection that received five bytes on its first stream.\<close>

definition fresh_server :: "Encoder \<Rightarrow> http2Server" where
  "fresh_server enc = the (newHTTP2Server 10 0 enc True True)"

definition one_stream :: "Encoder \<Rightarrow> http2Server" where
  "one_stream enc =
     fst (HandleStreams_turn \<lparr>kep_MinTime = 0, kep_PermitWithoutStream = False\<rparr> (\<lambda>_. None :: bytes option) None (ReadMeta 1 [] False) (fresh_server enc))"

definition five_bytes :: "Encoder \<Rightarrow> http2Server" where
  "five_bytes enc =
     fst (HandleStreams_turn \<lparr>kep_MinTime = 0, kep_PermitWithoutStream = False\<rparr> (\<lambda>_. None :: bytes option) None
       (ReadOther (DataFrame \<lparr>fh_valid = True, fh_Type = FrameData, fh_Flags = 0, fh_Length = 5, fh_StreamID = 1\<rparr> [1, 2, 3, 4, 5])) (one_stream enc))"

lemma fresh_server_runs: "server_runs True 10 (fresh_server enc)"
  by (rule run_new [of 10 0 enc True True]) (simp add: fresh_server_def newHTTP2Server_def Let_def)

lemma fresh_server_simps:
  "t_state (fresh_server enc) = reachable" "activeStreams (fresh_server enc) = Some []" "maxStreams (fresh_server enc) = 10"
  "maxStreamID (fresh_server enc) = 0" "t_fc (fresh_server enc) = newInFlow 1048560" "t_shutdown (fresh_server enc) = False"
  "store_streams (fresh_server enc) = Map.empty" "t_now (fresh_server enc) = 0" "t_panicked (fresh_server enc) = False"
  "streamSendQuota (fresh_server enc) = 65535" "t_hEnc (fresh_server enc) = enc"
  by (simp_all add: fresh_server_def newHTTP2Server_def Let_def initialConnWindowSize_def initialWindowSize_def defaultWindowSize_def)

lemma one_stream_runs: "server_runs True 10 (one_stream enc)"
  by (rule run_turn [OF fresh_server_runs, where r = "ReadMeta 1 [] False"]) (simp_all add: one_stream_def prod_eq_iff)

definition first_stream :: Stream where
  "first_stream = \<lparr>s_state = streamActive, s_fc = newInFlow 65535, s_buf = newRecvBuffer, s_sendQuotaPool = newQuotaPool 65535, s_canceled = False,
     s_recvCompress = [], s_method = [], s_timeout = None, s_headerOk = False, s_header = [], s_trailer = [], s_sendCompress = []\<rparr>"

lemma one_stream_simps:
  "t_state (one_stream enc) = reachable" "activeStreams (one_stream enc) = Some [1]" "t_fc (one_stream enc) = newInFlow 1048560"
  "store_streams (one_stream enc) = [1 \<mapsto> first_stream]" "streamSendQuota (one_stream enc) = 65535" "t_shutdown (one_stream enc) = False"
  "t_hEnc (one_stream enc) = enc"
  by (simp_all add: one_stream_def HandleStreams_turn_def operateHeaders_def Let_def fresh_server_simps upd_stream_def first_stream_def
      initialWindowSize_def defaultWindowSize_def decodeState0_def)

lemma five_bytes_runs: "server_runs True 10 (five_bytes enc)"
  by (rule run_turn [OF one_stream_runs, where r = "ReadOther (DataFrame \<lparr>fh_valid = True, fh_Type = FrameData, fh_Flags = 0, fh_Length = 5, fh_StreamID = 1\<rparr> [1, 2, 3, 4, 5])"])
    (simp_all add: five_bytes_def prod_eq_iff data_frame_ok_def Flags_Has_def FlagDataPadded_def)

lemma five_bytes_state: "t_state (five_bytes enc) = reachable" "pendingData (t_fc (five_bytes enc)) = 5"
  by (simp_all add: five_bytes_def HandleStreams_turn_def handleData_def data_quota_def Let_def one_stream_simps getStream_def onData_def newInFlow_def
      first_stream_def Flags_Has_def FlagDataPadded_def FlagDataEndStream_def upd_stream_def stream_write_def)

theorem server_quota_balanced_witness:
  "\<forall>enc. server_runs True 10 (five_bytes enc) \<and> t_state (five_bytes enc) \<noteq> closing \<and> total_pending (five_bytes enc) = 5"
  using server_quota_balanced [OF five_bytes_runs] five_bytes_runs by (simp add: five_bytes_state)

text \<open>C27: the goroutine \<open>keepalive\<close> may bring the process down. When the timer for the age of the connection has fired by the
  time it sees the shutdown, its \<open>select\<close> may take the timer; the state then changes from closing back to draining, so that the
  \<open>Close\<close> of the receiving goroutine, whose connection is gone, closes the channel again and panics. When it takes the
  shutdown instead, nothing happens.\<close>

theorem late_age_timer_panics:
  assumes "server_runs True n t" "t_state t = closing" "ka_place k = KaLoop" "ka_maxAge k \<le> t_now t"
  shows "ka_ready CaseMaxAge k t \<and> ka_ready CaseShutdown k t \<and>
    t_panicked (fst (HandleStreams_turn kep us tap ReadError (snd (keepalive_turn kp CaseMaxAge (k, t))))) \<and>
    \<not> t_panicked (fst (HandleStreams_turn kep us tap ReadError (snd (keepalive_turn kp CaseShutdown (k, t)))))"
proof -
  have "calm t" using runs_ok [OF assms(1)] by (simp add: server_ok_def)
  then have "t_shutdown t" "\<not> t_panicked t" using assms(2) by (simp_all add: calm_def)
  then show ?thesis using assms(2-4)
    by (simp add: ka_ready_def keepalive_turn_def HandleStreams_turn_def Let_def srv_Drain_def srv_Close_def ctl_put_def)
qed

theorem late_age_timer_panics_witness:
  "\<forall>enc. t_panicked (fst (HandleStreams_turn \<lparr>kep_MinTime = 0, kep_PermitWithoutStream = False\<rparr> (\<lambda>_. None :: bytes option) None ReadError
      (snd (keepalive_turn (kp_defaults 0 \<lparr>kp_MaxConnectionIdle = 0, kp_MaxConnectionAge = 60, kp_MaxConnectionAgeGrace = 0, kp_Time = 0, kp_Timeout = 0\<rparr>)
        CaseMaxAge
        (\<lparr>ka_maxIdle = infinity, ka_maxAge = 60, ka_keepalive = 7200, ka_pingSent = False, ka_place = KaLoop\<rparr>,
         (fst (srv_Close (fresh_server enc)))\<lparr>t_now := 60\<rparr>)))))"
proof
  fix enc
  let ?t = "(fst (srv_Close (fresh_server enc)))\<lparr>t_now := 60\<rparr>"
  have "server_runs True 10 ?t"
    by (rule run_clock [OF run_close [OF fresh_server_runs]]) (simp add: srv_Close_def Let_def fresh_server_simps)
  moreover have "t_state ?t = closing" by simp
  ultimately show "t_panicked (fst (HandleStreams_turn \<lparr>kep_MinTime = 0, kep_PermitWithoutStream = False\<rparr> (\<lambda>_. None :: bytes option) None ReadError
      (snd (keepalive_turn (kp_defaults 0 \<lparr>kp_MaxConnectionIdle = 0, kp_MaxConnectionAge = 60, kp_MaxConnectionAgeGrace = 0, kp_Time = 0, kp_Timeout = 0\<rparr>)
        CaseMaxAge
        (\<lparr>ka_maxIdle = infinity, ka_maxAge = 60, ka_keepalive = 7200, ka_pingSent = False, ka_place = KaLoop\<rparr>, ?t)))))"
    using late_age_timer_panics [of 10 ?t "\<lparr>ka_maxIdle = infinity, ka_maxAge = 60, ka_keepalive = 7200, ka_pingSent = False, ka_place = KaLoop\<rparr>",
        where us = "\<lambda>_. None :: bytes option"] by simp
qed

text \<open>
  Padding is given back twice when its frame overruns the window of its stream: once before the check, and again with all
  that the stream holds. The counter of the connection then underflows, and more is to be given back than was received.
\<close>

definition data_header :: "Flags \<Rightarrow> 32 word \<Rightarrow> 32 word \<Rightarrow> FrameHeader" where
  "data_header flags len sid = \<lparr>fh_valid = True, fh_Type = FrameData, fh_Flags = flags, fh_Length = len, fh_StreamID = sid\<rparr>"

lemma padding_returned_twice:
  assumes "length data = 65530" "t0 = fst (HandleStreams_turn kep us tap (ReadOther (DataFrame (data_header 0 65530 1) data)) (one_stream enc))"
    "t2 = fst (HandleStreams_turn kep us tap (ReadOther (DataFrame (data_header FlagDataPadded 10 1) [1, 2, 3, 4])) t0)"
  shows "pendingData (t_fc t2) = - 6 \<and> total_pending t2 = 0 \<and> t_state t2 = reachable \<and> pendingUpdate (t_fc t2) = 65540 + 6"
proof -
  note flags = Flags_Has_def FlagDataPadded_def FlagDataEndStream_def data_header_def
  define t1 where "t1 = t0\<lparr>t_activity := True\<rparr>"
  obtain s where t1: "t_fc t1 = (newInFlow 1048560)\<lparr>pendingData := 65530\<rparr>" "activeStreams t1 = Some [1]" "store_streams t1 = [1 \<mapsto> s]"
    "s_fc s = (newInFlow 65535)\<lparr>pendingData := 65530\<rparr>" "s_state s = streamActive" "t_state t1 = reachable"
    using assms(1,2) by (simp add: t1_def HandleStreams_turn_def handleData_def data_quota_def Let_def one_stream_simps getStream_def onData_def newInFlow_def
        first_stream_def flags upd_stream_def stream_write_def)
  have t2: "t2 = handleData (data_header FlagDataPadded 10 1) [1, 2, 3, 4] t1" unfolding assms(3) t1_def by (simp add: HandleStreams_turn_def Let_def)
  define u where "u = conn_onRead 6 (t1\<lparr>t_fc := (t_fc t1)\<lparr>pendingData := 65540\<rparr>\<rparr>)"
  have u: "t_fc u = (newInFlow 1048560)\<lparr>pendingData := 65534, pendingUpdate := 6\<rparr>" "activeStreams u = Some [1]" "store_streams u = [1 \<mapsto> s]" "t_state u = reachable"
    using t1 by (simp_all add: u_def conn_onRead_def onRead_def newInFlow_def Let_def ctl_put_def)
  define v where "v = upd_stream 1 (s\<lparr>s_fc := (newInFlow 65535)\<lparr>pendingData := 65540\<rparr>\<rparr>) u"
  have "onData 10 (t_fc t1) = ((t_fc t1)\<lparr>pendingData := 65540\<rparr>, None)" using t1(1) by (simp add: onData_def newInFlow_def)
  moreover have "data_quota (data_header FlagDataPadded 10 1) [1, 2, 3, 4] s (t1\<lparr>t_fc := (t_fc t1)\<lparr>pendingData := 65540\<rparr>\<rparr>) =
      (ctl_put (resetStream 1 ErrCodeFlowControl) (closeStream 1 v), False)"
    using t1(4,5) u_def by (simp add: data_quota_def flags Let_def onData_def newInFlow_def v_def)
  ultimately have "t2 = ctl_put (resetStream 1 ErrCodeFlowControl) (closeStream 1 v)"
    using t1(2,3) unfolding t2 handleData_def by (simp add: Let_def getStream_def data_header_def)
  then obtain s' where t2: "pendingData (t_fc t2) = - 6" "pendingUpdate (t_fc t2) = 65546" "activeStreams t2 = Some []"
    "store_streams t2 = [1 \<mapsto> s']" "pendingData (s_fc s') = 0" "t_state t2 = reachable"
    using u by (simp add: v_def closeStream_def forget_stream_def resetPendingData_def Let_def conn_onRead_def onRead_def newInFlow_def ctl_put_def upd_stream_def)
  show ?thesis using t2 by (simp add: total_pending_def pend_def)
qed

text \<open>So both restrictions of a lawful run are needed: there are other runs that panic, and other runs in which the
  accounts do not balance.\<close>

lemma unlawful_runs:
  "\<exists>t. server_runs False 10 t \<and> t_panicked t"
  "\<exists>t. server_runs False 10 t \<and> t_state t = reachable \<and> uint (pendingData (t_fc t)) \<noteq> total_pending t"
proof -
  fix enc :: Encoder
  let ?turn = "HandleStreams_turn \<lparr>kep_MinTime = 0, kep_PermitWithoutStream = False\<rparr> (\<lambda>_. None :: bytes option) None"
  let ?kp = "kp_defaults 0 \<lparr>kp_MaxConnectionIdle = 0, kp_MaxConnectionAge = 60, kp_MaxConnectionAgeGrace = 0, kp_Time = 0, kp_Timeout = 0\<rparr>"
  have fresh: "server_runs False 10 (fresh_server enc)"
    by (rule run_new [of 10 0 enc True True]) (simp add: fresh_server_def newHTTP2Server_def Let_def)
  let ?t = "(fst (srv_Close (fresh_server enc)))\<lparr>t_now := 60\<rparr>"
  let ?k = "\<lparr>ka_maxIdle = infinity, ka_maxAge = 60, ka_keepalive = 7200, ka_pingSent = False, ka_place = KaLoop\<rparr>"
  let ?u = "snd (keepalive_turn ?kp CaseMaxAge (?k, ?t))"
  have t: "server_runs False 10 ?t"
    by (rule run_clock [OF run_close [OF fresh]]) (simp add: srv_Close_def Let_def fresh_server_simps)
  have "server_runs False 10 ?u"
    by (rule run_keepalive [OF t, where c = CaseMaxAge and k = ?k and kp = ?kp]) (simp_all add: ka_ready_def prod_eq_iff)
  then have "server_runs False 10 (fst (?turn ReadError ?u))" by (rule run_turn [where r = ReadError]) (simp_all add: prod_eq_iff)
  moreover have "t_panicked (fst (?turn ReadError ?u))"
    by (simp add: keepalive_turn_def HandleStreams_turn_def Let_def srv_Drain_def srv_Close_def ctl_put_def fresh_server_simps)
  ultimately show "\<exists>t. server_runs False 10 t \<and> t_panicked t" by blast
  let ?data = "replicate 65530 (0 :: byte)"
  let ?d = "ReadOther (DataFrame (data_header 0 65530 1) ?data)" and ?p = "ReadOther (DataFrame (data_header FlagDataPadded 10 1) [1, 2, 3, 4])"
  have "server_runs False 10 (one_stream enc)"
    by (rule run_turn [OF fresh, where r = "ReadMeta 1 [] False"]) (simp_all add: one_stream_def prod_eq_iff)
  then have "server_runs False 10 (fst (?turn ?d (one_stream enc)))"
    by (rule run_turn [where r = ?d]) (simp_all add: data_frame_parsed_def data_header_def prod_eq_iff)
  then have "server_runs False 10 (fst (?turn ?p (fst (?turn ?d (one_stream enc)))))"
    by (rule run_turn [where r = ?p]) (simp_all add: data_frame_parsed_def data_header_def Flags_Has_def FlagDataPadded_def prod_eq_iff)
  moreover note padding_returned_twice [OF length_replicate refl refl, of "\<lparr>kep_MinTime = 0, kep_PermitWithoutStream = False\<rparr>"
      "\<lambda>_. None :: bytes option" None "0 :: byte" enc]
  ultimately show "\<exists>t. server_runs False 10 t \<and> t_state t = reachable \<and> uint (pendingData (t_fc t)) \<noteq> total_pending t"
    by (intro exI [of _ "fst (?turn ?p (fst (?turn ?d (one_stream enc))))"]) simp
qed

end
