(* ===== verification/HpackSync.thy ===== *)
theory HpackSync
  imports Hpack "HOL-Library.Sublist"
begin

text \<open>
  The encoder and the decoder of HPACK stay in step: whatever fields and table sizes the encoder is given,
  the decoder emits exactly the fields that were written.
\<close>

unbundle bit_operations_syntax

section \<open>Integers\<close>

lemma last_byte:
  fixes j :: uint64
  assumes "j < 128"
  shows "(ucast (ucast j AND 127 :: byte) :: uint64) = j" and "(ucast j :: byte) AND 128 = 0"
proof -
  note j = assms [unfolded uint64_less_128]
  have "(ucast (ucast j AND 127 :: byte) :: uint64) = take_bit 7 j"
    unfolding byte_and127 by (rule bit_word_eqI) (auto simp: bit_simps)
  with j show "(ucast (ucast j AND 127 :: byte) :: uint64) = j" by simp
  have "\<not> bit (take_bit 7 j) 7" by (simp add: bit_simps)
  then show "(ucast j :: byte) AND 128 = 0" unfolding j byte_and128 by (simp add: bit_simps)
qed

lemma more_byte:
  fixes j :: uint64
  shows "(ucast (ucast (0x80 OR (j AND 0x7f)) AND 127 :: byte) :: uint64) = take_bit 7 j"
    and "(ucast (0x80 OR (j AND 0x7f)) :: byte) AND 128 \<noteq> 0"
proof -
  show "(ucast (ucast (0x80 OR (j AND 0x7f)) AND 127 :: byte) :: uint64) = take_bit 7 j"
    unfolding and127 byte_and127 by (rule bit_word_eqI) (auto simp: bit_simps bit_128)
  show "(ucast (0x80 OR (j AND 0x7f)) :: byte) AND 128 \<noteq> 0"
    unfolding byte_and128 by (simp add: bit_simps bit_128)
qed

lemma read_rest_append:
  assumes "unat j < 2 ^ (63 - m)" "m < 63"
  shows "read_rest i m (append_rest j @ rest) = Ok (i + push_bit m j, rest)"
  using assms
proof (induction j arbitrary: i m rule: append_rest.induct)
  case (1 j)
  show ?case
  proof (cases "128 \<le> j")
    case False
    then show ?thesis using last_byte [of j] by (subst append_rest.simps) (simp add: Let_def)
  next
    case True
    have "(2 :: nat) ^ 7 \<le> unat j" using True by (simp add: word_le_nat_alt)
    from order_le_less_trans [OF this 1(2)] have "(2 :: nat) ^ 7 < 2 ^ (63 - m)" .
    then have m: "7 < 63 - m" by (rule power_less_imp_less_exp [rotated]) simp
    have pow: "(2 :: nat) ^ (63 - m) = 2 ^ 7 * 2 ^ (63 - (m + 7))"
      unfolding power_add [symmetric] using m by (intro arg_cong [of _ _ "\<lambda>k. 2 ^ k"]) simp
    have "unat (drop_bit 7 j) < 2 ^ (63 - (m + 7))"
      using 1(2) unfolding pow by (simp add: unat_drop_bit_div less_mult_imp_div_less mult.commute)
    then have "read_rest i' (m + 7) (append_rest (drop_bit 7 j) @ rest) = Ok (i' + push_bit (m + 7) (drop_bit 7 j), rest)" for i'
      using True m by (intro 1(1)) simp_all
    moreover have "push_bit m (take_bit 7 j) + push_bit (m + 7) (drop_bit 7 j) = push_bit m j"
      by (metis add.commute bits_ident push_bit_add push_bit_push_bit)
    ultimately show ?thesis using True m more_byte [of j]
      by (subst append_rest.simps) (simp add: Let_def add.assoc)
  qed
qed

text \<open>The bytes of an integer; in the first one the bits above the prefix may be set.\<close>

definition venc :: "nat \<Rightarrow> uint64 \<Rightarrow> bytes" where
  "venc n i = appendVarInt [] n i"

lemma appendVarInt_venc: "appendVarInt dst n i = dst @ venc n i"
  by (simp add: venc_def appendVarInt_def Let_def)

lemma varint_prefix_mask: "varint_prefix n = mask n"
  by (simp add: varint_prefix_def mask_eq_exp_minus_1)

lemma venc_cases:
  "venc n i = (if i < mask n then [ucast i] else ucast (mask n :: uint64) # append_rest (i - mask n))"
  by (simp add: venc_def appendVarInt_def varint_prefix_mask Let_def)

lemma less_mask: "(i :: uint64) < mask n \<Longrightarrow> take_bit n i = i"
proof -
  assume "i < mask n"
  then have "uint i < mask (min 64 n)" by (simp add: word_less_def uint_mask_eq)
  also have "\<dots> < 2 ^ min 64 n" by (simp add: mask_eq_exp_minus_1)
  also have "\<dots> \<le> 2 ^ n" by (rule power_increasing) simp_all
  finally show "take_bit n i = i" by (simp add: take_bit_eq_mask mask_eq_iff)
qed

lemma take_bit_ucast: "n \<le> 8 \<Longrightarrow> take_bit n x = x \<Longrightarrow> take_bit n (ucast (x :: uint64) :: byte) = ucast x"
  and ucast_ucast_low: "n \<le> 8 \<Longrightarrow> take_bit n x = x \<Longrightarrow> ucast (ucast (x :: uint64) :: byte) = x"
proof -
  assume n: "n \<le> 8" "take_bit n x = x"
  then have bit: "k < n" if "bit x k" for k using that by (metis bit_take_bit_iff)
  show "take_bit n (ucast x :: byte) = ucast x" "ucast (ucast x :: byte) = x"
    by (auto intro!: bit_word_eqI simp: bit_simps dest: bit order_less_le_trans [OF bit n(1)])
qed

lemma venc_Cons:
  assumes "n < 8"
  obtains v vs where "venc n i = v # vs" "take_bit n v = v"
proof (cases "i < mask n")
  case True
  then show thesis using that [of "ucast i" "[]"] less_mask [OF True] take_bit_ucast [of n i] assms by (simp add: venc_cases)
next
  case False
  then show thesis using that [of "ucast (mask n :: uint64)"] take_bit_ucast [of n "mask n"] assms by (simp add: venc_cases)
qed

lemma readVarInt_venc:
  assumes "venc n i = v # vs" "take_bit n t = 0" "0 < n" "n < 8" "unat i < 2 ^ 63"
  shows "readVarInt n ((v OR t) # vs @ rest) = Ok (i, rest)"
proof -
  have t: "\<not> bit t k" if "k < n" for k
    using arg_cong [OF assms(2), of "\<lambda>w. bit w k"] that by (simp add: bit_take_bit_iff)
  have low: "ucast (v OR t) AND varint_prefix n = (take_bit n (ucast v) :: uint64)"
    unfolding varint_prefix_mask take_bit_eq_mask [symmetric]
    by (rule bit_word_eqI) (auto simp: bit_simps t)
  show ?thesis
  proof (cases "i < mask n")
    case True
    then have "v = ucast i" "vs = []" using assms(1) by (auto simp: venc_cases)
    with True low ucast_ucast_low [of n i] less_mask [OF True] assms(3,4) show ?thesis
      by (simp add: readVarInt_def varint_prefix_mask)
  next
    case False
    then have "v = ucast (mask n :: uint64)" "vs = append_rest (i - mask n)" using assms(1) by (auto simp: venc_cases)
    moreover have "unat (i - mask n) < 2 ^ 63" using assms(5) False
      by (metis le_less_trans not_less unat_sub diff_le_self)
    ultimately show ?thesis using low assms(3,4) ucast_ucast_low [of n "mask n"]
      by (simp add: readVarInt_def varint_prefix_mask read_rest_append)
  qed
qed

section \<open>Strings\<close>

lemma or_at_append [simp]: "or_at (length dst) b (dst @ x # xs) = dst @ (x OR b) # xs"
  by (simp add: or_at_def)

lemma or_mask:
  assumes "take_bit n v = v" "take_bit n m = 0"
  shows "(v OR t) AND m = t AND (m :: byte)"
proof -
  have "v AND m = take_bit n (v AND m)" by (metis assms(1) take_bit_and and.commute and.left_commute take_bit_eq_mask)
  also have "\<dots> = 0" by (simp add: assms(2))
  finally show ?thesis by (simp add: bit.conj_disj_distrib2)
qed

lemma hpack_string:
  assumes "length s < 2 ^ 32"
  obtains x xs where "\<And>dst. appendHpackString dst s = Ok (dst @ x # xs)"
    "\<And>d rest. dec_maxStrLen d = 0 \<Longrightarrow> readString d (x # xs @ rest) True = Ok (s, rest)"
proof -
  let ?bs = "bytes_of_string s" and ?n = "HuffmanEncodeLength (bytes_of_string s)"
  have len: "unat (word_of_nat (length s) :: uint64) = length s" using assms by (intro unat_of_nat64) simp
  obtain e0 k where e0: "AppendHuffmanString [] ?bs = Ok ([] @ e0)" "path_bits e0 = symbols_bits ?bs @ replicate k True" "k < 8"
    by (rule AppendHuffmanString_bits)
  have e: "AppendHuffmanString dst ?bs = Ok (dst @ e0)" for dst
  proof -
    obtain e k' where e: "AppendHuffmanString dst ?bs = Ok (dst @ e)" "path_bits e = symbols_bits ?bs @ replicate k' True" "k' < 8"
      by (rule AppendHuffmanString_bits)
    have "8 * length e = length (symbols_bits ?bs) + k'" "8 * length e0 = length (symbols_bits ?bs) + k"
      using arg_cong [OF e(2), of length] arg_cong [OF e0(2), of length] by simp_all
    then have "k' = k" using e(3) e0(3) by presburger
    then have "path_bits e = path_bits e0" unfolding e(2) e0(2) by simp
    then have "e = e0" by (simp only: path_bits_inject)
    with e(1) show ?thesis by simp
  qed
  have dec: "huffmanDecode 0 e0 = Ok ?bs" by (rule huffmanDecode_symbols [OF e0(2,3)]) simp
  have n: "unat ?n = length e0" using assms by (intro HuffmanEncodeLength_exact [OF e0(2,3)]) simp
  show thesis
  proof (cases "?n < word_of_nat (length ?bs)")
    case True
    obtain v vs where v: "venc 7 ?n = v # vs" "take_bit 7 v = v" by (rule venc_Cons [of 7]) simp
    have small: "unat ?n < length s" using True len by (simp add: word_less_nat_alt)
    then have "readVarInt 7 ((v OR 0x80) # vs @ rest) = Ok (?n, rest)" for rest
      using assms by (intro readVarInt_venc [OF v(1)]) simp_all
    moreover have "(v OR 0x80) AND 128 \<noteq> 0" using or_mask [OF v(2), of 128] by simp
    ultimately show thesis using True v e dec n
      by (intro that [of "v OR 0x80" "vs @ e0"]) (simp_all add: appendHpackString_def appendVarInt_venc Let_def readString_def)
  next
    case False
    obtain v vs where v: "venc 7 (word_of_nat (length s)) = v # vs" "take_bit 7 v = v" by (rule venc_Cons [of 7]) simp
    have "readVarInt 7 ((v OR 0) # vs @ rest) = Ok (word_of_nat (length s), rest)" for rest
      using assms len by (intro readVarInt_venc [OF v(1)]) simp_all
    moreover have "v AND 128 = 0" using or_mask [OF v(2), of 128 0] by simp
    ultimately show thesis using False v len
      by (intro that [of v "vs @ ?bs"]) (simp_all add: appendHpackString_def appendVarInt_venc Let_def readString_def)
  qed
qed

section \<open>Indices\<close>

lemma table_len_static [simp]: "table_len staticTable = 61" "ents staticTable = staticTableEntries"
  by (simp_all add: table_len_def staticTable_facts)

lemma dec_at_static:
  assumes "k < 61"
  shows "dec_at (word_of_nat (k + 1)) d = Ok (Some (staticTableEntries ! k))"
proof -
  let ?i = "word_of_nat (k + 1) :: uint64"
  have i: "unat ?i = k + 1" using assms by (intro unat_of_nat64) simp
  then have "?i \<noteq> 0" by (metis Suc_eq_plus1 nat.distinct(1) unsigned_0)
  moreover have "?i \<le> 61" using i assms by (simp add: word_le_nat_alt)
  moreover have "uint (?i - 1) = int k"
    using assms by (simp add: uint_nat unat_of_nat64 [of k, simplified])
  ultimately show ?thesis
    using assms by (simp add: dec_at_def index_def del: of_nat_add of_nat_Suc)
qed

lemma dec_at_dynamic:
  assumes "suffix es (ents (dt_table (dec_dynTab d)))" "k < length es" "length (ents (dt_table (dec_dynTab d))) < 2 ^ 32"
  shows "dec_at (word_of_nat (length es - k) + 61) d = Ok (Some (es ! k))"
proof -
  let ?ds = "ents (dt_table (dec_dynTab d))" and ?n = "length es - k + 61"
  obtain pre where ds: "?ds = pre @ es" using assms(1) by (auto simp: suffix_def)
  define i where "i = (word_of_nat (length es - k) + 61 :: uint64)"
  have "i = word_of_nat ?n" by (simp add: i_def)
  moreover have "sint (word_of_nat m :: uint64) = int m" if "m < 2 ^ 63" for m
    using that by (simp add: signed_of_nat signed_take_bit_int_eq_self)
  moreover have "?n < 2 ^ 63" "?n < 2 ^ 64" using assms(3) ds by simp_all
  ultimately have i: "unat i = ?n" "sint i = int ?n" using unat_of_nat64 by presburger+
  have "i \<noteq> 0" "\<not> i \<le> 61" using i(1) assms(2) by (auto simp: word_le_nat_alt dest: arg_cong [of _ _ unat])
  moreover have "\<not> word_of_nat (maxTableIndex d) < i"
    using i(1) assms(2,3) unat_of_nat64 [of "maxTableIndex d"] by (simp add: maxTableIndex_def table_len_def ds word_less_nat_alt)
  moreover have "nat (int (length ?ds) - (sint i - 61)) = length pre + k" "0 \<le> int (length ?ds) - (sint i - 61)"
    "int (length ?ds) - (sint i - 61) < int (length ?ds)"
    using assms(2) by (simp_all add: i ds)
  ultimately have "dec_at i d = Ok (Some (?ds ! (length pre + k)))"
    by (simp add: dec_at_def index_def table_len_def Let_def)
  then show ?thesis by (simp add: i_def ds nth_append)
qed

definition refers :: "'s Decoder \<Rightarrow> uint64 \<Rightarrow> HeaderField \<Rightarrow> bool" where
  "refers d idx g \<longleftrightarrow> dec_at idx d = Ok (Some g) \<and> unat idx < 2 ^ 63 \<and> idx \<noteq> 0"

lemma static_refers:
  assumes "k < 61"
  shows "refers d (word_of_nat (hpack_index True staticTable k)) (staticTableEntries ! k)"
proof -
  have "unat (word_of_nat (k + 1) :: uint64) = k + 1" using assms by (intro unat_of_nat64) simp
  then have "unat (word_of_nat (k + 1) :: uint64) < 2 ^ 63" "(word_of_nat (k + 1) :: uint64) \<noteq> 0"
    using assms by (auto dest: arg_cong [of _ _ unat] simp del: of_nat_add)
  with dec_at_static [OF assms] show ?thesis by (simp add: refers_def hpack_index_def del: of_nat_add of_nat_Suc)
qed

lemma dynamic_refers:
  assumes "suffix (ents t) (ents (dt_table (dec_dynTab d)))" "k < length (ents t)" "length (ents (dt_table (dec_dynTab d))) < 2 ^ 32"
  shows "refers d (word_of_nat (hpack_index False t k) + 61) (ents t ! k)"
proof -
  let ?n = "length (ents t) - k + 61" and ?i = "word_of_nat (length (ents t) - k) + 61 :: uint64"
  have "?i = word_of_nat ?n" by simp
  moreover have "unat (word_of_nat ?n :: uint64) = ?n"
    using assms(3) suffix_length_le [OF assms(1)] by (intro unat_of_nat64) simp
  ultimately have i: "unat ?i = ?n" by (simp only:)
  then have "unat ?i < 2 ^ 63" "?i \<noteq> 0"
    using assms(3) suffix_length_le [OF assms(1)] unat_eq_zero [of ?i] by (simp_all only: i) simp_all
  with dec_at_dynamic [OF assms] show ?thesis by (simp add: refers_def hpack_index_def del: of_nat_diff)
qed

text \<open>What \<open>searchTable\<close> finds is what the decoder reads under the index, when the entries of the encoder are
  the newest entries of the decoder.\<close>

lemma searchTable_refers:
  assumes "table_inv (dt_table (enc_dynTab e))" "length (ents (dt_table (dec_dynTab d))) < 2 ^ 32"
    and "suffix (ents (dt_table (enc_dynTab e))) (ents (dt_table (dec_dynTab d)))"
  shows "(\<exists>idx g. searchTable f e = Ok (idx, True) \<and> refers d idx g \<and> field_pair g = field_pair f \<and> \<not> hf_Sensitive f) \<or>
    (\<exists>idx g. searchTable f e = Ok (idx, False) \<and> refers d idx g \<and> hf_Name g = hf_Name f) \<or>
    searchTable f e = Ok (0, False)"
proof -
  let ?t = "dt_table (enc_dynTab e)"
  note search = searchTable_def table_search_eq [OF staticTable_facts(1), of True f] table_search_eq [OF assms(1), of False f]
  note facts = static_refers dynamic_refers [OF assms(3) _ assms(2)]
  define s where "s = (if hf_Sensitive f then None else last_index (\<lambda>g. field_pair g = field_pair f) staticTableEntries)"
  define u where "u = (if hf_Sensitive f then None else last_index (\<lambda>g. field_pair g = field_pair f) (ents ?t))"
  define sn where "sn = last_index (\<lambda>g. hf_Name g = hf_Name f) staticTableEntries"
  define un where "un = last_index (\<lambda>g. hf_Name g = hf_Name f) (ents ?t)"
  note defs = s_def [symmetric] u_def [symmetric] sn_def [symmetric] un_def [symmetric]
  have s: "k < 61 \<and> field_pair (staticTableEntries ! k) = field_pair f \<and> \<not> hf_Sensitive f" if "s = Some k" for k
    using that by (auto simp: s_def dest: last_index_Some split: if_splits)
  have u: "k < length (ents ?t) \<and> field_pair (ents ?t ! k) = field_pair f \<and> \<not> hf_Sensitive f" if "u = Some k" for k
    using that by (auto simp: u_def dest: last_index_Some split: if_splits)
  have sn: "k < 61 \<and> hf_Name (staticTableEntries ! k) = hf_Name f" if "sn = Some k" for k
    using that by (auto simp: sn_def dest: last_index_Some)
  have un: "k < length (ents ?t) \<and> hf_Name (ents ?t ! k) = hf_Name f" if "un = Some k" for k
    using that by (auto simp: un_def dest: last_index_Some)
  have nz: "(word_of_nat (hpack_index True staticTable k) :: uint64) \<noteq> 0" if "k < 61" for k
    using static_refers [OF that, of d] by (simp add: refers_def)
  have nzd: "(word_of_nat (hpack_index False ?t k) :: uint64) \<noteq> 0" if "k < length (ents ?t)" for k
  proof -
    have "0 < hpack_index False ?t k" "hpack_index False ?t k < 2 ^ 64"
      using that assms(2) suffix_length_le [OF assms(3)] by (simp_all add: hpack_index_def)
    with unat_of_nat64 [OF this(2)] show ?thesis by (auto dest: arg_cong [of _ _ unat])
  qed
  have eq: "searchTable f e = Ok
      (case s of Some k \<Rightarrow> (word_of_nat (hpack_index True staticTable k), True)
       | None \<Rightarrow> (case u of Some k \<Rightarrow> (word_of_nat (hpack_index False ?t k) + 61, True)
         | None \<Rightarrow> (case sn of Some k \<Rightarrow> (word_of_nat (hpack_index True staticTable k), False)
           | None \<Rightarrow> (case un of Some k \<Rightarrow> (word_of_nat (hpack_index False ?t k) + 61, False) | None \<Rightarrow> (0, False)))))"
    unfolding search table_len_static defs using nz nzd s u sn un
    by (cases s; cases u; cases sn; cases un) (simp_all split: option.split)
  show ?thesis
    unfolding eq using facts s u sn un
    by (cases s; cases u; cases sn; cases un) (simp_all split: option.split, blast+)
qed

section \<open>Representations\<close>

text \<open>A decoder that collects the fields it is given, with nothing left over from an earlier block.\<close>

definition collecting :: "HeaderField list Decoder \<Rightarrow> bool" where
  "collecting d \<longleftrightarrow> dec_maxStrLen d = 0 \<and> dec_emitEnabled d \<and> dec_emit d = collect_fields \<and> dec_saveBuf d = []"

lemma callEmit_collecting: "collecting d \<Longrightarrow> callEmit hf d = (d\<lparr>dec_env := dec_env d @ [hf]\<rparr>, Ok ())"
  by (cases d) (simp add: callEmit_def collecting_def collect_fields_def)

lemma dec_at_buf [simp]: "dec_at i (d\<lparr>dec_buf := b\<rparr>) = dec_at i d"
  by (simp add: dec_at_def maxTableIndex_def)

lemma readString_buf [simp]: "readString (d\<lparr>dec_buf := b\<rparr>) = readString d"
proof -
  have "dec_maxStrLen (d\<lparr>dec_buf := b\<rparr>) = dec_maxStrLen d" by simp
  then show ?thesis unfolding fun_eq_iff readString_def by (simp only:) simp
qed

lemma collecting_upd [simp]:
  "collecting (d\<lparr>dec_buf := b\<rparr>) = collecting d" "collecting (d\<lparr>dec_env := v\<rparr>) = collecting d"
  "collecting (d\<lparr>dec_dynTab := dt\<rparr>) = collecting d"
  by (simp_all add: collecting_def)

lemma index_Cons0 [simp]: "(index (x # xs) 0 :: ('e, 'a) res) = Ok x"
  by (simp add: index_def)

lemma on_ok_Ok [simp]: "on_ok d (Ok x) f = f x"
  by (simp add: on_ok_def)

text \<open>What parsing the bytes \<open>b\<close> at the front of the buffer does.\<close>

definition parses :: "bytes \<Rightarrow> 's Decoder \<Rightarrow> ('s Decoder \<Rightarrow> 's Decoder) \<Rightarrow> bool" where
  "parses b d upd \<longleftrightarrow> b \<noteq> [] \<and> (\<forall>rest. parseHeaderFieldRepr (d\<lparr>dec_buf := b @ rest\<rparr>) = (upd (d\<lparr>dec_buf := rest\<rparr>), Ok ()))"

definition field_of :: "HeaderField \<Rightarrow> bool \<Rightarrow> HeaderField" where
  "field_of f s = \<lparr>hf_Name = hf_Name f, hf_Value = hf_Value f, hf_Sensitive = s\<rparr>"

lemma parse_indexed:
  assumes "collecting d" "refers d idx g"
  obtains b where "\<And>dst. appendIndexed dst idx = dst @ b" "parses b d (\<lambda>d. d\<lparr>dec_env := dec_env d @ [field_of g False]\<rparr>)"
proof -
  obtain v vs where v: "venc 7 idx = v # vs" "take_bit 7 v = v" by (rule venc_Cons [of 7]) simp
  have "readVarInt 7 ((v OR 0x80) # vs @ rest) = Ok (idx, rest)" for rest
    using assms(2) by (intro readVarInt_venc [OF v(1)]) (simp_all add: refers_def)
  moreover have "(v OR 0x80) AND 128 \<noteq> 0" using or_mask [OF v(2), of 128] by simp
  ultimately have "parses ((v OR 0x80) # vs) d (\<lambda>d. d\<lparr>dec_env := dec_env d @ [field_of g False]\<rparr>)"
    using assms by (simp add: parses_def parseHeaderFieldRepr_def parseFieldIndexed_def refers_def callEmit_collecting field_of_def)
  then show thesis using v by (intro that [of "(v OR 0x80) # vs"]) (simp_all add: appendIndexed_def appendVarInt_venc)
qed

lemma unat_ucast32: "unat (ucast (x :: 32 word) :: uint64) = unat x"
  using unsigned_less [of x, where ?'a = nat] by (simp add: unsigned_ucast_eq take_bit_nat_eq_self)

lemma parse_table_size:
  assumes "dt_setMaxSize sz (dec_dynTab d) = Ok dt" "sz \<le> dt_allowedMaxSize (dec_dynTab d)"
  obtains b where "\<And>dst. appendTableSize dst sz = dst @ b" "parses b d (\<lambda>d. d\<lparr>dec_dynTab := dt\<rparr>)"
proof -
  let ?i = "ucast sz :: uint64"
  obtain v vs where v: "venc 5 ?i = v # vs" "take_bit 5 v = v" by (rule venc_Cons [of 5]) simp
  have "readVarInt 5 ((v OR 0x20) # vs @ rest) = Ok (?i, rest)" for rest
    using unsigned_less [of sz, where ?'a = nat] by (intro readVarInt_venc [OF v(1)]) (simp_all add: unat_ucast32)
  moreover have "bit ((v OR 0x20) AND 240) 5" "\<not> bit (16 :: byte) 5" by (simp_all add: bit_simps)
  then have "(v OR 0x20) AND 240 \<noteq> 0" "(v OR 0x20) AND 240 \<noteq> 16" by auto
  moreover have "(v OR 0x20) AND 128 = 0" "(v OR 0x20) AND 192 \<noteq> 64" "(v OR 0x20) AND 224 = 32"
    using or_mask [OF v(2), of 128] or_mask [OF v(2), of 192] or_mask [OF v(2), of 224] by simp_all
  moreover have "\<not> ucast (dt_allowedMaxSize (dec_dynTab d)) < ?i"
    using assms(2) by (simp add: word_less_nat_alt word_le_nat_alt unat_ucast32)
  moreover have "(ucast ?i :: 32 word) = sz" by (rule bit_word_eqI) (auto simp: bit_simps)
  ultimately have "parses ((v OR 0x20) # vs) d (\<lambda>d. d\<lparr>dec_dynTab := dt\<rparr>)"
    using assms(1) by (simp add: parses_def parseHeaderFieldRepr_def parseDynamicTableSizeUpdate_def)
  then show thesis using v by (intro that [of "(v OR 0x20) # vs"]) (simp_all add: appendTableSize_def appendVarInt_venc)
qed

definition name_index :: "'s Decoder \<Rightarrow> uint64 \<Rightarrow> HeaderField \<Rightarrow> bool" where
  "name_index d idx f \<longleftrightarrow> idx = 0 \<or> (\<exists>g. refers d idx g \<and> hf_Name g = hf_Name f)"

definition literal_type :: "bool \<Rightarrow> bool \<Rightarrow> indexType" where
  "literal_type indexing sensitive = (if sensitive then indexedNever else if indexing then indexedTrue else indexedFalse)"

lemma parse_literal_byte:
  assumes "indexing \<Longrightarrow> \<not> sensitive" "take_bit (if indexing then 6 else 4) v = v"
    and "dec_buf d = (v OR encodeTypeByte indexing sensitive) # vs"
  shows "parseHeaderFieldRepr d = parseFieldLiteral (if indexing then 6 else 4) (literal_type indexing sensitive) d"
proof (cases indexing)
  case True
  then have "(v OR 0x40) AND 128 = 0" "(v OR 0x40) AND 192 = 64"
    using or_mask [of 6 v 128] or_mask [of 6 v 192] assms(2) by simp_all
  with True assms(1,3) show ?thesis by (simp add: parseHeaderFieldRepr_def literal_type_def encodeTypeByte_def)
next
  case False
  then have "(v OR t) AND 128 = t AND 128" "(v OR t) AND 192 = t AND 192" "(v OR t) AND 240 = t AND 240" for t
    using or_mask [of 4 v 128] or_mask [of 4 v 192] or_mask [of 4 v 240] assms(2) by simp_all
  with False assms(3) show ?thesis
    by (simp add: parseHeaderFieldRepr_def literal_type_def encodeTypeByte_def)
qed

lemma parse_literal:
  assumes "collecting d" "name_index d idx f" "hf_size f < 2 ^ 32" "indexing \<Longrightarrow> \<not> hf_Sensitive f"
    and "indexing \<Longrightarrow> dt_add (field_of f False) (dec_dynTab d) = Ok dt"
  obtains b where "\<And>dst. (if idx = 0 then appendNewName dst f indexing else appendIndexedName dst f idx indexing) = Ok (dst @ b)"
    "parses b d (\<lambda>d. (if indexing then d\<lparr>dec_dynTab := dt\<rparr> else d)\<lparr>dec_env := dec_env d @ [f]\<rparr>)"
proof -
  let ?n = "if indexing then 6 else 4 :: nat" and ?t = "encodeTypeByte indexing (hf_Sensitive f)"
  obtain v vs where v: "venc ?n idx = v # vs" "take_bit ?n v = v" by (rule venc_Cons [of ?n]) simp
  have small: "length (hf_Name f) < 2 ^ 32" "length (hf_Value f) < 2 ^ 32" using assms(3) by (simp_all add: hf_size_def)
  obtain x xs where name: "\<And>dst. appendHpackString dst (hf_Name f) = Ok (dst @ x # xs)"
    "\<And>d rest. dec_maxStrLen (d :: HeaderField list Decoder) = 0 \<Longrightarrow> readString d (x # xs @ rest) True = Ok (hf_Name f, rest)"
    using hpack_string [OF small(1)] by blast
  obtain y ys where val: "\<And>dst. appendHpackString dst (hf_Value f) = Ok (dst @ y # ys)"
    "\<And>d rest. dec_maxStrLen (d :: HeaderField list Decoder) = 0 \<Longrightarrow> readString d (y # ys @ rest) True = Ok (hf_Value f, rest)"
    using hpack_string [OF small(2)] by blast
  define nb where "nb = (if idx = 0 then x # xs else [])"
  let ?b = "(v OR ?t) # vs @ nb @ y # ys"
  have "take_bit ?n ?t = 0" using assms(4) by (simp add: encodeTypeByte_def)
  moreover have "unat idx < 2 ^ 63" using assms(2) by (auto simp: name_index_def refers_def)
  ultimately have var: "readVarInt ?n ((v OR ?t) # vs @ rest) = Ok (idx, rest)" for rest
    by (intro readVarInt_venc [OF v(1)]) simp_all
  have enc: "(if idx = 0 then appendNewName dst f indexing else appendIndexedName dst f idx indexing) = Ok (dst @ ?b)" for dst
  proof (cases "idx = 0")
    case True
    have "(0 :: uint64) < mask ?n" by (simp add: mask_eq_exp_minus_1)
    then have "v = 0" "vs = []" using v(1) True by (simp_all add: venc_cases)
    with True name(1) val(1) show ?thesis by (simp add: appendNewName_def nb_def)
  next
    case False
    with v val(1) show ?thesis by (simp add: appendIndexedName_def appendVarInt_venc nb_def)
  qed
  have "parseHeaderFieldRepr (d\<lparr>dec_buf := ?b @ rest\<rparr>) =
      ((if indexing then d\<lparr>dec_buf := rest, dec_dynTab := dt\<rparr> else d\<lparr>dec_buf := rest\<rparr>)\<lparr>dec_env := dec_env d @ [f]\<rparr>, Ok ())" for rest
  proof -
    let ?d = "d\<lparr>dec_buf := ?b @ rest\<rparr>" and ?it = "literal_type indexing (hf_Sensitive f)"
    have str: "dec_maxStrLen d = 0" "dec_emitEnabled d" using assms(1) by (simp_all add: collecting_def)
    have it: "it_indexed ?it = indexing" "it_sensitive ?it = hf_Sensitive f"
      using assms(4) by (auto simp: literal_type_def it_indexed_def it_sensitive_def)
    have f: "field_of f False\<lparr>hf_Sensitive := hf_Sensitive f\<rparr> = f" by (simp add: field_of_def)
    have "parseHeaderFieldRepr ?d = parseFieldLiteral ?n ?it ?d"
      using assms(4) v(2) by (intro parse_literal_byte) simp_all
    moreover have "parseFieldLiteral ?n ?it ?d = (let hf = field_of f False in
        on_ok (d\<lparr>dec_buf := rest\<rparr>) (if indexing then res_bind (dt_add hf (dec_dynTab d)) (\<lambda>dt. Ok (d\<lparr>dec_buf := rest, dec_dynTab := dt\<rparr>))
          else Ok (d\<lparr>dec_buf := rest\<rparr>)) (callEmit (hf\<lparr>hf_Sensitive := hf_Sensitive f\<rparr>)))"
    proof (cases "idx = 0")
      case True
      then show ?thesis
        using str by (simp add: parseFieldLiteral_def it var val(2) [OF str(1)] name(2) [OF str(1)] nb_def field_of_def Let_def)
    next
      case False
      then obtain g where "dec_at idx d = Ok (Some g)" "hf_Name g = hf_Name f" using assms(2) by (auto simp: name_index_def refers_def)
      with False show ?thesis
        using str by (simp add: parseFieldLiteral_def it var val(2) [OF str(1)] nb_def field_of_def word_gt_0 Let_def)
    qed
    ultimately show ?thesis using f assms(1,5) by (auto simp: Let_def callEmit_collecting)
  qed
  then show thesis using enc by (intro that [of ?b]) (auto simp: parses_def)
qed

section \<open>Runs of the decoder\<close>

definition rep_step :: "'s Decoder \<Rightarrow> 's Decoder \<Rightarrow> bool" where
  "rep_step d d' \<longleftrightarrow> parseHeaderFieldRepr d = (d', Ok ()) \<and> length (dec_buf d') < length (dec_buf d)"

definition runs :: "bytes \<Rightarrow> 's Decoder \<Rightarrow> 's Decoder \<Rightarrow> bool" where
  "runs b d d' \<longleftrightarrow> (\<forall>rest. rep_step\<^sup>*\<^sup>* (d\<lparr>dec_buf := b @ rest\<rparr>) (d'\<lparr>dec_buf := rest\<rparr>))"

lemma runs_Nil: "runs [] d d"
  by (simp add: runs_def)

lemma runs_append: "runs b d d' \<Longrightarrow> runs c d' d'' \<Longrightarrow> runs (b @ c) d d''"
  unfolding runs_def by (metis append_assoc rtranclp_trans)

lemma runs_parses:
  assumes "parses b d upd" "\<And>rest. upd (d\<lparr>dec_buf := rest\<rparr>) = d'\<lparr>dec_buf := rest\<rparr>"
  shows "runs b d d'"
  using assms by (auto simp: runs_def parses_def rep_step_def intro!: r_into_rtranclp)

lemma dec_loop_runs:
  assumes "rep_step\<^sup>*\<^sup>* d d'" "dec_buf d' = []" "length (dec_buf d) < fuel"
  shows "dec_loop fuel len d = (d', len, Ok ())"
  using assms
proof (induction arbitrary: fuel rule: converse_rtranclp_induct)
  case base
  then show ?case by (cases fuel) simp_all
next
  case (step d d1)
  then obtain n where fuel: "fuel = Suc n" by (cases fuel) simp_all
  have "length (dec_buf d1) < length (dec_buf d)" "parseHeaderFieldRepr d = (d1, Ok ())"
    using step(1) by (simp_all add: rep_step_def)
  with step fuel show ?case by auto
qed

section \<open>Keeping in step\<close>

lemma fit_greatest: "suffix xs fs \<Longrightarrow> total_size xs \<le> m \<Longrightarrow> suffix xs (fit m fs)"
  by (induction fs) (auto simp: suffix_Cons)

lemma fit_suffix_of: "suffix (fit m fs) fs"
  using fit_suffix [of fs m] by (auto simp: suffix_drop)

lemma total_size_suffix: "suffix xs fs \<Longrightarrow> total_size xs \<le> total_size fs"
  by (auto simp: suffix_def)

lemma length_total_size: "32 * length fs \<le> total_size fs"
  by (induction fs) (simp_all add: hf_size_def)

definition in_step :: "nat \<Rightarrow> nat \<Rightarrow> Encoder \<Rightarrow> 's Decoder \<Rightarrow> bool" where
  "in_step A n e d \<longleftrightarrow> dt_inv (enc_dynTab e) \<and> dt_inv (dec_dynTab d) \<and>
     suffix (ents (dt_table (enc_dynTab e))) (ents (dt_table (dec_dynTab d))) \<and>
     dt_maxSize (enc_dynTab e) \<le> enc_maxSizeLimit e \<and> unat (enc_maxSizeLimit e) \<le> A \<and>
     A < 2 ^ 31 \<and> unat (dt_allowedMaxSize (dec_dynTab d)) = A \<and> unat (dt_maxSize (dec_dynTab d)) \<le> A \<and>
     total_size (ents (dt_table (enc_dynTab e))) \<le> unat (enc_minSize e) \<and>
     (\<not> enc_tableSizeUpdate e \<longrightarrow> enc_minSize e = uint32Max \<and> dt_maxSize (enc_dynTab e) \<le> dt_maxSize (dec_dynTab d)) \<and>
     enc_Write e = (\<lambda>b. (length b, None)) \<and>
     unat (evictCount (dt_table (enc_dynTab e))) + length (ents (dt_table (enc_dynTab e))) \<le> n \<and>
     unat (evictCount (dt_table (dec_dynTab d))) + length (ents (dt_table (dec_dynTab d))) \<le> n"

lemma in_step_sizes:
  assumes "in_step A n e d"
  shows "total_size (ents (dt_table (enc_dynTab e))) \<le> unat (dt_maxSize (enc_dynTab e))"
    and "total_size (ents (dt_table (dec_dynTab d))) \<le> A" and "length (ents (dt_table (dec_dynTab d))) < 2 ^ 32"
    and "unat (dt_maxSize (enc_dynTab e)) \<le> A"
proof -
  show "total_size (ents (dt_table (enc_dynTab e))) \<le> unat (dt_maxSize (enc_dynTab e))" "unat (dt_maxSize (enc_dynTab e)) \<le> A"
    using assms by (auto simp: in_step_def dt_inv_def word_le_nat_alt)
  show *: "total_size (ents (dt_table (dec_dynTab d))) \<le> A"
    using assms by (auto simp: in_step_def dt_inv_def word_le_nat_alt)
  have "A < 2 ^ 31" using assms by (simp add: in_step_def)
  then show "length (ents (dt_table (dec_dynTab d))) < 2 ^ 32"
    using * length_total_size [of "ents (dt_table (dec_dynTab d))"] by simp
qed

lemma SetMaxDynamicTableSize_in_step:
  assumes "in_step A n e d"
  obtains e' where "enc_SetMaxDynamicTableSize v e = Ok e'" "in_step A n e' d" "enc_out e' = enc_out e"
proof -
  define w where "w = (if v > enc_maxSizeLimit e then enc_maxSizeLimit e else v)"
  have w: "w \<le> enc_maxSizeLimit e" by (auto simp: w_def not_less)
  have "dt_inv (enc_dynTab e)" using assms by (simp add: in_step_def)
  then obtain dt where dt: "dt_setMaxSize w (enc_dynTab e) = Ok dt" "dt_inv dt" "dt_maxSize dt = w"
    "ents (dt_table dt) = fit (unat w) (ents (dt_table (enc_dynTab e)))"
    "unat (evictCount (dt_table dt)) + length (ents (dt_table dt)) =
     unat (evictCount (dt_table (enc_dynTab e))) + length (ents (dt_table (enc_dynTab e)))"
    by (rule dt_setMaxSize_fit [of _ w]) blast
  let ?e = "(if w < enc_minSize e then e\<lparr>enc_minSize := w\<rparr> else e)\<lparr>enc_tableSizeUpdate := True, enc_dynTab := dt\<rparr>"
  have "enc_SetMaxDynamicTableSize v e = Ok ?e"
    unfolding enc_SetMaxDynamicTableSize_def w_def [symmetric] Let_def using dt(1) by simp
  moreover have "total_size (ents (dt_table dt)) \<le> unat (enc_minSize ?e)"
    using assms total_size_suffix [OF fit_suffix_of, of "unat w" "ents (dt_table (enc_dynTab e))"] total_size_fit
    by (auto simp: dt(4) in_step_def intro: le_trans)
  moreover have "suffix (ents (dt_table dt)) (ents (dt_table (dec_dynTab d)))"
    using assms unfolding dt(4) in_step_def by (blast intro: suffix_order.trans fit_suffix_of)
  ultimately show thesis using assms dt w by (intro that [of ?e]) (simp_all add: in_step_def)
qed

lemma SetMaxDynamicTableSizeLimit_in_step:
  assumes "in_step A n e d" "unat v \<le> A"
  obtains e' where "SetMaxDynamicTableSizeLimit v e = Ok e'" "in_step A n e' d" "enc_out e' = enc_out e"
proof (cases "dt_maxSize (enc_dynTab e) > v")
  case True
  have "dt_inv (enc_dynTab e)" using assms by (simp add: in_step_def)
  then obtain dt where dt: "dt_setMaxSize v (enc_dynTab e) = Ok dt" "dt_inv dt" "dt_maxSize dt = v"
    "ents (dt_table dt) = fit (unat v) (ents (dt_table (enc_dynTab e)))"
    "unat (evictCount (dt_table dt)) + length (ents (dt_table dt)) =
     unat (evictCount (dt_table (enc_dynTab e))) + length (ents (dt_table (enc_dynTab e)))"
    by (rule dt_setMaxSize_fit [of _ v]) blast
  have "total_size (ents (dt_table dt)) \<le> unat (enc_minSize e)"
    using assms total_size_suffix [OF fit_suffix_of, of "unat v" "ents (dt_table (enc_dynTab e))"]
    by (auto simp: dt(4) in_step_def)
  moreover have "suffix (ents (dt_table dt)) (ents (dt_table (dec_dynTab d)))"
    using assms unfolding dt(4) in_step_def by (blast intro: suffix_order.trans fit_suffix_of)
  ultimately show thesis using True assms dt
    by (intro that [of "e\<lparr>enc_maxSizeLimit := v, enc_tableSizeUpdate := True, enc_dynTab := dt\<rparr>"])
      (simp_all add: in_step_def SetMaxDynamicTableSizeLimit_def)
next
  case False
  with assms show thesis
    by (intro that [of "e\<lparr>enc_maxSizeLimit := v\<rparr>"]) (simp_all add: in_step_def SetMaxDynamicTableSizeLimit_def)
qed

text \<open>A size update keeps the entries of the encoder, which fit into the new size, in the table of the
  decoder.\<close>

lemma decoder_resized:
  assumes "dt_inv (dec_dynTab d)" "sz \<le> dt_allowedMaxSize (dec_dynTab d)"
    and "suffix es (ents (dt_table (dec_dynTab d)))" "total_size es \<le> unat sz"
  obtains b dt where "\<And>dst. appendTableSize dst sz = dst @ b" "runs b d (d\<lparr>dec_dynTab := dt\<rparr>)" "dt_inv dt" "dt_maxSize dt = sz"
    "dt_allowedMaxSize dt = dt_allowedMaxSize (dec_dynTab d)" "suffix es (ents (dt_table dt))"
    "unat (evictCount (dt_table dt)) + length (ents (dt_table dt)) =
     unat (evictCount (dt_table (dec_dynTab d))) + length (ents (dt_table (dec_dynTab d)))"
proof -
  obtain dt where dt: "dt_setMaxSize sz (dec_dynTab d) = Ok dt" "dt_inv dt" "dt_maxSize dt = sz"
    "dt_allowedMaxSize dt = dt_allowedMaxSize (dec_dynTab d)"
    "ents (dt_table dt) = fit (unat sz) (ents (dt_table (dec_dynTab d)))"
    "unat (evictCount (dt_table dt)) + length (ents (dt_table dt)) =
     unat (evictCount (dt_table (dec_dynTab d))) + length (ents (dt_table (dec_dynTab d)))"
    using assms(1) by (rule dt_setMaxSize_fit [of _ sz]) blast
  obtain b where b: "\<And>dst. appendTableSize dst sz = dst @ b" "parses b d (\<lambda>d. d\<lparr>dec_dynTab := dt\<rparr>)"
    using parse_table_size [OF dt(1) assms(2)] by blast
  have "runs b d (d\<lparr>dec_dynTab := dt\<rparr>)" by (rule runs_parses [OF b(2)]) simp
  moreover have "suffix es (ents (dt_table dt))" unfolding dt(5) using assms(3,4) by (rule fit_greatest)
  ultimately show thesis using that [OF b(1)] dt by blast
qed

definition written :: "Encoder \<Rightarrow> Encoder" where
  "written e = (if enc_tableSizeUpdate e then e\<lparr>enc_tableSizeUpdate := False, enc_minSize := uint32Max\<rparr> else e)"

lemma size_updates_run:
  assumes "in_step A n e d" "collecting d"
  obtains d1 where "runs (if enc_tableSizeUpdate e then table_size_updates e else []) d d1"
    "in_step A n (written e) d1" "collecting d1" "dec_env d1 = dec_env d"
proof (cases "enc_tableSizeUpdate e")
  case False
  then show thesis using that [of d] assms by (simp add: runs_Nil written_def)
next
  case True
  let ?es = "ents (dt_table (enc_dynTab e))" and ?min = "enc_minSize e" and ?max = "dt_maxSize (enc_dynTab e)"
  have inv: "dt_inv (dec_dynTab d)" "suffix ?es (ents (dt_table (dec_dynTab d)))" "total_size ?es \<le> unat ?min"
    "?max \<le> dt_allowedMaxSize (dec_dynTab d)"
    using assms(1) by (auto simp: in_step_def word_le_nat_alt)
  note tot = in_step_sizes(1) [OF assms(1)]
  obtain b0 d0 where d0: "(if ?min < ?max then appendTableSize [] ?min else []) = b0" "runs b0 d d0" "dt_inv (dec_dynTab d0)"
    "suffix ?es (ents (dt_table (dec_dynTab d0)))" "dt_allowedMaxSize (dec_dynTab d0) = dt_allowedMaxSize (dec_dynTab d)"
    "unat (evictCount (dt_table (dec_dynTab d0))) + length (ents (dt_table (dec_dynTab d0))) =
     unat (evictCount (dt_table (dec_dynTab d))) + length (ents (dt_table (dec_dynTab d)))"
    "collecting d0" "dec_env d0 = dec_env d"
  proof (cases "?min < ?max")
    case True
    then have "?min \<le> dt_allowedMaxSize (dec_dynTab d)" using inv(4) by simp
    from decoder_resized [OF inv(1) this inv(2,3)] obtain b dt where
      "\<And>dst. appendTableSize dst ?min = dst @ b" "runs b d (d\<lparr>dec_dynTab := dt\<rparr>)" "dt_inv dt"
      "dt_allowedMaxSize dt = dt_allowedMaxSize (dec_dynTab d)" "suffix ?es (ents (dt_table dt))"
      "unat (evictCount (dt_table dt)) + length (ents (dt_table dt)) =
       unat (evictCount (dt_table (dec_dynTab d))) + length (ents (dt_table (dec_dynTab d)))" by blast
    then show thesis using that [of b "d\<lparr>dec_dynTab := dt\<rparr>"] True assms(2) by simp
  next
    case False
    then show thesis using that [of "[]" d] inv assms(2) by (simp add: runs_Nil)
  qed
  from inv(4) d0(5) have "?max \<le> dt_allowedMaxSize (dec_dynTab d0)" by simp
  from decoder_resized [OF d0(3) this d0(4) tot] obtain b dt where
    b: "\<And>dst. appendTableSize dst ?max = dst @ b" "runs b d0 (d0\<lparr>dec_dynTab := dt\<rparr>)" "dt_inv dt" "dt_maxSize dt = ?max"
      "dt_allowedMaxSize dt = dt_allowedMaxSize (dec_dynTab d0)" "suffix ?es (ents (dt_table dt))"
      "unat (evictCount (dt_table dt)) + length (ents (dt_table dt)) =
       unat (evictCount (dt_table (dec_dynTab d0))) + length (ents (dt_table (dec_dynTab d0)))" by blast
  have "runs (table_size_updates e) d (d0\<lparr>dec_dynTab := dt\<rparr>)"
    using runs_append [OF d0(2) b(2)] by (simp add: table_size_updates_def d0(1) b(1))
  moreover have "total_size ?es \<le> unat uint32Max"
    using unsigned_less [of ?max, where ?'a = nat] tot by (simp add: uint32Max_def unsigned_minus_1_eq_mask mask_nat_def)
  ultimately show thesis
    using True assms d0 b in_step_sizes(4) [OF assms(1)] by (intro that [of "d0\<lparr>dec_dynTab := dt\<rparr>"]) (simp_all add: in_step_def written_def)
qed

lemma in_step_out [simp]: "in_step A n (e\<lparr>enc_out := out\<rparr>) d = in_step A n e d"
  by (simp add: in_step_def)

lemma in_step_env [simp]: "in_step A n e (d\<lparr>dec_env := v\<rparr>) = in_step A n e d"
  by (simp add: in_step_def)

lemma in_step_Suc: "in_step A n e d \<Longrightarrow> in_step A (Suc n) e d"
  by (auto simp: in_step_def)

text \<open>Adding a field on both sides.\<close>

lemma add_in_step:
  assumes "in_step A n e d" "\<not> enc_tableSizeUpdate e" "shouldIndex f e" "hf_size f < 2 ^ 32" "n + 1 < 2 ^ 64 - 1"
  obtains dt dt' where "dt_add f (enc_dynTab e) = Ok dt" "dt_add f (dec_dynTab d) = Ok dt'"
    "in_step A (Suc n) (e\<lparr>enc_dynTab := dt\<rparr>) (d\<lparr>dec_dynTab := dt'\<rparr>)"
proof -
  let ?es = "ents (dt_table (enc_dynTab e))" and ?ds = "ents (dt_table (dec_dynTab d))"
  note sizes = in_step_sizes [OF assms(1)]
  note inv = assms(1) [unfolded in_step_def]
  have f: "hf_size f \<le> unat (dt_maxSize (enc_dynTab e))"
    using assms(3,4) unat_Size [OF assms(4)] by (simp add: shouldIndex_def word_le_nat_alt)
  have A: "A < 2 ^ 31" using inv by simp
  have "dt_room f (enc_dynTab e)" using f A sizes(1,4) inv assms(5) by (simp add: dt_room_def)
  then obtain dt where dt: "dt_add f (enc_dynTab e) = Ok dt" "dt_inv dt" "dt_maxSize dt = dt_maxSize (enc_dynTab e)"
    "ents (dt_table dt) = fit (unat (dt_maxSize (enc_dynTab e))) (?es @ [f])"
    "unat (evictCount (dt_table dt)) + length (ents (dt_table dt)) = unat (evictCount (dt_table (enc_dynTab e))) + length ?es + 1"
    using dt_add_fit [of "enc_dynTab e" f] inv by blast
  have "dt_room f (dec_dynTab d)" using f A sizes(2,4) inv assms(5) by (simp add: dt_room_def)
  then obtain dt' where dt': "dt_add f (dec_dynTab d) = Ok dt'" "dt_inv dt'" "dt_maxSize dt' = dt_maxSize (dec_dynTab d)"
    "dt_allowedMaxSize dt' = dt_allowedMaxSize (dec_dynTab d)"
    "ents (dt_table dt') = fit (unat (dt_maxSize (dec_dynTab d))) (?ds @ [f])"
    "unat (evictCount (dt_table dt')) + length (ents (dt_table dt')) = unat (evictCount (dt_table (dec_dynTab d))) + length ?ds + 1"
    using dt_add_fit [of "dec_dynTab d" f] inv by blast
  have "suffix (ents (dt_table dt)) (ents (dt_table dt'))"
  proof -
    have "suffix (ents (dt_table dt)) (?es @ [f])" unfolding dt(4) by (rule fit_suffix_of)
    also have "suffix (?es @ [f]) (?ds @ [f])" using inv by (auto simp: suffix_def)
    finally have "suffix (ents (dt_table dt)) (?ds @ [f])" .
    moreover have "total_size (ents (dt_table dt)) \<le> unat (dt_maxSize (dec_dynTab d))"
      using total_size_fit [of "unat (dt_maxSize (enc_dynTab e))" "?es @ [f]"] inv assms(2) by (simp add: dt(4) word_le_nat_alt)
    ultimately show ?thesis unfolding dt'(5) by (rule fit_greatest)
  qed
  moreover have "total_size (ents (dt_table dt)) \<le> unat (enc_minSize e)"
    using total_size_fit [of "unat (dt_maxSize (enc_dynTab e))" "?es @ [f]"] A sizes(4) inv assms(2)
    by (simp add: dt(4) uint32Max_def unsigned_minus_1_eq_mask mask_nat_def)
  ultimately have "in_step A (Suc n) (e\<lparr>enc_dynTab := dt\<rparr>) (d\<lparr>dec_dynTab := dt'\<rparr>)"
    unfolding in_step_def using dt dt' inv by simp
  then show thesis using that dt(1) dt'(1) by blast
qed

text \<open>The three ways in which \<open>WriteField\<close> encodes a field.\<close>

lemma WriteField_indexed:
  assumes "searchTable f (written e) = Ok (idx, True)" "enc_Write (written e) = (\<lambda>b. (length b, None))"
    and "\<And>dst. appendIndexed dst idx = dst @ b"
  shows "WriteField f e = Ok ((written e)\<lparr>enc_out := enc_out (written e) @
      (if enc_tableSizeUpdate e then table_size_updates e else []) @ b\<rparr>, None)"
  using assms unfolding WriteField_def written_def [symmetric] by (simp add: Let_def)

lemma WriteField_literal:
  assumes "searchTable f (written e) = Ok (idx, False)" "enc_Write (written e) = (\<lambda>b. (length b, None))"
    and "\<And>dst. (if idx = 0 then appendNewName dst f (shouldIndex f (written e))
        else appendIndexedName dst f idx (shouldIndex f (written e))) = Ok (dst @ b)"
    and "shouldIndex f (written e) \<Longrightarrow> dt_add f (enc_dynTab (written e)) = Ok dt"
  shows "WriteField f e = Ok ((if shouldIndex f (written e) then (written e)\<lparr>enc_dynTab := dt\<rparr> else written e)
      \<lparr>enc_out := enc_out (written e) @ (if enc_tableSizeUpdate e then table_size_updates e else []) @ b\<rparr>, None)"
  using assms(1,2,4) unfolding WriteField_def written_def [symmetric] Let_def
  by (simp add: assms(3) del: res_bind_eq_Ok split del: if_split) simp

lemma WriteField_in_step:
  assumes "in_step A n e d" "collecting d" "hf_size f < 2 ^ 32" "n + 1 < 2 ^ 64 - 1"
  obtains e' d' b where "WriteField f e = Ok (e', None)" "enc_out e' = enc_out e @ b" "runs b d d'" "in_step A (Suc n) e' d'"
    "collecting d'" "dec_env d' = dec_env d @ [f]"
proof -
  let ?ub = "if enc_tableSizeUpdate e then table_size_updates e else []" and ?e = "written e"
  obtain d1 where d1: "runs ?ub d d1" "in_step A n ?e d1" "collecting d1" "dec_env d1 = dec_env d"
    using size_updates_run [OF assms(1,2)] .
  have e1: "\<not> enc_tableSizeUpdate ?e" "enc_out ?e = enc_out e" "enc_Write ?e = (\<lambda>b. (length b, None))"
    using assms(1) by (auto simp: written_def in_step_def)
  note inv = d1(2) [unfolded in_step_def]
  have table: "table_inv (dt_table (enc_dynTab ?e))" using inv by (simp add: dt_inv_def)
  consider idx g where "searchTable f ?e = Ok (idx, True)" "refers d1 idx g" "field_pair g = field_pair f" "\<not> hf_Sensitive f"
    | idx where "searchTable f ?e = Ok (idx, False)" "name_index d1 idx f"
    using searchTable_refers [OF table in_step_sizes(3) [OF d1(2)], of f] inv by (auto simp: name_index_def)
  then show thesis
  proof cases
    case 1
    obtain b where b: "\<And>dst. appendIndexed dst idx = dst @ b" "parses b d1 (\<lambda>d. d\<lparr>dec_env := dec_env d @ [field_of g False]\<rparr>)"
      using parse_indexed [OF d1(3) 1(2)] by blast
    have g: "field_of g False = f" using 1(3,4) by (cases f) (simp add: field_of_def field_pair_def)
    have r: "runs b d1 (d1\<lparr>dec_env := dec_env d1 @ [f]\<rparr>)" by (rule runs_parses [OF b(2)]) (simp add: g)
    from d1 e1(2) show thesis
      by (intro that [OF WriteField_indexed [OF 1(1) e1(3) b(1)] _ runs_append [OF d1(1) r]]) (auto intro: in_step_Suc)
  next
    case 2
    let ?ix = "shouldIndex f ?e"
    have ns: "?ix \<Longrightarrow> \<not> hf_Sensitive f" by (simp add: shouldIndex_def)
    then have fo: "?ix \<Longrightarrow> field_of f False = f" by (cases f) (simp add: field_of_def)
    obtain dt dt' where dt: "?ix \<Longrightarrow> dt_add f (enc_dynTab ?e) = Ok dt" "?ix \<Longrightarrow> dt_add f (dec_dynTab d1) = Ok dt'"
      "?ix \<Longrightarrow> in_step A (Suc n) (?e\<lparr>enc_dynTab := dt\<rparr>) (d1\<lparr>dec_dynTab := dt'\<rparr>)"
      using add_in_step [OF d1(2) e1(1) _ assms(3,4)] by metis
    have add: "?ix \<Longrightarrow> dt_add (field_of f False) (dec_dynTab d1) = Ok dt'" using dt(2) fo by simp
    obtain b where b: "\<And>dst. (if idx = 0 then appendNewName dst f ?ix else appendIndexedName dst f idx ?ix) = Ok (dst @ b)"
      "parses b d1 (\<lambda>d. (if ?ix then d\<lparr>dec_dynTab := dt'\<rparr> else d)\<lparr>dec_env := dec_env d @ [f]\<rparr>)"
      using parse_literal [OF d1(3) 2(2) assms(3) ns add] by blast
    let ?d = "(if ?ix then d1\<lparr>dec_dynTab := dt'\<rparr> else d1)\<lparr>dec_env := dec_env d1 @ [f]\<rparr>"
    have r: "runs b d1 ?d" by (rule runs_parses [OF b(2)]) simp
    from d1 e1(2) dt(3) show thesis
      by (intro that [OF WriteField_literal [OF 2(1) e1(3) b(1) dt(1)] _ runs_append [OF d1(1) r]]) (auto intro: in_step_Suc)
  qed
qed

section \<open>Sessions\<close>

text \<open>What the owner of an encoder may ask of it; a block of such requests; a session in which each block is
  encoded and then decoded by the peer.\<close>

datatype hop = Field HeaderField | TableSize "32 word" | TableSizeLimit "32 word"

fun encode_ops :: "hop list \<Rightarrow> Encoder \<Rightarrow> Encoder kres" where
  "encode_ops [] e = Ok e"
| "encode_ops (Field f # ops) e =
     res_bind (WriteField f e) (\<lambda>(e, err). case err of None \<Rightarrow> encode_ops ops e | Some x \<Rightarrow> Err x)"
| "encode_ops (TableSize v # ops) e = res_bind (enc_SetMaxDynamicTableSize v e) (encode_ops ops)"
| "encode_ops (TableSizeLimit v # ops) e = res_bind (SetMaxDynamicTableSizeLimit v e) (encode_ops ops)"

fun ops_fields :: "hop list \<Rightarrow> HeaderField list" where
  "ops_fields [] = []"
| "ops_fields (Field f # ops) = f # ops_fields ops"
| "ops_fields (_ # ops) = ops_fields ops"

fun session :: "hop list list \<Rightarrow> Encoder \<Rightarrow> 's Decoder \<Rightarrow> HeaderField list kres list" where
  "session [] e d = []"
| "session (ops # blocks) e d =
     (case encode_ops ops (e\<lparr>enc_out := []\<rparr>) of
        Ok e \<Rightarrow> (case DecodeFull (enc_out e) d of (d, r) \<Rightarrow> r # session blocks e d)
      | Err x \<Rightarrow> [Err x] | Panic \<Rightarrow> [Panic] | Stuck \<Rightarrow> [Stuck])"

fun legal_op :: "nat \<Rightarrow> hop \<Rightarrow> bool" where
  "legal_op A (Field f) = (hf_size f < 2 ^ 32)"
| "legal_op A (TableSize v) = True"
| "legal_op A (TableSizeLimit v) = (unat v \<le> A)"

lemma encode_ops_run:
  assumes "in_step A n e d" "collecting d" "list_all (legal_op A) ops" "n + length ops + 1 < 2 ^ 64 - 1"
  shows "\<exists>e' d' b. encode_ops ops e = Ok e' \<and> enc_out e' = enc_out e @ b \<and> runs b d d' \<and>
    in_step A (n + length ops) e' d' \<and> collecting d' \<and> dec_env d' = dec_env d @ ops_fields ops"
  using assms
proof (induction ops e arbitrary: n d rule: encode_ops.induct)
  case (1 e)
  then show ?case by (auto intro: runs_Nil)
next
  case (2 f ops e)
  obtain e1 d1 b1 where 1: "WriteField f e = Ok (e1, None)" "enc_out e1 = enc_out e @ b1" "runs b1 d d1" "in_step A (Suc n) e1 d1"
    "collecting d1" "dec_env d1 = dec_env d @ [f]"
    by (rule WriteField_in_step [OF 2(2,3), of f]) (use 2(4,5) in auto)
  obtain e' d' b where "encode_ops ops e1 = Ok e'" "enc_out e' = enc_out e1 @ b" "runs b d1 d'"
    "in_step A (Suc n + length ops) e' d'" "collecting d'" "dec_env d' = dec_env d1 @ ops_fields ops"
    using 2(1) [OF 1(4,5)] 2(4,5) by auto
  with 1 runs_append [OF 1(3)] show ?case by auto
next
  case (3 v ops e)
  obtain e1 where 1: "enc_SetMaxDynamicTableSize v e = Ok e1" "in_step A n e1 d" "enc_out e1 = enc_out e"
    using SetMaxDynamicTableSize_in_step [OF 3(2)] by blast
  with 3(1) [OF 1(2) 3(3)] 3(4,5) in_step_Suc show ?case by fastforce
next
  case (4 v ops e)
  obtain e1 where 1: "SetMaxDynamicTableSizeLimit v e = Ok e1" "in_step A n e1 d" "enc_out e1 = enc_out e"
    using SetMaxDynamicTableSizeLimit_in_step [OF 4(2), of v] 4(4) by auto
  with 4(1) [OF 1(2) 4(3)] 4(4,5) in_step_Suc show ?case by fastforce
qed

definition idle :: "'s Decoder \<Rightarrow> bool" where
  "idle d \<longleftrightarrow> dec_maxStrLen d = 0 \<and> dec_emitEnabled d \<and> dec_saveBuf d = []"

lemma in_step_cong: "dec_dynTab d' = dec_dynTab d \<Longrightarrow> in_step A n e d' = in_step A n e d"
  by (simp add: in_step_def)

lemma SetEmitFunc_simps [simp]:
  "dec_dynTab (SetEmitFunc emit env d) = dec_dynTab d" "dec_env (SetEmitFunc emit env d) = env"
  "dec_saveBuf (SetEmitFunc emit env d) = dec_saveBuf d" "idle (SetEmitFunc emit env d) = idle d"
  by (simp_all add: SetEmitFunc_def idle_def)

lemma collecting_SetEmitFunc: "idle d \<Longrightarrow> collecting (SetEmitFunc collect_fields [] d)"
  by (simp add: collecting_def SetEmitFunc_def idle_def)

lemma runs_nothing: "runs [] d d' \<Longrightarrow> d'\<lparr>dec_buf := []\<rparr> = d\<lparr>dec_buf := []\<rparr>"
proof -
  assume "runs [] d d'"
  then have "rep_step\<^sup>*\<^sup>* (d\<lparr>dec_buf := []\<rparr>) (d'\<lparr>dec_buf := []\<rparr>)" by (auto simp: runs_def dest: spec [of _ "[]"])
  then show ?thesis by (cases rule: converse_rtranclpE) (auto simp: rep_step_def)
qed

lemma DecodeFull_run:
  assumes "runs b (SetEmitFunc collect_fields [] d) c" "collecting c" "idle d"
  obtains d' where "DecodeFull b d = (d', Ok (dec_env c))" "idle d'" "dec_dynTab d' = dec_dynTab c"
proof -
  let ?c = "SetEmitFunc collect_fields [] d"
  have save: "dec_saveBuf ?c = []" using assms(3) by (simp add: idle_def)
  show thesis
  proof (cases "b = []")
    case True
    with runs_nothing [of ?c c] assms(1) have eq: "c\<lparr>dec_buf := []\<rparr> = ?c\<lparr>dec_buf := []\<rparr>" by simp
    have "dec_dynTab c = dec_dynTab d" "dec_env c = []"
      using arg_cong [OF eq, of dec_dynTab] arg_cong [OF eq, of dec_env] by simp_all
    moreover have "DecodeFull b d = (SetEmitFunc (dec_emit d) (dec_env d) ?c, Ok [])"
      using True save by (simp add: DecodeFull_def dec_Write_def dec_Close_def)
    ultimately show thesis using assms(3) that by simp
  next
    case False
    have "rep_step\<^sup>*\<^sup>* (?c\<lparr>dec_buf := b\<rparr>) (c\<lparr>dec_buf := []\<rparr>)"
      using assms(1) by (auto simp: runs_def dest: spec [of _ "[]"])
    from dec_loop_runs [OF this, of "Suc (length b)"] have "dec_Write b ?c = (c\<lparr>dec_buf := []\<rparr>, length b, Ok ())"
      using False save by (simp add: dec_Write_def)
    then have "DecodeFull b d = (SetEmitFunc (dec_emit d) (dec_env d) (c\<lparr>dec_buf := []\<rparr>), Ok (dec_env c))"
      using assms(2) by (simp add: DecodeFull_def dec_Close_def collecting_def)
    from that [OF this] assms(2) show thesis by (simp add: idle_def collecting_def SetEmitFunc_def)
  qed
qed

lemma session_step:
  assumes "in_step A n e d" "idle d" "list_all (legal_op A) ops" "n + length ops + 1 < 2 ^ 64 - 1"
  obtains e' d' where "encode_ops ops (e\<lparr>enc_out := []\<rparr>) = Ok e'" "DecodeFull (enc_out e') d = (d', Ok (ops_fields ops))"
    "in_step A (n + length ops) e' d'" "idle d'"
proof -
  let ?c = "SetEmitFunc collect_fields [] d"
  have "in_step A n (e\<lparr>enc_out := []\<rparr>) ?c" using assms(1) in_step_cong [of ?c d] by simp
  then obtain e' c' where 1: "encode_ops ops (e\<lparr>enc_out := []\<rparr>) = Ok e'" "runs (enc_out e') ?c c'"
    "in_step A (n + length ops) e' c'" "collecting c'" "dec_env c' = ops_fields ops"
    using encode_ops_run [OF _ collecting_SetEmitFunc [OF assms(2)] assms(3,4)] by fastforce
  obtain d' where "DecodeFull (enc_out e') d = (d', Ok (dec_env c'))" "idle d'" "dec_dynTab d' = dec_dynTab c'"
    using DecodeFull_run [OF 1(2,4) assms(2)] by blast
  with 1 show thesis using that in_step_cong [of d' c'] by simp
qed

lemma session_fields:
  assumes "in_step A n e d" "idle d" "list_all (list_all (legal_op A)) blocks" "n + length (concat blocks) + 1 < 2 ^ 64 - 1"
  shows "session blocks e d = map (\<lambda>ops. Ok (ops_fields ops)) blocks"
  using assms
proof (induction blocks arbitrary: n e d)
  case (Cons ops blocks)
  then have ops: "list_all (legal_op A) ops" "n + length ops + 1 < 2 ^ 64 - 1" by simp_all
  obtain e' d' where 1: "encode_ops ops (e\<lparr>enc_out := []\<rparr>) = Ok e'" "DecodeFull (enc_out e') d = (d', Ok (ops_fields ops))"
    "in_step A (n + length ops) e' d'" "idle d'"
    using session_step [OF Cons.prems(1,2) ops] by blast
  with Cons.IH [OF 1(3,4)] Cons.prems(3,4) show ?case by simp
qed simp

lemma new_in_step:
  assumes "4096 \<le> unat A" "unat A < 2 ^ 31"
  obtains e d where "NewEncoder (\<lambda>b. (length b, None)) = Ok e" "NewDecoder A emit env = Ok d" "in_step (unat A) 0 e d" "idle d"
proof -
  have new: "dt_inv (new_dynamicTable a)" "ents (dt_table (new_dynamicTable a)) = []" "evictCount (dt_table (new_dynamicTable a)) = 0"
    "dt_allowedMaxSize (new_dynamicTable a) = a" for a
    by (simp_all add: dt_inv_def new_dynamicTable_def table_inv_init) (simp_all add: table_init_def)
  have sized: "\<exists>t. dt_setMaxSize v (new_dynamicTable a) = Ok t \<and> dt_inv t \<and> dt_maxSize t = v \<and> dt_allowedMaxSize t = a \<and>
      ents (dt_table t) = [] \<and> evictCount (dt_table t) = 0" for v a
  proof -
    obtain t where "dt_setMaxSize v (new_dynamicTable a) = Ok t" "dt_inv t" "dt_maxSize t = v"
      "dt_allowedMaxSize t = dt_allowedMaxSize (new_dynamicTable a)"
      "ents (dt_table t) = fit (unat v) (ents (dt_table (new_dynamicTable a)))"
      "unat (evictCount (dt_table t)) + length (ents (dt_table t)) =
       unat (evictCount (dt_table (new_dynamicTable a))) + length (ents (dt_table (new_dynamicTable a)))"
      using dt_setMaxSize_fit [OF new(1) [of a]] by blast
    then show ?thesis by (simp add: new unat_eq_zero)
  qed
  obtain te where te: "dt_setMaxSize initialHeaderTableSize (new_dynamicTable 0) = Ok te" "dt_inv te" "dt_maxSize te = initialHeaderTableSize"
    "ents (dt_table te) = []" "evictCount (dt_table te) = 0"
    using sized by blast
  obtain td where td: "dt_setMaxSize A (new_dynamicTable A) = Ok td" "dt_inv td" "dt_maxSize td = A" "dt_allowedMaxSize td = A"
    "ents (dt_table td) = []" "evictCount (dt_table td) = 0"
    using sized by blast
  let ?e = "\<lparr>enc_dynTab = te, enc_minSize = uint32Max, enc_maxSizeLimit = initialHeaderTableSize,
    enc_tableSizeUpdate = False, enc_out = [], enc_Write = (\<lambda>b. (length b, None))\<rparr>"
  let ?d = "\<lparr>dec_dynTab = td, dec_emit = emit, dec_env = env, dec_emitEnabled = True, dec_maxStrLen = 0,
    dec_buf = [], dec_saveBuf = []\<rparr>"
  have "NewEncoder (\<lambda>b. (length b, None)) = Ok ?e" "NewDecoder A emit env = Ok ?d"
    unfolding NewEncoder_def NewDecoder_def te(1) td(1) by simp_all
  moreover have "in_step (unat A) 0 ?e ?d"
    using te td assms by (simp add: in_step_def initialHeaderTableSize_def word_le_nat_alt)
  ultimately show thesis using that [of ?e ?d] by (simp add: idle_def)
qed

text \<open>C34: the encoder and the decoder of HPACK stay in step over any number of header blocks, whatever fields
  are written, with or without indexing and whichever of them are sensitive, and however the table size and
  its limit are changed in between: the decoder gives back, block by block, exactly the fields written.\<close>

theorem hpack_session:
  assumes "4096 \<le> unat A" "unat A < 2 ^ 31" "list_all (list_all (legal_op (unat A))) blocks" "length (concat blocks) + 1 < 2 ^ 64 - 1"
  shows "\<exists>e d. NewEncoder (\<lambda>b. (length b, None)) = Ok e \<and> NewDecoder A emit env = Ok d \<and>
    session blocks e d = map (\<lambda>ops. Ok (ops_fields ops)) blocks"
proof -
  obtain e d where "NewEncoder (\<lambda>b. (length b, None)) = Ok e" "NewDecoder A emit env = Ok d" "in_step (unat A) 0 e d" "idle d"
    using new_in_step [OF assms(1,2), of emit env] by blast
  with session_fields [of "unat A" 0 e d blocks] assms(3,4) show ?thesis by auto
qed

theorem hpack_session_witness:
  "\<exists>e d. NewEncoder (\<lambda>b. (length b, None)) = Ok e \<and> NewDecoder 4096 (\<lambda>f s. s) () = Ok d \<and>
    session [[Field \<lparr>hf_Name = '':method'', hf_Value = ''GET'', hf_Sensitive = False\<rparr>], [TableSizeLimit 64, Field
      \<lparr>hf_Name = ''grpc-status'', hf_Value = ''0'', hf_Sensitive = True\<rparr>]] e d =
    [Ok [\<lparr>hf_Name = '':method'', hf_Value = ''GET'', hf_Sensitive = False\<rparr>],
     Ok [\<lparr>hf_Name = ''grpc-status'', hf_Value = ''0'', hf_Sensitive = True\<rparr>]]"
  using hpack_session [of 4096 "[[Field \<lparr>hf_Name = '':method'', hf_Value = ''GET'', hf_Sensitive = False\<rparr>], [TableSizeLimit 64, Field
      \<lparr>hf_Name = ''grpc-status'', hf_Value = ''0'', hf_Sensitive = True\<rparr>]]" "\<lambda>f s. s" "()"]
  by (simp add: hf_size_def)

end
