(* ===== verification/GrpcWriting.thy ===== *)
theory GrpcWriting
  imports GrpcServerInv HpackSync
begin

text \<open>
  What a server transport sends: the outbound quota of streams under SETTINGS frames, the DATA frames of \<open>Write\<close> within the
  quotas, and the headers of \<open>WriteStatus\<close>, which the HPACK decoder of the peer and \<open>processHeaderField\<close> turn back into the
  status and the metadata.
\<close>

section \<open>Settings of the peer\<close>

lemma uint_word_diff: "uint (v - w :: 32 word) = uint v - uint w + (if v < w then 2 ^ 32 else 0)"
proof (cases "v < w")
  case True
  then have "\<not> uint w \<le> uint v" by (simp add: word_less_def)
  then show ?thesis using True by (simp add: uint_sub_if')
next
  case False
  then have "uint w \<le> uint v" by (simp add: word_less_def)
  then show ?thesis using False by (simp add: uint_sub_if')
qed

text \<open>C28: when the peer changes its initial window size, the quota of every active stream changes by the difference, but by
  4294967296 too much when the window becomes smaller, since the difference is taken in 32 bits. A second such setting in the
  same frame is never applied: the goroutine waits for a mutex it holds.\<close>

theorem settings_shift_quota:
  assumes "getStream sid t = Some s" "quota_inv (s_sendQuotaPool s)" "list_all (\<lambda>(k, _). k \<noteq> SettingInitialWindowSize) (ss @ ss')"
  shows "(\<exists>t' s'. applySettings (ss @ (SettingInitialWindowSize, v) # ss') t = Some t' \<and> getStream sid t' = Some s' \<and> streamSendQuota t' = v \<and>
      quota_total (s_sendQuotaPool s') = quota_total (s_sendQuotaPool s) + (uint v - uint (streamSendQuota t)) + (if v < streamSendQuota t then 2 ^ 32 else 0)) \<and>
    applySettings (ss @ (SettingInitialWindowSize, v) # ss' @ [(SettingInitialWindowSize, v')]) t = None"
proof -
  have other: "apply_settings l (xs @ ys) t = apply_settings l ys t" if "list_all (\<lambda>(k, _). k \<noteq> SettingInitialWindowSize) xs" for l xs ys t
    using that by (induction xs) auto
  note skip = other [of ss' _ "[]", simplified] other
  obtain ids where ids: "activeStreams t = Some ids" "sid \<in> set ids" "store_streams t sid = Some s"
    using assms(1) by (auto simp: getStream_def split: option.splits if_splits)
  show ?thesis
    using assms(2,3) ids by (simp add: applySettings_def skip Let_def getStream_def uint_word_diff)
qed

theorem settings_shift_quota_witness:
  "\<forall>enc. \<exists>t' s'. applySettings [(SettingInitialWindowSize, 65534)] (one_stream enc) = Some t' \<and> getStream 1 t' = Some s' \<and>
     quota_total (s_sendQuotaPool s') = 65534 + 2 ^ 32"
proof
  fix enc
  have "getStream 1 (one_stream enc) = Some first_stream" by (simp add: getStream_def one_stream_simps)
  from settings_shift_quota [OF this, of "[]" "[]" 65534 0]
  show "\<exists>t' s'. applySettings [(SettingInitialWindowSize, 65534)] (one_stream enc) = Some t' \<and> getStream 1 t' = Some s' \<and>
     quota_total (s_sendQuotaPool s') = 65534 + 2 ^ 32"
    by (auto simp: first_stream_def one_stream_simps)
qed

section \<open>Data within the quotas\<close>

text \<open>The quotas of a stream and of its connection.\<close>

definition pools :: "32 word \<Rightarrow> http2Server \<Rightarrow> int \<Rightarrow> int \<Rightarrow> bool" where
  "pools sid t q c \<longleftrightarrow> (\<exists>s. store_streams t sid = Some s \<and> quota_inv (s_sendQuotaPool s) \<and> quota_total (s_sendQuotaPool s) = q) \<and>
     quota_inv (t_sendQuotaPool t) \<and> quota_total (t_sendQuotaPool t) = c"

lemma srv_Close_out [simp]: "t_out (fst (srv_Close t)) = t_out t"
  by (simp add: srv_Close_def Let_def)

lemma upd_stream_out [simp]: "t_out (upd_stream sid s t) = t_out t" "t_sendQuotaPool (upd_stream sid s t) = t_sendQuotaPool t" "t_hEnc (upd_stream sid s t) = t_hEnc t"
  by (simp_all add: upd_stream_def)

lemma wait_result_not_done [simp]: "wait_result e \<noteq> WriteDone"
  by (cases e) simp_all

lemma give_up_out [simp]: "t_out (give_up b t) = t_out t"
  by (simp add: give_up_def ctl_put_def)

text \<open>A frame is written when the stream offers \<open>sq\<close> bytes and the connection \<open>tq\<close>; what is not used goes back to the pools.\<close>

lemma write_frame_sends:
  assumes "pools sid t 0 0" "data \<noteq> []" "0 < sq" "0 < tq" "write_frame sid fail sq tq data t = (t', Inr rest)"
  obtains p where "data = p @ rest" "p \<noteq> []" "length p \<le> http2MaxFrameLen" "int (length p) \<le> sq" "int (length p) \<le> tq"
    "t_out t' = t_out t @ [SentData sid p]" "pools sid t' (sq - int (length p)) (tq - int (length p))"
proof -
  define p where "p = take (nat (min (int http2MaxFrameLen) (min sq tq))) data"
  obtain s where s: "store_streams t sid = Some s" "quota_inv (s_sendQuotaPool s)" "quota_total (s_sendQuotaPool s) = 0"
    "quota_inv (t_sendQuotaPool t)" "quota_total (t_sendQuotaPool t) = 0"
    using assms(1) by (auto simp: pools_def)
  have "nat (min (int http2MaxFrameLen) (min sq tq)) \<noteq> 0" using assms(3,4) by (simp add: http2MaxFrameLen_def)
  then have p: "p \<noteq> []" "length p \<le> nat (min (int http2MaxFrameLen) (min sq tq))"
    using assms(2) unfolding p_def take_eq_Nil length_take by simp_all
  then have le: "length p \<le> http2MaxFrameLen" "int (length p) \<le> sq" "int (length p) \<le> tq" using assms(3,4) by linarith+
  define v where "v = upd_stream sid (if int (length p) < sq then s\<lparr>s_sendQuotaPool := quota_add (sq - int (length p)) (s_sendQuotaPool s)\<rparr> else s) t"
  define w where "w = (if int (length p) < tq then v\<lparr>t_sendQuotaPool := quota_add (tq - int (length p)) (t_sendQuotaPool v)\<rparr> else v)"
  have t': "t' = w\<lparr>t_out := t_out w @ [SentData sid p]\<rparr>" "rest = drop (length p) data"
    using assms(5) unfolding write_frame_def Let_def s(1) option.sel p_def [symmetric] v_def [symmetric] w_def [symmetric]
    by (auto split: write_fail.splits if_splits)
  have v: "t_out v = t_out t" "t_sendQuotaPool v = t_sendQuotaPool t" by (simp_all add: v_def)
  have "data = p @ rest" unfolding t'(2) p_def by (simp add: min_def)
  moreover have "t_out t' = t_out t @ [SentData sid p]" by (simp add: t' w_def v)
  moreover have "pools sid v (sq - int (length p)) 0" using s le(2) by (auto simp: pools_def v_def)
  then have "pools sid w (sq - int (length p)) (tq - int (length p))" using s(4,5) le(3) by (auto simp: pools_def w_def v)
  then have "pools sid t' (sq - int (length p)) (tq - int (length p))" by (simp add: pools_def t')
  ultimately show thesis using that p(1) le by blast
qed

lemma write_frame_stops:
  assumes "write_frame sid fail sq tq data t = (t', Inl r)"
  shows "t_out t' = t_out t \<and> r \<noteq> WriteDone"
proof -
  define p where "p = take (nat (min (int http2MaxFrameLen) (min sq tq))) data"
  define v where "v = upd_stream sid (if int (length p) < sq then (the (store_streams t sid))\<lparr>s_sendQuotaPool := quota_add (sq - int (length p))
      (s_sendQuotaPool (the (store_streams t sid)))\<rparr> else the (store_streams t sid)) t"
  define w where "w = (if int (length p) < tq then v\<lparr>t_sendQuotaPool := quota_add (tq - int (length p)) (t_sendQuotaPool v)\<rparr> else v)"
  have "t_out w = t_out t" by (simp add: w_def v_def)
  then show ?thesis
    using assms unfolding write_frame_def Let_def p_def [symmetric] v_def [symmetric] w_def [symmetric] by (cases fail) (auto split: if_splits)
qed

lemma write_turn_sends:
  assumes "pools sid t q c" "data \<noteq> []" "write_turn sid e data t = (t', Inr rest)"
  obtains p where "data = p @ rest" "p \<noteq> []" "length p \<le> http2MaxFrameLen" "int (length p) \<le> q + wt_stream_add e" "int (length p) \<le> c + wt_conn_add e"
    "t_out t' = t_out t @ [SentData sid p]" "pools sid t' (q + wt_stream_add e - int (length p)) (c + wt_conn_add e - int (length p))"
proof -
  obtain s where s: "store_streams t sid = Some s" "quota_inv (s_sendQuotaPool s)" "quota_total (s_sendQuotaPool s) = q"
    "quota_inv (t_sendQuotaPool t)" "quota_total (t_sendQuotaPool t) = c"
    using assms(1) by (auto simp: pools_def)
  let ?sp = "quota_add (wt_stream_add e) (s_sendQuotaPool s)" and ?tp = "quota_add (wt_conn_add e) (t_sendQuotaPool t)"
  obtain sq sp tq tp u where a: "quota_acquire ?sp = Some (sq, sp)" "quota_acquire ?tp = Some (tq, tp)"
      "write_frame sid (wt_fail e) sq tq data u = (t', Inr rest)"
    and u: "u = (upd_stream sid (s\<lparr>s_sendQuotaPool := sp\<rparr>) t)\<lparr>t_sendQuotaPool := tp\<rparr>"
    using assms(3) unfolding write_turn_def Let_def s(1) option.sel by (auto simp: upd_stream_def split: write_fail.splits option.splits prod.splits)
  have sq: "sq = q + wt_stream_add e" "0 < sq" "quota_inv sp" "quota_total sp = 0"
    using quota_acquire_inv [of ?sp] s a(1) by simp_all
  have tq: "tq = c + wt_conn_add e" "0 < tq" "quota_inv tp" "quota_total tp = 0"
    using quota_acquire_inv [of ?tp] s a(2) by simp_all
  have "pools sid u 0 0" using sq tq by (simp add: pools_def u)
  from write_frame_sends [OF this assms(2) sq(2) tq(2) a(3)] show thesis using that sq(1) tq(1) u by (auto simp: upd_stream_def)
qed

lemma write_turn_stops:
  assumes "write_turn sid e data t = (t', Inl r)"
  shows "t_out t' = t_out t \<and> r \<noteq> WriteDone"
  using assms unfolding write_turn_def Let_def
  by (auto split: write_fail.splits option.splits prod.splits dest: write_frame_stops)

text \<open>The frames of the loop: never more than the quota there was and the quota added by then.\<close>

definition within :: "int \<Rightarrow> int list \<Rightarrow> bytes list \<Rightarrow> bool" where
  "within q adds ps \<longleftrightarrow> (\<forall>k\<in>{1..length ps}. int (length (concat (take k ps))) \<le> q + sum_list (take k adds))"

lemma within_Cons:
  assumes "int (length p) \<le> q + a" "within (q + a - int (length p)) adds ps"
  shows "within q (a # adds) (p # ps)"
  unfolding within_def
proof
  fix k
  assume "k \<in> {1..length (p # ps)}"
  then obtain j where k: "k = Suc j" "j \<le> length ps" by (cases k) auto
  show "int (length (concat (take k (p # ps)))) \<le> q + sum_list (take k (a # adds))"
  proof (cases "j = 0")
    case False
    then have "int (length (concat (take j ps))) \<le> q + a - int (length p) + sum_list (take j adds)" using assms(2) k(2) by (simp add: within_def)
    then show ?thesis by (simp add: k(1))
  qed (use assms(1) k in simp)
qed

lemma write_loop_sends:
  assumes "pools sid t q c" "srv_write_loop sid turns data t = (t', r)"
  shows "\<exists>ps. t_out t' = t_out t @ map (SentData sid) ps \<and> prefix (concat ps) data \<and> (r = WriteDone \<longrightarrow> concat ps = data) \<and>
    length ps \<le> length turns \<and> (\<forall>p\<in>set ps. p \<noteq> [] \<and> length p \<le> http2MaxFrameLen) \<and>
    within q (map wt_stream_add turns) ps \<and> within c (map wt_conn_add turns) ps"
  using assms
proof (induction turns arbitrary: t data q c)
  case Nil
  then show ?case by (intro exI [of _ "[]"]) (auto simp: within_def split: if_splits)
next
  case (Cons e turns)
  show ?case
  proof (cases "data = []")
    case False
    obtain u x where u: "write_turn sid e data t = (u, x)" by fastforce
    show ?thesis
    proof (cases x)
      case (Inl y)
      then show ?thesis using Cons.prems(2) False u write_turn_stops [of sid e data t u y] by (intro exI [of _ "[]"]) (auto simp: within_def)
    next
      case (Inr rest)
      obtain p where p: "data = p @ rest" "p \<noteq> []" "length p \<le> http2MaxFrameLen" "int (length p) \<le> q + wt_stream_add e" "int (length p) \<le> c + wt_conn_add e"
        "t_out u = t_out t @ [SentData sid p]" "pools sid u (q + wt_stream_add e - int (length p)) (c + wt_conn_add e - int (length p))"
        using write_turn_sends [OF Cons.prems(1) False u [unfolded Inr]] by blast
      have "srv_write_loop sid turns rest u = (t', r)" using Cons.prems(2) False u Inr by simp
      from Cons.IH [OF p(7) this] obtain ps where "t_out t' = t_out u @ map (SentData sid) ps" "prefix (concat ps) rest" "r = WriteDone \<longrightarrow> concat ps = rest"
        "length ps \<le> length turns" "\<forall>p\<in>set ps. p \<noteq> [] \<and> length p \<le> http2MaxFrameLen"
        "within (q + wt_stream_add e - int (length p)) (map wt_stream_add turns) ps"
        "within (c + wt_conn_add e - int (length p)) (map wt_conn_add turns) ps"
        by blast
      then show ?thesis using p(1-6) within_Cons by (intro exI [of _ "p # ps"]) simp
    qed
  qed (use Cons.prems in \<open>auto simp: within_def intro!: exI [of _ "[]"]\<close>)
qed

text \<open>The loop finishes when no wait fails, the quotas cover the data and there are turns for all frames. It leaves the headers alone.\<close>

definition header_side :: "32 word \<Rightarrow> http2Server \<Rightarrow> Encoder \<times> (streamState \<times> bool \<times> MD \<times> MD) option" where
  "header_side sid t = (t_hEnc t, map_option (\<lambda>s. (s_state s, s_headerOk s, s_header s, s_trailer s)) (store_streams t sid))"

lemma write_turn_progress:
  assumes "pools sid t q c" "data \<noteq> []" "wt_fail e = NoFail" "int (length data) \<le> q + wt_stream_add e" "int (length data) \<le> c + wt_conn_add e"
  shows "\<exists>t'. write_turn sid e data t = (t', Inr (drop http2MaxFrameLen data)) \<and> header_side sid t' = header_side sid t"
proof -
  obtain s where s: "store_streams t sid = Some s" "quota_inv (s_sendQuotaPool s)" "quota_total (s_sendQuotaPool s) = q"
    "quota_inv (t_sendQuotaPool t)" "quota_total (t_sendQuotaPool t) = c"
    using assms(1) by (auto simp: pools_def)
  let ?sp = "quota_add (wt_stream_add e) (s_sendQuotaPool s)" and ?tp = "quota_add (wt_conn_add e) (t_sendQuotaPool t)"
  have pos: "0 < int (length data)" using assms(2) by simp
  obtain sq sp where sq: "quota_acquire ?sp = Some (sq, sp)" "sq = q + wt_stream_add e"
    using quota_acquire_inv [of ?sp] s(2,3) assms(4) pos by (cases "quota_acquire ?sp") auto
  obtain tq tp where tq: "quota_acquire ?tp = Some (tq, tp)" "tq = c + wt_conn_add e"
    using quota_acquire_inv [of ?tp] s(4,5) assms(5) pos by (cases "quota_acquire ?tp") auto
  have p: "take (nat (min (int http2MaxFrameLen) (min sq tq))) data = take http2MaxFrameLen data"
    using assms(4,5) sq(2) tq(2) by (auto simp: min_def)
  have d: "drop (length (take http2MaxFrameLen data)) data = drop http2MaxFrameLen data" by (simp add: min_def)
  define u where "u = (upd_stream sid (s\<lparr>s_sendQuotaPool := sp\<rparr>) t)\<lparr>t_sendQuotaPool := tp\<rparr>"
  define n where "n = int (length (take http2MaxFrameLen data))"
  define v where "v = upd_stream sid (if n < sq then s\<lparr>s_sendQuotaPool := quota_add (sq - n) sp\<rparr> else s\<lparr>s_sendQuotaPool := sp\<rparr>) u"
  define w where "w = (if n < tq then v\<lparr>t_sendQuotaPool := quota_add (tq - n) (t_sendQuotaPool v)\<rparr> else v)"
  have u: "store_streams u sid = Some (s\<lparr>s_sendQuotaPool := sp\<rparr>)" "header_side sid u = header_side sid t" using s(1) by (simp_all add: u_def header_side_def)
  have "header_side sid v = header_side sid u" using u(1) by (simp add: v_def header_side_def)
  then have side: "header_side sid w = header_side sid t" using u(2) by (simp add: w_def header_side_def)
  have "write_frame sid NoFail sq tq data u = (w\<lparr>t_out := t_out w @ [SentData sid (take http2MaxFrameLen data)]\<rparr>, Inr (drop http2MaxFrameLen data))"
    using u(1) d unfolding write_frame_def Let_def p n_def [symmetric] by (simp add: v_def w_def del: length_take)
  moreover have "write_turn sid e data t = write_frame sid NoFail sq tq data u"
    using s(1) sq(1) tq(1) assms(3) by (simp add: write_turn_def Let_def u_def upd_stream_def)
  ultimately show ?thesis using side by (simp add: header_side_def)
qed

lemma write_loop_finishes:
  assumes "pools sid t q c" "\<forall>e\<in>set turns. wt_fail e = NoFail \<and> 0 \<le> wt_stream_add e \<and> 0 \<le> wt_conn_add e"
    and "int (length data) \<le> q" "int (length data) \<le> c" "length data \<le> http2MaxFrameLen * length turns"
  shows "\<exists>t' q' c'. srv_write_loop sid turns data t = (t', WriteDone) \<and> header_side sid t' = header_side sid t \<and>
    pools sid t' q' c' \<and> q - int (length data) \<le> q' \<and> c - int (length data) \<le> c'"
  using assms
proof (induction turns arbitrary: t data q c)
  case (Cons e turns)
  show ?case
  proof (cases "data = []")
    case False
    define rest where "rest = drop http2MaxFrameLen data"
    obtain u where u: "write_turn sid e data t = (u, Inr rest)" "header_side sid u = header_side sid t"
      using write_turn_progress [OF Cons.prems(1) False, of e] Cons.prems(2-4) by (auto simp: rest_def)
    obtain p where p: "data = p @ rest" "pools sid u (q + wt_stream_add e - int (length p)) (c + wt_conn_add e - int (length p))"
      using write_turn_sends [OF Cons.prems(1) False u(1)] by blast
    have len: "length data = length p + length rest" using arg_cong [OF p(1), of length] by simp
    have rest: "length rest \<le> http2MaxFrameLen * length turns" using Cons.prems(5) by (simp add: rest_def)
    have pre: "\<forall>e\<in>set turns. wt_fail e = NoFail \<and> 0 \<le> wt_stream_add e \<and> 0 \<le> wt_conn_add e"
      "int (length rest) \<le> q + wt_stream_add e - int (length p)" "int (length rest) \<le> c + wt_conn_add e - int (length p)"
      "length rest \<le> http2MaxFrameLen * length turns"
      using Cons.prems(2-5) len rest by simp_all
    obtain t' q' c' where t': "srv_write_loop sid turns rest u = (t', WriteDone)" "header_side sid t' = header_side sid u" "pools sid t' q' c'"
      "q + wt_stream_add e - int (length p) - int (length rest) \<le> q'"
      "c + wt_conn_add e - int (length p) - int (length rest) \<le> c'"
      using Cons.IH [OF p(2) pre] by blast
    have "q - int (length data) \<le> q'" "c - int (length data) \<le> c'" using t'(4,5) len Cons.prems(2) by simp_all
    moreover have "srv_write_loop sid (e # turns) data t = (t', WriteDone)" "header_side sid t' = header_side sid t" using False u t'(1,2) by simp_all
    ultimately show ?thesis using t'(3) by blast
  qed (use Cons.prems in auto)
qed auto

section \<open>Header blocks\<close>

text \<open>How a peer puts the frames of a header block together: HEADERS, then CONTINUATION frames of the same stream, of which the last
  one and no other ends the block.\<close>

fun continued_block :: "32 word \<Rightarrow> sent list \<Rightarrow> bytes option" where
  "continued_block sid (SentContinuation i frag endHeaders # fs) =
     (if i \<noteq> sid then None else if endHeaders then (if fs = [] then Some frag else None) else map_option ((@) frag) (continued_block sid fs))"
| "continued_block sid _ = None"

fun header_block :: "32 word \<Rightarrow> bool \<Rightarrow> sent list \<Rightarrow> bytes option" where
  "header_block sid endStream (SentHeaders i frag es endHeaders # fs) =
     (if i \<noteq> sid \<or> es \<noteq> endStream then None
      else if endHeaders then (if fs = [] then Some frag else None) else map_option ((@) frag) (continued_block sid fs))"
| "header_block sid endStream _ = None"

fun header_frame :: "32 word \<Rightarrow> sent \<Rightarrow> bool" where
  "header_frame sid (SentHeaders i frag es endHeaders) = (i = sid \<and> length frag \<le> http2MaxFrameLen)"
| "header_frame sid (SentContinuation i frag endHeaders) = (i = sid \<and> length frag \<le> http2MaxFrameLen)"
| "header_frame sid _ = False"

lemma header_frames_continued: "continued_block sid (header_frames sid es False b) = Some b"
proof (induction b rule: length_induct)
  case (1 b)
  show ?case
  proof (cases "length b > http2MaxFrameLen")
    case True
    then have "length (drop http2MaxFrameLen b) < length b" by (simp add: http2MaxFrameLen_def)
    with 1 True show ?thesis by (subst header_frames.simps) (simp add: Let_def)
  qed (subst header_frames.simps, simp add: Let_def)
qed

lemma header_frames_block: "header_block sid es (header_frames sid es True b) = Some b"
  by (subst header_frames.simps) (simp add: Let_def header_frames_continued)

lemma header_frames_sized: "list_all (header_frame sid) (header_frames sid es first b)"
proof (induction sid es first b rule: header_frames.induct)
  case (1 sid es first b)
  show ?case using 1 [OF refl refl] by (subst header_frames.simps) (simp add: Let_def)
qed

lemma writeHeaders_out:
  assumes "writeHeaders fl sid es b t = (u, sent)"
  obtains fs where "t_out u = t_out t @ fs" "prefix fs (header_frames sid es True b)" "sent \<Longrightarrow> fs = header_frames sid es True b"
  using assms by (auto simp: writeHeaders_def Let_def take_is_prefix split: option.splits if_splits)

lemma pools_Close [simp]: "pools sid (fst (srv_Close t)) q c = pools sid t q c"
  by (auto simp: pools_def srv_Close_def Let_def split: option.split)

lemma pools_fields [simp]: "pools sid (t\<lparr>t_out := a\<rparr>) q c = pools sid t q c" "pools sid (t\<lparr>resetPingStrikes := b\<rparr>) q c = pools sid t q c"
  "pools sid (t\<lparr>t_hEnc := e\<rparr>) q c = pools sid t q c"
  by (simp_all add: pools_def)

lemma writeHeaders_pools: "writeHeaders fl sid es b t = (u, sent) \<Longrightarrow> pools i t q c \<Longrightarrow> pools i u q c"
  by (auto simp: writeHeaders_def Let_def split: option.splits if_splits)

lemma WriteHeader_out:
  assumes "WriteHeader w sid md t = Ok (t', r)" "pools sid t q c"
  shows "pools sid t' q c \<and> (\<exists>fs. t_out t' = t_out t @ fs \<and> list_all (header_frame sid) fs)"
proof -
  obtain s where s: "store_streams t sid = Some s" using assms(2) by (auto simp: pools_def)
  have p: "pools sid (upd_stream sid (with_header md s) t) q c" using assms(2) s by (auto simp: pools_def)
  from assms(1) s show ?thesis
  proof (cases rule: WriteHeader_cases)
    case (3 e k)
    obtain fs where fs: "t_out t' = t_out t @ fs" "prefix fs (header_frames sid False True (enc_out e))"
      using writeHeaders_out [OF 3(2)] by auto
    then have "list_all (header_frame sid) fs" using header_frames_sized [of sid False True "enc_out e"] by (auto simp: prefix_def)
    then show ?thesis using writeHeaders_pools [OF 3(2), of sid q c] p fs(1) by auto
  qed (use p assms(2) in auto)
qed

text \<open>C25: \<open>Write\<close> sends its data in DATA frames of at most 16384 bytes, none of them empty, in order and after the headers, if those
  were still to be sent. When it returns without an error everything was sent; in every case the bytes sent by the time of each
  frame are covered by the quota the stream and the connection had and what the peer added until then.\<close>

theorem write_within_quota:
  assumes "store_streams t sid = Some s" "s_state s \<noteq> streamDone" "quota_inv (s_sendQuotaPool s)" "quota_inv (t_sendQuotaPool t)"
    and "srv_Write w sid turns data t = Ok (t', r)"
  shows "\<exists>hs ps. t_out t' = t_out t @ hs @ map (SentData sid) ps \<and> list_all (header_frame sid) hs \<and> (s_headerOk s \<longrightarrow> hs = []) \<and>
    prefix (concat ps) data \<and> (r = WriteDone \<longrightarrow> concat ps = data) \<and> length ps \<le> length turns \<and>
    (\<forall>p\<in>set ps. p \<noteq> [] \<and> length p \<le> http2MaxFrameLen) \<and>
    within (quota_total (s_sendQuotaPool s)) (map wt_stream_add turns) ps \<and> within (quota_total (t_sendQuotaPool t)) (map wt_conn_add turns) ps"
proof -
  let ?q = "quota_total (s_sendQuotaPool s)" and ?c = "quota_total (t_sendQuotaPool t)"
  have p0: "pools sid t ?q ?c" using assms(1,3,4) by (simp add: pools_def)
  obtain u where u: "(if \<not> s_headerOk s then res_bind (WriteHeader w sid [] t) (\<lambda>(t, _). Ok t) else Ok t) = Ok u"
      "(case srv_write_loop sid turns data u of (t, WriteDone) \<Rightarrow> Ok (t\<lparr>resetPingStrikes := True\<rparr>, WriteDone) | r \<Rightarrow> Ok r) = (Ok (t', r) :: (http2Server \<times> write_result) kres)"
    by (rule exE [OF assms(5) [unfolded srv_Write_def assms(1) option.case if_not_P [OF assms(2)], THEN res_bind_eq_Ok [THEN iffD1]]]) (erule conjE, rule that)
  have "pools sid u ?q ?c \<and> (\<exists>hs. t_out u = t_out t @ hs \<and> list_all (header_frame sid) hs \<and> (s_headerOk s \<longrightarrow> hs = []))"
  proof (cases "s_headerOk s")
    case False
    then obtain x where "WriteHeader w sid [] t = Ok (u, x)" using u(1) by auto
    then show ?thesis using WriteHeader_out [OF _ p0] False by blast
  qed (use u(1) p0 in simp)
  then obtain hs where hs: "pools sid u ?q ?c" "t_out u = t_out t @ hs" "list_all (header_frame sid) hs" "s_headerOk s \<longrightarrow> hs = []" by blast
  obtain v y where l: "srv_write_loop sid turns data u = (v, y)" by fastforce
  have "t_out t' = t_out v" "r = y" using u(2) l by (auto split: write_result.splits)
  moreover obtain ps where "t_out v = t_out u @ map (SentData sid) ps \<and> prefix (concat ps) data \<and> (y = WriteDone \<longrightarrow> concat ps = data) \<and>
      length ps \<le> length turns \<and> (\<forall>p\<in>set ps. p \<noteq> [] \<and> length p \<le> http2MaxFrameLen) \<and>
      within ?q (map wt_stream_add turns) ps \<and> within ?c (map wt_conn_add turns) ps"
    using write_loop_sends [OF hs(1) l] by blast
  ultimately show ?thesis using hs(2-4) by (intro exI [of _ hs] exI [of _ ps]) simp
qed

lemma one_stream_pool: "t_sendQuotaPool (one_stream enc) = newQuotaPool 65535"
  by (simp add: one_stream_def HandleStreams_turn_def operateHeaders_def Let_def fresh_server_simps upd_stream_def)
    (simp add: fresh_server_def newHTTP2Server_def Let_def defaultWindowSize_def)

theorem write_within_quota_witness:
  "\<forall>enc. \<exists>t' ps. srv_Write \<lparr>hw_writable = True, hw_fail = None\<rparr> 1 [\<lparr>wt_stream_add = 0, wt_conn_add = 7, wt_fail = NoFail\<rparr>] [1, 2, 3]
      (upd_stream 1 (first_stream\<lparr>s_headerOk := True\<rparr>) (one_stream enc)) = Ok (t', WriteDone) \<and>
    t_out t' = t_out (one_stream enc) @ map (SentData 1) ps \<and> concat ps = [1, 2, 3] \<and> within 65535 [0] ps \<and> within 65535 [7] ps"
proof
  fix enc
  let ?s = "first_stream\<lparr>s_headerOk := True\<rparr>"
  let ?t = "upd_stream 1 ?s (one_stream enc)"
  have "\<exists>t'. srv_Write \<lparr>hw_writable = True, hw_fail = None\<rparr> 1 [\<lparr>wt_stream_add = 0, wt_conn_add = 7, wt_fail = NoFail\<rparr>] [1, 2, 3] ?t = Ok (t', WriteDone)"
    by (simp add: srv_Write_def write_turn_def write_frame_def Let_def first_stream_def one_stream_pool quota_add_def quota_acquire_def newQuotaPool_def http2MaxFrameLen_def)
  then obtain t' where w: "srv_Write \<lparr>hw_writable = True, hw_fail = None\<rparr> 1 [\<lparr>wt_stream_add = 0, wt_conn_add = 7, wt_fail = NoFail\<rparr>] [1, 2, 3] ?t = Ok (t', WriteDone)" by blast
  from write_within_quota [OF _ _ _ _ w, of ?s]
  show "\<exists>t' ps. srv_Write \<lparr>hw_writable = True, hw_fail = None\<rparr> 1 [\<lparr>wt_stream_add = 0, wt_conn_add = 7, wt_fail = NoFail\<rparr>] [1, 2, 3] ?t = Ok (t', WriteDone) \<and>
    t_out t' = t_out (one_stream enc) @ map (SentData 1) ps \<and> concat ps = [1, 2, 3] \<and> within 65535 [0] ps \<and> within 65535 [7] ps"
    using w by (auto simp: first_stream_def one_stream_pool)
qed

section \<open>The status of a call\<close>

lemma write_fields_encoded: "encode_ops (map Field fs) e = Ok e' \<Longrightarrow> write_fields fs e = Ok e'"
  by (induction fs arbitrary: e) (fastforce split: option.splits)+

lemma ops_fields_Field [simp]: "ops_fields (map Field fs) = fs"
  by (induction fs) auto

text \<open>The decoder of the peer gives back the fields of a block.\<close>

lemma write_fields_decoded:
  assumes "in_step A n e d" "idle d" "list_all (\<lambda>f. hf_size f < 2 ^ 32) fs" "n + length fs + 1 < 2 ^ 64 - 1"
  obtains e' d' where "write_fields fs (e\<lparr>enc_out := []\<rparr>) = Ok e'" "DecodeFull (enc_out e') d = (d', Ok fs)" "in_step A (n + length fs) e' d'" "idle d'"
proof -
  have "list_all (legal_op A) (map Field fs)" "n + length (map Field fs) + 1 < 2 ^ 64 - 1" using assms(3,4) by (simp_all add: list_all_iff)
  from session_step [OF assms(1,2) this] obtain e' d' where "encode_ops (map Field fs) (e\<lparr>enc_out := []\<rparr>) = Ok e'"
    "DecodeFull (enc_out e') d = (d', Ok fs)" "in_step A (n + length fs) e' d'" "idle d'"
    by auto
  then show thesis using that write_fields_encoded by blast
qed

text \<open>Metadata arrive under their keys and leave the rest of the state alone; reserved keys are not sent.\<close>

definition sent_metadata :: "MD \<Rightarrow> (string \<rightharpoonup> string list)" where
  "sent_metadata md = map_of (filter (\<lambda>(k, vv). \<not> isReservedHeader k \<and> vv \<noteq> []) md)"

lemma process_append: "process_fields us xs d = (d', None) \<Longrightarrow> process_fields us (xs @ ys) d = process_fields us ys d'"
  by (induction xs arbitrary: d) (auto split: prod.splits option.splits)

lemma process_metadata_field:
  assumes "\<not> isReservedHeader k"
  shows "processHeaderField us (plain_field k (encodeMetadataHeader k v)) d =
    (d\<lparr>ds_mdata := (ds_mdata d)(k \<mapsto> (case ds_mdata d k of None \<Rightarrow> [] | Some vs \<Rightarrow> vs) @ [v])\<rparr>, None)"
proof -
  have k: "k \<noteq> ''content-type''" "k \<noteq> ''grpc-encoding''" "k \<noteq> ''grpc-status''" "k \<noteq> ''grpc-message''" "k \<noteq> ''grpc-status-details-bin''"
    "k \<noteq> ''grpc-timeout''" "k \<noteq> '':path''"
    by (rule notI, use assms in \<open>simp add: isReservedHeader_def\<close>)+
  have "decodeMetadataHeader k (encodeMetadataHeader k v) = Ok v"
    by (simp add: decodeMetadataHeader_def encodeMetadataHeader_def bin_header_roundtrip)
  then show ?thesis using assms k by (simp add: processHeaderField_def plain_field_def)
qed

lemma process_key:
  assumes "\<not> isReservedHeader k" "vv \<noteq> []"
  shows "process_fields us (map (\<lambda>v. plain_field k (encodeMetadataHeader k v)) vv) d =
    (d\<lparr>ds_mdata := (ds_mdata d)(k \<mapsto> (case ds_mdata d k of None \<Rightarrow> [] | Some vs \<Rightarrow> vs) @ vv)\<rparr>, None)"
  using assms(2)
proof (induction vv arbitrary: d rule: list_nonempty_induct)
  case (cons v vv)
  then show ?case by (simp add: process_metadata_field [OF assms(1)] fun_upd_same del: fun_upd_apply)
qed (simp add: process_metadata_field [OF assms(1)])

lemma process_metadata:
  assumes "distinct (map fst md)" "\<forall>k\<in>fst ` set md. ds_mdata d k = None"
  shows "process_fields us (md_fields md) d = (d\<lparr>ds_mdata := ds_mdata d ++ sent_metadata md\<rparr>, None)"
  using assms
proof (induction md arbitrary: d)
  case (Cons kv md)
  obtain k vv where kv: "kv = (k, vv)" by fastforce
  show ?case
  proof (cases "isReservedHeader k \<or> vv = []")
    case True
    then show ?thesis using Cons by (auto simp: kv md_fields_def sent_metadata_def)
  next
    case False
    let ?d = "d\<lparr>ds_mdata := (ds_mdata d)(k \<mapsto> vv)\<rparr>"
    have "process_fields us (md_fields ((k, vv) # md)) d = process_fields us (md_fields md) ?d"
      using process_append [OF process_key [of k vv us d]] False Cons.prems(2) by (simp add: md_fields_def kv)
    also have "\<dots> = (?d\<lparr>ds_mdata := ds_mdata ?d ++ sent_metadata md\<rparr>, None)"
    proof (rule Cons.IH)
      show "distinct (map fst md)" using Cons.prems(1) by simp
      show "\<forall>k'\<in>fst ` set md. ds_mdata ?d k' = None" using Cons.prems by (auto simp: kv)
    qed
    also have "ds_mdata ?d ++ sent_metadata md = ds_mdata d ++ sent_metadata ((k, vv) # md)"
    proof -
      have "sent_metadata md k = None" using Cons.prems(1) by (force simp: kv sent_metadata_def map_of_eq_None_iff)
      then show ?thesis using False by (auto simp: fun_eq_iff map_add_def sent_metadata_def split: option.split)
    qed
    finally show ?thesis by (simp add: kv)
  qed
qed (simp add: md_fields_def sent_metadata_def)

lemma process_status:
  assumes "distinct (map fst (s_trailer s))" "\<forall>b. st_Details st = Some b \<longrightarrow> us b \<noteq> None"
  shows "\<exists>ds. process_fields us (status_fields hs st s) decodeState0 = (ds, None) \<and> rawStatusCode ds = code_num (st_Code st) \<and>
    rawStatusMsg ds = st_Message st \<and> ds_statusGen ds = (case st_Details st of None \<Rightarrow> None | Some b \<Rightarrow> us b) \<and> ds_mdata ds = sent_metadata (s_trailer s)"
proof -
  let ?d0 = "decodeState0 :: 'a decodeState" and ?st = "case st_Details st of None \<Rightarrow> None | Some b \<Rightarrow> us b"
  let ?d1 = "?d0\<lparr>rawStatusCode := code_num (st_Code st), rawStatusMsg := st_Message st\<rparr>"
  let ?d2 = "?d1\<lparr>ds_statusGen := ?st\<rparr>"
  have initial: "process_fields us (if hs then [] else [plain_field '':status'' ''200'', plain_field ''content-type'' ''application/grpc'']) ?d0 = (?d0, None)"
    by (simp add: processHeaderField_def plain_field_def validContentType_def isReservedHeader_def isWhitelistedPseudoHeader_def)
  have c: "0 \<le> code_num (st_Code st)" "code_num (st_Code st) < 17" by (cases "st_Code st"; simp add: code_num_def)+
  then have "parse_int64 (itoa (code_num (st_Code st))) = Some (code_num (st_Code st))" by (intro parse_itoa) simp_all
  moreover have "signed_take_bit 31 (code_num (st_Code st)) = code_num (st_Code st)" using c by (intro signed_take_bit_int_eq_self) simp_all
  ultimately have status: "process_fields us [plain_field ''grpc-status'' (itoa (code_num (st_Code st))), plain_field ''grpc-message'' (encodeGrpcMessage (st_Message st))] ?d0 = (?d1, None)"
    by (simp add: processHeaderField_def plain_field_def decode_unchecked encode_unchecked decode_encode_unchecked)
  have details: "process_fields us (case st_Details st of None \<Rightarrow> [] | Some b \<Rightarrow> [plain_field ''grpc-status-details-bin'' (encodeBinHeader b)]) ?d1 = (?d2, None)"
    using assms(2) by (cases "st_Details st") (auto simp: processHeaderField_def plain_field_def bin_header_roundtrip decodeState0_def)
  have md: "process_fields us (md_fields (s_trailer s)) ?d2 = (?d2\<lparr>ds_mdata := sent_metadata (s_trailer s)\<rparr>, None)"
    using process_metadata [of "s_trailer s" ?d2 us] assms(1) by (simp add: decodeState0_def)
  have "process_fields us (status_fields hs st s) ?d0 = (?d2\<lparr>ds_mdata := sent_metadata (s_trailer s)\<rparr>, None)"
    unfolding status_fields_def process_append [OF initial] process_append [OF status] process_append [OF details] md ..
  then show ?thesis by simp
qed

lemma closeStream_out [simp]: "t_out (closeStream sid t) = t_out t" "t_hEnc (closeStream sid t) = t_hEnc t"
proof -
  have "t_out (forget_stream sid u) = t_out u" "t_hEnc (forget_stream sid u) = t_hEnc u" for u
    by (auto simp: forget_stream_def resetPendingData_def conn_onRead_def ctl_put_def Let_def split: option.split prod.split)
  moreover have "t_hEnc (fst (srv_Close u)) = t_hEnc u" for u by (simp add: srv_Close_def Let_def)
  ultimately show "t_out (closeStream sid t) = t_out t" "t_hEnc (closeStream sid t) = t_hEnc t" by (simp_all add: closeStream_def Let_def)
qed

lemma closeStream_done: "store_streams t sid = Some s \<Longrightarrow> \<exists>s'. store_streams (closeStream sid t) sid = Some s' \<and> s_state s' = streamDone"
proof -
  assume s: "store_streams t sid = Some s"
  have c: "\<exists>s'. store_streams (fst (srv_Close u)) sid = Some s' \<and> s_state s' = streamDone" if "store_streams u sid = Some x" "s_state x = streamDone" for u x
    using that by (auto simp: srv_Close_def Let_def split: option.split)
  define i where "i = (if map_option (removeAll sid) (activeStreams t) = None \<or> map_option (removeAll sid) (activeStreams t) = Some [] then Some (t_now t) else t_idle t)"
  define u where "u = forget_stream sid (t\<lparr>activeStreams := map_option (removeAll sid) (activeStreams t), t_idle := i\<rparr>)"
  obtain x where x: "store_streams u sid = Some x" "s_state x = streamDone"
    using s by (simp add: u_def forget_stream_def resetPendingData_def Let_def)
  have "closeStream sid t = u \<or> closeStream sid t = fst (srv_Close u)" by (auto simp: closeStream_def Let_def u_def i_def)
  then show ?thesis using x c [OF x] by auto
qed

lemma WriteStatus_sent:
  assumes "store_streams t sid = Some s" "s_state s \<noteq> streamDone" "s_headerOk s \<or> s_header s = []" "hw_writable w" "hw_fail w = None"
    and "in_step A n (t_hEnc t) d" "idle d" "fs = status_fields (s_headerOk s) st s"
    and "list_all (\<lambda>f. hf_size f < 2 ^ 32) fs" "n + length fs + 1 < 2 ^ 64 - 1"
    and "distinct (map fst (s_trailer s))" "\<forall>b. st_Details st = Some b \<longrightarrow> us b \<noteq> None"
  shows "\<exists>t' frames block d' ds. WriteStatus w0 w sid st t = Ok (t', None) \<and> t_out t' = t_out t @ frames \<and>
    list_all (header_frame sid) frames \<and> header_block sid True frames = Some block \<and>
    DecodeFull block d = (d', Ok fs) \<and> in_step A (n + length fs) (t_hEnc t') d' \<and> idle d' \<and>
    process_fields us fs decodeState0 = (ds, None) \<and> rawStatusCode ds = code_num (st_Code st) \<and> rawStatusMsg ds = st_Message st \<and>
    ds_statusGen ds = (case st_Details st of None \<Rightarrow> None | Some b \<Rightarrow> us b) \<and> ds_mdata ds = sent_metadata (s_trailer s) \<and>
    (\<exists>s'. store_streams t' sid = Some s' \<and> s_state s' = streamDone)"
proof -
  obtain e d' where e: "write_fields fs ((t_hEnc t)\<lparr>enc_out := []\<rparr>) = Ok e" "DecodeFull (enc_out e) d = (d', Ok fs)" "in_step A (n + length fs) e d'" "idle d'"
    by (rule write_fields_decoded [OF assms(6,7,9,10)])
  let ?u = "t\<lparr>t_hEnc := e, t_out := t_out t @ header_frames sid True True (enc_out e), resetPingStrikes := True\<rparr>"
  have "WriteStatus w0 w sid st t = write_trailers w sid (s_headerOk s) st t" using assms(1-3) by (auto simp: WriteStatus_def)
  also have "\<dots> = Ok (closeStream sid ?u, None)"
    using assms(1,4,5) e(1) by (simp add: write_trailers_def assms(8) [symmetric] writeHeaders_def Let_def)
  finally have w: "WriteStatus w0 w sid st t = Ok (closeStream sid ?u, None)" .
  obtain ds where "process_fields us fs decodeState0 = (ds, None)" "rawStatusCode ds = code_num (st_Code st)" "rawStatusMsg ds = st_Message st"
    "ds_statusGen ds = (case st_Details st of None \<Rightarrow> None | Some b \<Rightarrow> us b)" "ds_mdata ds = sent_metadata (s_trailer s)"
    using process_status [where hs = "s_headerOk s", OF assms(11,12)] unfolding assms(8) by blast
  moreover have "\<exists>s'. store_streams (closeStream sid ?u) sid = Some s' \<and> s_state s' = streamDone" by (rule closeStream_done) (simp add: assms(1))
  ultimately show ?thesis using w e(2-4) header_frames_sized [of sid True True "enc_out e"] header_frames_block [of sid True "enc_out e"]
    by (intro exI [of _ "closeStream sid ?u"] exI [of _ "header_frames sid True True (enc_out e)"] exI [of _ "enc_out e"] exI [of _ d'] exI [of _ ds]) simp
qed

text \<open>C23: the status of a call reaches the peer. \<open>WriteStatus\<close> sends one header block on the stream of the call, in frames of at most
  16384 bytes, that ends the stream; the HPACK decoder of the peer, in step with the encoder, gives back the fields and stays in
  step; and the fields, taken by \<open>processHeaderField\<close>, yield the code, the message, the details and all metadata that were set
  and are not reserved, whatever bytes they contain. Afterwards the stream is done.\<close>

theorem status_delivered:
  assumes "store_streams t sid = Some s" "s_state s \<noteq> streamDone" "s_headerOk s \<or> s_header s = []" "hw_writable w" "hw_fail w = None"
    and "in_step A n (t_hEnc t) d" "idle d" "fs = status_fields (s_headerOk s) st s"
    and "list_all (\<lambda>f. hf_size f < 2 ^ 32) fs" "n + length fs + 1 < 2 ^ 64 - 1"
    and "distinct (map fst (s_trailer s))" "\<forall>b. st_Details st = Some b \<longrightarrow> us b \<noteq> None"
  shows "\<exists>t' frames block d' ds. WriteStatus w0 w sid st t = Ok (t', None) \<and> t_out t' = t_out t @ frames \<and>
    list_all (header_frame sid) frames \<and> header_block sid True frames = Some block \<and>
    DecodeFull block d = (d', Ok fs) \<and> in_step A (n + length fs) (t_hEnc t') d' \<and> idle d' \<and>
    process_fields us fs decodeState0 = (ds, None) \<and> rawStatusCode ds = code_num (st_Code st) \<and> rawStatusMsg ds = st_Message st \<and>
    ds_statusGen ds = (case st_Details st of None \<Rightarrow> None | Some b \<Rightarrow> us b) \<and> ds_mdata ds = sent_metadata (s_trailer s) \<and>
    (\<exists>s'. store_streams t' sid = Some s' \<and> s_state s' = streamDone)"
  by (rule WriteStatus_sent) (use assms in simp_all)

text \<open>The server of a new connection answers its first call with an error.\<close>

definition not_found :: Status where
  "not_found = \<lparr>st_Code = NotFound, st_Message = ''no such device: 100%'', st_Details = None\<rparr>"

theorem status_delivered_witness:
  "\<exists>e d t' frames block d' ds. NewEncoder (\<lambda>b. (length b, None)) = Ok e \<and> NewDecoder 4096 (\<lambda>f s. s) () = Ok d \<and>
    WriteStatus \<lparr>hw_writable = True, hw_fail = None\<rparr> \<lparr>hw_writable = True, hw_fail = None\<rparr> 1 not_found (one_stream e) = Ok (t', None) \<and>
    t_out t' = t_out (one_stream e) @ frames \<and> header_block 1 True frames = Some block \<and>
    DecodeFull block d = (d', Ok (status_fields False not_found first_stream)) \<and>
    process_fields (\<lambda>_. None :: bytes option) (status_fields False not_found first_stream) decodeState0 = (ds, None) \<and>
    rawStatusCode ds = 5 \<and> rawStatusMsg ds = ''no such device: 100%''"
proof -
  obtain e d where n: "NewEncoder (\<lambda>b. (length b, None)) = Ok e" "NewDecoder 4096 (\<lambda>f s. s) () = Ok d" "in_step (unat (4096 :: 32 word)) 0 e d" "idle d"
    by (rule new_in_step [of 4096 "\<lambda>f s. s" "()"]) simp_all
  have s: "store_streams (one_stream e) 1 = Some first_stream" "s_state first_stream \<noteq> streamDone" "s_headerOk first_stream \<or> s_header first_stream = []"
    "status_fields False not_found first_stream = status_fields (s_headerOk first_stream) not_found first_stream"
    by (simp_all add: one_stream_simps) (simp_all add: first_stream_def)
  have l: "list_all (\<lambda>f. hf_size f < 2 ^ 32) (status_fields False not_found first_stream)" "length (status_fields False not_found first_stream) = 4"
    by (simp_all add: status_fields_def not_found_def first_stream_def md_fields_def plain_field_def hf_size_def code_num_def encodeGrpcMessage_def passes_def percent_byte_def hex_char_def
        encodeGrpcMessageUnchecked_def itoa_def nat_digits.simps [of 5])
  show ?thesis
    using status_delivered [OF s(1-3), of "\<lparr>hw_writable = True, hw_fail = None\<rparr>" "unat (4096 :: 32 word)" 0 d "status_fields False not_found first_stream" not_found "\<lambda>_. None :: bytes option"
        "\<lparr>hw_writable = True, hw_fail = None\<rparr>"] n s(4) l
    by (auto simp: one_stream_simps not_found_def code_num_def first_stream_def)
qed

text \<open>The first \<open>Write\<close> of a call sends the headers, which the decoder of the peer reads, and then the data.\<close>

lemma first_Write_sent:
  assumes "store_streams t sid = Some s" "s_state s \<noteq> streamDone" "\<not> s_headerOk s" "hw_writable w" "hw_fail w = None"
    and "quota_inv (s_sendQuotaPool s)" "quota_inv (t_sendQuotaPool t)"
    and "int (length data) \<le> quota_total (s_sendQuotaPool s)" "int (length data) \<le> quota_total (t_sendQuotaPool t)"
    and "\<forall>e\<in>set turns. wt_fail e = NoFail \<and> 0 \<le> wt_stream_add e \<and> 0 \<le> wt_conn_add e" "length data \<le> http2MaxFrameLen * length turns"
    and "in_step A n (t_hEnc t) d" "idle d" "list_all (\<lambda>f. hf_size f < 2 ^ 32) (initial_fields s)" "n + length (initial_fields s) + 1 < 2 ^ 64 - 1"
  obtains t' hs ps b d' s' where "srv_Write w sid turns data t = Ok (t', WriteDone)" "t_out t' = t_out t @ hs @ map (SentData sid) ps"
    "list_all (header_frame sid) hs" "header_block sid False hs = Some b" "DecodeFull b d = (d', Ok (initial_fields s))"
    "in_step A (n + length (initial_fields s)) (t_hEnc t') d'" "idle d'" "concat ps = data" "\<forall>p\<in>set ps. p \<noteq> [] \<and> length p \<le> http2MaxFrameLen"
    "store_streams t' sid = Some s'" "s_state s' = s_state s" "s_headerOk s'" "s_trailer s' = s_trailer s"
    "\<exists>q' c'. pools sid t' q' c' \<and> quota_total (s_sendQuotaPool s) - int (length data) \<le> q' \<and> quota_total (t_sendQuotaPool t) - int (length data) \<le> c'"
proof -
  obtain e d' where e: "write_fields (initial_fields s) ((t_hEnc t)\<lparr>enc_out := []\<rparr>) = Ok e" "DecodeFull (enc_out e) d = (d', Ok (initial_fields s))"
    "in_step A (n + length (initial_fields s)) e d'" "idle d'"
    by (rule write_fields_decoded [OF assms(12-15)])
  define hs where "hs = header_frames sid False True (enc_out e)"
  define u where "u = (upd_stream sid (s\<lparr>s_headerOk := True\<rparr>) t)\<lparr>t_hEnc := e, t_out := t_out t @ hs, resetPingStrikes := True\<rparr>"
  have "initial_fields (s\<lparr>s_headerOk := True\<rparr>) = initial_fields s" by (simp add: initial_fields_def)
  then have h: "WriteHeader w sid [] t = Ok (u, None)"
    using assms(1-5) e(1) by (simp add: WriteHeader_def Let_def writeHeaders_def u_def hs_def)
  have p: "pools sid u (quota_total (s_sendQuotaPool s)) (quota_total (t_sendQuotaPool t))" using assms(6,7) by (simp add: pools_def u_def)
  obtain v q' c' where v: "srv_write_loop sid turns data u = (v, WriteDone)" "header_side sid v = header_side sid u"
    and left: "pools sid v q' c'" "quota_total (s_sendQuotaPool s) - int (length data) \<le> q'" "quota_total (t_sendQuotaPool t) - int (length data) \<le> c'"
    using write_loop_finishes [OF p assms(10,8,9,11)] by blast
  obtain ps where ps: "t_out v = t_out u @ map (SentData sid) ps" "concat ps = data" "\<forall>p\<in>set ps. p \<noteq> [] \<and> length p \<le> http2MaxFrameLen"
    using write_loop_sends [OF p v(1)] by auto
  have "srv_Write w sid turns data t = Ok (v\<lparr>resetPingStrikes := True\<rparr>, WriteDone)"
    using assms(1-3) h v(1) by (simp add: srv_Write_def)
  moreover obtain s' where "store_streams v sid = Some s'" "s_state s' = s_state s" "s_headerOk s'" "s_trailer s' = s_trailer s" "t_hEnc v = e"
    using v(2) by (auto simp: header_side_def u_def)
  ultimately show thesis
    using that [of "v\<lparr>resetPingStrikes := True\<rparr>" hs ps "enc_out e" d' s'] ps e left header_frames_sized [of sid False True "enc_out e"] header_frames_block [of sid False "enc_out e"]
    by (auto simp: u_def hs_def)
qed

text \<open>A later \<open>Write\<close> sends only its data.\<close>

lemma next_Write_sent:
  assumes "store_streams t sid = Some s" "s_state s \<noteq> streamDone" "s_headerOk s" "pools sid t q c"
    and "\<forall>e\<in>set turns. wt_fail e = NoFail \<and> 0 \<le> wt_stream_add e \<and> 0 \<le> wt_conn_add e"
    and "int (length data) \<le> q" "int (length data) \<le> c" "length data \<le> http2MaxFrameLen * length turns"
  obtains t' ps q' c' where "srv_Write w sid turns data t = Ok (t', WriteDone)" "t_out t' = t_out t @ map (SentData sid) ps" "concat ps = data"
    "\<forall>p\<in>set ps. p \<noteq> [] \<and> length p \<le> http2MaxFrameLen" "header_side sid t' = header_side sid t"
    "pools sid t' q' c'" "q - int (length data) \<le> q'" "c - int (length data) \<le> c'"
proof -
  obtain v q' c' where v: "srv_write_loop sid turns data t = (v, WriteDone)" "header_side sid v = header_side sid t"
    "pools sid v q' c'" "q - int (length data) \<le> q'" "c - int (length data) \<le> c'"
    using write_loop_finishes [OF assms(4-8)] by blast
  obtain ps where "t_out v = t_out t @ map (SentData sid) ps" "concat ps = data" "\<forall>p\<in>set ps. p \<noteq> [] \<and> length p \<le> http2MaxFrameLen"
    using write_loop_sends [OF assms(4) v(1)] by auto
  moreover have "srv_Write w sid turns data t = Ok (v\<lparr>resetPingStrikes := True\<rparr>, WriteDone)" using assms(1-3) v(1) by (simp add: srv_Write_def)
  ultimately show thesis using that [of "v\<lparr>resetPingStrikes := True\<rparr>" ps q' c'] v by (simp add: header_side_def)
qed

end
