(* ===== verification/GrpcDispatch.thy ===== *)
theory GrpcDispatch
  imports GrpcMessage GrpcWriting
begin

text \<open>
  How a gRPC server runs a call, \<open>server.go\<close> and the server side of \<open>stream.go\<close> in \<open>google.golang.org/grpc\<close>: the
  registration of services, the dispatch of a stream to a method, unary calls and streaming calls. The parser of a call reads
  from the stream of the transport, which is another reader with the contract \<open>byte_source\<close>. Statistics, traces and logging
  are left out; the texts of errors are arguments.
\<close>

section \<open>Reading from a stream of the transport\<close>

text \<open>\<open>Stream.Read\<close>: the \<open>recvBufferReader\<close> of the stream, then the window handler. Of the reader only \<open>last\<close> and \<open>err\<close> are
  its own; the buffer is that of the stream. A server stream has no channel for \<open>goAway\<close>.\<close>

record stream_reader =
  sr_last :: "bytes option"
  sr_err :: "recv_err option"
  sr_t :: http2Server

definition reader_of :: "Stream \<Rightarrow> stream_reader \<Rightarrow> recvBufferReader" where
  "reader_of s r = \<lparr>rr_ctx = (if s_canceled s then Some CtxCanceled else None), rr_goAway = False, rr_recv = s_buf s, rr_last = sr_last r, rr_err = sr_err r\<rparr>"

definition stream_Read :: "32 word \<Rightarrow> select_choice \<Rightarrow> stream_reader reader" where
  "stream_Read sid sel n r =
     (case store_streams (sr_t r) sid of
        None \<Rightarrow> None
      | Some s \<Rightarrow>
        (case reader_Read sel n (reader_of s r) of
           None \<Rightarrow> None
         | Some (rr, d, e) \<Rightarrow>
           (let t = upd_stream sid (s\<lparr>s_buf := rr_recv rr\<rparr>) (sr_t r);
                t = (if e = None then updateWindow sid (of_nat (length d)) t else t) in
            Some (\<lparr>sr_last = rr_last rr, sr_err = rr_err rr, sr_t = t\<rparr>, d, e))))"

section \<open>Errors\<close>

text \<open>The errors a handler may return, as far as \<open>status.FromError\<close> and \<open>convertCode\<close> tell them apart.\<close>

datatype go_err = ErrStatus Status | ErrEOF | ErrClosedPipe | ErrNoProgress | ErrShortBuffer | ErrShortWrite | ErrUnexpectedEOF | ErrInvalid
  | ErrCtxCanceled | ErrCtxDeadline | ErrExist | ErrNotExist | ErrPermission | ErrOther string

fun convertCode :: "go_err option \<Rightarrow> code" where
  "convertCode None = OK"
| "convertCode (Some ErrEOF) = OutOfRange"
| "convertCode (Some ErrClosedPipe) = FailedPrecondition"
| "convertCode (Some ErrNoProgress) = FailedPrecondition"
| "convertCode (Some ErrShortBuffer) = FailedPrecondition"
| "convertCode (Some ErrShortWrite) = FailedPrecondition"
| "convertCode (Some ErrUnexpectedEOF) = FailedPrecondition"
| "convertCode (Some ErrInvalid) = InvalidArgument"
| "convertCode (Some ErrCtxCanceled) = Canceled"
| "convertCode (Some ErrCtxDeadline) = DeadlineExceeded"
| "convertCode (Some ErrExist) = AlreadyExists"
| "convertCode (Some ErrNotExist) = NotFound"
| "convertCode (Some ErrPermission) = PermissionDenied"
| "convertCode (Some (ErrStatus st)) = Unknown"
| "convertCode (Some (ErrOther msg)) = Unknown"

definition status_New :: "code \<Rightarrow> string \<Rightarrow> Status" where
  "status_New c msg = \<lparr>st_Code = c, st_Message = msg, st_Details = None\<rparr>"

text \<open>What a call meets: the texts of errors, \<open>%q\<close> of a string, and the waits of its writes.\<close>

record call_env =
  ce_recv_text :: "rpc_err \<Rightarrow> string"
  ce_write_text :: "write_result \<Rightarrow> string"
  ce_text :: "go_err \<Rightarrow> string"
  ce_quote :: "string \<Rightarrow> string"
  ce_header :: header_wait
  ce_turns :: "turn_input list"
  ce_status_header :: header_wait
  ce_status :: header_wait

text \<open>\<open>status.FromError\<close>, with the conversion of other errors.\<close>

fun app_status :: "call_env \<Rightarrow> go_err \<Rightarrow> Status" where
  "app_status env (ErrStatus st) = st"
| "app_status env e = status_New (convertCode (Some e)) (ce_text env e)"

text \<open>Why a call has not returned: it waits for bytes of its stream, it waits for something else and has left the transport
  as given, or the process exits; \<open>WriteField\<close> may also give an error of HPACK.\<close>

datatype call_err = CallReads | CallWaits http2Server | CallFatal | CallHpack hpack_error

fun map_err :: "('e \<Rightarrow> 'f) \<Rightarrow> ('e, 'a) res \<Rightarrow> ('f, 'a) res" where
  "map_err f (Ok x) = Ok x"
| "map_err f (Err e) = Err (f e)"
| "map_err f Panic = Panic"
| "map_err f Stuck = Stuck"

text \<open>\<open>WriteStatus\<close> as the handlers call it: its error is only logged.\<close>

definition put_status :: "call_env \<Rightarrow> 32 word \<Rightarrow> Status \<Rightarrow> http2Server \<Rightarrow> (call_err, http2Server) res" where
  "put_status env sid st t =
     res_bind (map_err CallHpack (WriteStatus (ce_status_header env) (ce_status env) sid st t)) (\<lambda>(t, _). Ok t)"

section \<open>Services\<close>

text \<open>
  The handler of a unary method: given what the first part of \<open>df\<close> returns, a status or the bytes for \<open>Unmarshal\<close>, it returns
  an error or its reply, as the codec marshals it. The handler of a stream is a program that receives and sends: the argument of
  \<open>SRecv\<close> is what \<open>Unmarshal\<close> of the codec makes of the bytes, that of \<open>SSend\<close> is the marshalled message; at \<open>SWait\<close> the handler waits
  for something that has not happened yet; at \<open>SMeanwhile\<close> another goroutine changes the transport before the handler goes on.
\<close>

type_synonym MethodDesc = "Status + bytes \<Rightarrow> (go_err, rpc_err + bytes) res"

datatype stream_prog =
    SReturn "go_err option"
  | SRecv "bytes \<Rightarrow> (unit, unit) res" "go_err + bytes \<Rightarrow> stream_prog"
  | SSend "rpc_err + bytes" "go_err option \<Rightarrow> stream_prog"
  | SWait
  | SMeanwhile "http2Server \<Rightarrow> http2Server" stream_prog
  | SPanic

type_synonym StreamDesc = stream_prog

record grpc_service =
  srv_md :: "string \<rightharpoonup> MethodDesc"
  srv_sd :: "string \<rightharpoonup> StreamDesc"

record options =
  opt_cp :: "(string \<times> (bytes \<Rightarrow> rpc_err + bytes)) option"
  opt_dc :: "decompressor option"
  opt_maxMsgSize :: int
  opt_unknownStreamDesc :: "StreamDesc option"

definition defaultMaxMsgSize :: int where "defaultMaxMsgSize = 1024 * 1024 * 4"

text \<open>The options of \<open>NewServer\<close> when it is given none.\<close>

definition NewServer_options :: options where
  "NewServer_options = \<lparr>opt_cp = None, opt_dc = None, opt_maxMsgSize = defaultMaxMsgSize, opt_unknownStreamDesc = None\<rparr>"

record ServiceDesc =
  sd_ServiceName :: string
  sd_Methods :: "(string \<times> MethodDesc) list"
  sd_Streams :: "(string \<times> StreamDesc) list"

text \<open>\<open>register\<close>: the process exits, \<open>None\<close>, when the service is there already. The loops let a later entry replace an earlier one.\<close>

definition server_register :: "ServiceDesc \<Rightarrow> (string \<rightharpoonup> grpc_service) \<Rightarrow> (string \<rightharpoonup> grpc_service) option" where
  "server_register sd m =
     (if m (sd_ServiceName sd) \<noteq> None then None
      else Some (m(sd_ServiceName sd \<mapsto>
        \<lparr>srv_md = foldl (\<lambda>f (name, d). f(name \<mapsto> d)) Map.empty (sd_Methods sd), srv_sd = foldl (\<lambda>f (name, d). f(name \<mapsto> d)) Map.empty (sd_Streams sd)\<rparr>)))"

section \<open>Unary calls\<close>

text \<open>The status with which an error of \<open>recvMsg\<close> ends a call: \<open>None\<close> when nothing is sent.\<close>

fun recv_status :: "call_env \<Rightarrow> rpc_err \<Rightarrow> (call_err, Status option) res" where
  "recv_status env (Recv RecvEOF) = Ok None"
| "recv_status env (Recv RecvUnexpectedEOF) = Ok (Some (status_New code.Internal ''unexpected EOF''))"
| "recv_status env (Recv CtxDeadline) = Ok (Some (status_New DeadlineExceeded (ce_recv_text env (Recv CtxDeadline))))"
| "recv_status env (Recv CtxCanceled) = Ok (Some (status_New Canceled (ce_recv_text env (Recv CtxCanceled))))"
| "recv_status env (Recv ErrStreamDrain) = Ok (Some (status_New Unavailable ''the server stops accepting new RPCs''))"
| "recv_status env (Recv (TransportErr m)) = Ok None"
| "recv_status env (Status c) = Ok (Some (status_New c (ce_recv_text env (Status c))))"
| "recv_status env (CodecErr m) = Panic"

text \<open>The first part of \<open>df\<close>: decompression and the limit.\<close>

definition df_bytes :: "call_env \<Rightarrow> options \<Rightarrow> byte \<Rightarrow> bytes \<Rightarrow> Status + bytes" where
  "df_bytes env opts pf req =
     (case (if pf = compressionMade then snd (the (opt_dc opts)) req else Inr req) of
        Inl e \<Rightarrow> Inl (status_New code.Internal (ce_recv_text env e))
      | Inr req \<Rightarrow>
        (if int (length req) > opt_maxMsgSize opts
         then Inl (status_New code.Internal (''grpc: server received a message of '' @ itoa (int (length req)) @ '' bytes exceeding '' @ itoa (opt_maxMsgSize opts) @ '' limit''))
         else Inr req))"

definition SetSendCompress :: "string \<Rightarrow> Stream \<Rightarrow> Stream" where
  "SetSendCompress name s = s\<lparr>s_sendCompress := name\<rparr>"

definition set_compress :: "options \<Rightarrow> 32 word \<Rightarrow> http2Server \<Rightarrow> http2Server" where
  "set_compress opts sid t =
     (case opt_cp opts of
        None \<Rightarrow> t
      | Some (name, _) \<Rightarrow> (case store_streams t sid of None \<Rightarrow> t | Some s \<Rightarrow> upd_stream sid (SetSendCompress name s) t))"

definition sendResponse :: "call_env \<Rightarrow> options \<Rightarrow> 32 word \<Rightarrow> rpc_err + bytes \<Rightarrow> http2Server \<Rightarrow> (call_err, http2Server \<times> write_result) res" where
  "sendResponse env opts sid reply t =
     res_bind (map_err (\<lambda>_. CallFatal) (encode (\<lambda>m. m) (Some reply) (map_option snd (opt_cp opts)))) (\<lambda>p.
       map_err CallHpack (srv_Write (ce_header env) sid (ce_turns env) p t))"

definition unary_reply :: "call_env \<Rightarrow> options \<Rightarrow> 32 word \<Rightarrow> rpc_err + bytes \<Rightarrow> http2Server \<Rightarrow> (call_err, http2Server) res" where
  "unary_reply env opts sid reply t =
     res_bind (sendResponse env opts sid reply t) (\<lambda>(t, w).
       case w of
         WriteDone \<Rightarrow> put_status env sid (status_New OK []) t
       | WriteBlocked \<Rightarrow> Err (CallWaits t)
       | WriteStreamErr c \<Rightarrow> put_status env sid (status_New c (ce_write_text env w)) t
       | WriteConnErr \<Rightarrow> Ok t)"

definition processUnaryRPC :: "call_env \<Rightarrow> options \<Rightarrow> 32 word \<Rightarrow> MethodDesc \<Rightarrow> http2Server \<Rightarrow> (call_err, http2Server) res" where
  "processUnaryRPC env opts sid md t =
     res_bind (map_err (\<lambda>_. CallReads) (recvMsg_parse (stream_Read sid SelRecv) (opt_maxMsgSize opts)
       \<lparr>sr_last = None, sr_err = None, sr_t = set_compress opts sid t\<rparr>)) (\<lambda>(r, m).
       case m of
         Inl e \<Rightarrow> res_bind (recv_status env e) (\<lambda>st. case st of None \<Rightarrow> Ok (sr_t r) | Some st \<Rightarrow> put_status env sid st (sr_t r))
       | Inr (pf, req) \<Rightarrow>
         (case checkRecvPayload pf (case store_streams (sr_t r) sid of None \<Rightarrow> [] | Some s \<Rightarrow> s_recvCompress s) (opt_dc opts) of
            Some (Status c) \<Rightarrow> put_status env sid (status_New c (ce_recv_text env (Status c))) (sr_t r)
          | _ \<Rightarrow>
            (case md (df_bytes env opts pf req) of
               Ok reply \<Rightarrow> unary_reply env opts sid reply (sr_t r)
             | Err e \<Rightarrow> put_status env sid (app_status env e) (sr_t r)
             | Panic \<Rightarrow> Panic
             | Stuck \<Rightarrow> Stuck)))"

section \<open>Streaming calls\<close>

text \<open>\<open>toRPCErr\<close> on the errors of the transport.\<close>

fun recv_toRPCErr :: "call_env \<Rightarrow> rpc_err \<Rightarrow> go_err" where
  "recv_toRPCErr env (Recv CtxDeadline) = ErrStatus (status_New DeadlineExceeded (ce_recv_text env (Recv CtxDeadline)))"
| "recv_toRPCErr env (Recv CtxCanceled) = ErrStatus (status_New Canceled (ce_recv_text env (Recv CtxCanceled)))"
| "recv_toRPCErr env (Recv ErrStreamDrain) = ErrStatus (status_New Unavailable ''the server stops accepting new RPCs'')"
| "recv_toRPCErr env (Recv (TransportErr m)) = ErrStatus (status_New code.Internal m)"
| "recv_toRPCErr env (Status c) = ErrStatus (status_New c (ce_recv_text env (Status c)))"
| "recv_toRPCErr env e = ErrStatus (status_New Unknown (ce_recv_text env e))"

fun write_toRPCErr :: "call_env \<Rightarrow> write_result \<Rightarrow> go_err option" where
  "write_toRPCErr env (WriteStreamErr c) = Some (ErrStatus (status_New c (ce_write_text env (WriteStreamErr c))))"
| "write_toRPCErr env WriteConnErr = Some (ErrStatus (status_New code.Internal (ce_write_text env WriteConnErr)))"
| "write_toRPCErr env _ = None"

text \<open>\<open>RecvMsg\<close> and \<open>SendMsg\<close> of \<open>serverStream\<close>. The waits of a send come with it. \<open>Unmarshal\<close> is the last thing \<open>recv\<close> does; its error has the code \<open>Internal\<close>.\<close>

definition RecvMsg :: "call_env \<Rightarrow> options \<Rightarrow> 32 word \<Rightarrow> (bytes \<Rightarrow> (unit, unit) res) \<Rightarrow> stream_reader \<Rightarrow> (call_err, stream_reader \<times> (go_err + bytes)) res" where
  "RecvMsg env opts sid unm r =
     res_bind (map_err (\<lambda>_. CallReads) (recv (stream_Read sid SelRecv) Inr
       (case store_streams (sr_t r) sid of None \<Rightarrow> [] | Some s \<Rightarrow> s_recvCompress s) (opt_dc opts) (opt_maxMsgSize opts) r)) (\<lambda>(r, m).
       case m of
         Inr d \<Rightarrow>
           (case unm d of
              Ok _ \<Rightarrow> Ok (r, Inr d)
            | Err _ \<Rightarrow> Ok (r, Inl (recv_toRPCErr env (Status code.Internal)))
            | Panic \<Rightarrow> Panic
            | Stuck \<Rightarrow> Stuck)
       | Inl (Recv RecvEOF) \<Rightarrow> Ok (r, Inl ErrEOF)
       | Inl (Recv RecvUnexpectedEOF) \<Rightarrow> Ok (r, Inl (ErrStatus (status_New code.Internal ''unexpected EOF'')))
       | Inl e \<Rightarrow> Ok (r, Inl (recv_toRPCErr env e)))"

definition SendMsg :: "call_env \<Rightarrow> options \<Rightarrow> 32 word \<Rightarrow> header_wait \<times> turn_input list \<Rightarrow> rpc_err + bytes \<Rightarrow> http2Server \<Rightarrow>
    (call_err, http2Server \<times> go_err option) res" where
  "SendMsg env opts sid io m t =
     (case encode (\<lambda>m. m) (Some m) (map_option snd (opt_cp opts)) of
        Ok out \<Rightarrow>
          res_bind (map_err CallHpack (srv_Write (fst io) sid (snd io) out t)) (\<lambda>(t, w).
            if w = WriteBlocked then Err (CallWaits t) else Ok (t, write_toRPCErr env w))
      | Err e \<Rightarrow> Ok (t, Some (ErrStatus (status_New code.Internal (''grpc: '' @ ce_recv_text env e))))
      | Panic \<Rightarrow> Panic
      | Stuck \<Rightarrow> Stuck)"

text \<open>The run of a handler, with the waits of its sends in order; when they are used up, the call is still running.\<close>

primrec run_stream :: "stream_prog \<Rightarrow> call_env \<Rightarrow> options \<Rightarrow> 32 word \<Rightarrow> (header_wait \<times> turn_input list) list \<Rightarrow> stream_reader \<Rightarrow>
    (call_err, stream_reader \<times> go_err option) res" where
  "run_stream (SReturn e) env opts sid ios r = Ok (r, e)"
| "run_stream SWait env opts sid ios r = Err (CallWaits (sr_t r))"
| "run_stream (SMeanwhile f p) env opts sid ios r = run_stream p env opts sid ios (r\<lparr>sr_t := f (sr_t r)\<rparr>)"
| "run_stream SPanic env opts sid ios r = Panic"
| "run_stream (SRecv unm k) env opts sid ios r =
     res_bind (RecvMsg env opts sid unm r) (\<lambda>(r, m). run_stream (k m) env opts sid ios r)"
| "run_stream (SSend m k) env opts sid ios r =
     (case ios of
        [] \<Rightarrow> Err (CallWaits (sr_t r))
      | io # ios \<Rightarrow>
          res_bind (SendMsg env opts sid io m (sr_t r)) (\<lambda>(t, e). run_stream (k e) env opts sid ios (r\<lparr>sr_t := t\<rparr>)))"

definition processStreamingRPC :: "call_env \<Rightarrow> options \<Rightarrow> (header_wait \<times> turn_input list) list \<Rightarrow> 32 word \<Rightarrow> StreamDesc \<Rightarrow> http2Server \<Rightarrow>
    (call_err, http2Server) res" where
  "processStreamingRPC env opts ios sid sd t =
     res_bind (run_stream sd env opts sid ios \<lparr>sr_last = None, sr_err = None, sr_t = set_compress opts sid t\<rparr>) (\<lambda>(r, appErr).
       case appErr of
         Some e \<Rightarrow> put_status env sid (app_status env e) (sr_t r)
       | None \<Rightarrow> put_status env sid (status_New OK []) (sr_t r))"

section \<open>Dispatch\<close>

text \<open>\<open>strings.LastIndex\<close> of a single character.\<close>

fun strings_LastIndex :: "char \<Rightarrow> string \<Rightarrow> nat option" where
  "strings_LastIndex c [] = None"
| "strings_LastIndex c (x # xs) = (case strings_LastIndex c xs of Some i \<Rightarrow> Some (Suc i) | None \<Rightarrow> if x = c then Some 0 else None)"

text \<open>The method name of a stream: the service and the method, unless it is malformed.\<close>

definition split_method :: "string \<Rightarrow> (string \<times> string) option" where
  "split_method sm =
     (let sm = (if sm \<noteq> [] \<and> hd sm = CHR ''/'' then tl sm else sm) in
      case strings_LastIndex (CHR ''/'') sm of
        None \<Rightarrow> None
      | Some pos \<Rightarrow> Some (take pos sm, drop (pos + 1) sm))"

definition handleStream :: "call_env \<Rightarrow> options \<Rightarrow> (string \<rightharpoonup> grpc_service) \<Rightarrow> (header_wait \<times> turn_input list) list \<Rightarrow> 32 word \<Rightarrow> http2Server \<Rightarrow>
    (call_err, http2Server) res" where
  "handleStream env opts m ios sid t =
     (let sm = (case store_streams t sid of None \<Rightarrow> [] | Some s \<Rightarrow> s_method s) in
      case split_method sm of
        None \<Rightarrow> put_status env sid (status_New InvalidArgument (''malformed method name: '' @ ce_quote env sm)) t
      | Some (srv, meth) \<Rightarrow>
        (case m srv of
           None \<Rightarrow>
             (case opt_unknownStreamDesc opts of
                Some sd \<Rightarrow> processStreamingRPC env opts ios sid sd t
              | None \<Rightarrow> put_status env sid (status_New Unimplemented (''unknown service '' @ srv)) t)
         | Some sv \<Rightarrow>
             (case srv_md sv meth of
                Some md \<Rightarrow> processUnaryRPC env opts sid md t
              | None \<Rightarrow>
                (case srv_sd sv meth of
                   Some sd \<Rightarrow> processStreamingRPC env opts ios sid sd t
                 | None \<Rightarrow>
                   (case opt_unknownStreamDesc opts of
                      Some sd \<Rightarrow> processStreamingRPC env opts ios sid sd t
                    | None \<Rightarrow> put_status env sid (status_New Unimplemented (''unknown method '' @ meth)) t)))))"

section \<open>A stream is a byte source\<close>

text \<open>Reading touches only the receive buffer and the inbound flow control; the rest of a call's state stays.\<close>

definition call_side :: "32 word \<Rightarrow> http2Server \<Rightarrow> sent list \<times> Encoder \<times> quotaPool \<times>
    (streamState \<times> quotaPool \<times> bool \<times> MD \<times> MD \<times> string \<times> string \<times> string) option" where
  "call_side sid t = (t_out t, t_hEnc t, t_sendQuotaPool t,
     map_option (\<lambda>s. (s_state s, s_sendQuotaPool s, s_headerOk s, s_header s, s_trailer s, s_sendCompress s, s_recvCompress s, s_method s)) (store_streams t sid))"

definition call_content :: "32 word \<Rightarrow> stream_reader \<Rightarrow> bytes" where
  "call_content sid r = (case store_streams (sr_t r) sid of None \<Rightarrow> [] | Some s \<Rightarrow> stream_content (reader_of s r))"

definition call_ok :: "32 word \<Rightarrow> recv_err \<Rightarrow> http2Server \<Rightarrow> stream_reader \<Rightarrow> bool" where
  "call_ok sid fin t0 r \<longleftrightarrow> call_side sid (sr_t r) = call_side sid t0 \<and>
     (\<exists>s. store_streams (sr_t r) sid = Some s \<and> stream_ok fin (reader_of s r))"

lemma conn_onRead_call [simp]: "t_out (conn_onRead n t) = t_out t" "t_hEnc (conn_onRead n t) = t_hEnc t" "t_sendQuotaPool (conn_onRead n t) = t_sendQuotaPool t"
  by (simp_all add: conn_onRead_def Let_def ctl_put_def split: prod.split)

lemma updateWindow_call:
  assumes "store_streams t sid = Some s"
  shows "call_side sid (updateWindow sid n t) = call_side sid t \<and> (\<exists>s'. store_streams (updateWindow sid n t) sid = Some s' \<and> s_buf s' = s_buf s)"
  using assms by (auto simp: updateWindow_def stream_onRead_def call_side_def ctl_put_def upd_stream_def Let_def split: prod.split)

lemma reader_same: "stream_content (reader_of s r) = stream_content rr" "stream_ok fin (reader_of s r) = stream_ok fin rr"
  if "s_buf s = rr_recv rr" "sr_last r = rr_last rr" "sr_err r = rr_err rr"
  using that by (auto simp: stream_content_def stream_ok_def reader_of_def split: option.split)

text \<open>A read of the stream is a read of its buffer.\<close>

lemma stream_Read_step:
  assumes "call_ok sid fin t0 r" "store_streams (sr_t r) sid = Some s" "reader_Read SelRecv n (reader_of s r) = Some (rr, d, e)" "stream_ok fin rr"
  obtains r' where "stream_Read sid SelRecv n r = Some (r', d, e)" "call_content sid r' = stream_content rr" "call_ok sid fin t0 r'"
proof -
  let ?t = "upd_stream sid (s\<lparr>s_buf := rr_recv rr\<rparr>) (sr_t r)"
  define t' where "t' = (if e = None then updateWindow sid (of_nat (length d)) ?t else ?t)"
  define r' where "r' = \<lparr>sr_last = rr_last rr, sr_err = rr_err rr, sr_t = t'\<rparr>"
  have "call_side sid ?t = call_side sid (sr_t r)" using assms(2) by (simp add: call_side_def upd_stream_def)
  moreover have "call_side sid t' = call_side sid ?t \<and> (\<exists>s'. store_streams t' sid = Some s' \<and> s_buf s' = rr_recv rr)"
    using updateWindow_call [of ?t sid "s\<lparr>s_buf := rr_recv rr\<rparr>" "of_nat (length d)"] by (simp add: t'_def)
  moreover have "call_side sid (sr_t r) = call_side sid t0" using assms(1) by (simp add: call_ok_def)
  ultimately obtain s' where s': "call_side sid t' = call_side sid t0" "store_streams t' sid = Some s'" "s_buf s' = rr_recv rr" by auto
  have same: "stream_content (reader_of s' r') = stream_content rr" "stream_ok fin (reader_of s' r') = stream_ok fin rr"
    by (rule reader_same; simp add: r'_def s'(3))+
  have "stream_Read sid SelRecv n r = Some (r', d, e)" using assms(2,3) by (simp add: stream_Read_def Let_def r'_def t'_def)
  moreover have "call_content sid r' = stream_content rr" using s'(2) same(1) by (simp add: call_content_def) (simp add: r'_def)
  moreover have "call_ok sid fin t0 r'" using s' same(2) assms(4) by (simp add: call_ok_def) (simp add: r'_def)
  ultimately show thesis using that by blast
qed

interpretation call: byte_source "stream_Read sid SelRecv" "call_content sid" fin "call_ok sid fin t0" for sid fin t0
proof
  fix r n
  assume ok: "call_ok sid fin t0 r" and ne: "call_content sid r \<noteq> []" and n: "0 < (n :: nat)"
  obtain s where s: "store_streams (sr_t r) sid = Some s" "stream_ok fin (reader_of s r)" using ok by (auto simp: call_ok_def)
  have "stream_content (reader_of s r) \<noteq> []" using ne s(1) by (simp add: call_content_def)
  then obtain rr d where rr: "reader_Read SelRecv n (reader_of s r) = Some (rr, d, None)" "d \<noteq> []" "length d \<le> n"
    "stream_content (reader_of s r) = d @ stream_content rr" "stream_ok fin rr"
    using stream.read_some [OF s(2) _ n] by blast
  obtain r' where "stream_Read sid SelRecv n r = Some (r', d, None)" "call_content sid r' = stream_content rr" "call_ok sid fin t0 r'"
    by (rule stream_Read_step [OF ok s(1) rr(1,5)])
  then show "\<exists>r' d. stream_Read sid SelRecv n r = Some (r', d, None) \<and> d \<noteq> [] \<and> length d \<le> n \<and> call_content sid r = d @ call_content sid r' \<and> call_ok sid fin t0 r'"
    using rr s(1) by (auto simp: call_content_def [of sid r])
next
  fix r n
  assume ok: "call_ok sid fin t0 r" and e: "call_content sid r = []"
  obtain s where s: "store_streams (sr_t r) sid = Some s" "stream_ok fin (reader_of s r)" using ok by (auto simp: call_ok_def)
  have "stream_content (reader_of s r) = []" using e s(1) by (simp add: call_content_def)
  then obtain rr where rr: "reader_Read SelRecv n (reader_of s r) = Some (rr, [], Some fin)" "stream_content rr = []" "stream_ok fin rr"
    using stream.read_end [OF s(2)] by blast
  from stream_Read_step [OF ok s(1) rr(1,3)]
  show "\<exists>r'. stream_Read sid SelRecv n r = Some (r', [], Some fin) \<and> call_content sid r' = [] \<and> call_ok sid fin t0 r'" using rr(2) by metis
qed

section \<open>Calls that are answered\<close>

text \<open>The receive buffer of a stream whose data frames and end have arrived.\<close>

definition arrived :: "bytes list \<Rightarrow> recvMsg recvBuffer" where
  "arrived ds = rr_recv (filled ds RecvEOF)"

definition prefixed :: "bytes \<Rightarrow> bytes" where
  "prefixed b = compressionNone # binary_PutUint32 (of_nat (length b)) @ b"

lemma prefixed_length [simp]: "length (prefixed b) = length b + 5"
  by (simp add: prefixed_def binary_PutUint32_def)

lemma encode_prefixed [simp]: "length b < 2 ^ 32 \<Longrightarrow> encode (\<lambda>m. m) (Some (Inr b)) None = Ok (prefixed b)"
  by (simp add: encode_def prefixed_def)

lemma call_side_stream:
  assumes "call_side sid u = call_side sid t" "store_streams t sid = Some s"
  obtains s' where "store_streams u sid = Some s'" "s_state s' = s_state s" "s_sendQuotaPool s' = s_sendQuotaPool s" "s_headerOk s' = s_headerOk s"
    "s_header s' = s_header s" "s_trailer s' = s_trailer s" "s_sendCompress s' = s_sendCompress s" "s_recvCompress s' = s_recvCompress s"
    "t_out u = t_out t" "t_hEnc u = t_hEnc t" "t_sendQuotaPool u = t_sendQuotaPool t"
  using assms by (auto simp: call_side_def map_option_case split: option.splits)

lemma call_arrived:
  assumes "store_streams t sid = Some s" "s_buf s = arrived ds" "[] \<notin> set ds"
  shows "call_ok sid RecvEOF t \<lparr>sr_last = None, sr_err = None, sr_t = t\<rparr>" "call_content sid \<lparr>sr_last = None, sr_err = None, sr_t = t\<rparr> = concat ds"
proof -
  let ?r = "\<lparr>sr_last = None, sr_err = None, sr_t = t\<rparr>"
  have same: "stream_content (reader_of s ?r) = stream_content (filled ds RecvEOF)" "stream_ok RecvEOF (reader_of s ?r) = stream_ok RecvEOF (filled ds RecvEOF)"
    by (rule reader_same; simp add: assms(2) arrived_def; simp add: filled_def)+
  show "call_ok sid RecvEOF t ?r" using assms(1) same(2) filled_source(1) [OF assms(3)] by (simp add: call_ok_def)
  show "call_content sid ?r = concat ds" using assms(1) same(1) filled_source(2) [OF assms(3)] by (simp add: call_content_def)
qed

text \<open>A unary call whose request has arrived, in whatever frames, comes to its handler; until then nothing is sent.\<close>

lemma handle_unary:
  assumes "store_streams t sid = Some s" "split_method (s_method s) = Some (srv, meth)" "m srv = Some sv" "srv_md sv meth = Some md"
    and "opt_cp opts = None" "opt_maxMsgSize opts < 2 ^ 32" "int (length req) \<le> opt_maxMsgSize opts"
    and "s_buf s = arrived ds" "concat ds = prefixed req" "[] \<notin> set ds"
  obtains u where "call_side sid u = call_side sid t"
    "handleStream env opts m ios sid t = (case md (Inr req) of Ok reply \<Rightarrow> unary_reply env opts sid reply u
       | Err e \<Rightarrow> put_status env sid (app_status env e) u | Panic \<Rightarrow> Panic | Stuck \<Rightarrow> Stuck)"
proof -
  let ?r = "\<lparr>sr_last = None, sr_err = None, sr_t = t\<rparr>"
  have ok: "call_ok sid RecvEOF t ?r" and content: "call_content sid ?r = (compressionNone # binary_PutUint32 (of_nat (length req)) @ req) @ []"
    using call_arrived [OF assms(1,8,10)] assms(9) by (simp_all add: prefixed_def)
  obtain r where r: "recvMsg_parse (stream_Read sid SelRecv) (opt_maxMsgSize opts) ?r = Ok (r, Inr (compressionNone, req))" "call_ok sid RecvEOF t r"
    using call.recvMsg_frame [OF ok content assms(7,6)] by blast
  have "handleStream env opts m ios sid t = processUnaryRPC env opts sid md t" using assms(1-4) by (simp add: handleStream_def)
  also have "\<dots> = (case md (Inr req) of Ok reply \<Rightarrow> unary_reply env opts sid reply (sr_t r)
       | Err e \<Rightarrow> put_status env sid (app_status env e) (sr_t r) | Panic \<Rightarrow> Panic | Stuck \<Rightarrow> Stuck)"
    using assms(5,7) r(1) by (simp add: processUnaryRPC_def set_compress_def checkRecvPayload_def df_bytes_def compressionNone_def compressionMade_def)
  finally show thesis using that [of "sr_t r"] r(2) by (simp add: call_ok_def)
qed

text \<open>What a call needs to end: waits that do not fail, turns for all frames of a reply of \<open>k\<close> bytes, and quota for it.\<close>

definition no_fail :: "header_wait \<Rightarrow> bool" where
  "no_fail w \<longleftrightarrow> hw_writable w \<and> hw_fail w = None"

definition calm_env :: "call_env \<Rightarrow> nat \<Rightarrow> bool" where
  "calm_env env k \<longleftrightarrow> no_fail (ce_header env) \<and> no_fail (ce_status env) \<and>
     list_all (\<lambda>e. wt_fail e = NoFail \<and> 0 \<le> wt_stream_add e \<and> 0 \<le> wt_conn_add e) (ce_turns env) \<and> k \<le> http2MaxFrameLen * length (ce_turns env)"

definition has_quota :: "nat \<Rightarrow> quotaPool \<Rightarrow> bool" where
  "has_quota k q \<longleftrightarrow> quota_inv q \<and> int k \<le> quota_total q"

abbreviation small_fields :: "HeaderField list \<Rightarrow> bool" where
  "small_fields \<equiv> list_all (\<lambda>f. hf_size f < 2 ^ 32)"

lemma ok_status_sent:
  assumes "store_streams u sid = Some s1" "s_state s1 \<noteq> streamDone" "s_headerOk s1" "s_trailer s1 = s_trailer s" "no_fail (ce_status env)"
    and "in_step A n (t_hEnc u) d" "idle d" "fs = status_fields True (status_New OK []) s" "small_fields fs" "n + length fs + 1 < 2 ^ 64 - 1"
    and "distinct (map fst (s_trailer s))"
  obtains t' ts b d' where "put_status env sid (status_New OK []) u = Ok t'" "t_out t' = t_out u @ ts" "list_all (header_frame sid) ts"
    "header_block sid True ts = Some b" "DecodeFull b d = (d', Ok fs)" "\<exists>s'. store_streams t' sid = Some s' \<and> s_state s' = streamDone"
proof -
  have fs: "fs = status_fields (s_headerOk s1) (status_New OK []) s1" using assms(3,4,8) by (simp add: status_fields_def)
  have st: "s_headerOk s1 \<or> s_header s1 = []" "distinct (map fst (s_trailer s1))" "hw_writable (ce_status env)" "hw_fail (ce_status env) = None"
    using assms(3-5,11) by (simp_all add: no_fail_def)
  have det: "\<forall>x. st_Details (status_New OK []) = Some x \<longrightarrow> (Some :: string \<Rightarrow> string option) x \<noteq> None" by simp
  obtain t' ts b d' where "WriteStatus (ce_status_header env) (ce_status env) sid (status_New OK []) u = Ok (t', None)" "t_out t' = t_out u @ ts"
    "list_all (header_frame sid) ts" "header_block sid True ts = Some b" "DecodeFull b d = (d', Ok fs)" "\<exists>s'. store_streams t' sid = Some s' \<and> s_state s' = streamDone"
    using WriteStatus_sent [OF assms(1,2) st(1,3,4) assms(6,7) fs assms(9,10) st(2) det] by blast
  then show thesis using that by (simp add: put_status_def)
qed

lemma reply_sent:
  assumes "store_streams t sid = Some s" "s_state s \<noteq> streamDone" "\<not> s_headerOk s" "calm_env env (length reply + 5)"
    and "has_quota (length reply + 5) (s_sendQuotaPool s)" "has_quota (length reply + 5) (t_sendQuotaPool t)"
    and "opt_cp opts = None" "length reply < 2 ^ 32" "distinct (map fst (s_trailer s))"
    and "in_step A n (t_hEnc t) d" "idle d" "fs = status_fields True (status_New OK []) s"
    and "small_fields (initial_fields s)" "small_fields fs" "n + length (initial_fields s) + length fs + 1 < 2 ^ 64 - 1"
  shows "\<exists>t' hs ps ts b b' d' d''. unary_reply env opts sid (Inr reply) t = Ok t' \<and>
    t_out t' = t_out t @ hs @ map (SentData sid) ps @ ts \<and>
    list_all (header_frame sid) (hs @ ts) \<and> (\<forall>p\<in>set ps. p \<noteq> [] \<and> length p \<le> http2MaxFrameLen) \<and>
    header_block sid False hs = Some b \<and> DecodeFull b d = (d', Ok (initial_fields s)) \<and>
    concat ps = prefixed reply \<and>
    header_block sid True ts = Some b' \<and> DecodeFull b' d' = (d'', Ok fs) \<and>
    (\<exists>s'. store_streams t' sid = Some s' \<and> s_state s' = streamDone)"
proof -
  have calm: "hw_writable (ce_header env)" "hw_fail (ce_header env) = None"
    "\<forall>e\<in>set (ce_turns env). wt_fail e = NoFail \<and> 0 \<le> wt_stream_add e \<and> 0 \<le> wt_conn_add e" "length (prefixed reply) \<le> http2MaxFrameLen * length (ce_turns env)"
    using assms(4) by (auto simp: calm_env_def no_fail_def list_all_iff)
  have quota: "quota_inv (s_sendQuotaPool s)" "quota_inv (t_sendQuotaPool t)"
    "int (length (prefixed reply)) \<le> quota_total (s_sendQuotaPool s)" "int (length (prefixed reply)) \<le> quota_total (t_sendQuotaPool t)"
    using assms(5,6) by (simp_all add: has_quota_def)
  have n: "n + length (initial_fields s) + 1 < 2 ^ 64 - 1" using assms(15) by simp
  obtain u hs ps b d1 s1 where u: "srv_Write (ce_header env) sid (ce_turns env) (prefixed reply) t = Ok (u, WriteDone)" "t_out u = t_out t @ hs @ map (SentData sid) ps"
    "list_all (header_frame sid) hs" "header_block sid False hs = Some b" "DecodeFull b d = (d1, Ok (initial_fields s))"
    "in_step A (n + length (initial_fields s)) (t_hEnc u) d1" "idle d1" "concat ps = prefixed reply" "\<forall>p\<in>set ps. p \<noteq> [] \<and> length p \<le> http2MaxFrameLen"
    "store_streams u sid = Some s1" "s_state s1 = s_state s" "s_headerOk s1" "s_trailer s1 = s_trailer s"
    by (rule first_Write_sent [OF assms(1-3) calm(1,2) quota calm(3,4) assms(10,11,13) n])
  have st: "s_state s1 \<noteq> streamDone" "no_fail (ce_status env)" using u assms(2,4) by (simp_all add: calm_env_def)
  obtain t' ts b' d2 where "put_status env sid (status_New OK []) u = Ok t'" "t_out t' = t_out u @ ts" "list_all (header_frame sid) ts"
    "header_block sid True ts = Some b'" "DecodeFull b' d1 = (d2, Ok fs)" "\<exists>s'. store_streams t' sid = Some s' \<and> s_state s' = streamDone"
    by (rule ok_status_sent [OF u(10) st(1) u(12,13) st(2) u(6,7) assms(12,14,15,9)])
  then show ?thesis
    using u assms(7,8)
    by (intro exI [of _ t'] exI [of _ hs] exI [of _ ps] exI [of _ ts] exI [of _ b] exI [of _ b'] exI [of _ d1] exI [of _ d2])
      (simp add: unary_reply_def sendResponse_def)
qed

text \<open>A unary call, from the stream to the trailers.\<close>

lemma unary_call_sent:
  assumes "store_streams t sid = Some s" "split_method (s_method s) = Some (srv, meth)" "m srv = Some sv" "srv_md sv meth = Some md"
    and "opt_cp opts = None" "opt_maxMsgSize opts < 2 ^ 32" "int (length req) \<le> opt_maxMsgSize opts"
    and "s_buf s = arrived ds" "concat ds = prefixed req" "[] \<notin> set ds"
    and "md (Inr req) = Ok (Inr reply)" "length reply < 2 ^ 32"
    and "s_state s \<noteq> streamDone" "\<not> s_headerOk s" "calm_env env (length reply + 5)"
    and "has_quota (length reply + 5) (s_sendQuotaPool s)" "has_quota (length reply + 5) (t_sendQuotaPool t)"
    and "distinct (map fst (s_trailer s))" "in_step A n (t_hEnc t) d" "idle d" "fs = status_fields True (status_New OK []) s"
    and "small_fields (initial_fields s)" "small_fields fs" "n + length (initial_fields s) + length fs + 1 < 2 ^ 64 - 1"
  shows "\<exists>t' hs ps ts b b' d' d''. handleStream env opts m ios sid t = Ok t' \<and>
    t_out t' = t_out t @ hs @ map (SentData sid) ps @ ts \<and>
    list_all (header_frame sid) (hs @ ts) \<and> (\<forall>p\<in>set ps. p \<noteq> [] \<and> length p \<le> http2MaxFrameLen) \<and>
    header_block sid False hs = Some b \<and> DecodeFull b d = (d', Ok (initial_fields s)) \<and>
    concat ps = prefixed reply \<and>
    header_block sid True ts = Some b' \<and> DecodeFull b' d' = (d'', Ok fs) \<and>
    (\<exists>s'. store_streams t' sid = Some s' \<and> s_state s' = streamDone)"
proof -
  obtain u where u: "call_side sid u = call_side sid t" "handleStream env opts m ios sid t = unary_reply env opts sid (Inr reply) u"
    by (rule handle_unary [where m = m, OF assms(1-10)]) (simp add: assms(11))
  obtain s1 where s1: "store_streams u sid = Some s1" "s_state s1 = s_state s" "s_sendQuotaPool s1 = s_sendQuotaPool s" "s_headerOk s1 = s_headerOk s"
    "s_header s1 = s_header s" "s_trailer s1 = s_trailer s" "s_sendCompress s1 = s_sendCompress s" "t_out u = t_out t" "t_hEnc u = t_hEnc t"
    "t_sendQuotaPool u = t_sendQuotaPool t"
    by (rule call_side_stream [OF u(1) assms(1)])
  have f: "initial_fields s1 = initial_fields s" "fs = status_fields True (status_New OK []) s1"
    using s1(5-7) assms(21) by (simp_all add: initial_fields_def status_fields_def)
  show ?thesis unfolding u(2) s1(8) [symmetric] f(1) [symmetric]
    by (rule reply_sent [OF s1(1)]) (use assms s1 f in simp_all)
qed

section \<open>Calls that stream\<close>

text \<open>A handler that sends messages and goes on as \<open>p\<close>, whatever its sends return.\<close>

definition sends :: "bytes list \<Rightarrow> stream_prog \<Rightarrow> stream_prog" where
  "sends ms p = foldr (\<lambda>m k. SSend (Inr m) (\<lambda>_. k)) ms p"

lemma sends_simps [simp]: "sends [] p = p" "sends (m # ms) p = SSend (Inr m) (\<lambda>_. sends ms p)"
  by (simp_all add: sends_def)

definition patient :: "nat \<Rightarrow> turn_input list \<Rightarrow> bool" where
  "patient k turns \<longleftrightarrow> (\<forall>e\<in>set turns. wt_fail e = NoFail \<and> 0 \<le> wt_stream_add e \<and> 0 \<le> wt_conn_add e) \<and> k \<le> http2MaxFrameLen * length turns"

definition wire_length :: "bytes list \<Rightarrow> nat" where
  "wire_length ms = sum_list (map (\<lambda>m. length m + 5) ms)"

lemma header_side_stream:
  assumes "header_side sid u = header_side sid t" "store_streams t sid = Some s"
  obtains s' where "store_streams u sid = Some s'" "s_state s' = s_state s" "s_headerOk s' = s_headerOk s" "s_trailer s' = s_trailer s" "t_hEnc u = t_hEnc t"
  using assms by (auto simp: header_side_def map_option_case split: option.splits)

text \<open>Once the headers are sent, the messages go out one after the other.\<close>

lemma sends_run:
  assumes "store_streams (sr_t r) sid = Some s" "s_state s \<noteq> streamDone" "s_headerOk s" "pools sid (sr_t r) q c" "opt_cp opts = None"
    and "list_all2 (\<lambda>m io. length m < 2 ^ 32 \<and> patient (length m + 5) (snd io)) ms ios" "int (wire_length ms) \<le> q" "int (wire_length ms) \<le> c"
  shows "\<exists>r' ps. (\<forall>p ios'. run_stream (sends ms p) env opts sid (ios @ ios') r = run_stream p env opts sid ios' r') \<and> t_out (sr_t r') = t_out (sr_t r) @ map (SentData sid) ps \<and>
    concat ps = concat (map prefixed ms) \<and> (\<forall>p\<in>set ps. p \<noteq> [] \<and> length p \<le> http2MaxFrameLen) \<and> header_side sid (sr_t r') = header_side sid (sr_t r)"
  using assms(6,1-4,7,8)
proof (induction ms ios arbitrary: r s q c rule: list_all2_induct)
  case (Cons m ms io ios)
  have w: "int (length (prefixed m)) \<le> q" "int (length (prefixed m)) \<le> c" "int (wire_length ms) \<le> q - int (length (prefixed m))" "int (wire_length ms) \<le> c - int (length (prefixed m))"
    using Cons.prems(5,6) by (simp_all add: wire_length_def)
  have p: "\<forall>e\<in>set (snd io). wt_fail e = NoFail \<and> 0 \<le> wt_stream_add e \<and> 0 \<le> wt_conn_add e" "length (prefixed m) \<le> http2MaxFrameLen * length (snd io)"
    using Cons.hyps(1) by (simp_all add: patient_def)
  obtain u ps q' c' where u: "srv_Write (fst io) sid (snd io) (prefixed m) (sr_t r) = Ok (u, WriteDone)" "t_out u = t_out (sr_t r) @ map (SentData sid) ps" "concat ps = prefixed m"
    "\<forall>p\<in>set ps. p \<noteq> [] \<and> length p \<le> http2MaxFrameLen" "header_side sid u = header_side sid (sr_t r)" "pools sid u q' c'"
    "q - int (length (prefixed m)) \<le> q'" "c - int (length (prefixed m)) \<le> c'"
    by (rule next_Write_sent [OF Cons.prems(1-4) p(1) w(1,2) p(2)])
  obtain s' where s': "store_streams u sid = Some s'" "s_state s' = s_state s" "s_headerOk s' = s_headerOk s" by (rule header_side_stream [OF u(5) Cons.prems(1)])
  have "SendMsg env opts sid io (Inr m) (sr_t r) = Ok (u, None)" using Cons.hyps(1) u(1) assms(5) by (simp add: SendMsg_def)
  then have run: "run_stream (sends (m # ms) p) env opts sid ((io # ios) @ ios') r = run_stream (sends ms p) env opts sid (ios @ ios') (r\<lparr>sr_t := u\<rparr>)"
    for p ios' by simp
  have v: "store_streams (sr_t (r\<lparr>sr_t := u\<rparr>)) sid = Some s'" "s_state s' \<noteq> streamDone" "s_headerOk s'" "pools sid (sr_t (r\<lparr>sr_t := u\<rparr>)) q' c'"
    "int (wire_length ms) \<le> q'" "int (wire_length ms) \<le> c'"
    using s' Cons.prems(2,3) u(6-8) w(3,4) by simp_all
  obtain r' ps' where "\<forall>p ios'. run_stream (sends ms p) env opts sid (ios @ ios') (r\<lparr>sr_t := u\<rparr>) = run_stream p env opts sid ios' r'" "t_out (sr_t r') = t_out u @ map (SentData sid) ps'"
    "concat ps' = concat (map prefixed ms)" "\<forall>p\<in>set ps'. p \<noteq> [] \<and> length p \<le> http2MaxFrameLen" "header_side sid (sr_t r') = header_side sid u"
    using Cons.IH [OF v] by auto
  then show ?case unfolding run using u by (intro exI [of _ r'] exI [of _ "ps @ ps'"]) auto
qed (auto intro!: exI [of _ "[]"])

text \<open>The run of a handler that receives a request and answers it with messages, up to the point where it goes on as \<open>p\<close>.\<close>

lemma stream_run:
  assumes "store_streams t sid = Some s" "s_state s \<noteq> streamDone" "\<not> s_headerOk s" "s_recvCompress s = []" "opt_cp opts = None" "opt_dc opts = None"
    and "opt_maxMsgSize opts < 2 ^ 32" "int (length req) \<le> opt_maxMsgSize opts" "s_buf s = arrived ds" "concat ds = prefixed req" "[] \<notin> set ds"
    and "unm req = Ok ()" "no_fail (fst io)"
    and "list_all2 (\<lambda>m io. length m < 2 ^ 32 \<and> patient (length m + 5) (snd io)) (m # ms) (io # ios)"
    and "has_quota (wire_length (m # ms)) (s_sendQuotaPool s)" "has_quota (wire_length (m # ms)) (t_sendQuotaPool t)"
    and "in_step A n (t_hEnc t) d" "idle d" "small_fields (initial_fields s)" "n + length (initial_fields s) + 1 < 2 ^ 64 - 1"
  shows "\<exists>r hs ps b d'. (\<forall>k p ios'. k (Inr req) = sends (m # ms) p \<longrightarrow>
      run_stream (SRecv unm k) env opts sid (io # ios @ ios') \<lparr>sr_last = None, sr_err = None, sr_t = t\<rparr> = run_stream p env opts sid ios' r) \<and>
    t_out (sr_t r) = t_out t @ hs @ map (SentData sid) ps \<and> list_all (header_frame sid) hs \<and> (\<forall>p\<in>set ps. p \<noteq> [] \<and> length p \<le> http2MaxFrameLen) \<and>
    header_block sid False hs = Some b \<and> DecodeFull b d = (d', Ok (initial_fields s)) \<and> concat ps = concat (map prefixed (m # ms)) \<and>
    in_step A (n + length (initial_fields s)) (t_hEnc (sr_t r)) d' \<and> idle d' \<and>
    (\<exists>s'. store_streams (sr_t r) sid = Some s' \<and> s_state s' \<noteq> streamDone \<and> s_headerOk s' \<and> s_trailer s' = s_trailer s)"
proof -
  let ?r = "\<lparr>sr_last = None, sr_err = None, sr_t = t\<rparr>"
  have "encode Inr (Some req) None = Ok (prefixed req)" using assms(7,8) by (simp add: encode_def prefixed_def)
  moreover have "message_fits Inr Inr None [] None (opt_maxMsgSize opts) req" using assms(7,8) by (simp add: message_fits_def)
  ultimately obtain r1 where r1: "recv (stream_Read sid SelRecv) Inr [] None (opt_maxMsgSize opts) ?r = Ok (r1, Inr req)" "call_ok sid RecvEOF t r1"
    using call.recv_encoded [OF call_arrived(1) [OF assms(1,9,11)], of "prefixed req" "[]"] call_arrived(2) [OF assms(1,9,11)] assms(10) by fastforce
  have side: "call_side sid (sr_t r1) = call_side sid t" using r1(2) by (simp add: call_ok_def)
  obtain s1 where s1: "store_streams (sr_t r1) sid = Some s1" "s_state s1 = s_state s" "s_sendQuotaPool s1 = s_sendQuotaPool s" "s_headerOk s1 = s_headerOk s"
    "s_header s1 = s_header s" "s_trailer s1 = s_trailer s" "s_sendCompress s1 = s_sendCompress s" "t_out (sr_t r1) = t_out t" "t_hEnc (sr_t r1) = t_hEnc t"
    "t_sendQuotaPool (sr_t r1) = t_sendQuotaPool t"
    by (rule call_side_stream [OF side assms(1)])
  have f: "initial_fields s1 = initial_fields s" using s1 by (simp add: initial_fields_def)
  have pre: "s_state s1 \<noteq> streamDone" "\<not> s_headerOk s1" "hw_writable (fst io)" "hw_fail (fst io) = None" "quota_inv (s_sendQuotaPool s1)" "quota_inv (t_sendQuotaPool (sr_t r1))"
    "int (length (prefixed m)) \<le> quota_total (s_sendQuotaPool s1)" "int (length (prefixed m)) \<le> quota_total (t_sendQuotaPool (sr_t r1))"
    "\<forall>e\<in>set (snd io). wt_fail e = NoFail \<and> 0 \<le> wt_stream_add e \<and> 0 \<le> wt_conn_add e" "length (prefixed m) \<le> http2MaxFrameLen * length (snd io)"
    "in_step A n (t_hEnc (sr_t r1)) d" "small_fields (initial_fields s1)" "n + length (initial_fields s1) + 1 < 2 ^ 64 - 1"
    using assms(2,3,13-17,19,20) s1 f by (auto simp: no_fail_def has_quota_def wire_length_def patient_def)
  obtain u hs ps b d' s2 where u: "srv_Write (fst io) sid (snd io) (prefixed m) (sr_t r1) = Ok (u, WriteDone)" "t_out u = t_out (sr_t r1) @ hs @ map (SentData sid) ps"
    "list_all (header_frame sid) hs" "header_block sid False hs = Some b" "DecodeFull b d = (d', Ok (initial_fields s1))"
    "in_step A (n + length (initial_fields s1)) (t_hEnc u) d'" "idle d'" "concat ps = prefixed m" "\<forall>p\<in>set ps. p \<noteq> [] \<and> length p \<le> http2MaxFrameLen"
    "store_streams u sid = Some s2" "s_state s2 = s_state s1" "s_headerOk s2" "s_trailer s2 = s_trailer s1"
    "\<exists>q' c'. pools sid u q' c' \<and> quota_total (s_sendQuotaPool s1) - int (length (prefixed m)) \<le> q' \<and> quota_total (t_sendQuotaPool (sr_t r1)) - int (length (prefixed m)) \<le> c'"
    by (rule first_Write_sent [OF s1(1) pre(1-11) assms(18) pre(12,13)])
  then obtain q c where q: "pools sid u q c" "int (wire_length ms) \<le> q" "int (wire_length ms) \<le> c"
    using assms(15,16) s1(3,10) by (auto simp: has_quota_def wire_length_def)
  have v: "store_streams (sr_t (r1\<lparr>sr_t := u\<rparr>)) sid = Some s2" "s_state s2 \<noteq> streamDone" "pools sid (sr_t (r1\<lparr>sr_t := u\<rparr>)) q c"
    "list_all2 (\<lambda>m io. length m < 2 ^ 32 \<and> patient (length m + 5) (snd io)) ms ios"
    using u(10,11) pre(1) q(1) assms(14) by simp_all
  obtain r ps' where r: "\<forall>p ios'. run_stream (sends ms p) env opts sid (ios @ ios') (r1\<lparr>sr_t := u\<rparr>) = run_stream p env opts sid ios' r" "t_out (sr_t r) = t_out u @ map (SentData sid) ps'"
    "concat ps' = concat (map prefixed ms)" "\<forall>p\<in>set ps'. p \<noteq> [] \<and> length p \<le> http2MaxFrameLen" "header_side sid (sr_t r) = header_side sid u"
    using sends_run [where env = env, OF v(1,2) u(12) v(3) assms(5) v(4) q(2,3)] by auto
  obtain s' where s': "store_streams (sr_t r) sid = Some s'" "s_state s' = s_state s2" "s_headerOk s' = s_headerOk s2" "s_trailer s' = s_trailer s2" "t_hEnc (sr_t r) = t_hEnc u"
    by (rule header_side_stream [OF r(5) u(10)])
  have "RecvMsg env opts sid unm ?r = Ok (r1, Inr req)" using r1(1) assms(1,4,6,12) by (simp add: RecvMsg_def)
  moreover have "SendMsg env opts sid io (Inr m) (sr_t r1) = Ok (u, None)" using u(1) assms(5,14) by (simp add: SendMsg_def)
  ultimately have "\<forall>k p ios'. k (Inr req) = sends (m # ms) p \<longrightarrow> run_stream (SRecv unm k) env opts sid (io # ios @ ios') ?r = run_stream p env opts sid ios' r"
    using r(1) by simp
  then show ?thesis using r s' u s1(6,8) f v(2)
    by (intro exI [of _ r] exI [of _ hs] exI [of _ "ps @ ps'"] exI [of _ b] exI [of _ d']) auto
qed

text \<open>The dispatch of a stream to its handler.\<close>

lemma handle_stream:
  assumes "store_streams t sid = Some s" "split_method (s_method s) = Some (srv, meth)" "mm srv = Some sv" "srv_md sv meth = None" "srv_sd sv meth = Some sd" "opt_cp opts = None"
  shows "handleStream env opts mm ios sid t = res_bind (run_stream sd env opts sid ios \<lparr>sr_last = None, sr_err = None, sr_t = t\<rparr>) (\<lambda>(r, appErr).
    put_status env sid (case appErr of Some e \<Rightarrow> app_status env e | None \<Rightarrow> status_New OK []) (sr_t r))"
  using assms unfolding handleStream_def processStreamingRPC_def set_compress_def
  by (simp add: option.case_distrib [where h = "\<lambda>st. put_status env sid st _"] del: run_stream.simps)

section \<open>Calls that are refused\<close>

text \<open>The status of a call for which the server has no method.\<close>

definition refusal :: "call_env \<Rightarrow> (string \<rightharpoonup> grpc_service) \<Rightarrow> string \<Rightarrow> Status option" where
  "refusal env m sm =
     (case split_method sm of
        None \<Rightarrow> Some (status_New InvalidArgument (''malformed method name: '' @ ce_quote env sm))
      | Some (srv, meth) \<Rightarrow>
        (case m srv of
           None \<Rightarrow> Some (status_New Unimplemented (''unknown service '' @ srv))
         | Some sv \<Rightarrow> if srv_md sv meth = None \<and> srv_sd sv meth = None then Some (status_New Unimplemented (''unknown method '' @ meth)) else None))"

text \<open>C20: a call with a malformed name, of an unknown service or of an unknown method runs no handler: the server answers it with
  trailers alone, from which the client reads the code, 3 or 12, and the text, and the stream is done. Nothing is read from the stream.\<close>

theorem call_refused:
  assumes "store_streams t sid = Some s" "refusal env m (s_method s) = Some st" "opt_unknownStreamDesc opts = None"
    and "s_state s \<noteq> streamDone" "\<not> s_headerOk s" "s_header s = []" "no_fail (ce_status env)" "distinct (map fst (s_trailer s))"
    and "in_step A n (t_hEnc t) d" "idle d" "fs = status_fields False st s" "small_fields fs" "n + length fs + 1 < 2 ^ 64 - 1"
  shows "\<exists>t' ts b d' ds. handleStream env opts m ios sid t = Ok t' \<and> t_out t' = t_out t @ ts \<and>
    header_block sid True ts = Some b \<and> DecodeFull b d = (d', Ok fs) \<and>
    process_fields (\<lambda>_. None :: bytes option) fs decodeState0 = (ds, None) \<and> rawStatusCode ds = (if split_method (s_method s) = None then 3 else 12) \<and>
    rawStatusMsg ds = st_Message st \<and> (\<exists>s'. store_streams t' sid = Some s' \<and> s_state s' = streamDone)"
proof -
  have h: "handleStream env opts m ios sid t = put_status env sid st t" and c: "code_num (st_Code st) = (if split_method (s_method s) = None then 3 else 12)"
    and det: "st_Details st = None"
    using assms(1-3) by (auto simp: refusal_def handleStream_def status_New_def code_num_def split: option.splits if_splits)
  show ?thesis
    using WriteStatus_sent [where us = "\<lambda>_. None :: bytes option" and ?w0.0 = "ce_status_header env", OF assms(1,4) _ _ _ assms(9,10) _ assms(12,13,8), of "ce_status env" st] assms(5-7,11) det
    unfolding h put_status_def c [symmetric] by (auto simp: no_fail_def)
qed

text \<open>The first call on a new connection asks for a service that is not registered.\<close>

definition quiet_env :: call_env where
  "quiet_env = \<lparr>ce_recv_text = \<lambda>_. [], ce_write_text = \<lambda>_. [], ce_text = \<lambda>_. [], ce_quote = \<lambda>s. s, ce_header = \<lparr>hw_writable = True, hw_fail = None\<rparr>,
     ce_turns = [\<lparr>wt_stream_add = 0, wt_conn_add = 0, wt_fail = NoFail\<rparr>],
     ce_status_header = \<lparr>hw_writable = True, hw_fail = None\<rparr>, ce_status = \<lparr>hw_writable = True, hw_fail = None\<rparr>\<rparr>"

definition asking :: "string \<Rightarrow> bytes list \<Rightarrow> Encoder \<Rightarrow> http2Server" where
  "asking method ds e = upd_stream 1 (first_stream\<lparr>s_method := method, s_buf := arrived ds\<rparr>) (one_stream e)"

lemma asking_simps:
  "store_streams (asking method ds e) 1 = Some (first_stream\<lparr>s_method := method, s_buf := arrived ds\<rparr>)"
  "t_hEnc (asking method ds e) = e" "t_sendQuotaPool (asking method ds e) = newQuotaPool 65535"
  by (simp_all add: asking_def one_stream_simps one_stream_pool)

theorem call_refused_witness:
  "\<exists>e d t' ts b d' ds fs. NewEncoder (\<lambda>b. (length b, None)) = Ok e \<and> NewDecoder 4096 (\<lambda>f s. s) () = Ok d \<and>
    handleStream quiet_env NewServer_options Map.empty [] 1 (asking ''/echo/Say'' [] e) = Ok t' \<and> t_out t' = t_out (asking ''/echo/Say'' [] e) @ ts \<and>
    header_block 1 True ts = Some b \<and> DecodeFull b d = (d', Ok fs) \<and> process_fields (\<lambda>_. None :: bytes option) fs decodeState0 = (ds, None) \<and>
    rawStatusCode ds = 12 \<and> rawStatusMsg ds = ''unknown service echo''"
proof -
  obtain e d where n: "NewEncoder (\<lambda>b. (length b, None)) = Ok e" "NewDecoder 4096 (\<lambda>f s. s) () = Ok d" "in_step (unat (4096 :: 32 word)) 0 e d" "idle d"
    by (rule new_in_step [of 4096 "\<lambda>f s. s" "()"]) simp_all
  let ?s = "first_stream\<lparr>s_method := ''/echo/Say'', s_buf := arrived []\<rparr>" and ?st = "status_New Unimplemented ''unknown service echo''"
  have r: "split_method ''/echo/Say'' = Some (''echo'', ''Say'')" by code_simp
  have l: "small_fields (status_fields False ?st ?s)" "length (status_fields False ?st ?s) = 4"
    by (simp_all add: status_fields_def status_New_def first_stream_def md_fields_def plain_field_def hf_size_def code_num_def encodeGrpcMessage_def passes_def
        percent_byte_def hex_char_def encodeGrpcMessageUnchecked_def itoa_def nat_digits.simps [of 12] nat_digits.simps [of "Suc 0"])
  show ?thesis
    using call_refused [OF asking_simps(1) [of "''/echo/Say''" "[]" e] _ _ _ _ _ _ _ _ n(4), where env = quiet_env and m = Map.empty and st = ?st and opts = NewServer_options
        and A = "unat (4096 :: 32 word)" and n = 0 and fs = "status_fields False ?st ?s" and ios = "[]"] n l r
    by (auto simp: asking_simps refusal_def NewServer_options_def quiet_env_def no_fail_def status_New_def first_stream_def)
qed

end
