(* ===== verification/PluginServer.thy ===== *)
theory PluginServer
  imports Plugin GrpcDispatch
begin

text \<open>
  The service \<open>v1beta1.DevicePlugin\<close> on a gRPC server: the descriptor of \<open>api.pb.go\<close> with the methods of the plugin of
  \<open>server.go\<close>, the codec \<open>codec.go\<close> between their messages and the bytes of a call, and what a kubelet sees of a call.
\<close>

section \<open>The service descriptor\<close>

text \<open>
  A method with the codec around it. The decoder \<open>df\<close> ends in \<open>Unmarshal\<close> of the codec, which calls the \<open>Unmarshal\<close> of the
  message; the methods of a plugin return no errors, so an error of the handler is one of the decoder. \<open>Marshal\<close> of the codec
  calls that of the reply. \<open>text\<close> is the text of an error.
\<close>

definition codec_method :: "(proto_error \<Rightarrow> string) \<Rightarrow> (bytes \<Rightarrow> 'q \<Rightarrow> 'q \<times> unit pres) \<Rightarrow> (('q \<Rightarrow> 'q \<times> unit pres) \<Rightarrow> 'r pres) \<Rightarrow>
    ('r \<Rightarrow> bytes pres) \<Rightarrow> MethodDesc" where
  "codec_method text unm handler mar received =
     (case received of
        Inl st \<Rightarrow> Err (ErrStatus st)
      | Inr b \<Rightarrow>
        (case handler (unm b) of
           Ok reply \<Rightarrow>
             (case mar reply of Ok bs \<Rightarrow> Ok (Inr bs) | Err e \<Rightarrow> Ok (Inl (CodecErr (text e))) | Panic \<Rightarrow> Panic | Stuck \<Rightarrow> Stuck)
         | Err e \<Rightarrow> Err (ErrStatus (status_New code.Internal (''grpc: error unmarshalling request: '' @ text e)))
         | Panic \<Rightarrow> Panic
         | Stuck \<Rightarrow> Stuck))"

definition codec_send :: "(proto_error \<Rightarrow> string) \<Rightarrow> bytes pres \<Rightarrow> (go_err option \<Rightarrow> stream_prog) \<Rightarrow> stream_prog" where
  "codec_send text m k = (case m of Ok bs \<Rightarrow> SSend (Inr bs) k | Err e \<Rightarrow> SSend (Inl (CodecErr (text e))) k | _ \<Rightarrow> SPanic)"

text \<open>\<open>ListAndWatch\<close> as a stream handler: what \<open>Send\<close> returns is not looked at. The stop channel is closed by \<open>stopGrpcServer\<close>, after
  \<open>Stop\<close> has closed the connections of the server, the one of this call among them; closing a transport again changes nothing.\<close>

primrec watch_prog :: "(proto_error \<Rightarrow> string) \<Rightarrow> DevicePlugin \<Rightarrow> watch_event list \<Rightarrow> stream_prog" where
  "watch_prog text plugin [] = SWait"
| "watch_prog text plugin (ev # evs) =
     (case ev of
        StopClosed \<Rightarrow> SMeanwhile (\<lambda>t. fst (srv_Close t)) (SReturn None)
      | ConnsClosed \<Rightarrow> SMeanwhile (\<lambda>t. fst (srv_Close t)) (watch_prog text plugin evs)
      | Tick \<Rightarrow> codec_send text (ListAndWatchResponse_Marshal \<lparr>ListAndWatchResponse_Devices = devInstances plugin\<rparr>) (\<lambda>_. watch_prog text plugin evs))"

definition ListAndWatch_stream :: "(proto_error \<Rightarrow> string) \<Rightarrow> DevicePlugin \<Rightarrow> watch_event list \<Rightarrow> StreamDesc" where
  "ListAndWatch_stream text plugin evs =
     SRecv (\<lambda>b. map_err (\<lambda>_. ()) (snd (Empty_Unmarshal b Empty_Reset))) (\<lambda>m.
       case m of
         Inl e \<Rightarrow> SReturn (Some e)
       | Inr _ \<Rightarrow> codec_send text (ListAndWatchResponse_Marshal \<lparr>ListAndWatchResponse_Devices = devInstances plugin\<rparr>) (\<lambda>_. watch_prog text plugin evs))"

definition DevicePlugin_serviceDesc :: "(proto_error \<Rightarrow> string) \<Rightarrow> watch_event list \<Rightarrow> DevicePlugin \<Rightarrow> ServiceDesc" where
  "DevicePlugin_serviceDesc text evs srv = \<lparr>sd_ServiceName = ''v1beta1.DevicePlugin'',
     sd_Methods =
       [(''GetDevicePluginOptions'', codec_method text Empty_Unmarshal (\<lambda>dec. GetDevicePluginOptions_Handler srv dec None) DevicePluginOptions_Marshal),
        (''Allocate'', codec_method text AllocateRequest_Unmarshal (\<lambda>dec. Allocate_Handler srv dec None) AllocateResponse_Marshal),
        (''PreStartContainer'', codec_method text PreStartContainerRequest_Unmarshal (\<lambda>dec. PreStartContainer_Handler srv dec None) PreStartContainerResponse_Marshal)],
     sd_Streams = [(''ListAndWatch'', ListAndWatch_stream text srv evs)]\<rparr>"

definition RegisterDevicePluginServer :: "(proto_error \<Rightarrow> string) \<Rightarrow> watch_event list \<Rightarrow> DevicePlugin \<Rightarrow> (string \<rightharpoonup> grpc_service) \<Rightarrow> (string \<rightharpoonup> grpc_service) option" where
  "RegisterDevicePluginServer text evs srv m = server_register (DevicePlugin_serviceDesc text evs srv) m"

section \<open>Calls of the kubelet\<close>

lemma registered_methods:
  assumes "RegisterDevicePluginServer text evs p Map.empty = Some m"
  obtains sv where "m ''v1beta1.DevicePlugin'' = Some sv"
    "srv_md sv ''Allocate'' = Some (codec_method text AllocateRequest_Unmarshal (\<lambda>dec. Allocate_Handler p dec None) AllocateResponse_Marshal)"
    "srv_md sv ''ListAndWatch'' = None" "srv_sd sv ''ListAndWatch'' = Some (ListAndWatch_stream text p evs)"
  using assms by (auto simp: RegisterDevicePluginServer_def server_register_def DevicePlugin_serviceDesc_def)

lemma allocate_name: "split_method ''/v1beta1.DevicePlugin/Allocate'' = Some (''v1beta1.DevicePlugin'', ''Allocate'')"
  by code_simp

lemma request_wire:
  assumes "length (AllocateRequest_enc r) < 2 ^ 63"
  shows "AllocateRequest_Marshal r = Ok (AllocateRequest_enc r)" "AllocateRequest_Unmarshal (AllocateRequest_enc r) AllocateRequest_Reset = (r, Ok ())"
  using AllocateRequest.marshal_enc [OF assms] AllocateRequest.unmarshal_enc [OF TrueI assms] by (simp_all add: AllocateRequest_Marshal_def AllocateRequest_Unmarshal_def)

lemma response_wire:
  assumes "Allocate p r = Ok resp" "length (AllocateResponse_enc resp) < 2 ^ 63"
  shows "AllocateResponse_Marshal resp = Ok (AllocateResponse_enc resp)" "AllocateResponse_Unmarshal (AllocateResponse_enc resp) AllocateResponse_Reset = (resp, Ok ())"
  using AllocateResponse.marshal_enc [OF assms(2)] AllocateResponse.unmarshal_enc [OF Allocate_wf [OF assms(1)] assms(2)]
  by (simp_all add: AllocateResponse_Marshal_def AllocateResponse_Unmarshal_def)

text \<open>The codec of a client for messages that marshal themselves.\<close>

definition codec_Unmarshal :: "(bytes \<Rightarrow> 'm \<Rightarrow> 'm \<times> unit pres) \<Rightarrow> 'm \<Rightarrow> bytes \<Rightarrow> rpc_err + 'm" where
  "codec_Unmarshal unm v b = (case unm b v of (m, Ok _) \<Rightarrow> Inr m | _ \<Rightarrow> Inl (CodecErr []))"

definition codec_Marshal :: "('m \<Rightarrow> bytes pres) \<Rightarrow> 'm \<Rightarrow> rpc_err + bytes" where
  "codec_Marshal mar m = (case mar m of Ok b \<Rightarrow> Inr b | _ \<Rightarrow> Inl (CodecErr []))"

text \<open>What a client makes of the data frames of a call.\<close>

lemma client_reads:
  fixes mar :: "'m \<Rightarrow> bytes pres"
  assumes "\<forall>m\<in>set ms. mar m = Ok (enc m) \<and> unm (enc m) v = (m, Ok ()) \<and> int (length (enc m)) \<le> maxMsg" "maxMsg < 2 ^ 32"
    and "concat ps = concat (map (\<lambda>m. prefixed (enc m)) ms)" "\<forall>x\<in>set ps. x \<noteq> [] \<and> Q x"
  shows "recv_all (Suc (length ms)) (reader_Read SelRecv) (codec_Unmarshal unm v) [] None maxMsg (filled ps fin) = Ok (ms, Recv fin)"
proof (rule stream.recv_all_encoded)
  have w: "codec_Marshal mar m = Inr (enc m)" "codec_Unmarshal unm v (enc m) = Inr m" "int (length (enc m)) \<le> maxMsg" if "m \<in> set ms" for m
    using assms(1) that by (simp_all add: codec_Marshal_def codec_Unmarshal_def)
  have "[] \<notin> set ps" using assms(4) by blast
  then show "stream_ok fin (filled ps fin)" "stream_content (filled ps fin) = concat (map (\<lambda>m. prefixed (enc m)) ms)"
    using filled_source [of ps] assms(3) by simp_all
  have "encode (codec_Marshal mar) (Some m) None = Ok (prefixed (enc m))" if "m \<in> set ms" for m
    using w [OF that] assms(2) by (simp add: encode_def prefixed_def)
  then show "list_all2 (\<lambda>m e. encode (codec_Marshal mar) (Some m) None = Ok e) ms (map (\<lambda>m. prefixed (enc m)) ms)"
    by (simp add: list_all2_conv_all_nth)
  show "\<forall>m\<in>set ms. message_fits (codec_Marshal mar) (codec_Unmarshal unm v) None [] None maxMsg m"
    using w assms(2) by (simp add: message_fits_def)
qed

abbreviation response_Unmarshal :: "bytes \<Rightarrow> rpc_err + AllocateResponse" where
  "response_Unmarshal \<equiv> codec_Unmarshal AllocateResponse_Unmarshal AllocateResponse_Reset"

lemma status_OK_read:
  assumes "distinct (map fst (s_trailer s))" "fs = status_fields True (status_New OK []) s"
  obtains dst where "process_fields (\<lambda>_. None :: bytes option) fs decodeState0 = (dst, None)" "rawStatusCode dst = code_num OK"
  using process_status [where hs = True and st = "status_New OK []" and us = "\<lambda>_. None :: bytes option", OF assms(1)] assms(2) by (auto simp: status_New_def)

text \<open>C10: an \<open>Allocate\<close> call of the kubelet is answered, over all layers. When a request, encoded and cut into data frames
  in any way, has arrived on a stream for \<open>/v1beta1.DevicePlugin/Allocate\<close> of a server on which the plugin is registered, and
  the quotas and the writes admit the reply, then \<open>handleStream\<close> ends and has sent, in this order and on this stream only,
  the initial headers, data frames of at most 16384 bytes, and trailers that end the stream: the HPACK decoder of the client gives
  back the fields of both header blocks, \<open>recv\<close> of the client on the data gives the response of \<open>Allocate\<close> to the
  request and then the end, and the status is \<open>OK\<close>.\<close>

theorem allocate_call_answered:
  assumes "RegisterDevicePluginServer text evs p Map.empty = Some m" "Allocate p r = Ok resp"
    and "store_streams t sid = Some s" "s_method s = ''/v1beta1.DevicePlugin/Allocate''" "s_state s \<noteq> streamDone" "\<not> s_headerOk s"
    and "AllocateRequest_Marshal r = Ok req" "int (length (AllocateRequest_enc r)) \<le> defaultMaxMsgSize"
    and "s_buf s = arrived ds" "concat ds = prefixed req" "[] \<notin> set ds"
    and "k = length (AllocateResponse_enc resp) + 5" "int k \<le> defaultMaxMsgSize"
    and "calm_env env k" "has_quota k (s_sendQuotaPool s)" "has_quota k (t_sendQuotaPool t)"
    and "distinct (map fst (s_trailer s))" "in_step A n (t_hEnc t) d" "idle d" "fs = status_fields True (status_New OK []) s"
    and "small_fields (initial_fields s)" "small_fields fs" "n + length (initial_fields s) + length fs + 1 < 2 ^ 64 - 1"
  shows "\<exists>t' hs ps ts b b' d' d'' dst. handleStream env NewServer_options m ios sid t = Ok t' \<and>
    t_out t' = t_out t @ hs @ map (SentData sid) ps @ ts \<and>
    list_all (header_frame sid) (hs @ ts) \<and> (\<forall>x\<in>set ps. x \<noteq> [] \<and> length x \<le> http2MaxFrameLen) \<and>
    header_block sid False hs = Some b \<and> DecodeFull b d = (d', Ok (initial_fields s)) \<and>
    recv_all 2 (reader_Read SelRecv) response_Unmarshal [] None defaultMaxMsgSize (filled ps RecvEOF) = Ok ([resp], Recv RecvEOF) \<and>
    header_block sid True ts = Some b' \<and> DecodeFull b' d' = (d'', Ok fs) \<and>
    process_fields (\<lambda>_. None :: bytes option) fs decodeState0 = (dst, None) \<and> rawStatusCode dst = code_num OK \<and>
    (\<exists>s'. store_streams t' sid = Some s' \<and> s_state s' = streamDone)"
proof -
  obtain sv where sv: "m ''v1beta1.DevicePlugin'' = Some sv"
    "srv_md sv ''Allocate'' = Some (codec_method text AllocateRequest_Unmarshal (\<lambda>dec. Allocate_Handler p dec None) AllocateResponse_Marshal)"
    by (rule registered_methods [OF assms(1)])
  have len: "length (AllocateRequest_enc r) < 2 ^ 63" "length (AllocateResponse_enc resp) < 2 ^ 63" "length (AllocateResponse_enc resp) < 2 ^ 32"
    "int (length (AllocateResponse_enc resp)) \<le> defaultMaxMsgSize" "defaultMaxMsgSize < 2 ^ 32"
    using assms(8,12,13) by (simp_all add: defaultMaxMsgSize_def)
  have req: "req = AllocateRequest_enc r" using request_wire [OF len(1)] assms(7) by simp
  have md: "codec_method text AllocateRequest_Unmarshal (\<lambda>dec. Allocate_Handler p dec None) AllocateResponse_Marshal (Inr req) = Ok (Inr (AllocateResponse_enc resp))"
    using request_wire [OF len(1)] response_wire [OF assms(2) len(2)] assms(2) req
    by (simp add: codec_method_def Allocate_Handler_def unary_handler_def)
  have name: "split_method (s_method s) = Some (''v1beta1.DevicePlugin'', ''Allocate'')" using assms(4) allocate_name by simp
  have opts: "opt_cp NewServer_options = None" "opt_maxMsgSize NewServer_options = defaultMaxMsgSize" by (simp_all add: NewServer_options_def)
  obtain t' hs ps ts b b' d' d'' where sent: "handleStream env NewServer_options m ios sid t = Ok t'" "t_out t' = t_out t @ hs @ map (SentData sid) ps @ ts"
    "list_all (header_frame sid) (hs @ ts)" "\<forall>x\<in>set ps. x \<noteq> [] \<and> length x \<le> http2MaxFrameLen" "header_block sid False hs = Some b"
    "DecodeFull b d = (d', Ok (initial_fields s))" "concat ps = prefixed (AllocateResponse_enc resp)" "header_block sid True ts = Some b'"
    "DecodeFull b' d' = (d'', Ok fs)" "\<exists>s'. store_streams t' sid = Some s' \<and> s_state s' = streamDone"
    using unary_call_sent [where m = m and opts = NewServer_options and env = env and ios = ios, OF assms(3) name sv opts(1) _ _ assms(9,10,11) md len(3) assms(5,6) _ _ _ assms(17-23)]
      assms(8,12,14,15,16) req len(5) opts(2) by auto
  obtain dst where "process_fields (\<lambda>_. None :: bytes option) fs decodeState0 = (dst, None)" "rawStatusCode dst = code_num OK"
    by (rule status_OK_read [OF assms(17,20)])
  moreover have "recv_all 2 (reader_Read SelRecv) response_Unmarshal [] None defaultMaxMsgSize (filled ps RecvEOF) = Ok ([resp], Recv RecvEOF)"
    using client_reads [where ms = "[resp]" and mar = AllocateResponse_Marshal and enc = AllocateResponse_enc and unm = AllocateResponse_Unmarshal and v = AllocateResponse_Reset,
        OF _ len(5) _ sent(4)] response_wire [OF assms(2) len(2)] len(4) sent(7) by (simp add: numeral_2_eq_2 del: recv_all.simps)
  ultimately show ?thesis using sent by blast
qed

text \<open>The kubelet allocates the second binder device.\<close>

definition binder_plugin :: DevicePlugin where
  "binder_plugin = plugin_for ''/dev/binder'' ''rwm'' ''binder'' 2"

definition binder_request :: AllocateRequest where
  "binder_request = \<lparr>AllocateRequest_ContainerRequests = [\<lparr>ContainerAllocateRequest_DevicesIDs = [''binder2'']\<rparr>]\<rparr>"

definition binder_response :: AllocateResponse where
  "binder_response = \<lparr>AllocateResponse_ContainerResponses =
      [\<lparr>ContainerAllocateResponse_Envs = [(''ANDROID_BINDER_IDX'', ''2'')], ContainerAllocateResponse_Mounts = [],
        ContainerAllocateResponse_Devices = [\<lparr>DeviceSpec_ContainerPath = ''/dev/binder'', DeviceSpec_HostPath = ''/dev/binder2'', DeviceSpec_Permissions = ''rwm''\<rparr>],
        ContainerAllocateResponse_Annotations = []\<rparr>]\<rparr>"

definition kubelet_asks :: "AllocateRequest \<Rightarrow> Encoder \<Rightarrow> http2Server" where
  "kubelet_asks r e = asking ''/v1beta1.DevicePlugin/Allocate'' [prefixed (AllocateRequest_enc r)] e"

lemma registered: "\<exists>m. RegisterDevicePluginServer text evs p Map.empty = Some m"
  by (simp add: RegisterDevicePluginServer_def server_register_def)

lemma first_fields: "small_fields (initial_fields (first_stream\<lparr>s_method := n, s_buf := b\<rparr>))" "length (initial_fields (first_stream\<lparr>s_method := n, s_buf := b\<rparr>)) = 2"
  "small_fields (status_fields True (status_New OK []) (first_stream\<lparr>s_method := n, s_buf := b\<rparr>))" "length (status_fields True (status_New OK []) (first_stream\<lparr>s_method := n, s_buf := b\<rparr>)) = 2"
  by (simp_all add: initial_fields_def status_fields_def status_New_def first_stream_def md_fields_def plain_field_def hf_size_def code_num_def encodeGrpcMessage_def
      encodeGrpcMessageUnchecked_def itoa_def nat_digits.simps [of 0])

theorem allocate_call_answered_witness:
  "\<exists>e d m t' hs ps ts b b' d' d'' dst fs. NewEncoder (\<lambda>b. (length b, None)) = Ok e \<and> NewDecoder 4096 (\<lambda>f s. s) () = Ok d \<and>
    RegisterDevicePluginServer (\<lambda>_. []) [] binder_plugin Map.empty = Some m \<and>
    handleStream quiet_env NewServer_options m [] 1 (kubelet_asks binder_request e) = Ok t' \<and>
    t_out t' = t_out (kubelet_asks binder_request e) @ hs @ map (SentData 1) ps @ ts \<and>
    header_block 1 False hs = Some b \<and> DecodeFull b d = (d', Ok (initial_fields first_stream)) \<and>
    recv_all 2 (reader_Read SelRecv) response_Unmarshal [] None defaultMaxMsgSize (filled ps RecvEOF) = Ok ([binder_response], Recv RecvEOF) \<and>
    header_block 1 True ts = Some b' \<and> DecodeFull b' d' = (d'', Ok fs) \<and>
    process_fields (\<lambda>_. None :: bytes option) fs decodeState0 = (dst, None) \<and> rawStatusCode dst = 0"
proof -
  obtain e d where n: "NewEncoder (\<lambda>b. (length b, None)) = Ok e" "NewDecoder 4096 (\<lambda>f s. s) () = Ok d" "in_step (unat (4096 :: 32 word)) 0 e d" "idle d"
    by (rule new_in_step [of 4096 "\<lambda>f s. s" "()"]) simp_all
  obtain m where m: "RegisterDevicePluginServer (\<lambda>_. []) [] binder_plugin Map.empty = Some m" using registered by blast
  let ?ds = "[prefixed (AllocateRequest_enc binder_request)]"
  let ?s = "first_stream\<lparr>s_method := ''/v1beta1.DevicePlugin/Allocate'', s_buf := arrived ?ds\<rparr>"
  have a: "Allocate binder_plugin binder_request = Ok binder_response" by code_simp
  have l: "length (AllocateRequest_enc binder_request) < 100" "length (AllocateResponse_enc binder_response) < 100" by code_simp+
  then have w: "AllocateRequest_Marshal binder_request = Ok (AllocateRequest_enc binder_request)" by (intro request_wire) simp
  have q: "has_quota (length (AllocateResponse_enc binder_response) + 5) (newQuotaPool 65535)" "calm_env quiet_env (length (AllocateResponse_enc binder_response) + 5)"
    using l(2) by (simp_all add: has_quota_def quota_inv_def newQuotaPool_def quota_total_def calm_env_def no_fail_def quiet_env_def http2MaxFrameLen_def)
  have i: "initial_fields ?s = initial_fields first_stream" by (simp add: initial_fields_def)
  have ne: "[] \<notin> set ?ds" by (simp add: prefixed_def)
  have s: "s_method ?s = ''/v1beta1.DevicePlugin/Allocate''" "s_state ?s \<noteq> streamDone" "\<not> s_headerOk ?s" "s_buf ?s = arrived ?ds" "distinct (map fst (s_trailer ?s))"
    "has_quota (length (AllocateResponse_enc binder_response) + 5) (s_sendQuotaPool ?s)"
    using q(1) by (simp_all add: first_stream_def)
  have t: "has_quota (length (AllocateResponse_enc binder_response) + 5) (t_sendQuotaPool (kubelet_asks binder_request e))"
    "in_step (unat (4096 :: 32 word)) 0 (t_hEnc (kubelet_asks binder_request e)) d" "store_streams (kubelet_asks binder_request e) 1 = Some ?s"
    using q(1) n(3) by (simp_all add: kubelet_asks_def asking_simps)
  have b: "int (length (AllocateRequest_enc binder_request)) \<le> defaultMaxMsgSize" "int (length (AllocateResponse_enc binder_response) + 5) \<le> defaultMaxMsgSize"
    "0 + length (initial_fields ?s) + length (status_fields True (status_New OK []) ?s) + 1 < 2 ^ 64 - 1" "concat ?ds = prefixed (AllocateRequest_enc binder_request)"
    using l first_fields(2,4) by (simp_all add: defaultMaxMsgSize_def)
  have z: "code_num OK = 0" by (simp add: code_num_def)
  show ?thesis
    using allocate_call_answered [where env = quiet_env and ios = "[]", OF m a t(3) s(1-3) w b(1) s(4) b(4) ne refl b(2) q(2) s(6) t(1) s(5) t(2) n(4) refl first_fields(1,3) b(3)]
    unfolding i z by (elim exE conjE) (intro exI conjI; (rule n(1,2) m | assumption))
qed

text \<open>C14: a request without containers ends the service. No part of the server recovers a panic of a handler: when the kubelet
  sends an \<open>Allocate\<close> request that names no container, or whose first container names no device, the panic of \<open>Allocate\<close>
  leaves \<open>handleStream\<close>, so that the process dies without an answer.\<close>

theorem empty_request_kills_service:
  assumes "RegisterDevicePluginServer text evs p Map.empty = Some m"
    and "case AllocateRequest_ContainerRequests r of [] \<Rightarrow> True | c # _ \<Rightarrow> ContainerAllocateRequest_DevicesIDs c = []"
    and "store_streams t sid = Some s" "s_method s = ''/v1beta1.DevicePlugin/Allocate''"
    and "AllocateRequest_Marshal r = Ok req" "int (length (AllocateRequest_enc r)) \<le> defaultMaxMsgSize"
    and "s_buf s = arrived ds" "concat ds = prefixed req" "[] \<notin> set ds"
  shows "handleStream env NewServer_options m ios sid t = Panic"
proof -
  obtain sv where sv: "m ''v1beta1.DevicePlugin'' = Some sv"
    "srv_md sv ''Allocate'' = Some (codec_method text AllocateRequest_Unmarshal (\<lambda>dec. Allocate_Handler p dec None) AllocateResponse_Marshal)"
    by (rule registered_methods [OF assms(1)])
  have len: "length (AllocateRequest_enc r) < 2 ^ 63" "defaultMaxMsgSize < 2 ^ 32" using assms(6) by (simp_all add: defaultMaxMsgSize_def)
  have req: "req = AllocateRequest_enc r" using request_wire [OF len(1)] assms(5) by simp
  have "Allocate p r = Panic" using assms(2) by (auto simp: Allocate_def index_def split: list.splits)
  then have md: "codec_method text AllocateRequest_Unmarshal (\<lambda>dec. Allocate_Handler p dec None) AllocateResponse_Marshal (Inr req) = Panic"
    using request_wire [OF len(1)] req by (simp add: codec_method_def Allocate_Handler_def unary_handler_def)
  have name: "split_method (s_method s) = Some (''v1beta1.DevicePlugin'', ''Allocate'')" using assms(4) allocate_name by simp
  have opts: "opt_cp NewServer_options = None" "opt_maxMsgSize NewServer_options < 2 ^ 32" "int (length req) \<le> opt_maxMsgSize NewServer_options"
    using len(2) assms(6) req by (simp_all add: NewServer_options_def)
  show ?thesis by (rule handle_unary [where m = m and env = env and ios = ios, OF assms(3) name sv opts assms(7-9)]) (simp add: md)
qed

theorem empty_request_kills_service_witness:
  "\<forall>e. \<exists>m. RegisterDevicePluginServer (\<lambda>_. []) [] binder_plugin Map.empty = Some m \<and>
    handleStream quiet_env NewServer_options m [] 1 (kubelet_asks \<lparr>AllocateRequest_ContainerRequests = []\<rparr> e) = Panic"
proof
  fix e
  let ?r = "\<lparr>AllocateRequest_ContainerRequests = []\<rparr>"
  obtain m where m: "RegisterDevicePluginServer (\<lambda>_. []) [] binder_plugin Map.empty = Some m" using registered by blast
  have l: "length (AllocateRequest_enc ?r) < 100" by code_simp
  then have w: "AllocateRequest_Marshal ?r = Ok (AllocateRequest_enc ?r)" by (intro request_wire) simp
  have ne: "[] \<notin> set [prefixed (AllocateRequest_enc ?r)]" by (simp add: prefixed_def)
  show "\<exists>m. RegisterDevicePluginServer (\<lambda>_. []) [] binder_plugin Map.empty = Some m \<and> handleStream quiet_env NewServer_options m [] 1 (kubelet_asks ?r e) = Panic"
    using empty_request_kills_service [OF m _ asking_simps(1) _ w _ _ _ ne, where env = quiet_env and ios = "[]"] m l
    by (auto simp: kubelet_asks_def defaultMaxMsgSize_def)
qed

section \<open>The device list\<close>

lemma watch_name: "split_method ''/v1beta1.DevicePlugin/ListAndWatch'' = Some (''v1beta1.DevicePlugin'', ''ListAndWatch'')"
  by code_simp

lemma list_wire:
  assumes "length (ListAndWatchResponse_enc resp) < 2 ^ 63"
  shows "ListAndWatchResponse_Marshal resp = Ok (ListAndWatchResponse_enc resp)" "ListAndWatchResponse_Unmarshal (ListAndWatchResponse_enc resp) ListAndWatchResponse_Reset = (resp, Ok ())"
  using ListAndWatchResponse.marshal_enc [OF assms] ListAndWatchResponse.unmarshal_enc [OF TrueI assms]
  by (simp_all add: ListAndWatchResponse_Marshal_def ListAndWatchResponse_Unmarshal_def)

lemma watch_sends:
  assumes "ListAndWatchResponse_Marshal \<lparr>ListAndWatchResponse_Devices = devInstances p\<rparr> = Ok b"
  shows "watch_prog text p (replicate j Tick @ evs) = sends (replicate j b) (watch_prog text p evs)"
  using assms by (induction j) (simp_all add: codec_send_def)

lemma Close_again [simp]: "fst (srv_Close (fst (srv_Close t))) = fst (srv_Close t)"
  by (simp add: srv_Close_def [of "fst (srv_Close t)"])

lemma Close_stream:
  "store_streams t sid = Some s \<Longrightarrow>
     \<exists>s'. store_streams (fst (srv_Close t)) sid = Some s' \<and> s_state s' = s_state s \<and> s_headerOk s' = s_headerOk s"
  by (simp add: srv_Close_def Let_def)

lemma sends_calm:
  assumes "length ios = Suc j" "\<forall>io\<in>set ios. no_fail (fst io) \<and> patient (length b + 5) (snd io)" "length b < 2 ^ 32"
  obtains io ios' where "ios = io # ios'" "no_fail (fst io)"
    "list_all2 (\<lambda>m io. length m < 2 ^ 32 \<and> patient (length m + 5) (snd io)) (b # replicate j b) (io # ios')"
proof -
  obtain io ios' where ios: "ios = io # ios'" using assms(1) by (cases ios) auto
  then have "list_all2 (\<lambda>m io. length m < 2 ^ 32 \<and> patient (length m + 5) (snd io)) (b # replicate j b) (io # ios')"
    using assms by (auto simp: list_all2_conv_all_nth nth_Cons split: nat.split)
  then show thesis using that ios assms(2) by simp
qed

text \<open>C11: the kubelet learns the devices, over all layers. When a \<open>ListAndWatch\<close> request has arrived on a stream of a server on which
  the plugin is registered, and the quotas and writes admit the messages, then after \<open>j\<close> ticks the call is still running, and
  it has sent the initial headers and then data frames in which \<open>recv\<close> of the client finds exactly \<open>j + 1\<close> messages, each with the
  whole device list as it was created: one from the start of the call and one from each tick. The call ends only when the server is stopped: the connection is closed
  first, then the stop channel; the handler then returns, its status is written to the closed transport, and when the wait for the right
  to write sees that, nothing is sent any more.\<close>

theorem watch_call_streams:
  assumes "RegisterDevicePluginServer text (replicate j Tick) p Map.empty = Some m"
    and "RegisterDevicePluginServer text (replicate j Tick @ ConnsClosed # StopClosed # evs) p Map.empty = Some m'"
    and "store_streams t sid = Some s" "s_method s = ''/v1beta1.DevicePlugin/ListAndWatch''" "s_state s \<noteq> streamDone" "\<not> s_headerOk s" "s_recvCompress s = []"
    and "snd (Empty_Unmarshal req Empty_Reset) = Ok ()" "int (length req) \<le> defaultMaxMsgSize"
    and "s_buf s = arrived ds" "concat ds = prefixed req" "[] \<notin> set ds"
    and "k = length (ListAndWatchResponse_enc \<lparr>ListAndWatchResponse_Devices = devInstances p\<rparr>) + 5" "int k \<le> defaultMaxMsgSize"
    and "length ios = Suc j" "\<forall>io\<in>set ios. no_fail (fst io) \<and> patient k (snd io)"
    and "has_quota (Suc j * k) (s_sendQuotaPool s)" "has_quota (Suc j * k) (t_sendQuotaPool t)"
    and "in_step A n (t_hEnc t) d" "idle d" "small_fields (initial_fields s)" "n + length (initial_fields s) + 1 < 2 ^ 64 - 1"
  shows "\<exists>t' hs ps b d'. handleStream env NewServer_options m ios sid t = Err (CallWaits t') \<and>
    t_out t' = t_out t @ hs @ map (SentData sid) ps \<and>
    list_all (header_frame sid) hs \<and> (\<forall>x\<in>set ps. x \<noteq> [] \<and> length x \<le> http2MaxFrameLen) \<and>
    header_block sid False hs = Some b \<and> DecodeFull b d = (d', Ok (initial_fields s)) \<and>
    recv_all (Suc (Suc j)) (reader_Read SelRecv) (codec_Unmarshal ListAndWatchResponse_Unmarshal ListAndWatchResponse_Reset) [] None defaultMaxMsgSize (filled ps fin) =
      Ok (replicate (Suc j) \<lparr>ListAndWatchResponse_Devices = devInstances p\<rparr>, Recv fin) \<and>
    handleStream env NewServer_options m' ios sid t = put_status env sid (status_New OK []) (fst (srv_Close t')) \<and>
    (\<not> hw_writable (ce_status env) \<longrightarrow> (\<exists>t''. handleStream env NewServer_options m' ios sid t = Ok t'' \<and> t_state t'' = closing \<and> t_out t'' = t_out t'))"
proof -
  define resp where "resp = \<lparr>ListAndWatchResponse_Devices = devInstances p\<rparr>"
  define b0 where "b0 = ListAndWatchResponse_enc resp"
  have k: "k = length b0 + 5" using assms(13) by (simp add: b0_def resp_def)
  then have len: "length b0 < 2 ^ 32" "int (length b0) \<le> defaultMaxMsgSize" "defaultMaxMsgSize < 2 ^ 32" using assms(14) by (simp_all add: defaultMaxMsgSize_def)
  then have wire: "ListAndWatchResponse_Marshal resp = Ok b0" "ListAndWatchResponse_Unmarshal b0 ListAndWatchResponse_Reset = (resp, Ok ())"
    using list_wire [of resp] by (simp_all add: b0_def)
  have ios: "\<forall>io\<in>set ios. no_fail (fst io) \<and> patient (length b0 + 5) (snd io)" using assms(16) k by simp
  obtain io ios' where calm: "ios = io # ios'" "no_fail (fst io)" "list_all2 (\<lambda>m io. length m < 2 ^ 32 \<and> patient (length m + 5) (snd io)) (b0 # replicate j b0) (io # ios')"
    by (rule sends_calm [OF assms(15) ios len(1)])
  have quota: "Suc j * k = wire_length (b0 # replicate j b0)" by (simp add: wire_length_def k sum_list_replicate)
  have name: "split_method (s_method s) = Some (''v1beta1.DevicePlugin'', ''ListAndWatch'')" using assms(4) watch_name by simp
  have opts: "opt_cp NewServer_options = None" "opt_dc NewServer_options = None" "opt_maxMsgSize NewServer_options < 2 ^ 32"
    "int (length req) \<le> opt_maxMsgSize NewServer_options"
    using assms(9) len(3) by (simp_all add: NewServer_options_def)
  let ?unm = "\<lambda>b. map_err (\<lambda>_. ()) (snd (Empty_Unmarshal b Empty_Reset))" and ?r0 = "\<lparr>sr_last = None, sr_err = None, sr_t = t\<rparr>"
  have unm: "?unm req = Ok ()" using assms(8) by simp
  obtain r hs ps b d' where r: "\<forall>k q ios''. k (Inr req) = sends (b0 # replicate j b0) q \<longrightarrow>
      run_stream (SRecv ?unm k) env NewServer_options sid (io # ios' @ ios'') ?r0 = run_stream q env NewServer_options sid ios'' r"
    and sent: "t_out (sr_t r) = t_out t @ hs @ map (SentData sid) ps" "list_all (header_frame sid) hs" "\<forall>x\<in>set ps. x \<noteq> [] \<and> length x \<le> http2MaxFrameLen"
      "header_block sid False hs = Some b" "DecodeFull b d = (d', Ok (initial_fields s))" "concat ps = concat (map prefixed (b0 # replicate j b0))"
    and s': "\<exists>s'. store_streams (sr_t r) sid = Some s' \<and> s_state s' \<noteq> streamDone \<and> s_headerOk s'"
    using stream_run [where unm = ?unm and env = env, OF assms(3,5,6,7) opts assms(10-12) unm calm(2,3) assms(17,18) [unfolded quota] assms(19-22)]
    by (elim exE conjE) (rule that; blast)
  have run: "run_stream (ListAndWatch_stream text p (replicate j Tick @ evs')) env NewServer_options sid ios ?r0 = run_stream (watch_prog text p evs') env NewServer_options sid [] r" for evs'
    using r [rule_format, where ios'' = "[]" and q = "watch_prog text p evs'"] watch_sends [of p b0 "text" j evs'] wire(1)
    unfolding ListAndWatch_stream_def calm(1) resp_def by (simp add: codec_send_def del: run_stream.simps)
  have handle: "handleStream env NewServer_options mm ios sid t = res_bind (run_stream (watch_prog text p evs') env NewServer_options sid [] r) (\<lambda>(r, appErr).
      put_status env sid (case appErr of Some e \<Rightarrow> app_status env e | None \<Rightarrow> status_New OK []) (sr_t r))"
    if "RegisterDevicePluginServer text (replicate j Tick @ evs') p Map.empty = Some mm" for evs' mm
    by (rule registered_methods [OF that]) (simp only: handle_stream [where mm = mm, OF assms(3) name _ _ _ opts(1)] run)
  have running: "handleStream env NewServer_options m ios sid t = Err (CallWaits (sr_t r))" using handle [of "[]" m] assms(1) by simp
  have stopped: "handleStream env NewServer_options m' ios sid t = put_status env sid (status_New OK []) (fst (srv_Close (sr_t r)))"
    using handle [OF assms(2)] by simp
  obtain s1 where s1: "store_streams (fst (srv_Close (sr_t r))) sid = Some s1" "s_state s1 \<noteq> streamDone" "s_headerOk s1"
    using s' Close_stream by metis
  have quiet: "put_status env sid (status_New OK []) (fst (srv_Close (sr_t r))) = Ok (fst (srv_Close (sr_t r)))" if "\<not> hw_writable (ce_status env)"
    using s1 that by (simp add: put_status_def WriteStatus_def write_trailers_def)
  have "concat ps = concat (map (\<lambda>m. prefixed (ListAndWatchResponse_enc m)) (replicate (Suc j) resp))" using sent(6) by (simp add: b0_def map_replicate)
  then have "recv_all (Suc (length (replicate (Suc j) resp))) (reader_Read SelRecv) (codec_Unmarshal ListAndWatchResponse_Unmarshal ListAndWatchResponse_Reset) [] None defaultMaxMsgSize (filled ps fin) =
      Ok (replicate (Suc j) resp, Recv fin)"
    using wire len(2) by (intro client_reads [OF _ len(3) _ sent(3), where mar = ListAndWatchResponse_Marshal and enc = ListAndWatchResponse_enc]) (auto simp: b0_def)
  then have client: "recv_all (Suc (Suc j)) (reader_Read SelRecv) (codec_Unmarshal ListAndWatchResponse_Unmarshal ListAndWatchResponse_Reset) [] None defaultMaxMsgSize (filled ps fin) =
      Ok (replicate (Suc j) \<lparr>ListAndWatchResponse_Devices = devInstances p\<rparr>, Recv fin)" by (simp only: length_replicate resp_def)
  have silent: "\<not> hw_writable (ce_status env) \<longrightarrow>
      (\<exists>t''. handleStream env NewServer_options m' ios sid t = Ok t'' \<and> t_state t'' = closing \<and> t_out t'' = t_out (sr_t r))"
    using quiet unfolding stopped by auto
  show ?thesis
    by (rule exI [of _ "sr_t r"], rule exI [of _ hs], rule exI [of _ ps], rule exI [of _ b], rule exI [of _ d'])
      (intro conjI; rule running sent client stopped silent)
qed

text \<open>The kubelet has the list after the start and after one tick; the server is then stopped, and the kubelet sees its connection end.\<close>

definition calm_sends :: "(header_wait \<times> turn_input list) list" where
  "calm_sends = replicate 2 (\<lparr>hw_writable = True, hw_fail = None\<rparr>, [\<lparr>wt_stream_add = 0, wt_conn_add = 0, wt_fail = NoFail\<rparr>])"

definition closed_env :: call_env where
  "closed_env = quiet_env\<lparr>ce_status := \<lparr>hw_writable = False, hw_fail = None\<rparr>\<rparr>"

theorem watch_call_streams_witness:
  "\<exists>e m m' t' t'' hs ps. NewEncoder (\<lambda>b. (length b, None)) = Ok e \<and>
    RegisterDevicePluginServer (\<lambda>_. []) [Tick] binder_plugin Map.empty = Some m \<and>
    RegisterDevicePluginServer (\<lambda>_. []) [Tick, ConnsClosed, StopClosed] binder_plugin Map.empty = Some m' \<and>
    handleStream closed_env NewServer_options m calm_sends 1 (asking ''/v1beta1.DevicePlugin/ListAndWatch'' [prefixed []] e) = Err (CallWaits t') \<and>
    t_out t' = t_out (asking ''/v1beta1.DevicePlugin/ListAndWatch'' [prefixed []] e) @ hs @ map (SentData 1) ps \<and>
    recv_all 3 (reader_Read SelRecv) (codec_Unmarshal ListAndWatchResponse_Unmarshal ListAndWatchResponse_Reset) [] None defaultMaxMsgSize (filled ps (TransportErr ''closed'')) =
      Ok (replicate 2 \<lparr>ListAndWatchResponse_Devices = devInstances binder_plugin\<rparr>, Recv (TransportErr ''closed'')) \<and>
    handleStream closed_env NewServer_options m' calm_sends 1 (asking ''/v1beta1.DevicePlugin/ListAndWatch'' [prefixed []] e) = Ok t'' \<and> t_out t'' = t_out t'"
proof -
  let ?t = "\<lambda>e. asking ''/v1beta1.DevicePlugin/ListAndWatch'' [prefixed []] e"
  obtain e d where n: "NewEncoder (\<lambda>b. (length b, None)) = Ok e" "NewDecoder 4096 (\<lambda>f s. s) () = Ok d" "in_step (unat (4096 :: 32 word)) 0 e d" "idle d"
    by (rule new_in_step [of 4096 "\<lambda>f s. s" "()"]) simp_all
  obtain m where m: "RegisterDevicePluginServer (\<lambda>_. []) (replicate 1 Tick) binder_plugin Map.empty = Some m" using registered by blast
  obtain m' where m': "RegisterDevicePluginServer (\<lambda>_. []) (replicate 1 Tick @ ConnsClosed # StopClosed # []) binder_plugin Map.empty = Some m'" using registered by blast
  let ?resp = "\<lparr>ListAndWatchResponse_Devices = devInstances binder_plugin\<rparr>" and ?ds = "[prefixed []]"
  let ?s = "first_stream\<lparr>s_method := ''/v1beta1.DevicePlugin/ListAndWatch'', s_buf := arrived ?ds\<rparr>" and ?k = "length (ListAndWatchResponse_enc ?resp) + 5"
  have l: "length (ListAndWatchResponse_enc ?resp) < 100" by code_simp
  have r: "snd (Empty_Unmarshal [] Empty_Reset) = Ok ()" by code_simp
  have q: "has_quota (Suc 1 * ?k) (newQuotaPool 65535)" using l by (simp add: has_quota_def quota_inv_def newQuotaPool_def quota_total_def)
  have i: "length calm_sends = Suc 1" "\<forall>io\<in>set calm_sends. no_fail (fst io) \<and> patient ?k (snd io)" "\<not> hw_writable (ce_status closed_env)"
    using l by (simp_all add: calm_sends_def no_fail_def patient_def http2MaxFrameLen_def closed_env_def)
  have s: "s_method ?s = ''/v1beta1.DevicePlugin/ListAndWatch''" "s_state ?s \<noteq> streamDone" "\<not> s_headerOk ?s" "s_recvCompress ?s = []" "s_buf ?s = arrived ?ds"
    "has_quota (Suc 1 * ?k) (s_sendQuotaPool ?s)"
    using q by (simp_all add: first_stream_def)
  have t: "has_quota (Suc 1 * ?k) (t_sendQuotaPool (?t e))" "in_step (unat (4096 :: 32 word)) 0 (t_hEnc (?t e)) d" "store_streams (?t e) 1 = Some ?s"
    using q n(3) by (simp_all add: asking_simps)
  have b: "int (length ([] :: bytes)) \<le> defaultMaxMsgSize" "int ?k \<le> defaultMaxMsgSize" "concat ?ds = prefixed []" "[] \<notin> set ?ds"
    "0 + length (initial_fields ?s) + 1 < 2 ^ 64 - 1"
    using l first_fields(2,4) by (simp_all add: defaultMaxMsgSize_def prefixed_def)
  have lists: "[Tick] = replicate 1 Tick" "[Tick, ConnsClosed, StopClosed] = replicate 1 Tick @ ConnsClosed # StopClosed # []" "(3 :: nat) = Suc (Suc 1)" "(2 :: nat) = Suc 1"
    by simp_all
  obtain t' hs ps where w: "handleStream closed_env NewServer_options m calm_sends 1 (?t e) = Err (CallWaits t')" "t_out t' = t_out (?t e) @ hs @ map (SentData 1) ps"
    "recv_all (Suc (Suc 1)) (reader_Read SelRecv) (codec_Unmarshal ListAndWatchResponse_Unmarshal ListAndWatchResponse_Reset) [] None defaultMaxMsgSize (filled ps (TransportErr ''closed'')) =
      Ok (replicate (Suc 1) ?resp, Recv (TransportErr ''closed''))"
    "\<exists>t''. handleStream closed_env NewServer_options m' calm_sends 1 (?t e) = Ok t'' \<and> t_state t'' = closing \<and> t_out t'' = t_out t'"
    using watch_call_streams [where env = closed_env and ios = calm_sends and fin = "TransportErr ''closed''",
        OF m m' t(3) s(1-4) r b(1) s(5) b(3,4) refl b(2) i(1,2) s(6) t(1,2) n(4) first_fields(1) b(5)] i(3) by (elim exE conjE) (rule that; blast)
  show ?thesis using w(4) unfolding lists
    by (elim exE conjE) (intro exI conjI; (rule n(1) m m' w(1,2,3) | assumption))
qed

end
