(* ===== verification/Spec2Isabelle.thy ===== *)
theory Spec2Isabelle
  imports Service Inotify Http2Pipe GrpcLifecycle PluginServer
begin

text \<open>
  A verification development for the Kubernetes device plugin service of the repository,
  \<open>src/services/k8s-dev-plugin-service\<close>.

  \<^bold>\<open>The program.\<close> The service runs on a node and offers three host devices, \<open>/dev/fuse\<close>,
  \<open>/dev/ashmem\<close> and \<open>/dev/binder\<close>, to containers. \<open>main.go\<close> prepares the host, guards against a
  second instance with a pid file, starts one gRPC server for each device, registers all of them
  with the kubelet and then waits for file system events and signals; \<open>watcher.go\<close> creates the two
  watchers; \<open>server.go\<close> holds the plugins and the calls the kubelet makes. The messages are those
  of \<open>deviceplugin/v1beta1/api.pb.go\<close>. Everything below is kept in the repository under the
  service's \<open>src/\<close> directory and modelled as far as a call passes through it: \<open>google.golang.org/grpc\<close>
  with its HTTP/2 server transport, the framing and header compression of \<open>golang.org/x/net/http2\<close>,
  and the inotify watcher of \<open>github.com/fsnotify/fsnotify\<close>.

  \<^bold>\<open>The theories of the service.\<close>
  \<^item> \<open>Prelude\<close>: results with errors, panics and exhausted fuel; indexing, slicing and storing in
    byte slices; the integers of Go; the functions of \<open>strconv\<close>, \<open>path\<close> and \<open>strings\<close> in use.
  \<^item> \<open>Wire\<close>: varints, their sizes, fixed-width values and the skipping of unknown fields
    (\<open>encodeVarintApi\<close>, \<open>sovApi\<close>, \<open>skipApi\<close> and the decoding loop of \<open>api.pb.go\<close>).
  \<^item> \<open>Codec\<close>: the statements from which the generated code builds \<open>Size\<close>, \<open>MarshalTo\<close>, \<open>Marshal\<close>
    and \<open>Unmarshal\<close>, and the interfaces \<open>marshaller\<close>, \<open>unmarshaller\<close> and \<open>message\<close>, in which
    round trip, termination, tolerance of unknown fields and the panic on an overflowing length are
    proved once.
  \<^item> \<open>DevicePluginApi\<close>: the thirteen messages; each is an interpretation of \<open>message\<close>.
  \<^item> \<open>Plugin\<close>: \<open>server.go\<close>, with \<open>constants.go\<close> and the generated method handlers. The interface
    \<open>plugin_operation\<close> carries what the loops of the manager over its plugins keep.
  \<^item> \<open>Service\<close>: \<open>main.go\<close> and \<open>watcher.go\<close>, the main loop as a step relation.
  \<^item> \<open>Inotify\<close>: \<open>fsnotify.go\<close>, \<open>inotify.go\<close> and \<open>inotify_poller.go\<close>: descriptors, the two maps of the
    watcher, the decoding of the records of the kernel and the reading goroutine.
  \<^item> \<open>PluginServer\<close>: the service descriptor of \<open>api.pb.go\<close> with the plugin on a gRPC server, and the
    calls \<open>Allocate\<close> and \<open>ListAndWatch\<close> from the frames of the request to the frames of the answer.

  \<^bold>\<open>The theories of gRPC.\<close>
  \<^item> \<open>GrpcControl\<close>: \<open>control.go\<close> and the receive buffers of \<open>transport.go\<close>: quota pools, inbound flow
    control, control items, \<open>recvBuffer\<close> and its reader.
  \<^item> \<open>GrpcHeaders\<close>: \<open>http_util.go\<close>: percent and base64 encodings, timeouts, \<open>processHeaderField\<close>.
  \<^item> \<open>GrpcMessage\<close>: the message layer of \<open>rpc_util.go\<close>. The interface \<open>byte_source\<close> is what the parser
    needs of a reader; the reader of a receive buffer and, in \<open>GrpcDispatch\<close>, a stream of the
    transport interpret it.
  \<^item> \<open>GrpcServer\<close>: \<open>http2_server.go\<close>: frame handlers, controller, keepalive, the writing of headers,
    data and statuses, shutdown. \<open>GrpcServerInv\<close>: its invariant over the interleavings of its
    goroutines; the interface \<open>quiet_handler\<close> is for handlers that leave the quotas alone.
    \<open>GrpcWriting\<close>: what its writes send.
  \<^item> \<open>GrpcDispatch\<close>: calls, of \<open>server.go\<close> and \<open>stream.go\<close>: \<open>register\<close>, \<open>handleStream\<close>,
    \<open>processUnaryRPC\<close>, \<open>processStreamingRPC\<close>, \<open>SendMsg\<close>, \<open>RecvMsg\<close>.
  \<^item> \<open>GrpcLifecycle\<close>: \<open>Serve\<close>, the goroutines of connections, \<open>Stop\<close> and \<open>GracefulStop\<close> of \<open>server.go\<close>,
    as a step relation.

  \<^bold>\<open>The theories of HTTP/2.\<close>
  \<^item> \<open>Http2Frame\<close>: \<open>frame.go\<close>, \<open>errors.go\<close> and \<open>flow.go\<close>: reading and writing of all frame types,
    the order of frames, windows.
  \<^item> \<open>Http2Pipe\<close>: \<open>databuffer.go\<close> and \<open>pipe.go\<close>.
  \<^item> \<open>HpackTables\<close>, \<open>HpackStatic\<close>: \<open>tables.go\<close> of \<open>hpack\<close>. \<open>HpackHuffman\<close>, \<open>HuffmanTree\<close>,
    \<open>HuffmanCodec\<close>: \<open>huffman.go\<close>, its decoding tree and its bit loops. \<open>Hpack\<close>: \<open>encode.go\<close> and
    \<open>hpack.go\<close>. \<open>HpackSync\<close>: that encoder and decoder stay in step.

  \<^bold>\<open>State and environment.\<close> A Go function that may fail returns a value of \<open>res\<close>: \<open>Ok\<close>, \<open>Err\<close> for a
  returned error, \<open>Panic\<close> for a run-time panic and \<open>Stuck\<close> for exhausted fuel. Objects that Go
  updates in place are passed and returned. The record \<open>world\<close> holds what the process shares with
  the node: the files and which of them the system refuses to remove, the gRPC servers that serve,
  the registration requests that have reached the kubelet and those it has acknowledged. What
  the operating system and the kubelet answer is an argument: \<open>host\<close> for the start-up, \<open>env\<close> for
  each pass of the loop, \<open>call_env\<close> for a call of the gRPC server. The record \<open>http2Server\<close> is a
  transport, with its streams in \<open>store_streams\<close> and the frames it has written in \<open>t_out\<close>;
  \<open>Server\<close> is a gRPC server with its goroutines. Calls that sleep on its condition variable and calls that a
  broadcast has woken are counted apart. Choices of \<open>select\<close>, the outcome of writes and of
  waits, and the clock are arguments of the steps that meet them.

  \<^bold>\<open>Limits of the model.\<close> A handler of the transport and a section of \<open>server.go\<close> under its lock is one
  step; goroutines interleave between steps. The invariant of the transport is about lawful runs
  (\<open>server_runs\<close>), in which no padded frame overruns the window of its stream and \<open>keepalive\<close> takes no timer
  after the shutdown; \<open>unlawful_runs\<close> shows that it fails without either. Between the test for the pid
  file and its creation other processes may change the files (an argument of \<open>main_init\<close>); the other steps
  of the service are atomic with respect to them. The kernel is asked to give a watched path its
  descriptor again (\<open>add_watch_ok\<close>). The quota of a pool is an unbounded integer: the Go \<open>int\<close> wraps only
  beyond \<open>2^63\<close>, which no sequence of window updates of realistic length reaches. A status code is one of the
  seventeen that \<open>codes.go\<close> names.

  \<^bold>\<open>What is shown.\<close> Of the service: while it waits, all plugins are served and registered and nothing
  else serves; it never panics in the loop; a clean shutdown leaves nothing behind that the system lets it remove; a fatal error in
  the loop leaves the pid file behind and locks out later starts; failed registrations are retried
  until they succeed; a restart of the kubelet, from the record of the kernel on, or SIGHUP registers
  everything again. Of the plugins: the advertised instances, what \<open>Allocate\<close> answers for each of
  them, resumable registration, the pairing of start and stop. Of calls: an \<open>Allocate\<close> call is answered
  over all layers, a \<open>ListAndWatch\<close> call streams the device list until the server is stopped, unknown methods are refused, and a request
  without containers ends the process. Of gRPC: messages arrive however their bytes are cut,
  statuses reach the client, writes stay within the quotas, the quota of a connection is balanced in
  every state of a lawful run, a stopped server keeps nothing open, a graceful stop loses no wake-up and ends; and where the
  code fails: a timer that reopens a closed transport, a smaller window that adds quota, timeouts
  that overflow. Of HTTP/2: round trips of frames, safe reading, contiguous header blocks, HPACK
  sessions, the Huffman code, the pipe. Of the messages: round trips, termination of the decoders on
  every input, unknown fields, and the lengths that make a decoder panic. Of the watcher: the events it
  reports, its maps and its descriptors.

  \<^bold>\<open>Fuel.\<close> Loops that are not structural have fuel, which their callers compute from the length of
  the input: \<open>skip_fuel\<close> and \<open>unmarshal_loop\<close> (\<open>skip_terminates\<close>, \<open>unmarshal_terminates\<close>), the bit loops
  \<open>huff_inner\<close>, \<open>huff_tail\<close> and \<open>append_code\<close> of the Huffman code, \<open>dec_loop\<close> of the HPACK decoder, the
  loops of the chunked buffer, \<open>events_loop\<close> of the watcher, \<open>read_loop\<close> of the message parser, and
  the receiver \<open>recv_all\<close>. The round trips and delivery theorems about them state that the result is
  \<open>Ok\<close>, so that the fuel is enough. A handler of a stream is a finite program; a call that still
  waits is \<open>CallReads\<close> or \<open>CallWaits\<close>, the latter with the transport as the call has left it.

  \<^bold>\<open>Not modelled.\<close> Log output, traces and statistics; the text of error messages, which are
  arguments; \<open>String\<close> methods and descriptors of the messages; the gRPC client with dialling,
  balancing and name resolution, of which the service sees the answers in \<open>env\<close>; \<open>server.go\<close> and
  \<open>transport.go\<close> of \<open>golang.org/x/net/http2\<close>, which a gRPC server with its own transport does not
  use; the reflective protobuf libraries, because the messages marshal themselves; logrus and the
  text tables, which do not bear on the service; and the shell scripts that install and initialise
  the node.
\<close>

section \<open>The watcher and the main loop\<close>

text \<open>What the \<open>select\<close> of the main loop receives from the channels of the watcher.\<close>

definition loop_event :: "item \<Rightarrow> event" where
  "loop_event i = (case i of EventItem e \<Rightarrow> WatcherEvent (ev_Name e) (ev_Op e) | ErrorItem _ \<Rightarrow> WatcherError [])"

lemma clean_plugin_path: "filepath_Clean DevicePluginPath @ ''/kubelet.sock'' = KubeletSocket"
  by code_simp

lemma kubelet_socket_reported:
  assumes "\<not> missing KubeletSocket" "paths (sint wd) = Some (filepath_Clean DevicePluginPath)"
  shows "reported missing paths [create_event wd ''kubelet.sock'' pad] = [EventItem \<lparr>ev_Name = KubeletSocket, ev_Op = Op_Create\<rparr>]"
  using assms clean_plugin_path
  by (simp add: create_event_def event_name_def ke_len_def newEvent_def ignoreLinux_def in_masks op_masks Let_def)

text \<open>C5: the path of a kubelet restart through the watcher into the loop: after \<open>newFsWatcher\<close> has added the
  plugin directory, an inotify record for the creation of \<open>kubelet.sock\<close> in it makes the reading goroutine
  deliver exactly one event, and receiving it makes the waiting service stop its servers and restart.\<close>

theorem kubelet_restart_noticed:
  assumes "NewWatcher su fds = (fds', Inr w0)" "watcher_Add add_watch DevicePluginPath w0 = Ok w"
    and "add_watch (filepath_Clean DevicePluginPath) agnosticEvents = Inr wd" "0 \<le> wd" "wd < 2 ^ 31"
    and "kp_read kp = Inr (ke_bytes (create_event (word_of_int wd) ''kubelet.sock'' pad))" "pad \<le> 16"
    and "poller_wait (kp_clear kp) (w_poller w) (kp_epoll kp) = Ok True" "\<not> kp_closed kp" "\<forall>k. kp_takes kp k"
    and "\<not> kp_missing kp KubeletSocket" "main_reaches n h (Running s)" "serving h = []" "\<not> restart s"
  shows "\<exists>w' i k s'. readEvents_pass kp w = Ok ((w', [i], k), True) \<and> select_event (loop_event i) s = Running s' \<and>
    restart s' \<and> serving (sworld s') = []"
proof -
  let ?e = "create_event (word_of_int wd) ''kubelet.sock'' pad"
  let ?i = "EventItem \<lparr>ev_Name = KubeletSocket, ev_Op = Op_Create\<rparr>"
  have w0: "w_watches w0 = Map.empty" "\<not> w_done w0"
    using assms(1) by (auto simp: NewWatcher_def split: sum.splits prod.splits)
  have w: "w_paths w wd = Some (filepath_Clean DevicePluginPath)" "\<not> w_done w"
    using assms(2,3) w0 by (auto simp: watcher_Add_def isClosed_def Let_def split: if_splits)
  have "ke_ok ?e" "length (ke_bytes ?e) \<le> 16 * 4096" using assms(7)
    by (simp_all add: ke_ok_def ke_bytes_def ke_len_def create_event_def PathMax_def bytes_of_string_def)
  moreover have "reported (kp_missing kp) (w_paths w) [?e] = [?i]"
    using kubelet_socket_reported [of "kp_missing kp" "w_paths w" "word_of_int wd" pad] assms(4,5,11) w(1)
    by (simp add: sint_word_of_int32)
  ultimately obtain w' k where pass: "readEvents_pass kp w = Ok ((w', [?i], k), True)"
    using pass_reported [of "[?e]" kp w] assms(6,8-10) w(2) by auto
  have "service_inv n s" using assms(12,13) by (rule reaches_Running)
  then obtain m v where "stop_current s = Ok (s\<lparr>sworld := v, pluginManager := Some m\<rparr>)" "serving v = []"
    using stop_current_up [OF _ assms(14)] by metis
  then have "select_event (loop_event ?i) s = Running (s\<lparr>sworld := v, pluginManager := Some m, restart := True\<rparr>)" "serving v = []"
    by (simp_all add: loop_event_def select_event_def is_kubelet_restart_def fsnotify_Create_def Op_Create_def)
  with pass show ?thesis by fastforce
qed

theorem kubelet_restart_noticed_witness:
  "\<exists>w w' i k s'. watcher_Add (\<lambda>_ _. Inr 1) DevicePluginPath sample_watcher = Ok w \<and>
     readEvents_pass (sample_pass [create_event 1 ''kubelet.sock'' 4]) w = Ok ((w', [i], k), True) \<and>
     select_event (loop_event i) waiting_service = Running s' \<and> restart s'"
proof -
  obtain w where w: "watcher_Add (\<lambda>_ _. Inr 1) DevicePluginPath sample_watcher = Ok w" "w_poller w = w_poller sample_watcher"
    by (simp add: watcher_Add_def sample_watcher_def isClosed_def Let_def)
  let ?kp = "sample_pass [create_event 1 ''kubelet.sock'' 4]"
  have "\<exists>w' i k s'. readEvents_pass ?kp w = Ok ((w', [i], k), True) \<and>
      select_event (loop_event i) waiting_service = Running s' \<and> restart s' \<and> serving (sworld s') = []"
    by (rule kubelet_restart_noticed [OF sample_NewWatcher w(1), where wd = 1 and pad = 4,
          OF _ _ _ _ _ sample_ready [OF w(2)] _ _ _ reaches_waiting serving_empty_world waiting_service_eq(2)])
      (simp_all add: sample_pass_def)
  with w(1) show ?thesis by blast
qed

end
